(* ===== verification/Prelude.thy ===== *)
theory Prelude
  imports Main "HOL-Library.Word"
begin

text \<open>
  Shared vocabulary of the development: the machine types of the C sources, the
  outcome type of code that may abort or leave its buffers, C strings and the
  character classes of the C locale, and the list and word lemmas the component
  theories share.
\<close>

unbundle bit_operations_syntax

named_theorems byte_eval \<open>unfolding rules that evaluate byte literals\<close>
named_theorems res_simps \<open>computation rules of fallible code\<close>

section \<open>Machine types\<close>

type_synonym byte = "8 word"
type_synonym bytes = "8 word list"
type_synonym u16 = "16 word"
type_synonym u32 = "32 word"
type_synonym u64 = "64 word"

text \<open>What a C \<open>int\<close> (32 bits, two's complement, \<open>-fwrapv\<close>) holds of a mathematical integer.\<close>

definition c_int :: "int \<Rightarrow> int" where
  "c_int x = sint (word_of_int x :: 32 word)"

text \<open>The difference of two \<open>size_t\<close> values stored in a \<open>ssize_t\<close>.\<close>

definition c_ssize_diff :: "nat \<Rightarrow> nat \<Rightarrow> int" where
  "c_ssize_diff a b = sint (word_of_int (int a - int b) :: 64 word)"

lemma c_int_id: "- (2 ^ 31) \<le> x \<Longrightarrow> x < 2 ^ 31 \<Longrightarrow> c_int x = x"
  unfolding c_int_def sint_sbintrunc'
  by (rule signed_take_bit_int_eq_self) auto

lemma c_ssize_diff_id:
  "a < 2 ^ 31 \<Longrightarrow> b < 2 ^ 31 \<Longrightarrow> c_ssize_diff a b = int a - int b"
  unfolding c_ssize_diff_def sint_sbintrunc'
  by (rule signed_take_bit_int_eq_self) auto

lemma byte_lt [simp]: "unat (c :: byte) < 256" "uint (c :: byte) < 256"
  using unsigned_less[of c, where 'a = nat] unsigned_less[of c, where 'a = int] by simp_all

lemma byte_ge [simp]: "0 \<le> uint (c :: byte)"
  by simp

lemma unat_ucast_byte [simp]: "unat (ucast (c :: byte) :: u32) = unat c"
proof -
  have "unat c < 2 ^ 32" by (rule less_trans[OF byte_lt(1)]) simp
  then show ?thesis by (simp add: unsigned_ucast_eq take_bit_nat_eq_self)
qed

section \<open>Outcomes of fallible code\<close>

text \<open>
  A C function either returns or stops the program: a failed \<open>assert\<close>, a call of
  \<open>abort\<close>, or an access the C standard leaves undefined (outside an array, through
  a null pointer, to a value nobody wrote).  \<open>Inl\<close> carries the fault.  \<open>Blocked\<close> is the
  outcome of a call that is still waiting for an answer of the environment, \<open>Out_of_fuel\<close>
  that of a search whose bound on the number of steps is used up.
\<close>

datatype fault = Assert_failed | Aborted | Out_of_bounds | Null_deref | Uninitialised | Blocked | Out_of_fuel

type_synonym 'a res = "fault + 'a"

definition rbind :: "'a res \<Rightarrow> ('a \<Rightarrow> 'b res) \<Rightarrow> 'b res" where
  "rbind m f = (case m of Inl e \<Rightarrow> Inl e | Inr x \<Rightarrow> f x)"

definition rassert :: "bool \<Rightarrow> 'a res \<Rightarrow> 'a res" where
  "rassert b k = (if b then k else Inl Assert_failed)"

lemma rbind_simps [simp, res_simps]:
  "rbind (Inl e) f = Inl e"
  "rbind (Inr x) f = f x"
  by (simp_all add: rbind_def)

lemma rassert_simps [simp, res_simps]:
  "rassert True k = k"
  "rassert False k = Inl Assert_failed"
  by (simp_all add: rassert_def)

lemma rbind_Inr_iff: "rbind m f = Inr y \<longleftrightarrow> (\<exists>x. m = Inr x \<and> f x = Inr y)"
  by (cases m) auto

lemma rassert_Inr_iff: "rassert b k = Inr y \<longleftrightarrow> b \<and> k = Inr y"
  by (cases b) auto

section \<open>Characters and C strings\<close>

abbreviation (input) LF :: byte where "LF \<equiv> 10"
abbreviation (input) CR :: byte where "CR \<equiv> 13"
abbreviation (input) SP :: byte where "SP \<equiv> 32"
abbreviation (input) COLON :: byte where "COLON \<equiv> 58"
abbreviation (input) SLASH :: byte where "SLASH \<equiv> 47"
abbreviation (input) DOT :: byte where "DOT \<equiv> 46"
abbreviation (input) PERCENT :: byte where "PERCENT \<equiv> 37"
abbreviation (input) BACKSLASH :: byte where "BACKSLASH \<equiv> 92"
abbreviation (input) QUESTION :: byte where "QUESTION \<equiv> 63"

text \<open>The bytes of a string literal, without its terminating NUL.\<close>

definition str :: "string \<Rightarrow> bytes" where
  "str = map of_char"

lemma str_simps [simp, byte_eval]:
  "str [] = []"
  "str (c # cs) = of_char c # str cs"
  by (simp_all add: str_def)

lemma length_str [simp]: "length (str s) = length s"
  by (simp add: str_def)

text \<open>What the string functions see of a buffer: the bytes before the first NUL.\<close>

definition cstr :: "bytes \<Rightarrow> bytes" where
  "cstr = takeWhile (\<lambda>c. c \<noteq> 0)"

lemma cstr_simps [simp]:
  "cstr [] = []"
  "cstr (c # cs) = (if c = 0 then [] else c # cstr cs)"
  by (simp_all add: cstr_def)

lemma cstr_nul_free [simp]: "0 \<notin> set (cstr xs)"
  unfolding cstr_def by (metis (mono_tags) set_takeWhileD)

lemma cstr_id: "0 \<notin> set xs \<Longrightarrow> cstr xs = xs"
  by (induction xs) auto

lemma cstr_append_nul: "0 \<notin> set xs \<Longrightarrow> cstr (xs @ 0 # ys) = xs"
  by (induction xs) auto

text \<open>\<open>tolower\<close> and \<open>isdigit\<close> of the C locale.\<close>

definition tolower :: "byte \<Rightarrow> byte" where
  "tolower c = (if 65 \<le> c \<and> c \<le> 90 then c + 32 else c)"

definition isdigit :: "byte \<Rightarrow> bool" where
  "isdigit c \<longleftrightarrow> 48 \<le> c \<and> c \<le> 57"

section \<open>Lists\<close>

text \<open>A vector inside a buffer, given by its offset and length.\<close>

definition subvec :: "'a list \<Rightarrow> nat \<times> nat \<Rightarrow> 'a list" where
  "subvec buf v = take (snd v) (drop (fst v) buf)"

lemma length_subvec: "fst v + snd v \<le> length buf \<Longrightarrow> length (subvec buf v) = snd v"
  by (simp add: subvec_def)

lemma length_subvec_le [simp]: "length (subvec buf v) \<le> length buf"
  by (simp add: subvec_def)

lemma subvec_append: "subvec (xs @ ys @ zs) (length xs, length ys) = ys"
  by (simp add: subvec_def)

lemma drop_eq_Cons_nth: "drop n xs = y # ys \<Longrightarrow> xs ! n = y"
  by (metis nth_via_drop)

lemma take_Suc_snoc: "n < length xs \<Longrightarrow> take (Suc n) xs = take n xs @ [xs ! n]"
  by (rule take_Suc_conv_app_nth)

end
