(* ===== verification/Search.thy ===== *)
theory Search
  imports Prelude
begin

text \<open>
  The binary search that \<^verbatim>\<open>dispatch_hdr\<close> (\<^verbatim>\<open>http_parse.c\<close>) and \<^verbatim>\<open>trie_query\<close>
  (\<^verbatim>\<open>webroot.c\<close>) both spell out, over the sign a comparison gives for each entry of a
  table, and the interface under which it is complete: the signs fall along the table.
\<close>

function bsearch :: "('l \<Rightarrow> int) \<Rightarrow> 'l list \<Rightarrow> nat \<Rightarrow> nat option" where
  "bsearch f d n =
     (if n = 0 then None
      else let i = n div 2 in
        if f (d ! i) < 0 then bsearch f d i
        else if f (d ! i) > 0
        then map_option (\<lambda>j. i + 1 + j) (bsearch f (drop (i + 1) d) (n - (i + 1)))
        else Some i)"
  by pat_completeness auto
termination
  by (relation "measure (\<lambda>(f, d, n). n)") auto

declare bsearch.simps [simp del]

text \<open>The signs fall: once an entry is not above the key, every later one is below it.\<close>

definition falling :: "('l \<Rightarrow> int) \<Rightarrow> 'l list \<Rightarrow> bool" where
  "falling f d \<longleftrightarrow> (\<forall>i j. i < j \<and> j < length d \<and> f (d ! i) \<le> 0 \<longrightarrow> f (d ! j) < 0)"

lemma falling_drop: "falling f d \<Longrightarrow> falling f (drop n d)"
  unfolding falling_def
proof (intro allI impI)
  fix i j
  assume all: "\<forall>i j. i < j \<and> j < length d \<and> f (d ! i) \<le> 0 \<longrightarrow> f (d ! j) < 0"
    and ij: "i < j \<and> j < length (drop n d) \<and> f (drop n d ! i) \<le> 0"
  have n: "n \<le> length d" using ij by (cases "n \<le> length d") auto
  from n ij have "n + i < n + j \<and> n + j < length d \<and> f (d ! (n + i)) \<le> 0"
    by (auto simp: nth_drop)
  then have "f (d ! (n + j)) < 0" using all by blast
  then show "f (drop n d ! j) < 0" using n by (simp add: nth_drop)
qed

lemma falling_take: "falling f d \<Longrightarrow> falling f (take n d)"
  unfolding falling_def by (auto simp: nth_take)

lemma bsearch_sound: "bsearch f d n = Some j \<Longrightarrow> j < n \<and> f (d ! j) = 0 \<or> length d < n"
proof (induction f d n arbitrary: j rule: bsearch.induct)
  case (1 f d n)
  show ?case
  proof (cases "n = 0")
    case True
    then show ?thesis using "1.prems" by (simp add: bsearch.simps)
  next
    case False
    let ?i = "n div 2"
    consider (lt) "f (d ! ?i) < 0" | (gt) "f (d ! ?i) > 0" | (eq) "f (d ! ?i) = 0"
      by linarith
    then show ?thesis
    proof cases
      case lt
      then show ?thesis
        using "1.IH"(1)[OF False refl lt, of j] "1.prems" False
        by (simp add: bsearch.simps [of f d n] Let_def) linarith
    next
      case gt
      then obtain j' where j': "bsearch f (drop (?i + 1) d) (n - (?i + 1)) = Some j'"
        and j: "j = ?i + 1 + j'"
        using "1.prems" False by (auto simp: bsearch.simps [of f d n] Let_def)
      have "j' < n - (?i + 1) \<and> f (drop (?i + 1) d ! j') = 0 \<or> length (drop (?i + 1) d) < n - (?i + 1)"
        using "1.IH"(2)[OF False refl _ gt j'] gt by simp
      then show ?thesis using j by (cases "n \<le> length d") auto
    next
      case eq
      then show ?thesis using "1.prems" False
        by (auto simp: bsearch.simps [of f d n] Let_def)
    qed
  qed
qed

lemma bsearch_complete:
  "falling f d \<Longrightarrow> n \<le> length d \<Longrightarrow> j < n \<Longrightarrow> f (d ! j) = 0 \<Longrightarrow> bsearch f d n = Some j"
proof (induction f d n arbitrary: j rule: bsearch.induct)
  case (1 f d n)
  let ?i = "n div 2"
  have n: "n \<noteq> 0" and i: "?i < n" using "1.prems"(3) by auto
  have mono: "\<And>a b. a < b \<Longrightarrow> b < length d \<Longrightarrow> f (d ! a) \<le> 0 \<Longrightarrow> f (d ! b) < 0"
    using "1.prems"(1) unfolding falling_def by blast
  consider (lt) "j < ?i" | (eq) "j = ?i" | (gt) "?i < j" by linarith
  then show ?case
  proof cases
    case lt
    then have neg: "f (d ! ?i) < 0"
      using mono[of j ?i] "1.prems"(2,4) i by simp
    then show ?thesis
      using "1.IH"(1)[OF n refl neg "1.prems"(1) _ lt] "1.prems"(2,4) i n
      by (simp add: bsearch.simps [of f d n] Let_def)
  next
    case eq
    then show ?thesis using "1.prems"(4) n by (simp add: bsearch.simps [of f d n] Let_def)
  next
    case gt
    have pos: "f (d ! ?i) > 0"
    proof (rule ccontr)
      assume "\<not> f (d ! ?i) > 0"
      then have "f (d ! j) < 0" using mono[OF gt] "1.prems"(2,3) by simp
      then show False using "1.prems"(4) by simp
    qed
    have "bsearch f (drop (?i + 1) d) (n - (?i + 1)) = Some (j - (?i + 1))"
    proof (rule "1.IH"(2)[OF n refl _ pos])
      show "\<not> f (d ! ?i) < 0" using pos by simp
      show "falling f (drop (?i + 1) d)" using "1.prems"(1) by (rule falling_drop)
      show "n - (?i + 1) \<le> length (drop (?i + 1) d)" using "1.prems"(2) by simp
      show "j - (?i + 1) < n - (?i + 1)" using gt "1.prems"(3) by simp
      have "j < length d" using "1.prems"(2,3) by simp
      then show "f (drop (?i + 1) d ! (j - (?i + 1))) = 0" using gt "1.prems"(4) by simp
    qed
    then show ?thesis using pos n gt by (simp add: bsearch.simps [of f d n] Let_def)
  qed
qed

lemma bsearch_iff:
  assumes "falling f d" "n \<le> length d"
  shows "bsearch f d n = Some j \<longleftrightarrow> j < n \<and> f (d ! j) = 0"
  using bsearch_complete[OF assms] bsearch_sound[of f d n j] assms(2) by auto

text \<open>
  The interface of a comparison: its sign is that of the ranks of its arguments.  A table
  sorted by rank then has falling signs for every key.
\<close>

locale rank_compare =
  fixes cmp :: "'k \<Rightarrow> 'l \<Rightarrow> int"
    and krank :: "'k \<Rightarrow> 'o::linorder"
    and lrank :: "'l \<Rightarrow> 'o"
    and ok :: "'k \<Rightarrow> bool"
    and lok :: "'l \<Rightarrow> bool"
  assumes cmp_neg: "ok k \<Longrightarrow> lok l \<Longrightarrow> cmp k l < 0 \<longleftrightarrow> krank k < lrank l"
    and cmp_zero: "ok k \<Longrightarrow> lok l \<Longrightarrow> cmp k l = 0 \<longleftrightarrow> krank k = lrank l"
begin

lemma cmp_pos: "ok k \<Longrightarrow> lok l \<Longrightarrow> cmp k l > 0 \<longleftrightarrow> lrank l < krank k"
  using cmp_neg[of k l] cmp_zero[of k l] by (metis linorder_neqE_linordered_idom not_less_iff_gr_or_eq)

lemma sorted_falling:
  assumes k: "ok k" and l: "list_all lok ls" and s: "sorted_wrt (<) (map lrank ls)"
  shows "falling (cmp k) ls"
  unfolding falling_def
proof (intro allI impI)
  fix i j
  assume a: "i < j \<and> j < length ls \<and> cmp k (ls ! i) \<le> 0"
  then have lt: "lrank (ls ! i) < lrank (ls ! j)"
    using s by (simp add: sorted_wrt_iff_nth_less)
  have ok: "lok (ls ! i)" "lok (ls ! j)"
    using l a by (auto simp: list_all_length)
  have "krank k \<le> lrank (ls ! i)"
    using a cmp_pos[OF k ok(1)] by (meson not_less)
  then show "cmp k (ls ! j) < 0"
    using lt cmp_neg[OF k ok(2)] by simp
qed

lemma bsearch_rank:
  assumes "ok k" "list_all lok ls" "sorted_wrt (<) (map lrank ls)"
  shows "bsearch (cmp k) ls (length ls) = Some j \<longleftrightarrow> j < length ls \<and> lrank (ls ! j) = krank k"
proof -
  have "j < length ls \<Longrightarrow> lok (ls ! j)" using assms(2) by (auto simp: list_all_length)
  then show ?thesis
    using bsearch_iff[OF sorted_falling[OF assms] order_refl] cmp_zero[OF assms(1)] by auto
qed

end

end
