(* ===== verification/Vec.thy ===== *)
theory Vec
  imports Search "HOL-Library.List_Lexorder" "HOL-Library.Product_Lexorder"
begin

text \<open>
  The byte vectors of \<^verbatim>\<open>vec.c\<close>.  A \<open>struct ro_vec\<close> is the list of bytes it points to;
  where the sources test the pointer itself the vector is an \<open>option\<close>, with \<open>None\<close>
  for the null pointer.  The comparison functions compute the result in a \<open>ssize_t\<close>
  or an \<open>int\<close> and return an \<open>int\<close>, so the conversions are kept.
\<close>

type_synonym ro_vec = "bytes option"

definition v_len :: "ro_vec \<Rightarrow> nat" where
  "v_len v = (case v of None \<Rightarrow> 0 | Some b \<Rightarrow> length b)"

definition v_bytes :: "ro_vec \<Rightarrow> bytes" where
  "v_bytes v = (case v of None \<Rightarrow> [] | Some b \<Rightarrow> b)"

section \<open>Numbers\<close>

fun vtouint_loop :: "bytes \<Rightarrow> nat \<Rightarrow> u32 \<Rightarrow> nat \<times> u32" where
  "vtouint_loop [] n u = (n, u)"
| "vtouint_loop (c # cs) n u =
     (let digit = (ucast c - 48 :: u32)
      in if 10 \<le> digit then (n, u)
         else vtouint_loop cs (Suc n) (u * 10 + digit))"

definition vtouint :: "bytes \<Rightarrow> nat \<times> u32" where
  "vtouint v = vtouint_loop v 0 0"

section \<open>Comparisons\<close>

text \<open>The loop shared by the two fast comparisons, run on vectors of one length.\<close>

fun diff_loop :: "(byte \<Rightarrow> byte) \<Rightarrow> bytes \<Rightarrow> bytes \<Rightarrow> int" where
  "diff_loop f (x # xs) (y # ys) =
     (let ret = uint (f x) - uint (f y) in if ret \<noteq> 0 then ret else diff_loop f xs ys)"
| "diff_loop f _ _ = 0"

definition vcasecmp_fast :: "bytes \<Rightarrow> bytes \<Rightarrow> int" where
  "vcasecmp_fast v1 v2 =
     (let ret = c_ssize_diff (length v1) (length v2)
      in c_int (if ret = 0 then diff_loop tolower v1 v2 else ret))"

definition vcmp_fast :: "bytes \<Rightarrow> bytes \<Rightarrow> int" where
  "vcmp_fast v1 v2 =
     (let ret = c_ssize_diff (length v1) (length v2)
      in c_int (if ret = 0 then diff_loop id v1 v2 else ret))"

definition vstrcmp_fast :: "bytes \<Rightarrow> bytes \<Rightarrow> int" where
  "vstrcmp_fast v1 s = vcasecmp_fast v1 (cstr s)"

text \<open>
  The slow comparisons: the loop runs over the shorter length and returns at the first
  difference; the outer \<open>ret\<close>, the difference of the lengths as an \<open>int\<close>, is
  returned when there is none.
\<close>

fun prefix_loop :: "(byte \<Rightarrow> byte) \<Rightarrow> int \<Rightarrow> bytes \<Rightarrow> bytes \<Rightarrow> int" where
  "prefix_loop f ret (x # xs) (y # ys) =
     (let r = uint (f x) - uint (f y) in if r \<noteq> 0 then r else prefix_loop f ret xs ys)"
| "prefix_loop f ret _ _ = ret"

definition vcasecmp :: "bytes \<Rightarrow> bytes \<Rightarrow> int" where
  "vcasecmp v1 v2 = prefix_loop tolower (c_int (int (length v1) - int (length v2))) v1 v2"

definition vcmp :: "bytes \<Rightarrow> bytes \<Rightarrow> int" where
  "vcmp v1 v2 = prefix_loop id (c_int (int (length v1) - int (length v2))) v1 v2"

definition vstrcmp :: "bytes \<Rightarrow> bytes \<Rightarrow> int" where
  "vstrcmp v1 s = vcasecmp v1 (cstr s)"

section \<open>What the number parser computes\<close>

text \<open>The value of a digit string, as a mathematical number.\<close>

definition dec_value :: "bytes \<Rightarrow> nat" where
  "dec_value ds = foldl (\<lambda>a c. 10 * a + (unat c - 48)) 0 ds"

lemma digit_range: "10 \<le> (ucast c - 48 :: u32) \<longleftrightarrow> \<not> isdigit c" for c :: byte
proof -
  have c: "unat c < 256" by simp
  have "10 \<le> (ucast c - 48 :: u32) \<longleftrightarrow> unat c < 48 \<or> 57 < unat c"
    unfolding word_le_nat_alt unat_sub_if' unat_ucast_byte using c by auto
  then show ?thesis by (auto simp: isdigit_def word_le_nat_alt)
qed

lemma digit_value: "isdigit c \<Longrightarrow> (ucast c - 48 :: u32) = of_nat (unat c - 48)" for c :: byte
proof -
  assume "isdigit c"
  then have "48 \<le> unat c" by (simp add: isdigit_def word_le_nat_alt)
  then have "(of_nat (unat c - 48) :: u32) = of_nat (unat c) - of_nat 48" by (rule of_nat_diff)
  then show ?thesis by simp
qed

lemma vtouint_loop_eq:
  "vtouint_loop v n (of_nat a) =
     (n + length (takeWhile isdigit v),
      of_nat (foldl (\<lambda>a c. 10 * a + (unat c - 48)) a (takeWhile isdigit v)))"
proof (induction v arbitrary: n a)
  case (Cons c cs)
  show ?case
  proof (cases "isdigit c")
    case True
    have "(of_nat a * 10 + (ucast c - 48) :: u32) = of_nat (10 * a + (unat c - 48))"
      by (simp add: digit_value[OF True])
    moreover have "\<not> 10 \<le> (ucast c - 48 :: u32)" using True by (simp add: digit_range)
    ultimately show ?thesis using True Cons.IH[of "Suc n" "10 * a + (unat c - 48)"]
      by (simp only: vtouint_loop.simps Let_def takeWhile.simps if_True if_False foldl_Cons) simp
  qed (simp add: digit_range)
qed simp

lemma vtouint_eq:
  "vtouint v = (length (takeWhile isdigit v), of_nat (dec_value (takeWhile isdigit v)))"
  using vtouint_loop_eq[of v 0 0] by (simp add: vtouint_def dec_value_def)

section \<open>The order of the comparisons\<close>

lemma diff_loop_range: "\<bar>diff_loop f xs ys\<bar> < 256"
proof (induction f xs ys rule: diff_loop.induct)
  case (1 f x xs y ys)
  have "\<bar>uint (f x) - uint (f y)\<bar> < 256"
    using byte_lt(2)[of "f x"] byte_lt(2)[of "f y"] byte_ge[of "f x"] byte_ge[of "f y"] by arith
  then show ?case using 1 by (auto simp: Let_def)
qed auto

lemma diff_loop_sign:
  "length xs = length ys \<Longrightarrow>
     (diff_loop f xs ys < 0 \<longleftrightarrow> map f xs < map f ys) \<and>
     (diff_loop f xs ys = 0 \<longleftrightarrow> map f xs = map f ys)"
  by (induction f xs ys rule: diff_loop.induct)
     (auto simp: Let_def word_less_def word_uint_eq_iff)

text \<open>The fast comparisons order by length first, then bytewise.\<close>

definition lex_rank :: "(byte \<Rightarrow> byte) \<Rightarrow> bytes \<Rightarrow> nat \<times> bytes" where
  "lex_rank f v = (length v, map f v)"

definition short :: "bytes \<Rightarrow> bool" where
  "short v \<longleftrightarrow> length v < 2 ^ 31"

lemma vcasecmp_fast_eq:
  assumes "short v1" "short v2"
  shows "vcasecmp_fast v1 v2 =
    (if length v1 = length v2 then diff_loop tolower v1 v2 else int (length v1) - int (length v2))"
  using assms diff_loop_range[of tolower v1 v2]
  by (auto simp: vcasecmp_fast_def short_def c_ssize_diff_id Let_def intro!: c_int_id)

interpretation fastcmp: rank_compare vcasecmp_fast "lex_rank tolower" "lex_rank tolower" short short
proof
  fix k l assume "short k" "short l"
  then show "vcasecmp_fast k l < 0 \<longleftrightarrow> lex_rank tolower k < lex_rank tolower l"
    and "vcasecmp_fast k l = 0 \<longleftrightarrow> lex_rank tolower k = lex_rank tolower l"
    using diff_loop_sign[of k l tolower]
    by (auto simp: vcasecmp_fast_eq lex_rank_def less_prod_def' dest: map_eq_imp_length_eq)
qed

text \<open>The slow comparisons order bytewise, a proper prefix first.\<close>

lemma prefix_loop_sign:
  assumes "ret < 0 \<longleftrightarrow> length xs < length ys" "ret = 0 \<longleftrightarrow> length xs = length ys"
  shows "(prefix_loop f ret xs ys < 0 \<longleftrightarrow> map f xs < map f ys) \<and>
         (prefix_loop f ret xs ys = 0 \<longleftrightarrow> map f xs = map f ys)"
  using assms
  by (induction f ret xs ys rule: prefix_loop.induct)
     (auto simp: Let_def word_less_def word_uint_eq_iff neq_Nil_conv)

lemma length_diff_sign:
  assumes "short v1" "short v2"
  shows "c_int (int (length v1) - int (length v2)) = int (length v1) - int (length v2)"
  using assms by (intro c_int_id) (auto simp: short_def)

interpretation slowcmp: rank_compare vcasecmp "map tolower" "map tolower" short short
proof
  fix k l assume "short k" "short l"
  then show "vcasecmp k l < 0 \<longleftrightarrow> map tolower k < map tolower l"
    and "vcasecmp k l = 0 \<longleftrightarrow> map tolower k = map tolower l"
    using prefix_loop_sign[of "c_int (int (length k) - int (length l))" k l tolower]
    by (auto simp: vcasecmp_def length_diff_sign)
qed

interpretation vcmp_order: rank_compare vcmp id id short short
proof
  fix k l assume "short k" "short l"
  then show "vcmp k l < 0 \<longleftrightarrow> id k < id l" and "vcmp k l = 0 \<longleftrightarrow> id k = id l"
    using prefix_loop_sign[of "c_int (int (length k) - int (length l))" k l id]
    by (auto simp: vcmp_def length_diff_sign)
qed

end
