(* ===== verification/HttpParse.thy ===== *)
theory HttpParse
  imports Vec
begin

text \<open>
  The protocol layer both programs share: the incremental end-of-header scanner of
  \<^verbatim>\<open>include/http-parse.h\<close>, and the header decoder of \<^verbatim>\<open>http_parse.c\<close> with its decode
  control blocks and its binary search over header names.
\<close>

section \<open>The incremental scanner\<close>

datatype rstate =
    RSTATE_INITIAL | RSTATE_CR | RSTATE_LF | RSTATE_CRLF | RSTATE_LFCR | RSTATE_CRLFCR
  | RSTATE_LFLF | RSTATE_CRLFLF | RSTATE_LFCRLF | RSTATE_CRLFCRLF

text \<open>
  The two transition tables have an entry for each non-terminal state; the code asserts
  that it never indexes them with a terminal one.
\<close>

fun cr_map :: "rstate \<Rightarrow> rstate option" where
  "cr_map RSTATE_INITIAL = Some RSTATE_CR"
| "cr_map RSTATE_CR = Some RSTATE_CR"
| "cr_map RSTATE_LF = Some RSTATE_LFCR"
| "cr_map RSTATE_CRLF = Some RSTATE_CRLFCR"
| "cr_map RSTATE_LFCR = Some RSTATE_CR"
| "cr_map RSTATE_CRLFCR = Some RSTATE_CR"
| "cr_map _ = None"

fun lf_map :: "rstate \<Rightarrow> rstate option" where
  "lf_map RSTATE_INITIAL = Some RSTATE_LF"
| "lf_map RSTATE_CR = Some RSTATE_CRLF"
| "lf_map RSTATE_LF = Some RSTATE_LFLF"
| "lf_map RSTATE_CRLF = Some RSTATE_CRLFLF"
| "lf_map RSTATE_LFCR = Some RSTATE_LFCRLF"
| "lf_map RSTATE_CRLFCR = Some RSTATE_CRLFCRLF"
| "lf_map _ = None"

definition rstate_terminal :: "rstate \<Rightarrow> bool" where
  "rstate_terminal s \<longleftrightarrow> s \<in> {RSTATE_LFLF, RSTATE_CRLFLF, RSTATE_LFCRLF, RSTATE_CRLFCRLF}"

text \<open>
  The scanner runs over the bytes between \<open>*rptr\<close> and \<open>end\<close>.  It gives the new state, how
  far \<open>*rptr\<close> moved, and the return value; on success \<open>*rptr\<close> is left on the last byte of
  the terminator, not behind it.
\<close>

fun http_parse_incremental :: "rstate \<Rightarrow> bytes \<Rightarrow> (rstate \<times> nat \<times> bool) res" where
  "http_parse_incremental state [] = Inr (state, 0, False)"
| "http_parse_incremental state (c # cs) =
     (let continue = (\<lambda>s. rbind (http_parse_incremental s cs) (\<lambda>(s', n, r). Inr (s', Suc n, r)));
          checked = (\<lambda>m. case m of None \<Rightarrow> Inl Assert_failed
                       | Some s \<Rightarrow> if rstate_terminal s then Inr (s, 0, True) else continue s)
      in if c = CR then checked (cr_map state)
         else if c = LF then checked (lf_map state)
         else continue RSTATE_INITIAL)"

section \<open>Decode control blocks\<close>

text \<open>
  A control block pairs a header label with a callback that writes through the pointer the
  block carries.  The memory these pointers reach is a store of type \<open>'st\<close>, and the
  pointer is the function that updates one cell of it.
\<close>

type_synonym 'st hcb = "bytes \<times> (bytes \<Rightarrow> 'st \<Rightarrow> 'st)"

definition HTTP_VER_UNKNOWN :: byte where "HTTP_VER_UNKNOWN = 255"

definition http_proto_version :: "ro_vec \<Rightarrow> byte" where
  "http_proto_version v =
     (if v_len v \<noteq> 8 then HTTP_VER_UNKNOWN
      else case v of None \<Rightarrow> HTTP_VER_UNKNOWN
      | Some s \<Rightarrow>
          if take 5 s \<noteq> str ''HTTP/'' then HTTP_VER_UNKNOWN
          else if s ! 6 \<noteq> DOT then HTTP_VER_UNKNOWN
          else if \<not> isdigit (s ! 5) \<or> \<not> isdigit (s ! 7) then HTTP_VER_UNKNOWN
          else let maj = s ! 5 - 48; minor = s ! 7 - 48
               in if maj > 9 then HTTP_VER_UNKNOWN
                  else if minor > 9 then HTTP_VER_UNKNOWN
                  else push_bit 4 minor OR maj)"

definition htype_string :: "(ro_vec \<Rightarrow> 'st \<Rightarrow> 'st) option \<Rightarrow> bytes \<Rightarrow> 'st \<Rightarrow> 'st" where
  "htype_string target v st = (case target of None \<Rightarrow> st | Some write \<Rightarrow> write (Some v) st)"

definition htype_present :: "(int \<Rightarrow> 'st \<Rightarrow> 'st) \<Rightarrow> bytes \<Rightarrow> 'st \<Rightarrow> 'st" where
  "htype_present write v st = write 1 st"

definition INT_MAX :: u32 where "INT_MAX = 2147483647"

definition htype_int :: "(int \<Rightarrow> 'st \<Rightarrow> 'st) \<Rightarrow> bytes \<Rightarrow> 'st \<Rightarrow> 'st" where
  "htype_int write v st =
     (let (len, val) = vtouint v
      in if len = 0 \<or> val > INT_MAX then write (-1) st else write (uint val) st)"

definition htype_code :: "(u16 \<Rightarrow> 'st \<Rightarrow> 'st) \<Rightarrow> bytes \<Rightarrow> 'st \<Rightarrow> 'st" where
  "htype_code write v st =
     (let (len, val) = vtouint v
      in if len \<noteq> 3 \<or> val > 999 then write 0xffff st else write (ucast val) st)"

text \<open>The binary search for a header name; \<open>d\<close> is the table from the current base on.\<close>

function dispatch_hdr_loop :: "'st hcb list \<Rightarrow> nat \<Rightarrow> bytes \<Rightarrow> bytes \<Rightarrow> 'st \<Rightarrow> 'st" where
  "dispatch_hdr_loop d n k v st =
     (if n = 0 then st
      else let i = n div 2; ret = vstrcmp_fast k (fst (d ! i)) in
        if ret < 0 then dispatch_hdr_loop d i k v st
        else if ret > 0 then dispatch_hdr_loop (drop (i + 1) d) (n - (i + 1)) k v st
        else snd (d ! i) v st)"
  by pat_completeness auto
termination
  by (relation "measure (\<lambda>(d, n, k, v, st). n)") auto

declare dispatch_hdr_loop.simps [simp del]

definition dispatch_hdr :: "'st hcb list \<Rightarrow> bytes \<Rightarrow> bytes \<Rightarrow> 'st \<Rightarrow> 'st" where
  "dispatch_hdr dcb k v st = dispatch_hdr_loop dcb (length dcb) k v st"

lemma dispatch_hdr_loop_simps:
  "dispatch_hdr_loop d 0 k v st = st"
  "0 < n \<Longrightarrow> dispatch_hdr_loop d n k v st =
     (if vstrcmp_fast k (fst (d ! (n div 2))) < 0 then dispatch_hdr_loop d (n div 2) k v st
      else if vstrcmp_fast k (fst (d ! (n div 2))) > 0
      then dispatch_hdr_loop (drop (n div 2 + 1) d) (n - (n div 2 + 1)) k v st
      else snd (d ! (n div 2)) v st)"
  by (simp_all add: dispatch_hdr_loop.simps [of d] Let_def)

section \<open>The decoder\<close>

text \<open>
  Vectors are offsets and lengths into the buffer \<open>p .. end\<close>.  \<open>d_hv\<close> holds the three words
  of the first line, \<open>d_i\<close> the index of the current one, \<open>d_k\<close> and \<open>d_v\<close> the current
  header, \<open>d_ret\<close> the bytes consumed, \<open>d_store\<close> what the callbacks have written.
\<close>

datatype decode_label = State0 | State1 | State2 | State3 | State4

record 'st decoder =
  d_state :: decode_label
  d_i :: nat
  d_hv :: "(nat \<times> nat) list"
  d_k :: "nat \<times> nat"
  d_v :: "nat \<times> nat"
  d_ret :: nat
  d_store :: 'st

text \<open>The length of a word that ends before \<open>cur\<close>, less one for a carriage return.\<close>

definition chomp_len :: "bytes \<Rightarrow> nat \<Rightarrow> nat \<Rightarrow> nat" where
  "chomp_len buf start cur =
     (let len = cur - start
      in if len \<noteq> 0 \<and> buf ! (cur - 1) = CR then len - 1 else len)"

text \<open>One iteration of the loop at \<open>cur\<close>; the flag says that it set \<open>cur = end\<close>.\<close>

definition decode_step :: "'st hcb list \<Rightarrow> bytes \<Rightarrow> nat \<Rightarrow> 'st decoder \<Rightarrow> 'st decoder \<times> bool" where
  "decode_step d buf cur s =
     (let c = buf ! cur; i = d_i s in
      case d_state s of
        State0 \<Rightarrow>
          (if c \<noteq> SP then (s\<lparr>d_state := State1, d_hv := (d_hv s)[i := (cur, 0)]\<rparr>, False)
           else (s, False))
      | State1 \<Rightarrow>
          (if c = SP then
             (if i < 2 then
                (s\<lparr>d_hv := (d_hv s)[i := (fst (d_hv s ! i), cur - fst (d_hv s ! i))],
                   d_state := State0, d_i := i + 1\<rparr>, False)
              else (s, False))
           else if c = LF then
             (s\<lparr>d_hv := (d_hv s)[i := (fst (d_hv s ! i), chomp_len buf (fst (d_hv s ! i)) cur)],
                d_k := (cur + 1, 0), d_state := State2, d_ret := cur + 1\<rparr>, False)
           else (s, False))
      | State2 \<Rightarrow>
          (if c = COLON then
             (s\<lparr>d_k := (fst (d_k s), cur - fst (d_k s)), d_state := State3\<rparr>, False)
           else if c = LF then (s\<lparr>d_ret := cur + 1\<rparr>, True)
           else (s, False))
      | State3 \<Rightarrow>
          (if c \<noteq> SP then (s\<lparr>d_v := (cur, 0), d_state := State4\<rparr>, False) else (s, False))
      | State4 \<Rightarrow>
          (if c = LF then
             (let v = (fst (d_v s), chomp_len buf (fst (d_v s)) cur)
              in (s\<lparr>d_v := v,
                    d_store := dispatch_hdr (drop 3 d) (subvec buf (d_k s)) (subvec buf v) (d_store s),
                    d_k := (cur + 1, 0), d_state := State2\<rparr>, False))
           else (s, False)))"

function decode_loop :: "'st hcb list \<Rightarrow> bytes \<Rightarrow> nat \<Rightarrow> 'st decoder \<Rightarrow> 'st decoder" where
  "decode_loop d buf cur s =
     (if cur < length buf
      then case decode_step d buf cur s of (s', stop) \<Rightarrow>
             if stop then s' else decode_loop d buf (cur + 1) s'
      else s)"
  by pat_completeness auto
termination
  by (relation "measure (\<lambda>(d, buf, cur, s). length buf - cur)") auto

declare decode_loop.simps [simp del]

definition decoder_init :: "'st \<Rightarrow> 'st decoder" where
  "decoder_init st =
     \<lparr>d_state = State0, d_i = 0, d_hv = [(0, 0), (0, 0), (0, 0)], d_k = (0, 0), d_v = (0, 0),
      d_ret = 0, d_store = st\<rparr>"

definition http_decode_buf :: "'st hcb list \<Rightarrow> bytes \<Rightarrow> 'st \<Rightarrow> nat \<times> 'st" where
  "http_decode_buf d buf st =
     (let s = decode_loop d buf 0 (decoder_init st);
          hv = (\<lambda>j. subvec buf (d_hv s ! j))
      in if snd (d_hv s ! 0) = 0 \<or> snd (d_hv s ! 1) = 0 then (0, d_store s)
         else (d_ret s,
               snd (d ! 2) (hv 2) (snd (d ! 1) (hv 1) (snd (d ! 0) (hv 0) (d_store s)))))"

section \<open>What the scanner recognises\<close>

text \<open>
  A header block ends with an empty line: a line feed, an optional carriage return, a line
  feed.  The state remembers the last bytes read; both are written over the reversed text.
\<close>

definition ended :: "bytes \<Rightarrow> bool" where
  "ended rs \<longleftrightarrow> take 2 rs = [LF, LF] \<or> take 3 rs = [LF, CR, LF]"

definition last_bytes :: "bytes \<Rightarrow> rstate" where
  "last_bytes rs =
     (if take 3 rs = [CR, LF, CR] then RSTATE_CRLFCR
      else if take 2 rs = [CR, LF] then RSTATE_LFCR
      else if take 1 rs = [CR] then RSTATE_CR
      else if take 2 rs = [LF, CR] then RSTATE_CRLF
      else if take 1 rs = [LF] then RSTATE_LF
      else RSTATE_INITIAL)"

fun scan_spec :: "bytes \<Rightarrow> bytes \<Rightarrow> nat option" where
  "scan_spec rs [] = None"
| "scan_spec rs (c # cs) = (if ended (c # rs) then Some 0 else map_option Suc (scan_spec (c # rs) cs))"

lemmas last_bytes_defs = last_bytes_def ended_def rstate_terminal_def

lemma last_bytes_cr: "\<not> ended rs \<Longrightarrow> cr_map (last_bytes rs) = Some (last_bytes (CR # rs))"
  by (cases rs; cases "tl rs") (auto simp: last_bytes_defs)

lemma last_bytes_lf_end:
  "\<not> ended rs \<Longrightarrow> ended (LF # rs) \<Longrightarrow> \<exists>s. lf_map (last_bytes rs) = Some s \<and> rstate_terminal s"
  by (cases rs; cases "tl rs") (auto simp: last_bytes_defs)

lemma last_bytes_lf:
  "\<not> ended rs \<Longrightarrow> \<not> ended (LF # rs) \<Longrightarrow> lf_map (last_bytes rs) = Some (last_bytes (LF # rs))"
  by (cases rs; cases "tl rs") (auto simp: last_bytes_defs)

lemma last_bytes_other: "c \<noteq> CR \<Longrightarrow> c \<noteq> LF \<Longrightarrow> last_bytes (c # rs) = RSTATE_INITIAL"
  by (simp add: last_bytes_def)

lemma ended_Cons: "ended (c # rs) \<Longrightarrow> c = LF"
  by (auto simp: ended_def)

lemma last_bytes_not_terminal: "\<not> rstate_terminal (last_bytes rs)"
  by (simp add: last_bytes_def rstate_terminal_def)

lemma http_parse_incremental_scan:
  "\<not> ended rs \<Longrightarrow>
     (case scan_spec rs cs of
        None \<Rightarrow> http_parse_incremental (last_bytes rs) cs = Inr (last_bytes (rev cs @ rs), length cs, False)
      | Some n \<Rightarrow> \<exists>s. rstate_terminal s \<and> http_parse_incremental (last_bytes rs) cs = Inr (s, n, True))"
proof (induction cs arbitrary: rs)
  case (Cons c cs)
  show ?case
  proof (cases "ended (c # rs)")
    case True
    then have c: "c = LF" by (rule ended_Cons)
    then obtain s where "lf_map (last_bytes rs) = Some s" "rstate_terminal s"
      using last_bytes_lf_end[OF Cons.prems] True by auto
    with True c show ?thesis by (auto simp: Let_def)
  next
    case False
    note IH = Cons.IH[OF False]
    consider (cr) "c = CR" | (lf) "c = LF" | (other) "c \<noteq> CR" "c \<noteq> LF" by blast
    then have "http_parse_incremental (last_bytes rs) (c # cs) =
      rbind (http_parse_incremental (last_bytes (c # rs)) cs) (\<lambda>(s', n, r). Inr (s', Suc n, r))"
    proof cases
      case cr
      then show ?thesis using last_bytes_cr[OF Cons.prems]
        by (simp add: Let_def last_bytes_not_terminal)
    next
      case lf
      then show ?thesis using last_bytes_lf[OF Cons.prems] False
        by (simp add: Let_def last_bytes_not_terminal)
    next
      case other
      then show ?thesis by (simp add: Let_def last_bytes_other)
    qed
    with IH False show ?thesis by (auto split: option.splits)
  qed
qed simp

lemma scan_spec_Some:
  "scan_spec rs cs = Some n \<longleftrightarrow>
     n < length cs \<and> ended (rev (take (Suc n) cs) @ rs) \<and> (\<forall>m<n. \<not> ended (rev (take (Suc m) cs) @ rs))"
proof (induction cs arbitrary: rs n)
  case (Cons c cs)
  show ?case
  proof (cases n)
    case 0
    then show ?thesis by simp
  next
    case (Suc k)
    have "scan_spec rs (c # cs) = Some (Suc k) \<longleftrightarrow> \<not> ended (c # rs) \<and> scan_spec (c # rs) cs = Some k"
      by auto
    also have "\<dots> \<longleftrightarrow> \<not> ended (c # rs) \<and> k < length cs \<and> ended (rev (take (Suc k) cs) @ c # rs) \<and>
        (\<forall>m<k. \<not> ended (rev (take (Suc m) cs) @ c # rs))"
      by (simp add: Cons.IH)
    finally show ?thesis using Suc by (auto simp: All_less_Suc2)
  qed
qed simp

lemma scan_spec_None: "scan_spec rs cs = None \<longleftrightarrow> (\<forall>n<length cs. \<not> ended (rev (take (Suc n) cs) @ rs))"
  by (induction cs arbitrary: rs) (auto simp: less_Suc_eq_0_disj)

lemma http_parse_incremental_append:
  "http_parse_incremental s xs = Inr (s', n, False) \<Longrightarrow>
     n = length xs \<and>
     http_parse_incremental s (xs @ ys) =
       rbind (http_parse_incremental s' ys) (\<lambda>(t, m, r). Inr (t, n + m, r))"
proof (induction xs arbitrary: s n)
  case Nil
  then show ?case by (cases "http_parse_incremental s' ys") auto
next
  case (Cons c cs)
  have step: "\<And>t. rbind (http_parse_incremental t cs) (\<lambda>(s', n, r). Inr (s', Suc n, r)) = Inr (s', n, False) \<Longrightarrow>
    n = Suc (length cs) \<and>
    rbind (http_parse_incremental t (cs @ ys)) (\<lambda>(s', n, r). Inr (s', Suc n, r)) =
       rbind (http_parse_incremental s' ys) (\<lambda>(t, m, r). Inr (t, n + m, r))"
  proof -
    fix t
    assume "rbind (http_parse_incremental t cs) (\<lambda>(s', n, r). Inr (s', Suc n, r)) = Inr (s', n, False)"
    then obtain k where k: "http_parse_incremental t cs = Inr (s', k, False)" and n: "n = Suc k"
      by (auto simp: rbind_Inr_iff)
    show "n = Suc (length cs) \<and>
      rbind (http_parse_incremental t (cs @ ys)) (\<lambda>(s', n, r). Inr (s', Suc n, r)) =
       rbind (http_parse_incremental s' ys) (\<lambda>(t, m, r). Inr (t, n + m, r))"
      using Cons.IH[OF k] n by (cases "http_parse_incremental s' ys") auto
  qed
  show ?case using Cons.prems
    by (auto simp: Let_def split: if_splits option.splits dest!: step)
qed

section \<open>Dispatch is a table lookup\<close>

lemma dispatch_hdr_loop_bsearch:
  "n \<le> length d \<Longrightarrow>
     dispatch_hdr_loop d n k v st =
       (case bsearch (\<lambda>e. vstrcmp_fast k (fst e)) d n of None \<Rightarrow> st | Some i \<Rightarrow> snd (d ! i) v st)"
proof (induction d n k v st rule: dispatch_hdr_loop.induct)
  case (1 d n k v st)
  let ?i = "n div 2"
  let ?f = "\<lambda>e. vstrcmp_fast k (fst e)"
  show ?case
  proof (cases "n = 0")
    case True
    then show ?thesis by (simp add: dispatch_hdr_loop.simps bsearch.simps)
  next
    case False
    note unf = dispatch_hdr_loop.simps [of d n] bsearch.simps [of ?f d n] Let_def
    have nth: "drop (Suc ?i) d ! j = d ! Suc (?i + j)" for j
      using "1.prems" False by (simp add: nth_drop)
    consider (lt) "?f (d ! ?i) < 0" | (gt) "?f (d ! ?i) > 0" | (eq) "?f (d ! ?i) = 0" by linarith
    then show ?thesis
    proof cases
      case lt
      then show ?thesis using "1.IH"(1)[OF False refl refl lt] "1.prems" False by (simp add: unf)
    next
      case gt
      then show ?thesis using "1.IH"(2)[OF False refl refl _ gt] "1.prems" False
        by (auto simp: unf nth split: option.splits)
    next
      case eq
      then show ?thesis using False by (simp add: unf)
    qed
  qed
qed

text \<open>The label of a control block as the comparison sees it.\<close>

definition hcb_label :: "'st hcb \<Rightarrow> bytes" where
  "hcb_label e = cstr (fst e)"

interpretation hdrcmp: rank_compare "\<lambda>k e. vstrcmp_fast k (fst e)" "lex_rank tolower"
  "\<lambda>e. lex_rank tolower (hcb_label e)" short "\<lambda>e. short (hcb_label e)"
  by unfold_locales
    (simp_all add: vstrcmp_fast_def hcb_label_def fastcmp.cmp_neg fastcmp.cmp_zero)

definition sorted_hcbs :: "'st hcb list \<Rightarrow> bool" where
  "sorted_hcbs d \<longleftrightarrow>
     list_all (\<lambda>e. short (hcb_label e)) d \<and> sorted_wrt (<) (map (\<lambda>e. lex_rank tolower (hcb_label e)) d)"

text \<open>On a table sorted by length and then by name, dispatch finds a header exactly when it has one.\<close>

lemma dispatch_hdr_find:
  assumes "sorted_hcbs d" "short k"
  shows "dispatch_hdr d k v st =
    (case find (\<lambda>e. map tolower (hcb_label e) = map tolower k) d of None \<Rightarrow> st | Some e \<Rightarrow> snd e v st)"
proof -
  let ?P = "\<lambda>e. map tolower (hcb_label e) = map tolower k"
  have rank: "lex_rank tolower (hcb_label e) = lex_rank tolower k \<longleftrightarrow> ?P e" for e :: "'a hcb"
    by (auto simp: lex_rank_def dest: map_eq_imp_length_eq)
  have b: "bsearch (\<lambda>e. vstrcmp_fast k (fst e)) d (length d) = Some j \<longleftrightarrow> j < length d \<and> ?P (d ! j)" for j
    using hdrcmp.bsearch_rank[of k d j] assms rank by (simp add: sorted_hcbs_def)
  have eq: "dispatch_hdr d k v st =
    (case bsearch (\<lambda>e. vstrcmp_fast k (fst e)) d (length d) of None \<Rightarrow> st | Some i \<Rightarrow> snd (d ! i) v st)"
    by (simp add: dispatch_hdr_def dispatch_hdr_loop_bsearch)
  show ?thesis
  proof (cases "find ?P d")
    case None
    then have "\<not> (\<exists>j. j < length d \<and> ?P (d ! j))" unfolding find_None_iff using nth_mem by blast
    then have "bsearch (\<lambda>e. vstrcmp_fast k (fst e)) d (length d) = None"
      using b by (metis not_None_eq)
    then show ?thesis using eq None by simp
  next
    case (Some e)
    then obtain j where j: "j < length d" "?P (d ! j)" "e = d ! j" by (auto simp: find_Some_iff)
    then show ?thesis using eq Some b[of j] by simp
  qed
qed

section \<open>The decoder stays inside the buffer\<close>

definition decoder_inv :: "nat \<Rightarrow> 'st decoder \<Rightarrow> bool" where
  "decoder_inv cur s \<longleftrightarrow>
     length (d_hv s) = 3 \<and> d_i s \<le> 2 \<and> (\<forall>j<3. fst (d_hv s ! j) + snd (d_hv s ! j) \<le> cur) \<and>
     fst (d_k s) + snd (d_k s) \<le> cur \<and> fst (d_v s) + snd (d_v s) \<le> cur \<and> d_ret s \<le> cur"

lemma chomp_len_le: "start \<le> cur \<Longrightarrow> start + chomp_len buf start cur \<le> cur"
  by (simp add: chomp_len_def Let_def)

lemma decode_step_inv:
  assumes "decoder_inv cur s" "decode_step d buf cur s = (s', stop)"
  shows "decoder_inv (cur + 1) s'"
proof -
  have hv: "\<And>j. j < 3 \<Longrightarrow> fst (d_hv s ! j) \<le> cur" and i: "d_i s < 3"
    using assms(1) by (fastforce simp: decoder_inv_def)+
  have k: "fst (d_k s) \<le> cur" and v: "fst (d_v s) \<le> cur" using assms(1) by (auto simp: decoder_inv_def)
  show ?thesis
    using assms hv[OF i] i chomp_len_le[OF hv[OF i], of buf] chomp_len_le[OF v, of buf] k
    by (cases "d_state s")
       (auto simp: decode_step_def decoder_inv_def Let_def nth_list_update le_SucI split: if_splits)
qed

lemma decode_loop_inv:
  "decoder_inv cur s \<Longrightarrow> cur \<le> length buf \<Longrightarrow> decoder_inv (length buf) (decode_loop d buf cur s)"
proof (induction d buf cur s rule: decode_loop.induct)
  case (1 d buf cur s)
  have mono: "decoder_inv n t \<Longrightarrow> n \<le> m \<Longrightarrow> decoder_inv m t" for n m and t :: "'a decoder"
    unfolding decoder_inv_def by (meson order_trans)
  obtain s' stop where st: "decode_step d buf cur s = (s', stop)" by (meson surj_pair)
  show ?case
  proof (cases "cur < length buf")
    case True
    have inv: "decoder_inv (cur + 1) s'" using decode_step_inv[OF "1.prems"(1) st] .
    show ?thesis
    proof (cases stop)
      case True
      then show ?thesis using inv \<open>cur < length buf\<close> mono[OF inv, of "length buf"]
        by (simp add: decode_loop.simps[of d buf cur] st)
    next
      case False
      then show ?thesis using "1.IH"[OF True st[symmetric] False inv] True
        by (simp add: decode_loop.simps[of d buf cur] st)
    qed
  next
    case False
    then have "decode_loop d buf cur s = s" by (subst decode_loop.simps) simp
    moreover have "cur = length buf" using False "1.prems"(2) by simp
    ultimately show ?thesis using "1.prems"(1) by simp
  qed
qed

lemma decoder_init_inv: "decoder_inv 0 (decoder_init st)"
  by (auto simp: decoder_inv_def decoder_init_def nth_Cons split: nat.splits)

lemma http_decode_buf_bound: "fst (http_decode_buf d buf st) \<le> length buf"
  using decode_loop_inv[OF decoder_init_inv, of buf d st]
  by (auto simp: http_decode_buf_def decoder_inv_def Let_def)

text \<open>What every dispatch keeps, the decoder keeps.\<close>

lemma decode_loop_store:
  assumes "\<And>k v st. length k \<le> length buf \<Longrightarrow> P st \<Longrightarrow> P (dispatch_hdr (drop 3 d) k v st)"
  shows "P (d_store s) \<Longrightarrow> P (d_store (decode_loop d buf cur s))"
  using assms
proof (induction d buf cur s rule: decode_loop.induct)
  case (1 d buf cur s)
  obtain s' stop where st: "decode_step d buf cur s = (s', stop)" by (meson surj_pair)
  have P: "P (d_store s')"
    using st "1.prems" by (cases "d_state s") (auto simp: decode_step_def Let_def split: if_splits)
  show ?case
  proof (cases "cur < length buf")
    case True
    then show ?thesis using "1.IH"[OF True st[symmetric] _ P "1.prems"(2)] P
      by (subst decode_loop.simps) (simp add: st)
  next
    case False
    then show ?thesis using "1.prems"(1) by (subst decode_loop.simps) simp
  qed
qed

section \<open>Decoding a printed request\<close>

text \<open>
  The wire form of a request or response head: three words, the headers, an empty line.
  Words have no spaces (the third may), lines have no line feeds, names have no colon.
\<close>

definition print_hdr :: "bytes \<times> bytes \<Rightarrow> bytes" where
  "print_hdr h = fst h @ [COLON, SP] @ snd h @ [CR, LF]"

definition print_head :: "bytes \<Rightarrow> bytes \<Rightarrow> bytes \<Rightarrow> (bytes \<times> bytes) list \<Rightarrow> bytes" where
  "print_head w0 w1 w2 hs =
     w0 @ [SP] @ w1 @ [SP] @ w2 @ [CR, LF] @ concat (map print_hdr hs) @ [CR, LF]"

definition word_ok :: "bytes \<Rightarrow> bool" where
  "word_ok w \<longleftrightarrow> w \<noteq> [] \<and> SP \<notin> set w \<and> LF \<notin> set w"

definition line_ok :: "bytes \<Rightarrow> bool" where
  "line_ok w \<longleftrightarrow> LF \<notin> set w \<and> take 1 w \<noteq> [SP]"

definition hdr_ok :: "bytes \<times> bytes \<Rightarrow> bool" where
  "hdr_ok h \<longleftrightarrow> COLON \<notin> set (fst h) \<and> LF \<notin> set (fst h) \<and> line_ok (snd h)"

text \<open>Bytes that leave the decoder as it is.\<close>

definition inert :: "'st decoder \<Rightarrow> byte \<Rightarrow> bool" where
  "inert s c \<longleftrightarrow>
     (case d_state s of State0 \<Rightarrow> c = SP | State1 \<Rightarrow> c \<noteq> LF \<and> (c = SP \<longrightarrow> 2 \<le> d_i s)
      | State2 \<Rightarrow> c \<noteq> COLON \<and> c \<noteq> LF | State3 \<Rightarrow> c = SP | State4 \<Rightarrow> c \<noteq> LF)"

lemma decode_step_inert: "inert s (buf ! cur) \<Longrightarrow> decode_step d buf cur s = (s, False)"
  by (cases "d_state s") (auto simp: inert_def decode_step_def Let_def)

lemma decode_loop_at:
  assumes "buf = pre @ c # post" "decode_step d buf (length pre) s = (s', False)"
  shows "decode_loop d buf (length pre) s = decode_loop d buf (length (pre @ [c])) s'"
  using assms by (subst decode_loop.simps) simp

lemma decode_loop_skip:
  assumes "buf = pre @ seg @ post" "\<forall>c\<in>set seg. inert s c"
  shows "decode_loop d buf (length pre) s = decode_loop d buf (length (pre @ seg)) s"
  using assms
proof (induction seg arbitrary: pre)
  case (Cons c seg)
  have "decode_loop d buf (length pre) s = decode_loop d buf (length (pre @ [c])) s"
    using Cons.prems by (intro decode_loop_at decode_step_inert) auto
  also have "\<dots> = decode_loop d buf (length ((pre @ [c]) @ seg)) s"
    using Cons.prems by (intro Cons.IH) auto
  finally show ?case by simp
qed simp

text \<open>The decoder in front of a header line, with the store so far.\<close>

definition at_header :: "nat \<Rightarrow> 'st decoder \<Rightarrow> bool" where
  "at_header pos s \<longleftrightarrow> d_state s = State2 \<and> fst (d_k s) = pos"

lemma decode_header_line:
  assumes buf: "buf = pre @ print_hdr h @ post" and s: "at_header (length pre) s" and h: "hdr_ok h"
  obtains s' where "decode_loop d buf (length pre) s = decode_loop d buf (length (pre @ print_hdr h)) s'"
    and "at_header (length (pre @ print_hdr h)) s'"
    and "d_store s' = dispatch_hdr (drop 3 d) (fst h) (snd h) (d_store s)"
    and "d_hv s' = d_hv s"
proof -
  obtain k v where kv: "h = (k, v)" by (cases h)
  note ok = h[unfolded kv hdr_ok_def line_ok_def, simplified]
  let ?p = "length pre"
  let ?s1 = "s\<lparr>d_k := (?p, length k), d_state := State3\<rparr>"
  let ?vs = "pre @ k @ [COLON, SP]"
  let ?s2 = "?s1\<lparr>d_v := (length ?vs, 0), d_state := State4\<rparr>"
  let ?fin = "?vs @ v @ [CR]"
  let ?s3 = "?s2\<lparr>d_v := (length ?vs, length v),
      d_store := dispatch_hdr (drop 3 d) k v (d_store s), d_k := (length ?fin + 1, 0), d_state := State2\<rparr>"
  have b: "buf = pre @ k @ COLON # SP # v @ CR # LF # post" using buf kv by (simp add: print_hdr_def)
  have 1: "decode_loop d buf ?p s = decode_loop d buf (length (pre @ k)) s"
    using b s ok by (intro decode_loop_skip[of _ _ _ "COLON # SP # v @ CR # LF # post"])
      (auto simp: at_header_def inert_def)
  have 2: "decode_loop d buf (length (pre @ k)) s = decode_loop d buf (length ((pre @ k) @ [COLON])) ?s1"
    using b s by (intro decode_loop_at) (auto simp: at_header_def decode_step_def Let_def)
  have 3: "decode_loop d buf (length ((pre @ k) @ [COLON])) ?s1 = decode_loop d buf (length (((pre @ k) @ [COLON]) @ [SP])) ?s1"
    using b by (intro decode_loop_skip[of _ _ _ "v @ CR # LF # post"]) (auto simp: inert_def)
  obtain c rest where cr: "v @ [CR] = c # rest" and c: "c \<noteq> SP" and rest: "LF \<notin> set rest"
    using ok by (cases v) auto
  have b2: "buf = ?vs @ c # rest @ LF # post" using b cr
    by (metis append.assoc append_Cons append_Nil)
  have 4: "decode_loop d buf (length ?vs) ?s1 = decode_loop d buf (length (?vs @ [c])) ?s2"
    using b2 c by (intro decode_loop_at) (auto simp: decode_step_def Let_def nth_append)
  have 5: "decode_loop d buf (length (?vs @ [c])) ?s2 = decode_loop d buf (length ((?vs @ [c]) @ rest)) ?s2"
    using b2 rest by (intro decode_loop_skip[of _ _ _ "LF # post"]) (auto simp: inert_def)
  have e: "(?vs @ [c]) @ rest = ?fin" using cr by simp
  have be: "buf = ?fin @ LF # post" using b by simp
  have chomp: "chomp_len buf (length ?vs) (length ?fin) = length v"
    unfolding be by (simp add: chomp_len_def Let_def nth_append)
  have sk: "subvec buf (?p, length k) = k" unfolding b by (simp add: subvec_def)
  have sv: "subvec buf (length ?vs, length v) = v"
    unfolding be by (simp add: subvec_def)
  have 6: "decode_loop d buf (length ?fin) ?s2 = decode_loop d buf (length (?fin @ [LF])) ?s3"
  proof (rule decode_loop_at[OF be])
    show "decode_step d buf (length ?fin) ?s2 = (?s3, False)"
      using sk sv chomp be by (simp add: decode_step_def Let_def nth_append)
  qed
  have loop: "decode_loop d buf ?p s = decode_loop d buf (length (pre @ print_hdr h)) ?s3"
    using 1 2 3 4 5 6 unfolding e by (simp add: kv print_hdr_def)
  show thesis
    by (rule that[OF loop]) (simp_all add: at_header_def kv print_hdr_def)
qed

lemma decode_headers:
  assumes "buf = pre @ concat (map print_hdr hs) @ post" "at_header (length pre) s" "list_all hdr_ok hs"
  obtains s' where
    "decode_loop d buf (length pre) s = decode_loop d buf (length (pre @ concat (map print_hdr hs))) s'"
    and "at_header (length (pre @ concat (map print_hdr hs))) s'"
    and "d_store s' = fold (\<lambda>h. dispatch_hdr (drop 3 d) (fst h) (snd h)) hs (d_store s)"
    and "d_hv s' = d_hv s"
  using assms
proof (induction hs arbitrary: pre s thesis)
  case Nil
  then show ?case by simp
next
  case (Cons h hs)
  from Cons.prems have b: "buf = pre @ print_hdr h @ concat (map print_hdr hs) @ post"
    and ok: "hdr_ok h" "list_all hdr_ok hs" by auto
  from decode_header_line[OF b Cons.prems(3) ok(1), of d] obtain s1 where
    s1: "decode_loop d buf (length pre) s = decode_loop d buf (length (pre @ print_hdr h)) s1"
      "at_header (length (pre @ print_hdr h)) s1"
      "d_store s1 = dispatch_hdr (drop 3 d) (fst h) (snd h) (d_store s)" "d_hv s1 = d_hv s" by blast
  show ?case
  proof (rule Cons.IH[OF _ _ s1(2) ok(2)])
    show "buf = (pre @ print_hdr h) @ concat (map print_hdr hs) @ post" using b by simp
  qed (use s1 in \<open>auto intro: Cons.prems(1)\<close>)
qed

lemma decode_word:
  assumes buf: "buf = pre @ w @ SP # post" and w: "word_ok w"
    and s: "d_state s = State0" "d_i s < 2" "length (d_hv s) = 3"
  shows "decode_loop d buf (length pre) s = decode_loop d buf (length (pre @ w @ [SP]))
    (s\<lparr>d_hv := (d_hv s)[d_i s := (length pre, length w)], d_i := d_i s + 1\<rparr>)"
proof -
  obtain c cs where c: "w = c # cs" "c \<noteq> SP" "SP \<notin> set cs" "LF \<notin> set cs"
    using w by (cases w) (auto simp: word_ok_def)
  let ?i = "d_i s"
  let ?s1 = "s\<lparr>d_state := State1, d_hv := (d_hv s)[?i := (length pre, 0)]\<rparr>"
  have 1: "decode_loop d buf (length pre) s = decode_loop d buf (length (pre @ [c])) ?s1"
    using buf c s by (intro decode_loop_at) (auto simp: decode_step_def Let_def)
  have 2: "decode_loop d buf (length (pre @ [c])) ?s1 = decode_loop d buf (length ((pre @ [c]) @ cs)) ?s1"
    using buf c by (intro decode_loop_skip[of _ _ _ "SP # post"]) (auto simp: inert_def)
  have 3: "decode_loop d buf (length (pre @ w)) ?s1 = decode_loop d buf (length ((pre @ w) @ [SP]))
    (s\<lparr>d_hv := (d_hv s)[?i := (length pre, length w)], d_i := ?i + 1\<rparr>)"
    using buf s by (intro decode_loop_at) (auto simp: decode_step_def Let_def)
  show ?thesis using 1 2 3 c(1) by simp
qed

lemma decode_last_word:
  assumes buf: "buf = pre @ w @ CR # LF # post" and w: "line_ok w"
    and s: "d_state s = State0" "d_i s = 2" "length (d_hv s) = 3"
  shows "decode_loop d buf (length pre) s = decode_loop d buf (length (pre @ w @ [CR, LF]))
    (s\<lparr>d_state := State2, d_hv := (d_hv s)[2 := (length pre, length w)],
       d_k := (length pre + length w + 2, 0), d_ret := length pre + length w + 2\<rparr>)"
proof -
  obtain c rest where cr: "w @ [CR] = c # rest" and c: "c \<noteq> SP" "LF \<notin> set rest"
    using w by (cases w) (auto simp: line_ok_def)
  have b2: "buf = pre @ c # rest @ LF # post" using buf cr
    by (metis append.assoc append_Cons append_Nil)
  have be: "buf = (pre @ w @ [CR]) @ LF # post" using buf by simp
  have chomp: "chomp_len buf (length pre) (length (pre @ w @ [CR])) = length w"
    unfolding be by (simp add: chomp_len_def Let_def nth_append)
  let ?s1 = "s\<lparr>d_state := State1, d_hv := (d_hv s)[2 := (length pre, 0)]\<rparr>"
  have 1: "decode_loop d buf (length pre) s = decode_loop d buf (length (pre @ [c])) ?s1"
    using b2 c s by (intro decode_loop_at) (auto simp: decode_step_def Let_def)
  have 2: "decode_loop d buf (length (pre @ [c])) ?s1 = decode_loop d buf (length ((pre @ [c]) @ rest)) ?s1"
    using b2 c s by (intro decode_loop_skip[of _ _ _ "LF # post"]) (auto simp: inert_def)
  have e: "(pre @ [c]) @ rest = pre @ w @ [CR]" using cr by simp
  have 3: "decode_loop d buf (length (pre @ w @ [CR])) ?s1 = decode_loop d buf (length ((pre @ w @ [CR]) @ [LF]))
    (s\<lparr>d_state := State2, d_hv := (d_hv s)[2 := (length pre, length w)],
       d_k := (length pre + length w + 2, 0), d_ret := length pre + length w + 2\<rparr>)"
  proof (rule decode_loop_at[OF be])
    show "decode_step d buf (length (pre @ w @ [CR])) ?s1 =
      (s\<lparr>d_state := State2, d_hv := (d_hv s)[2 := (length pre, length w)],
       d_k := (length pre + length w + 2, 0), d_ret := length pre + length w + 2\<rparr>, False)"
      using chomp s be by (simp add: decode_step_def Let_def nth_append)
  qed
  show ?thesis using 1 2 3 unfolding e by simp
qed

lemma decode_blank_line:
  assumes buf: "buf = pre @ CR # LF # post" and s: "at_header (length pre) s"
  shows "decode_loop d buf (length pre) s = s\<lparr>d_ret := length pre + 2\<rparr>"
proof -
  have 1: "decode_loop d buf (length pre) s = decode_loop d buf (length (pre @ [CR])) s"
    using buf s by (intro decode_loop_skip[of _ _ _ "LF # post"]) (auto simp: at_header_def inert_def)
  have "decode_step d buf (length (pre @ [CR])) s = (s\<lparr>d_ret := length pre + 2\<rparr>, True)"
    using buf s by (simp add: at_header_def decode_step_def Let_def nth_append)
  then have "decode_loop d buf (length (pre @ [CR])) s = s\<lparr>d_ret := length pre + 2\<rparr>"
    using buf by (subst decode_loop.simps) simp
  with 1 show ?thesis by simp
qed

lemma http_decode_print_head:
  assumes w: "word_ok w0" "word_ok w1" "line_ok w2" and hs: "list_all hdr_ok hs"
  shows "http_decode_buf d (print_head w0 w1 w2 hs @ rest) st =
    (length (print_head w0 w1 w2 hs),
     snd (d ! 2) w2 (snd (d ! 1) w1 (snd (d ! 0) w0
       (fold (\<lambda>h. dispatch_hdr (drop 3 d) (fst h) (snd h)) hs st))))"
proof -
  let ?buf = "print_head w0 w1 w2 hs @ rest"
  let ?l1 = "w0 @ [SP]" and ?l2 = "w0 @ [SP] @ w1 @ [SP]"
  let ?line = "w0 @ [SP] @ w1 @ [SP] @ w2 @ [CR, LF]"
  let ?hv = "[(0, length w0), (length ?l1, length w1), (length ?l2, length w2)]"
  let ?s = "decoder_init st"
  let ?s1 = "?s\<lparr>d_hv := [(0, length w0), (0, 0), (0, 0)], d_i := 1\<rparr>"
  let ?s2 = "?s\<lparr>d_hv := [(0, length w0), (length ?l1, length w1), (0, 0)], d_i := 2\<rparr>"
  let ?s3 = "?s2\<lparr>d_state := State2, d_hv := ?hv, d_k := (length ?line, 0), d_ret := length ?line\<rparr>"
  have upd: "[a, b, c][2 := x] = [a, b, x]" for a b c x :: "nat \<times> nat" by (simp add: numeral_2_eq_2)
  have 1: "decode_loop d ?buf 0 ?s = decode_loop d ?buf (length ?l1) ?s1"
    using decode_word[of ?buf "[]" w0 _ ?s d] w
    by (simp add: print_head_def decoder_init_def)
  have 2: "decode_loop d ?buf (length ?l1) ?s1 = decode_loop d ?buf (length ?l2) ?s2"
    using decode_word[of ?buf ?l1 w1 _ ?s1 d] w
    by (simp add: print_head_def decoder_init_def numeral_2_eq_2)
  have 3: "decode_loop d ?buf (length ?l2) ?s2 = decode_loop d ?buf (length ?line) ?s3"
    using decode_last_word[of ?buf ?l2 w2 _ ?s2 d] w upd
    by (simp add: print_head_def decoder_init_def add.assoc)
  have b: "?buf = ?line @ concat (map print_hdr hs) @ CR # LF # rest" by (simp add: print_head_def)
  have "at_header (length ?line) ?s3" by (simp add: at_header_def)
  from decode_headers[OF b this hs, of d] obtain s4 where
    s4: "decode_loop d ?buf (length ?line) ?s3 = decode_loop d ?buf (length (?line @ concat (map print_hdr hs))) s4"
      "at_header (length (?line @ concat (map print_hdr hs))) s4"
      "d_store s4 = fold (\<lambda>h. dispatch_hdr (drop 3 d) (fst h) (snd h)) hs st" "d_hv s4 = ?hv"
    by (auto simp: decoder_init_def)
  have 5: "decode_loop d ?buf (length (?line @ concat (map print_hdr hs))) s4 =
      s4\<lparr>d_ret := length (?line @ concat (map print_hdr hs)) + 2\<rparr>"
    using b s4(2) by (intro decode_blank_line) auto
  have loop: "decode_loop d ?buf 0 ?s = s4\<lparr>d_ret := length (print_head w0 w1 w2 hs)\<rparr>"
    using 1 2 3 s4(1) 5 by (simp add: print_head_def)
  have sl: "subvec ?buf (0, length w0) = w0" "subvec ?buf (length ?l1, length w1) = w1"
      "subvec ?buf (length ?l2, length w2) = w2"
    by (simp_all add: subvec_def print_head_def)
  have ne: "length w0 \<noteq> 0" "length w1 \<noteq> 0" using w by (auto simp: word_ok_def)
  show ?thesis unfolding http_decode_buf_def loop using ne sl s4(3,4) by simp
qed

end
