(* ===== verification/HttpMsg.thy ===== *)
theory HttpMsg
  imports HttpParse
begin

text \<open>
  Requests (\<^verbatim>\<open>http_req.c\<close>) and responses (\<^verbatim>\<open>http_resp.c\<close>): the control-block tables and
  the post-processing of the decoded fields.  The two structures are records; a frame
  adds the local variables the tables point to.
\<close>

section \<open>Requests\<close>

record http_request =
  rq_method :: ro_vec
  rq_host :: ro_vec
  rq_uri :: ro_vec
  rq_query :: ro_vec
  rq_hostname :: ro_vec
  rq_etag :: ro_vec
  rq_content_len :: nat
  rq_port :: u16
  rq_proto_vers :: byte
  rq_conn_close :: nat

text \<open>\<open>memset(&r, 0, sizeof(r))\<close>\<close>

definition http_request_zero :: http_request where
  "http_request_zero =
     \<lparr>rq_method = None, rq_host = None, rq_uri = None, rq_query = None, rq_hostname = None,
      rq_etag = None, rq_content_len = 0, rq_port = 0, rq_proto_vers = 0, rq_conn_close = 0\<rparr>"

record req_frame =
  fr_r :: http_request
  fr_pv :: ro_vec
  fr_connection :: ro_vec
  fr_clen :: int

definition req_hcb :: "req_frame hcb list" where
  "req_hcb =
     [(str ''method'', htype_string (Some (\<lambda>v f. f\<lparr>fr_r := (fr_r f)\<lparr>rq_method := v\<rparr>\<rparr>))),
      (str ''uri'', htype_string (Some (\<lambda>v f. f\<lparr>fr_r := (fr_r f)\<lparr>rq_uri := v\<rparr>\<rparr>))),
      (str ''protocol'', htype_string (Some (\<lambda>v f. f\<lparr>fr_pv := v\<rparr>))),
      (str ''Connection'', htype_string (Some (\<lambda>v f. f\<lparr>fr_connection := v\<rparr>))),
      (str ''Content-Length'', htype_int (\<lambda>x f. f\<lparr>fr_clen := x\<rparr>)),
      (str ''Host'', htype_string (Some (\<lambda>v f. f\<lparr>fr_r := (fr_r f)\<lparr>rq_host := v\<rparr>\<rparr>))),
      (str ''If-None-Match'', htype_string (Some (\<lambda>v f. f\<lparr>fr_r := (fr_r f)\<lparr>rq_etag := v\<rparr>\<rparr>)))]"

definition close_token :: bytes where
  "close_token = str ''Close''"

text \<open>The loop that looks for the last colon, \<open>for(i = hostname.v_len; i; i--)\<close>.\<close>

fun last_colon :: "bytes \<Rightarrow> nat \<Rightarrow> nat option" where
  "last_colon h 0 = None"
| "last_colon h (Suc j) = (if h ! j = COLON then Some (Suc j) else last_colon h j)"

definition HTTP_DEFAULT_PORT :: u16 where "HTTP_DEFAULT_PORT = 80"

definition req_host_port :: "bytes \<Rightarrow> http_request \<Rightarrow> http_request" where
  "req_host_port host r =
     (case last_colon host (length host) of
        None \<Rightarrow> r\<lparr>rq_hostname := Some host\<rparr>
      | Some i \<Rightarrow>
          (let port = drop i host;
               r1 = r\<lparr>rq_hostname := Some (take (i - 1) host)\<rparr>;
               (len, prt) = vtouint port
           in if length port \<noteq> 0 \<and> len = length port \<and> prt AND NOT 0xffff = 0
              then r1\<lparr>rq_port := ucast prt\<rparr> else r1))"

definition http_req :: "http_request \<Rightarrow> bytes \<Rightarrow> nat \<times> http_request" where
  "http_req r buf =
     (let (hlen, f) = http_decode_buf req_hcb buf
                        \<lparr>fr_r = r, fr_pv = None, fr_connection = None, fr_clen = -1\<rparr>
      in if hlen = 0 then (0, fr_r f)
         else
           let r1 = (fr_r f)\<lparr>rq_proto_vers := http_proto_version (fr_pv f)\<rparr>;
               r2 = (if fr_clen f > 0 then r1\<lparr>rq_content_len := nat (fr_clen f)\<rparr> else r1);
               r3 = (if vcasecmp_fast (v_bytes (fr_connection f)) close_token = 0
                     then r2\<lparr>rq_conn_close := 1\<rparr> else r2\<lparr>rq_conn_close := 0\<rparr>);
               r4 = r3\<lparr>rq_port := HTTP_DEFAULT_PORT\<rparr>;
               r5 = (case rq_host r4 of None \<Rightarrow> r4 | Some host \<Rightarrow> req_host_port host r4);
               r6 = (if rq_uri r5 = None then r5\<lparr>rq_uri := Some (str ''/'')\<rparr> else r5)
           in (hlen, r6))"

section \<open>Responses\<close>

record http_response =
  rs_host :: ro_vec
  rs_content_len :: nat
  rs_code :: u16
  rs_proto_vers :: byte
  rs_conn_close :: nat
  rs_transfer_enc :: ro_vec
  rs_content_type :: ro_vec
  rs_content_enc :: ro_vec

record resp_frame =
  fs_r :: http_response
  fs_pv :: ro_vec
  fs_connection :: ro_vec
  fs_clen :: int

definition resp_hcb :: "resp_frame hcb list" where
  "resp_hcb =
     [(str ''protocol'', htype_string (Some (\<lambda>v f. f\<lparr>fs_pv := v\<rparr>))),
      (str ''code'', htype_code (\<lambda>x f. f\<lparr>fs_r := (fs_r f)\<lparr>rs_code := x\<rparr>\<rparr>)),
      (str ''msg'', htype_string None),
      (str ''Connection'', htype_string (Some (\<lambda>v f. f\<lparr>fs_connection := v\<rparr>))),
      (str ''Content-Type'', htype_string (Some (\<lambda>v f. f\<lparr>fs_r := (fs_r f)\<lparr>rs_content_type := v\<rparr>\<rparr>))),
      (str ''Content-Length'', htype_int (\<lambda>x f. f\<lparr>fs_clen := x\<rparr>)),
      (str ''Content-Encoding'', htype_string (Some (\<lambda>v f. f\<lparr>fs_r := (fs_r f)\<lparr>rs_content_enc := v\<rparr>\<rparr>))),
      (str ''Transfer-Encoding'',
         htype_string (Some (\<lambda>v f. f\<lparr>fs_r := (fs_r f)\<lparr>rs_transfer_enc := v\<rparr>\<rparr>)))]"

definition http_resp :: "http_response \<Rightarrow> bytes \<Rightarrow> nat \<times> http_response" where
  "http_resp r buf =
     (let (hlen, f) = http_decode_buf resp_hcb buf
                        \<lparr>fs_r = r, fs_pv = None, fs_connection = None, fs_clen = -1\<rparr>
      in if hlen = 0 then (0, fs_r f)
         else
           let r1 = (if fs_clen f > 0 then (fs_r f)\<lparr>rs_content_len := nat (fs_clen f)\<rparr> else fs_r f);
               r2 = (if vcasecmp_fast (v_bytes (fs_connection f)) close_token = 0
                     then r1\<lparr>rs_conn_close := 1\<rparr> else r1\<lparr>rs_conn_close := 0\<rparr>)
           in (hlen, r2\<lparr>rs_proto_vers := http_proto_version (fs_pv f)\<rparr>))"

section \<open>Which request headers are recognised\<close>

lemma vstrcmp_fast_len:
  assumes "short k" "short (cstr l)"
  shows "vstrcmp_fast k l < 0 \<longleftrightarrow> length k < length (cstr l) \<or>
           length k = length (cstr l) \<and> diff_loop tolower k (cstr l) < 0"
    and "vstrcmp_fast k l > 0 \<longleftrightarrow> length k > length (cstr l) \<or>
           length k = length (cstr l) \<and> diff_loop tolower k (cstr l) > 0"
  using assms by (auto simp: vstrcmp_fast_def vcasecmp_fast_eq)

lemma diff_loop_zero: "length xs = length ys \<Longrightarrow> diff_loop f xs ys = 0 \<longleftrightarrow> map f xs = map f ys"
  using diff_loop_sign by blast

lemma dispatch_hdr_4:
  "dispatch_hdr [e0, e1, e2, e3] k v st =
     (let c = (\<lambda>e. vstrcmp_fast k (fst e)) in
      if c e2 < 0
      then (if c e1 < 0 then (if c e0 = 0 then snd e0 v st else st)
            else if c e1 > 0 then st else snd e1 v st)
      else if c e2 > 0 then (if c e3 = 0 then snd e3 v st else st)
      else snd e2 v st)"
proof -
  have four: "length [e0, e1, e2, e3] = 4" by simp
  show ?thesis unfolding dispatch_hdr_def four
    by (simp add: dispatch_hdr_loop_simps)
qed

text \<open>
  The header table of \<open>http_req\<close> is in alphabetical order, but the search compares
  lengths first.  Only two of its four headers can be found.
\<close>

lemma req_dispatch:
  assumes k: "short k"
  shows "dispatch_hdr (drop 3 req_hcb) k v f =
    (if map tolower k = map tolower (str ''Host'') then f\<lparr>fr_r := (fr_r f)\<lparr>rq_host := Some v\<rparr>\<rparr>
     else if map tolower k = map tolower (str ''If-None-Match'')
     then f\<lparr>fr_r := (fr_r f)\<lparr>rq_etag := Some v\<rparr>\<rparr>
     else f)"
proof -
  define H where "H = str ''Host''"
  define I where "I = str ''If-None-Match''"
  define C where "C = str ''Connection''"
  define L where "L = str ''Content-Length''"
  note fold = H_def[symmetric] I_def[symmetric] C_def[symmetric] L_def[symmetric]
  have len: "length (cstr H) = 4" "length (cstr I) = 13" "length (cstr C) = 10" "length (cstr L) = 14"
    and cs: "cstr H = H" "cstr I = I"
    by (simp_all add: H_def I_def C_def L_def)
  then have sh: "short (cstr H)" "short (cstr I)" "short (cstr C)" "short (cstr L)"
    by (simp_all only: short_def) simp_all
  have lt: "vstrcmp_fast k H < 0 \<Longrightarrow> length k \<le> 4"
    using vstrcmp_fast_len(1)[OF k sh(1)] len by auto
  have small: "length k \<le> 4 \<Longrightarrow> vstrcmp_fast k L < 0 \<and> vstrcmp_fast k C \<noteq> 0"
    using vstrcmp_fast_len[OF k sh(4)] vstrcmp_fast_len[OF k sh(3)] len by auto
  have zero: "vstrcmp_fast k H = 0 \<longleftrightarrow> map tolower k = map tolower H"
    "vstrcmp_fast k I = 0 \<longleftrightarrow> map tolower k = map tolower I"
    using fastcmp.cmp_zero[OF k sh(1)] fastcmp.cmp_zero[OF k sh(2)] cs
    by (auto simp: vstrcmp_fast_def lex_rank_def dest: map_eq_imp_length_eq)
  have big: "map tolower k = map tolower I \<Longrightarrow> \<not> length k \<le> 4"
    using len cs by (auto dest!: map_eq_imp_length_eq)
  have t: "drop 3 req_hcb = [(C, htype_string (Some (\<lambda>v f. f\<lparr>fr_connection := v\<rparr>))),
      (L, htype_int (\<lambda>x f. f\<lparr>fr_clen := x\<rparr>)),
      (H, htype_string (Some (\<lambda>v f. f\<lparr>fr_r := (fr_r f)\<lparr>rq_host := v\<rparr>\<rparr>))),
      (I, htype_string (Some (\<lambda>v f. f\<lparr>fr_r := (fr_r f)\<lparr>rq_etag := v\<rparr>\<rparr>)))]"
    by (simp add: req_hcb_def fold del: str_simps)
  have "dispatch_hdr (drop 3 req_hcb) k v f =
    (if vstrcmp_fast k H = 0 then f\<lparr>fr_r := (fr_r f)\<lparr>rq_host := Some v\<rparr>\<rparr>
     else if vstrcmp_fast k I = 0 then f\<lparr>fr_r := (fr_r f)\<lparr>rq_etag := Some v\<rparr>\<rparr> else f)"
  proof (cases "vstrcmp_fast k H < 0")
    case True
    then have "vstrcmp_fast k I \<noteq> 0" using lt big zero(2) by blast
    then show ?thesis using True small[OF lt[OF True]] by (simp add: t dispatch_hdr_4)
  qed (simp add: t dispatch_hdr_4 htype_string_def)
  then show ?thesis unfolding zero unfolding H_def I_def .
qed

text \<open>So no request sets the two local variables that the table means to fill.\<close>

lemma http_decode_req_locals:
  assumes "length buf < 2 ^ 31"
  shows "fr_connection (snd (http_decode_buf req_hcb buf f)) = fr_connection f \<and>
         fr_clen (snd (http_decode_buf req_hcb buf f)) = fr_clen f \<and>
         rq_content_len (fr_r (snd (http_decode_buf req_hcb buf f))) = rq_content_len (fr_r f)"
proof -
  let ?P = "\<lambda>g. fr_connection g = fr_connection f \<and> fr_clen g = fr_clen f \<and>
    rq_content_len (fr_r g) = rq_content_len (fr_r f)"
  have "?P (d_store (decode_loop req_hcb buf 0 (decoder_init f)))"
    using assms by (intro decode_loop_store[where P = ?P])
      (auto simp: req_dispatch short_def decoder_init_def)
  then show ?thesis
    by (auto simp: http_decode_buf_def Let_def req_hcb_def htype_string_def numeral_2_eq_2)
qed

lemma close_token_empty: "vcasecmp_fast [] close_token \<noteq> 0"
proof -
  have "short []" "short close_token" by (simp_all add: short_def close_token_def)
  then show ?thesis by (simp add: vcasecmp_fast_eq close_token_def)
qed

lemma rq_host_port_fields [simp]:
  "rq_conn_close (req_host_port h r) = rq_conn_close r"
  "rq_content_len (req_host_port h r) = rq_content_len r"
  "rq_uri (req_host_port h r) = rq_uri r"
  "rq_host (req_host_port h r) = rq_host r"
  "rq_method (req_host_port h r) = rq_method r"
  "rq_etag (req_host_port h r) = rq_etag r"
  "rq_proto_vers (req_host_port h r) = rq_proto_vers r"
  by (simp_all add: req_host_port_def Let_def split: option.splits prod.splits)

lemma http_req_conn_close:
  assumes buf: "length buf < 2 ^ 31" and req: "http_req r buf = (hlen, r')" and hlen: "hlen \<noteq> 0"
  shows "rq_conn_close r' = 0" and "rq_content_len r' = rq_content_len r"
proof -
  obtain n f where f: "http_decode_buf req_hcb buf \<lparr>fr_r = r, fr_pv = None, fr_connection = None, fr_clen = -1\<rparr> = (n, f)"
    by (meson surj_pair)
  have loc: "fr_connection f = None" "fr_clen f = -1" "rq_content_len (fr_r f) = rq_content_len r"
    using http_decode_req_locals[OF buf, of "\<lparr>fr_r = r, fr_pv = None, fr_connection = None, fr_clen = -1\<rparr>"] f
    by simp_all
  show "rq_conn_close r' = 0" and "rq_content_len r' = rq_content_len r"
    using req hlen loc close_token_empty
    by (auto simp: http_req_def f Let_def v_bytes_def split: if_splits option.splits)
qed

section \<open>Responses: the table is in search order\<close>

lemma resp_hcb_sorted: "sorted_hcbs (drop 3 resp_hcb)"
  by (simp add: sorted_hcbs_def resp_hcb_def hcb_label_def lex_rank_def short_def less_prod_def')

section \<open>Properties\<close>

text \<open>
  C7.  The header block of a request is the shortest prefix that ends in an empty line:
  from its initial state the scanner reports success after \<open>n\<close> bytes exactly when the
  first \<open>n + 1\<close> bytes end in an empty line and no shorter prefix does.
\<close>

theorem scanner_finds_first_empty_line:
  "(\<exists>s. http_parse_incremental RSTATE_INITIAL cs = Inr (s, n, True)) \<longleftrightarrow>
     n < length cs \<and> ended (rev (take (Suc n) cs)) \<and> (\<forall>m<n. \<not> ended (rev (take (Suc m) cs)))"
proof -
  have init: "last_bytes [] = RSTATE_INITIAL" "\<not> ended []" by (simp_all add: last_bytes_def ended_def)
  have "(\<exists>s. http_parse_incremental RSTATE_INITIAL cs = Inr (s, n, True)) \<longleftrightarrow> scan_spec [] cs = Some n"
    using http_parse_incremental_scan[OF init(2), of cs] by (auto simp: init split: option.splits)
  then show ?thesis using scan_spec_Some[of "[]" cs n] by simp
qed

theorem scanner_finds_first_empty_line_witness:
  "\<exists>s. http_parse_incremental RSTATE_INITIAL (str ''GET /'' @ [13, 10, 13, 10]) = Inr (s, 8, True)"
proof -
  have "(8::nat) < length (str ''GET /'' @ [13, 10, 13, 10]) \<and>
    ended (rev (take (Suc 8) (str ''GET /'' @ [13, 10, 13, 10]))) \<and>
    (\<forall>m<8. \<not> ended (rev (take (Suc m) (str ''GET /'' @ [13, 10, 13, 10]))))"
    by code_simp
  then show ?thesis by (rule scanner_finds_first_empty_line[THEN iffD2])
qed

text \<open>
  C8.  Decoding inverts printing: on a printed head (three words and any list of header
  lines), followed by any bytes, the decoder consumes exactly the head, hands each header
  to the dispatcher in order and then the three words to their callbacks.
\<close>

theorem decode_print_roundtrip:
  assumes "word_ok w0" "word_ok w1" "line_ok w2" "list_all hdr_ok hs"
  shows "http_decode_buf d (print_head w0 w1 w2 hs @ rest) st =
    (length (print_head w0 w1 w2 hs),
     snd (d ! 2) w2 (snd (d ! 1) w1 (snd (d ! 0) w0
       (fold (\<lambda>h. dispatch_hdr (drop 3 d) (fst h) (snd h)) hs st))))"
  using assms by (rule http_decode_print_head)

theorem decode_print_roundtrip_witness:
  "fst (http_decode_buf req_hcb
     (print_head (str ''GET'') (str ''/a'') (str ''HTTP/1.1'') [(str ''Host'', str ''x'')] @ [71])
     \<lparr>fr_r = http_request_zero, fr_pv = None, fr_connection = None, fr_clen = -1\<rparr>) = 28"
proof -
  have "word_ok (str ''GET'')" "word_ok (str ''/a'')" "line_ok (str ''HTTP/1.1'')"
    "list_all hdr_ok [(str ''Host'', str ''x'')]"
    by (simp_all add: word_ok_def line_ok_def hdr_ok_def)
  note rt = decode_print_roundtrip[OF this]
  show ?thesis unfolding rt fst_conv by (simp add: print_head_def print_hdr_def)
qed

text \<open>
  C29.  The decoder never reports more bytes than it was given, whatever the table and the
  input: the caller may consume the reported length from its buffer.
\<close>

theorem decode_within_buffer: "fst (http_decode_buf d buf st) \<le> length buf"
  by (rule http_decode_buf_bound)

text \<open>
  C30.  A request never closes its connection and never announces a body: whatever its
  \<open>Connection\<close> and \<open>Content-Length\<close> headers say, a successful \<open>http_req\<close> leaves
  \<open>conn_close\<close> at 0 and \<open>content_len\<close> as the caller set it, because the search order
  of the dispatcher is not the order of the table.
\<close>

theorem http_req_ignores_connection_headers:
  assumes "length buf < 2 ^ 31" "http_req r buf = (hlen, r')" "hlen \<noteq> 0"
  shows "rq_conn_close r' = 0 \<and> rq_content_len r' = rq_content_len r"
  using http_req_conn_close[OF assms] by blast

theorem http_req_ignores_connection_headers_witness:
  "rq_conn_close (snd (http_req http_request_zero
     (print_head (str ''GET'') (str ''/'') (str ''HTTP/1.1'') [(str ''Connection'', str ''Close'')]))) = 0"
proof -
  let ?h = "print_head (str ''GET'') (str ''/'') (str ''HTTP/1.1'') [(str ''Connection'', str ''Close'')]"
  obtain hlen r' where r: "http_req http_request_zero ?h = (hlen, r')" by (meson surj_pair)
  have ok: "word_ok (str ''GET'')" "word_ok (str ''/'')" "line_ok (str ''HTTP/1.1'')"
    "list_all hdr_ok [(str ''Connection'', str ''Close'')]"
    by (simp_all add: word_ok_def line_ok_def hdr_ok_def)
  have "hlen = length ?h"
    using r http_decode_print_head[OF ok, of req_hcb "[]"]
    by (simp add: http_req_def Let_def print_head_def split: if_splits)
  then have "length ?h < 2 ^ 31" "hlen \<noteq> 0" by (simp_all add: print_head_def print_hdr_def)
  from http_req_ignores_connection_headers[OF this(1) r this(2)] r show ?thesis by simp
qed

text \<open>
  In a response every header of the table is found under its name, in any letter
  case, and no other header has an effect.
\<close>

lemma resp_headers_found:
  assumes "short k"
  shows "dispatch_hdr (drop 3 resp_hcb) k v f =
    (case find (\<lambda>e. map tolower (hcb_label e) = map tolower k) (drop 3 resp_hcb) of
       None \<Rightarrow> f | Some e \<Rightarrow> snd e v f)"
  using resp_hcb_sorted assms by (rule dispatch_hdr_find)

lemma resp_headers_found_witness:
  "\<forall>v f. dispatch_hdr (drop 3 resp_hcb) (str ''CONTENT-type'') v f =
     f\<lparr>fs_r := (fs_r f)\<lparr>rs_content_type := Some v\<rparr>\<rparr>"
proof -
  have "short (str ''CONTENT-type'')" by (simp add: short_def)
  note find = resp_headers_found[OF this]
  show ?thesis unfolding find
    by (simp add: resp_hcb_def hcb_label_def tolower_def htype_string_def)
qed

end
