(* ===== verification/Mem.thy ===== *)
theory Mem
  imports Prelude
begin

text \<open>
  Arrays the C code reads and writes by index: \<open>rd\<close> and \<open>wr\<close> fault outside the array.
  The sources rewrite strings in place with one reading and one writing pointer; the
  lemmas below describe such a buffer as the output written so far, a gap of bytes
  already consumed, and the input still to be read.
\<close>

section \<open>Reading and writing by index\<close>

definition rd :: "'a list \<Rightarrow> nat \<Rightarrow> 'a res" where
  "rd m p = (if p < length m then Inr (m ! p) else Inl Out_of_bounds)"

definition wr :: "'a list \<Rightarrow> nat \<Rightarrow> 'a \<Rightarrow> 'a list res" where
  "wr m p x = (if p < length m then Inr (m[p := x]) else Inl Out_of_bounds)"

text \<open>The C string that starts at an index; the functions of \<open>string.h\<close> need its NUL.\<close>

definition string_at :: "bytes \<Rightarrow> nat \<Rightarrow> bytes res" where
  "string_at m p = (if 0 \<in> set (drop p m) then Inr (cstr (drop p m)) else Inl Out_of_bounds)"

lemma rbind_cong [fundef_cong]:
  "m = m' \<Longrightarrow> (\<And>x. m' = Inr x \<Longrightarrow> f x = g x) \<Longrightarrow> rbind m f = rbind m' g"
  by (cases m') auto

lemma rd_Inr_iff: "rd m p = Inr x \<longleftrightarrow> p < length m \<and> x = m ! p"
  by (auto simp: rd_def)

lemma wr_Inr_iff: "wr m p x = Inr m' \<longleftrightarrow> p < length m \<and> m' = m[p := x]"
  by (auto simp: wr_def)

lemma wr_length: "wr m p x = Inr m' \<Longrightarrow> length m' = length m"
  by (auto simp: wr_def split: if_splits)

lemma rd_append [simp]: "rd (xs @ y # ys) (length xs) = Inr y"
  by (simp add: rd_def)

lemma wr_append [simp]: "wr (xs @ y # ys) (length xs) z = Inr (xs @ z # ys)"
  by (simp add: wr_def)

lemma string_at_append: "0 \<notin> set s \<Longrightarrow> string_at (xs @ s @ 0 # ys) (length xs) = Inr s"
  by (simp add: string_at_def cstr_append_nul)

lemma string_at_cong: "drop p m = drop p m' \<Longrightarrow> string_at m p = string_at m' p"
  by (simp add: string_at_def)

section \<open>Rewriting in place\<close>

text \<open>The byte at the reading pointer, behind output and gap.\<close>

lemma rd_gap [simp]: "rd (pre @ gap @ y # ys) (length pre + length gap) = Inr y"
  using rd_append[of "pre @ gap" y ys] by simp

text \<open>
  Writing one byte at the writing pointer while one is consumed at the reading pointer
  grows the output and keeps the size of the gap.
\<close>

lemma wr_gap:
  obtains gap' where "length gap' = length gap"
    "wr (pre @ gap @ y # ys) (length pre) z = Inr (pre @ z # gap' @ ys)"
proof (cases gap)
  case (Cons g gs)
  show ?thesis by (rule that[of "gs @ [y]"]) (simp_all add: Cons)
qed (auto intro: that[of "[]"])

text \<open>The same with the byte at the reading pointer rewritten first.\<close>

lemma wr_self [simp]: "wr (pre @ gap @ y # ys) (length pre + length gap) z = Inr (pre @ gap @ z # ys)"
  using wr_append[of "pre @ gap" y ys z] by simp

end
