(* ===== verification/UriSpec.thy ===== *)
theory UriSpec
  imports Normalize
begin

text \<open>
  What the passes of \<open>normalize.c\<close> compute, as functions on strings, and the proofs that
  the in-place loops of theory \<open>Normalize\<close> implement them: the reading pointer is never
  behind the writing pointer, no access leaves the buffer, and nothing behind the
  terminating NUL changes.
\<close>

lemma nads_ws_simps [simp]:
  "nads_ws NADS_WS_CASE_SENSITIVE" "\<not> nads_ws NADS_WS_MS_UTF16"
  "\<not> nads_ws NADS_WS_PERCENT_HACK" "\<not> nads_ws NADS_WS_DOUBLE_HEX"
  by (simp_all add: nads_ws_def)

text \<open>
  A pass that started with the bytes \<open>pre\<close> in front of its writing pointer and \<open>ys\<close>
  behind the terminating NUL of its input has written \<open>ws\<close> and, on success, a NUL, in
  the \<open>room\<close> bytes between them.
\<close>

definition rewrote ::
  "(bytes \<times> nat option) res \<Rightarrow> bytes \<Rightarrow> bytes \<Rightarrow> nat \<Rightarrow> bytes \<Rightarrow> nat option \<Rightarrow> bool" where
  "rewrote r pre ws room ys e \<longleftrightarrow>
     (\<exists>junk. r = Inr (pre @ ws @ junk @ ys, e) \<and> length ws + length junk = room \<and>
        (e = None \<longrightarrow> junk \<noteq> [] \<and> hd junk = 0))"

lemma rewrote_append:
  "rewrote r (pre @ xs) ws room ys e \<Longrightarrow> rewrote r pre (xs @ ws) (length xs + room) ys e"
  unfolding rewrote_def by auto

lemma rewrote_Cons:
  "rewrote r (pre @ [c]) ws room ys e \<Longrightarrow> rewrote r pre (c # ws) (Suc room) ys e"
  using rewrote_append[of r pre "[c]"] by simp

lemma rewrote_error: "rewrote (Inr (pre @ junk @ ys, Some e)) pre [] (length junk) ys (Some e)"
  unfolding rewrote_def by auto

lemma rewrote_done:
  "rewrote (rbind (wr (pre @ gap @ 0 # ys) (length pre) 0) (\<lambda>m. Inr (m, None))) pre [] (Suc (length gap)) ys None"
proof -
  obtain gap' where "length gap' = length gap"
    "wr (pre @ gap @ 0 # ys) (length pre) 0 = Inr (pre @ 0 # gap' @ ys)"
    by (rule wr_gap)
  then show ?thesis unfolding rewrote_def by (intro exI[of _ "0 # gap'"]) simp
qed

section \<open>Percent decoding\<close>

definition is_hex :: "byte \<Rightarrow> bool" where
  "is_hex c \<longleftrightarrow> chartype c = T_HEX"

definition hex_pair :: "byte \<Rightarrow> byte \<Rightarrow> byte" where
  "hex_pair a b = push_bit 4 (hexchar (scast a)) OR hexchar (scast b)"

text \<open>The decoded prefix, and the error that stopped the decoding, if any.\<close>

fun pct_decode :: "bytes \<Rightarrow> bytes \<times> nat option" where
  "pct_decode [] = ([], None)"
| "pct_decode [c] = (if c = PERCENT then ([], Some NADS_ERR_BAD_HEX) else ([c], None))"
| "pct_decode [c, a] =
    (if c = PERCENT then ([], Some NADS_ERR_BAD_HEX) else apfst (Cons c) (pct_decode [a]))"
| "pct_decode (c # a # b # s) =
    (if c = PERCENT then
       (if is_hex a \<and> is_hex b then
          (if hex_pair a b = 0 then ([], Some NADS_ERR_NULL)
           else apfst (Cons (hex_pair a b)) (pct_decode s))
        else ([], Some NADS_ERR_BAD_HEX))
     else apfst (Cons c) (pct_decode (a # b # s)))"

lemma chartype_bit: "chartype c AND T_HEX \<noteq> 0 \<longleftrightarrow> is_hex c"
  by (auto simp: chartype_def is_hex_def)

lemma n_hex_end: "n_hex_loop (pre @ gap @ 0 # ys) (length pre + length gap) out st h i mx =
   (if st \<noteq> 0 then Inr (pre @ gap @ 0 # ys, Some NADS_ERR_BAD_HEX)
    else rbind (wr (pre @ gap @ 0 # ys) out 0) (\<lambda>m. Inr (m, None)))"
  by (subst n_hex_loop.simps) simp

lemma n_hex_plain:
  assumes "c \<noteq> 0" "c \<noteq> PERCENT"
  obtains gap' where "length gap' = length gap"
    "n_hex_loop (pre @ gap @ c # ys) (length pre + length gap) (length pre) 0 h i mx =
     n_hex_loop ((pre @ [c]) @ gap' @ ys) (length (pre @ [c]) + length gap') (length (pre @ [c])) 0 h i mx"
proof -
  obtain gap' where g: "length gap' = length gap"
    "wr (pre @ gap @ c # ys) (length pre) c = Inr (pre @ c # gap' @ ys)"
    by (rule wr_gap)
  show ?thesis by (rule that[OF g(1)]) (subst n_hex_loop.simps, simp add: assms g)
qed

lemma n_hex_percent:
  "n_hex_loop (pre @ gap @ PERCENT # ys) (length pre + length gap) out 0 h i mx =
   n_hex_loop (pre @ (gap @ [PERCENT]) @ ys) (length pre + length (gap @ [PERCENT])) out 1 h 0 1"
  by (subst n_hex_loop.simps) simp

lemma n_hex_bad:
  assumes "c \<noteq> 0" "\<not> is_hex c"
  shows "n_hex_loop (pre @ gap @ c # ys) (length pre + length gap) out 1 h i 1 =
    Inr (pre @ gap @ c # ys, Some NADS_ERR_BAD_HEX)"
  using assms chartype_bit[of c] by (subst n_hex_loop.simps) simp

lemma n_hex_first:
  assumes "c \<noteq> 0" "is_hex c" "length h = 5"
  shows "n_hex_loop (pre @ gap @ c # ys) (length pre + length gap) out 1 h 0 1 =
    n_hex_loop (pre @ (gap @ [c]) @ ys) (length pre + length (gap @ [c])) out 1 (h[0 := c]) 1 1"
  using assms chartype_bit[of c]
  by (subst n_hex_loop.simps) (simp add: wr_def)

lemma n_hex_second:
  assumes "c \<noteq> 0" "is_hex c" "length h = 5"
  obtains gap' where "length gap' = length gap"
    "n_hex_loop (pre @ gap @ c # ys) (length pre + length gap) (length pre) 1 h 1 1 =
     (if hex_pair (h ! 0) c = 0 then Inr (pre @ gap @ c # ys, Some NADS_ERR_NULL)
      else n_hex_loop ((pre @ [hex_pair (h ! 0) c]) @ gap' @ ys)
        (length (pre @ [hex_pair (h ! 0) c]) + length gap')
        (length (pre @ [hex_pair (h ! 0) c])) 0 (h[1 := c]) 2 1)"
proof -
  obtain gap' where g: "length gap' = length gap"
    "wr (pre @ gap @ c # ys) (length pre) (hex_pair (h ! 0) c) = Inr (pre @ hex_pair (h ! 0) c # gap' @ ys)"
    by (rule wr_gap)
  have h: "h[1 := c] ! 0 = h ! 0" "h[1 := c] ! 1 = c" using assms(3) by simp_all
  show ?thesis
    by (rule that[OF g(1)], subst n_hex_loop.simps)
       (simp add: assms(1,3) assms(2)[folded chartype_bit] wr_def h[simplified],
         use g h in \<open>simp add: hex_pair_def wr_def Let_def numeral_2_eq_2\<close>)
qed

lemma pct_decode_plain: "c \<noteq> PERCENT \<Longrightarrow> pct_decode (c # s) = apfst (Cons c) (pct_decode s)"
  by (cases "c # s" rule: pct_decode.cases) auto

definition hex_ok :: "bytes \<Rightarrow> bytes \<Rightarrow> bool" where
  "hex_ok s ys \<longleftrightarrow> (\<forall>pre gap h i mx. length h = 5 \<longrightarrow>
     rewrote (n_hex_loop (pre @ gap @ s @ 0 # ys) (length pre + length gap) (length pre) 0 h i mx)
       pre (fst (pct_decode s)) (Suc (length gap + length s)) ys (snd (pct_decode s)))"

lemma hex_okD:
  "hex_ok s ys \<Longrightarrow> length h = 5 \<Longrightarrow>
   rewrote (n_hex_loop (pre @ gap @ s @ 0 # ys) (length pre + length gap) (length pre) 0 h i mx)
     pre (fst (pct_decode s)) (Suc (length gap + length s)) ys (snd (pct_decode s))"
  unfolding hex_ok_def by blast

lemma hex_ok_plain:
  assumes "hex_ok s ys" "c \<noteq> 0" "c \<noteq> PERCENT"
  shows "hex_ok (c # s) ys"
  unfolding hex_ok_def
proof (intro allI impI)
  fix pre gap h :: bytes and i mx :: nat
  assume h: "length h = 5"
  obtain gap' where g: "length gap' = length gap"
    "n_hex_loop (pre @ gap @ c # s @ 0 # ys) (length pre + length gap) (length pre) 0 h i mx =
     n_hex_loop ((pre @ [c]) @ gap' @ s @ 0 # ys) (length (pre @ [c]) + length gap') (length (pre @ [c])) 0 h i mx"
    using assms(2,3) by (rule n_hex_plain)
  have "rewrote (n_hex_loop (pre @ gap @ c # s @ 0 # ys) (length pre + length gap) (length pre) 0 h i mx)
    (pre @ [c]) (fst (pct_decode s)) (Suc (length gap' + length s)) ys (snd (pct_decode s))"
    unfolding g(2) using assms(1) h by (rule hex_okD)
  from rewrote_Cons[OF this]
  show "rewrote (n_hex_loop (pre @ gap @ (c # s) @ 0 # ys) (length pre + length gap) (length pre) 0 h i mx)
     pre (fst (pct_decode (c # s))) (Suc (length gap + length (c # s))) ys (snd (pct_decode (c # s)))"
    using assms(3) by (simp add: pct_decode_plain g(1))
qed

lemma hex_ok_percent:
  assumes "hex_ok s ys" "a \<noteq> 0" "b \<noteq> 0" "is_hex a" "is_hex b"
  shows "hex_ok (PERCENT # a # b # s) ys"
  unfolding hex_ok_def
proof (intro allI impI)
  fix pre gap h :: bytes and i mx :: nat
  assume h: "length h = 5"
  then have h': "length (h[0 := a]) = 5" by simp
  let ?gap = "gap @ [PERCENT, a]" and ?d = "hex_pair a b"
  obtain gap' where g: "length gap' = length ?gap"
    "n_hex_loop (pre @ ?gap @ b # s @ 0 # ys) (length pre + length ?gap) (length pre) 1 (h[0 := a]) 1 1 =
     (if hex_pair (h[0 := a] ! 0) b = 0 then Inr (pre @ ?gap @ b # s @ 0 # ys, Some NADS_ERR_NULL)
      else n_hex_loop ((pre @ [hex_pair (h[0 := a] ! 0) b]) @ gap' @ s @ 0 # ys)
        (length (pre @ [hex_pair (h[0 := a] ! 0) b]) + length gap')
        (length (pre @ [hex_pair (h[0 := a] ! 0) b])) 0 (h[0 := a, 1 := b]) 2 1)"
    by (rule n_hex_second[OF assms(3,5) h'])
  have start: "n_hex_loop (pre @ gap @ PERCENT # a # b # s @ 0 # ys) (length pre + length gap) (length pre) 0 h i mx =
     n_hex_loop (pre @ ?gap @ b # s @ 0 # ys) (length pre + length ?gap) (length pre) 1 (h[0 := a]) 1 1"
    using n_hex_first[OF assms(2,4) h, of pre "gap @ [PERCENT]"] by (simp add: n_hex_percent)
  have h0: "h[0 := a] ! 0 = a" using h by simp
  show "rewrote (n_hex_loop (pre @ gap @ (PERCENT # a # b # s) @ 0 # ys) (length pre + length gap) (length pre) 0 h i mx)
     pre (fst (pct_decode (PERCENT # a # b # s))) (Suc (length gap + length (PERCENT # a # b # s))) ys
     (snd (pct_decode (PERCENT # a # b # s)))"
  proof (cases "?d = 0")
    case True
    then show ?thesis
      using rewrote_error[of pre "?gap @ b # s @ [0]" ys] assms(4,5) by (simp add: start g(2)[simplified] h0)
  next
    case False
    have "rewrote (n_hex_loop ((pre @ [?d]) @ gap' @ s @ 0 # ys)
        (length (pre @ [?d]) + length gap') (length (pre @ [?d])) 0 (h[0 := a, 1 := b]) 2 1)
      (pre @ [?d]) (fst (pct_decode s)) (Suc (length gap' + length s)) ys (snd (pct_decode s))"
      using assms(1) by (rule hex_okD) (simp add: h)
    from rewrote_Cons[OF this] show ?thesis
      using False assms(4,5) by (simp add: start g(2)[simplified] h0 g(1))
  qed
qed

text \<open>An escape that is cut short or has a digit missing stops the decoding.\<close>

lemma hex_ok_short:
  assumes "0 \<notin> set s" "\<nexists>a b t. s = a # b # t \<and> is_hex a \<and> is_hex b"
  shows "hex_ok (PERCENT # s) ys"
  unfolding hex_ok_def
proof (intro allI impI)
  fix pre gap h :: bytes and i mx :: nat
  assume h: "length h = 5"
  let ?m = "pre @ gap @ PERCENT # s @ 0 # ys"
  have dec: "pct_decode (PERCENT # s) = ([], Some NADS_ERR_BAD_HEX)"
    using assms(2) by (cases "PERCENT # s" rule: pct_decode.cases) auto
  have "n_hex_loop ?m (length pre + length gap) (length pre) 0 h i mx = Inr (?m, Some NADS_ERR_BAD_HEX)"
  proof (cases "s \<noteq> [] \<and> is_hex (hd s)")
    case True
    then obtain a t where s: "s = a # t" "is_hex a" by (cases s) auto
    then have a: "a \<noteq> 0" "t = [] \<or> (\<exists>b u. t = b # u \<and> b \<noteq> 0 \<and> \<not> is_hex b)"
      using assms by (cases t; auto)+
    show ?thesis
      using a(2) n_hex_first[OF a(1) s(2) h, of pre "gap @ [PERCENT]"]
        n_hex_end[of pre "gap @ [PERCENT, a]"] n_hex_bad[of _ pre "gap @ [PERCENT, a]"]
      by (auto simp: n_hex_percent s(1))
  next
    case False
    then show ?thesis
      using assms(1) n_hex_end[of pre "gap @ [PERCENT]"] n_hex_bad[of _ pre "gap @ [PERCENT]"]
      by (cases s) (auto simp: n_hex_percent)
  qed
  then show "rewrote (n_hex_loop (pre @ gap @ (PERCENT # s) @ 0 # ys) (length pre + length gap) (length pre) 0 h i mx)
     pre (fst (pct_decode (PERCENT # s))) (Suc (length gap + length (PERCENT # s))) ys
     (snd (pct_decode (PERCENT # s)))"
    using rewrote_error[of pre "gap @ PERCENT # s @ [0]" ys] by (simp add: dec)
qed

lemma hex_ok_all: "0 \<notin> set s \<Longrightarrow> hex_ok s ys"
proof (induction s rule: length_induct)
  case (1 s)
  show ?case
  proof (cases s)
    case Nil
    then show ?thesis using rewrote_done unfolding hex_ok_def by (simp add: n_hex_end)
  next
    case (Cons c t)
    consider "c \<noteq> PERCENT" | a b u where "c = PERCENT" "t = a # b # u" "is_hex a" "is_hex b"
      | "c = PERCENT" "\<nexists>a b u. t = a # b # u \<and> is_hex a \<and> is_hex b" by blast
    then show ?thesis
      by cases (use 1 Cons in \<open>auto intro: hex_ok_plain hex_ok_percent hex_ok_short\<close>)
  qed
qed

theorem n_hex_refines:
  assumes "0 \<notin> set s"
  shows "rewrote (n_hex (pre @ s @ 0 # ys) (length pre)) pre (fst (pct_decode s)) (Suc (length s)) ys
    (snd (pct_decode s))"
  using hex_okD[OF hex_ok_all[OF assms], of "[0, 0, 0, 0, 0]" pre "[]" ys 0 0] by (simp add: n_hex_def)

section \<open>UTF-8 folding\<close>

text \<open>
  One announced sequence of two to six bytes is kept if its number needs more than eight
  bits and replaced by one byte otherwise.  A first byte that announces one byte (a stray
  continuation byte) or seven (\<open>0xfe\<close>, \<open>0xff\<close>) makes the code leave its arrays.
\<close>

function utf8_fold :: "bytes \<Rightarrow> (bytes \<times> nat option) res" where
  "utf8_fold [] = Inr ([], None)"
| "utf8_fold (b # s) =
    (if b AND 128 = 0 then rbind (utf8_fold s) (\<lambda>(ws, e). Inr (b # ws, e))
     else
       let len = utf8_len b; n = max len 2 - 1 in
       if length s < n then Inr ([], Some NADS_ERR_BAD_UTF8)
       else if len < 2 \<or> 6 < len then Inl Out_of_bounds
       else rbind (n_ucs4 (b # take n s) len) (\<lambda>u.
         rbind (utf8_fold (drop n s)) (\<lambda>(ws, e).
           Inr ((if u AND 0xffffff00 \<noteq> 0 then b # take n s else [ucast (u AND 0xff)]) @ ws, e))))"
  by pat_completeness auto
termination
  by (relation "measure length") auto

declare utf8_fold.simps(2) [simp del]

lemma sint_byte: "sint (c :: byte) \<noteq> 255" "sint (c :: byte) \<noteq> 254"
  using sint_lt[of c] by auto

lemma n_ucs4_loop_take:
  "i \<le> len \<Longrightarrow> n_ucs4_loop n (take len buf) len s i = n_ucs4_loop n buf len s i"
  by (induction i arbitrary: n s) (auto simp: rd_def)

lemma n_ucs4_take: "n_ucs4 (take len buf) len = n_ucs4 buf len"
  by (simp add: n_ucs4_def n_ucs4_loop_take)

lemma n_ucs4_loop_total:
  "i \<le> len \<Longrightarrow> len \<le> length buf \<Longrightarrow> 2 \<le> len \<Longrightarrow> len \<le> 6 \<Longrightarrow> \<exists>u. n_ucs4_loop n buf len s i = Inr u"
proof (induction i arbitrary: n s)
  case (Suc i)
  have "len - 2 < length fmask" using Suc.prems by (simp add: fmask_def less_diff_conv2)
  then have "rd fmask (len - 2) = Inr (fmask ! (len - 2))" by (simp add: rd_def)
  then show ?case using Suc by (cases "i = 0") (auto simp: rd_def[of buf])
qed simp

lemma n_ucs4_total: "len \<le> length buf \<Longrightarrow> 2 \<le> len \<Longrightarrow> len \<le> 6 \<Longrightarrow> \<exists>u. n_ucs4 buf len = Inr u"
  unfolding n_ucs4_def using n_ucs4_loop_total by blast

lemma utf8_len_bounds: "1 \<le> utf8_len c" "utf8_len c \<le> 7"
  by (simp_all add: utf8_len_def)

lemma put_bytes_append:
  "length xs = length ds \<Longrightarrow> put_bytes (pre @ xs @ ys) (length pre) ds = Inr (pre @ ds @ ys)"
proof (induction ds arbitrary: pre xs)
  case (Cons d ds)
  then obtain x xs' where xs: "xs = x # xs'" "length xs' = length ds" by (cases xs) auto
  from Cons.IH[OF xs(2), of "pre @ [d]"] show ?case by (simp add: xs(1))
qed simp

lemma put_bytes_gap:
  assumes "length cs = length ds"
  obtains gap' where "length gap' = length gap"
    "put_bytes (pre @ gap @ cs @ ys) (length pre) ds = Inr (pre @ ds @ gap' @ ys)"
proof -
  let ?xs = "take (length ds) (gap @ cs)" and ?g = "drop (length ds) (gap @ cs)"
  have split: "?xs @ ?g @ ys = gap @ cs @ ys" by (metis append.assoc append_take_drop_id)
  have "put_bytes (pre @ ?xs @ ?g @ ys) (length pre) ds = Inr (pre @ ds @ ?g @ ys)"
    using assms by (intro put_bytes_append) simp
  from that[OF _ this[unfolded split]] show ?thesis using assms by simp
qed

lemma n_utf8_end:
  "n_utf8_loop (pre @ gap @ 0 # ys) (length pre + length gap) out chr len i st =
   (if st \<noteq> 0 then Inr (pre @ gap @ 0 # ys, Some NADS_ERR_BAD_UTF8)
    else rbind (wr (pre @ gap @ 0 # ys) out 0) (\<lambda>m. Inr (m, None)))"
  by (subst n_utf8_loop.simps) simp

lemma n_utf8_plain:
  assumes "c \<noteq> 0" "c AND 128 = 0"
  obtains gap' where "length gap' = length gap"
    "n_utf8_loop (pre @ gap @ c # ys) (length pre + length gap) (length pre) chr len i 0 =
     n_utf8_loop ((pre @ [c]) @ gap' @ ys) (length (pre @ [c]) + length gap') (length (pre @ [c])) chr len i 0"
proof -
  obtain gap' where g: "length gap' = length gap"
    "wr (pre @ gap @ c # ys) (length pre) c = Inr (pre @ c # gap' @ ys)"
    by (rule wr_gap)
  show ?thesis by (rule that[OF g(1)]) (subst n_utf8_loop.simps, simp add: assms g sint_byte)
qed

lemma n_utf8_lead:
  assumes "c \<noteq> 0" "c AND 128 \<noteq> 0" "length chr = 6"
  shows "n_utf8_loop (pre @ gap @ c # ys) (length pre + length gap) out chr len i 0 =
     n_utf8_loop (pre @ (gap @ [c]) @ ys) (length pre + length (gap @ [c])) out (chr[0 := c]) (utf8_len c) 1 1"
  using assms by (subst n_utf8_loop.simps) (simp add: sint_byte wr_def)

lemma n_utf8_collect:
  assumes "c \<noteq> 0" "length chr = 6" "i < 6" "Suc i < len"
  shows "n_utf8_loop (pre @ gap @ c # ys) (length pre + length gap) out chr len i 1 =
     n_utf8_loop (pre @ (gap @ [c]) @ ys) (length pre + length (gap @ [c])) out (chr[i := c]) len (Suc i) 1"
  using assms by (subst n_utf8_loop.simps) (simp add: sint_byte wr_def)

lemma n_utf8_overflow:
  assumes "c \<noteq> 0" "length chr = 6"
  shows "n_utf8_loop (pre @ gap @ c # ys) (length pre + length gap) out chr len 6 1 = Inl Out_of_bounds"
  using assms by (subst n_utf8_loop.simps) (simp add: sint_byte wr_def)

text \<open>The bytes of a sequence up to its last one.\<close>

lemma n_utf8_collect_many:
  assumes "0 \<notin> set cs" "length chr = 6" "i + length cs < len" "i + length cs \<le> 6"
  shows "n_utf8_loop (pre @ gap @ cs @ ys) (length pre + length gap) out chr len i 1 =
     n_utf8_loop (pre @ (gap @ cs) @ ys) (length pre + length (gap @ cs)) out
       (take i chr @ cs @ drop (i + length cs) chr) len (i + length cs) 1"
  using assms
proof (induction cs arbitrary: gap chr i)
  case (Cons c cs)
  have "take (Suc i) (chr[i := c]) = take i chr @ [c]"
    using Cons.prems by (simp add: take_Suc_conv_app_nth)
  then show ?case
    using Cons.prems Cons.IH[of "chr[i := c]" "Suc i" "gap @ [c]"]
      n_utf8_collect[of c chr i len pre gap "cs @ ys" out]
    by simp
qed simp

text \<open>The last byte of a sequence of at least two bytes.\<close>

lemma n_utf8_last:
  assumes "c \<noteq> 0" "length chr = 6" "len = Suc i" "i < 6" "length gap \<ge> i"
    "n_ucs4 (take i chr @ [c]) len = Inr u"
  obtains gap' where
    "n_utf8_loop (pre @ gap @ c # ys) (length pre + length gap) (length pre) chr len i 1 =
     (let ws = (if u AND 0xffffff00 \<noteq> 0 then take i chr @ [c] else [ucast (u AND 0xff)]) in
      n_utf8_loop ((pre @ ws) @ gap' @ ys) (length (pre @ ws) + length gap') (length (pre @ ws))
        (chr[i := c]) len (Suc i) 0)"
    "length gap' + length (if u AND 0xffffff00 \<noteq> 0 then take i chr @ [c] else [ucast (u AND 0xff)])
      = Suc (length gap)"
proof -
  have chr: "take len (chr[i := c]) = take i chr @ [c]"
    using assms by (simp add: take_Suc_conv_app_nth)
  have ucs: "n_ucs4 (chr[i := c]) len = Inr u"
    using n_ucs4_take[of len "chr[i := c]"] assms(6) chr by simp
  show ?thesis
  proof (cases "u AND 0xffffff00 = 0")
    case True
    obtain gap' where g: "length gap' = length gap"
      "wr (pre @ gap @ c # ys) (length pre) (ucast (u AND 0xff)) = Inr (pre @ ucast (u AND 0xff) # gap' @ ys)"
      by (rule wr_gap)
    show ?thesis
      by (rule that[of gap'], subst n_utf8_loop.simps)
         (use assms ucs True g in \<open>simp_all add: sint_byte wr_def[of chr]\<close>)
  next
    case False
    let ?k = "length gap - i" and ?ds = "take i chr @ [c]"
    have split: "gap = take ?k gap @ drop ?k gap" by simp
    obtain gap' where g: "length gap' = length (take ?k gap)"
      "put_bytes (pre @ take ?k gap @ (drop ?k gap @ [c]) @ ys) (length pre) ?ds = Inr (pre @ ?ds @ gap' @ ys)"
      by (rule put_bytes_gap[where cs = "drop ?k gap @ [c]" and ds = ?ds]) (use assms in simp)
    have "take ?k gap @ (drop ?k gap @ [c]) @ ys = gap @ c # ys"
      by (metis append.assoc append_Cons append_Nil append_take_drop_id)
    note put = g(2)[unfolded this]
    have "i + length gap' = length gap" using g(1) assms(5) by simp
    then show ?thesis
      by (intro that[of gap'], subst n_utf8_loop.simps)
         (use assms(1-5) ucs False put chr in \<open>simp_all add: sint_byte wr_def[of chr] add.assoc\<close>)
  qed
qed

lemma n_utf8_stray:
  assumes "c \<noteq> 0" "length chr = 6"
  shows "n_utf8_loop (pre @ gap @ c # ys) (length pre + length gap) out chr 1 1 1 = Inl Out_of_bounds"
  using assms by (subst n_utf8_loop.simps) (simp add: sint_byte wr_def n_ucs4_def)

text \<open>A pass that may fault agrees with its specification.\<close>

definition agrees ::
  "(bytes \<times> nat option) res \<Rightarrow> (bytes \<times> nat option) res \<Rightarrow> bytes \<Rightarrow> nat \<Rightarrow> bytes \<Rightarrow> bool" where
  "agrees r spec pre room ys =
    (case spec of Inl f \<Rightarrow> r = Inl f | Inr (ws, e) \<Rightarrow> rewrote r pre ws room ys e)"

lemma agrees_simps [simp]:
  "agrees r (Inl f) pre room ys \<longleftrightarrow> r = Inl f"
  "agrees r (Inr (ws, e)) pre room ys \<longleftrightarrow> rewrote r pre ws room ys e"
  by (simp_all add: agrees_def)

lemma agrees_append:
  "agrees r spec (pre @ ws) room ys \<Longrightarrow>
   agrees r (rbind spec (\<lambda>(us, e). Inr (ws @ us, e))) pre (length ws + room) ys"
  by (cases spec) (auto dest: rewrote_append)

definition utf8_ok :: "bytes \<Rightarrow> bytes \<Rightarrow> bool" where
  "utf8_ok s ys \<longleftrightarrow> (\<forall>pre gap chr len i. length chr = 6 \<longrightarrow>
     agrees (n_utf8_loop (pre @ gap @ s @ 0 # ys) (length pre + length gap) (length pre) chr len i 0)
       (utf8_fold s) pre (Suc (length gap + length s)) ys)"

lemma utf8_okD:
  "utf8_ok s ys \<Longrightarrow> length chr = 6 \<Longrightarrow>
   agrees (n_utf8_loop (pre @ gap @ s @ 0 # ys) (length pre + length gap) (length pre) chr len i 0)
     (utf8_fold s) pre (Suc (length gap + length s)) ys"
  unfolding utf8_ok_def by blast

lemma utf8_ok_step:
  assumes "utf8_ok t ys" "length chr = 6"
    "r = n_utf8_loop ((pre @ ws) @ gap' @ t @ 0 # ys) (length (pre @ ws) + length gap') (length (pre @ ws)) chr len i 0"
    "room = length ws + Suc (length gap' + length t)"
  shows "agrees r (rbind (utf8_fold t) (\<lambda>(us, e). Inr (ws @ us, e))) pre room ys"
  unfolding assms(3,4) by (rule agrees_append[OF utf8_okD[OF assms(1,2)]])

lemma utf8_ok_plain:
  assumes "utf8_ok s ys" "c \<noteq> 0" "c AND 128 = 0"
  shows "utf8_ok (c # s) ys"
  unfolding utf8_ok_def
proof (intro allI impI)
  fix pre gap chr :: bytes and len i :: nat
  assume chr: "length chr = 6"
  obtain gap' where g: "length gap' = length gap"
    "n_utf8_loop (pre @ gap @ c # s @ 0 # ys) (length pre + length gap) (length pre) chr len i 0 =
     n_utf8_loop ((pre @ [c]) @ gap' @ s @ 0 # ys) (length (pre @ [c]) + length gap') (length (pre @ [c])) chr len i 0"
    using assms(2,3) by (rule n_utf8_plain)
  show "agrees (n_utf8_loop (pre @ gap @ (c # s) @ 0 # ys) (length pre + length gap) (length pre) chr len i 0)
     (utf8_fold (c # s)) pre (Suc (length gap + length (c # s))) ys"
    using utf8_ok_step[OF assms(1) chr g(2) refl] assms(3) g(1) by (simp add: utf8_fold.simps(2))
qed

lemma utf8_ok_short:
  assumes "length s < max len 2 - 1" "0 \<notin> set s" "length chr = 5" "1 \<le> len" "len \<le> 7"
  shows "n_utf8_loop (pre @ gap @ s @ 0 # ys) (length pre + length gap) out (b # chr) len 1 1 =
    Inr (pre @ gap @ s @ 0 # ys, Some NADS_ERR_BAD_UTF8)"
proof -
  have "n_utf8_loop (pre @ gap @ s @ 0 # ys) (length pre + length gap) out (b # chr) len 1 1 =
     n_utf8_loop (pre @ (gap @ s) @ 0 # ys) (length pre + length (gap @ s)) out
       (take 1 (b # chr) @ s @ drop (1 + length s) (b # chr)) len (1 + length s) 1"
  proof (cases "s = []")
    case False
    then show ?thesis using assms by (intro n_utf8_collect_many) (auto simp: max_def split: if_splits)
  qed simp
  then show ?thesis by (simp only: n_utf8_end) simp
qed

lemma utf8_ok_seven:
  assumes "6 \<le> length s" "0 \<notin> set s" "length chr = 5"
  shows "n_utf8_loop (pre @ gap @ s @ ys) (length pre + length gap) out (b # chr) 7 1 1 = Inl Out_of_bounds"
proof -
  obtain c t where s: "s = take 5 s @ c # t"
    using id_take_nth_drop[of 5 s] assms(1) by auto
  then have "c \<noteq> 0" "0 \<notin> set (take 5 s)" using assms(2) by (metis in_set_conv_decomp, meson in_set_takeD)
  have len: "length (take 5 s) = 5" using assms(1) by simp
  have "n_utf8_loop (pre @ gap @ take 5 s @ c # t @ ys) (length pre + length gap) out (b # chr) 7 1 1 =
     n_utf8_loop (pre @ (gap @ take 5 s) @ c # t @ ys) (length pre + length (gap @ take 5 s)) out
       (take 1 (b # chr) @ take 5 s @ drop (1 + length (take 5 s)) (b # chr)) 7 (1 + length (take 5 s)) 1"
    using \<open>0 \<notin> set (take 5 s)\<close> assms(3) len by (intro n_utf8_collect_many) simp_all
  also have "\<dots> = Inl Out_of_bounds"
    using n_utf8_overflow[OF \<open>c \<noteq> 0\<close>, of "take 1 (b # chr) @ take 5 s @ drop (1 + length (take 5 s)) (b # chr)" pre
      "gap @ take 5 s" "t @ ys" out 7] len assms(3) by simp
  finally show ?thesis using s by (metis append.assoc append_Cons)
qed

lemma utf8_ok_good:
  assumes "2 \<le> len" "len \<le> 6" "len - 1 \<le> length s" "0 \<notin> set s" "length chr = 5"
    and u: "n_ucs4 (b # take (len - 1) s) len = Inr u"
    and IH: "utf8_ok (drop (len - 1) s) ys"
  shows "agrees (n_utf8_loop (pre @ (gap @ [b]) @ s @ 0 # ys) (length pre + length (gap @ [b])) (length pre) (b # chr) len 1 1)
    (rbind (utf8_fold (drop (len - 1) s)) (\<lambda>(ws, e).
      Inr ((if u AND 0xffffff00 \<noteq> 0 then b # take (len - 1) s else [ucast (u AND 0xff)]) @ ws, e)))
    pre (Suc (length gap + length (b # s))) ys"
proof -
  obtain i where i: "len = Suc (Suc i)" using assms(1) by (metis add_2_eq_Suc le_Suc_ex)
  define cs c t where "cs = take i s" and "c = s ! i" and "t = drop (Suc i) s"
  have il: "i < length s" using assms(3) i by simp
  then have s: "s = cs @ c # t" unfolding cs_def c_def t_def by (rule id_take_nth_drop)
  have cs: "length cs = i" "0 \<notin> set cs" "c \<noteq> 0"
    using il assms(4)[unfolded s] by (simp_all add: cs_def min_def)
  have tk: "take (len - 1) s = cs @ [c]" "drop (len - 1) s = t"
    using il i by (simp_all add: cs_def c_def t_def take_Suc_conv_app_nth)
  define chr' where "chr' = take 1 (b # chr) @ cs @ drop (1 + length cs) (b # chr)"
  have chr': "length chr' = 6" "take (Suc i) chr' = b # cs"
    using assms(2,5) cs(1) i by (simp_all add: chr'_def)
  let ?g = "(gap @ [b]) @ cs" and ?ws = "if u AND 0xffffff00 \<noteq> 0 then take (Suc i) chr' @ [c] else [ucast (u AND 0xff)]"
  have r: "n_utf8_loop (pre @ (gap @ [b]) @ cs @ c # t @ 0 # ys) (length pre + length (gap @ [b])) (length pre) (b # chr) len 1 1 =
     n_utf8_loop (pre @ ?g @ c # t @ 0 # ys) (length pre + length ?g) (length pre) chr' len (Suc i) 1"
    using n_utf8_collect_many[of cs "b # chr" 1 len pre "gap @ [b]" "c # t @ 0 # ys" "length pre"] cs assms(2,5) i
    by (simp add: chr'_def)
  obtain gap' where g:
    "n_utf8_loop (pre @ ?g @ c # t @ 0 # ys) (length pre + length ?g) (length pre) chr' len (Suc i) 1 =
     (let ws = ?ws in
      n_utf8_loop ((pre @ ws) @ gap' @ t @ 0 # ys) (length (pre @ ws) + length gap') (length (pre @ ws))
        (chr'[Suc i := c]) len (Suc (Suc i)) 0)"
    "length gap' + length ?ws = Suc (length ?g)"
    by (rule n_utf8_last[OF cs(3) chr'(1) i, of ?g u]) (use assms(2) i cs(1) u tk chr'(2) in simp_all)
  have room: "Suc (length gap + length (b # s)) = length ?ws + Suc (length gap' + length t)"
    using g(2) cs(1) s by simp
  have "agrees (n_utf8_loop (pre @ ?g @ c # t @ 0 # ys) (length pre + length ?g) (length pre) chr' len (Suc i) 1)
     (rbind (utf8_fold t) (\<lambda>(us, e). Inr (?ws @ us, e))) pre (Suc (length gap + length (b # s))) ys"
    by (rule utf8_ok_step[OF IH[unfolded tk] _ g(1)[unfolded Let_def] room]) (use chr' in simp)
  then show ?thesis unfolding r[symmetric] tk using s chr'(2) by (metis append.assoc append_Cons)
qed

lemma utf8_ok_lead:
  assumes IH: "utf8_ok (drop (max (utf8_len b) 2 - 1) s) ys"
    and b: "b \<noteq> 0" "b AND 128 \<noteq> 0" and s: "0 \<notin> set s"
  shows "utf8_ok (b # s) ys"
  unfolding utf8_ok_def
proof (intro allI impI)
  fix pre gap chr :: bytes and l0 i0 :: nat
  assume "length chr = 6"
  then obtain chr' where chr: "chr[0 := b] = b # chr'" "length chr' = 5" by (cases chr) auto
  let ?len = "utf8_len b" and ?g = "gap @ [b]"
  let ?r = "n_utf8_loop (pre @ ?g @ s @ 0 # ys) (length pre + length ?g) (length pre) (b # chr') ?len 1 1"
  have start: "n_utf8_loop (pre @ gap @ (b # s) @ 0 # ys) (length pre + length gap) (length pre) chr l0 i0 0 = ?r"
    using n_utf8_lead[OF b \<open>length chr = 6\<close>, of pre gap "s @ 0 # ys"] chr(1) by simp
  have len: "1 \<le> ?len" "?len \<le> 7" by (rule utf8_len_bounds)+
  note spec = utf8_fold.simps(2)[of b s, unfolded Let_def] b(2)
  consider (short) "length s < max ?len 2 - 1" | (stray) "1 \<le> length s" "?len = 1"
    | (seven) "6 \<le> length s" "?len = 7" | (good) "?len - 1 \<le> length s" "2 \<le> ?len" "?len \<le> 6"
    using len by linarith
  then have "agrees ?r (utf8_fold (b # s)) pre (Suc (length gap + length (b # s))) ys"
  proof cases
    case short
    then show ?thesis
      using utf8_ok_short[OF short s chr(2) len, of pre ?g] rewrote_error[of pre "gap @ b # s @ [0]" ys]
      by (simp add: spec)
  next
    case stray
    then obtain c t where "s = c # t" "c \<noteq> 0" using s by (cases s) auto
    then have "?r = Inl Out_of_bounds"
      using n_utf8_stray[of c "b # chr'" pre ?g] chr(2) stray by simp
    moreover have "utf8_fold (b # s) = Inl Out_of_bounds" using stray by (auto simp: spec)
    ultimately show ?thesis by simp
  next
    case seven
    then show ?thesis using utf8_ok_seven[OF seven(1) s chr(2), of pre ?g] by (simp add: spec)
  next
    case good
    then have m: "max ?len 2 - 1 = ?len - 1" by simp
    have "?len \<le> length (b # take (?len - 1) s)" using good(1) by simp
    then obtain u where u: "n_ucs4 (b # take (?len - 1) s) ?len = Inr u"
      using n_ucs4_total good(2,3) by blast
    have "utf8_fold (b # s) = rbind (utf8_fold (drop (?len - 1) s)) (\<lambda>(ws, e).
        Inr ((if u AND 0xffffff00 \<noteq> 0 then b # take (?len - 1) s else [ucast (u AND 0xff)]) @ ws, e))"
      using good u m by (simp add: spec)
    then show ?thesis using utf8_ok_good[OF good(2,3,1) s chr(2) u IH[unfolded m]] by (simp only:)
  qed
  then show "agrees (n_utf8_loop (pre @ gap @ (b # s) @ 0 # ys) (length pre + length gap) (length pre) chr l0 i0 0)
     (utf8_fold (b # s)) pre (Suc (length gap + length (b # s))) ys"
    by (simp only: start)
qed

lemma utf8_ok_all: "0 \<notin> set s \<Longrightarrow> utf8_ok s ys"
proof (induction s rule: length_induct)
  case (1 s)
  show ?case
  proof (cases s)
    case Nil
    then show ?thesis using rewrote_done unfolding utf8_ok_def by (simp add: n_utf8_end)
  next
    case (Cons b t)
    have "0 \<notin> set (drop k t)" for k using 1(2) Cons by (meson in_set_dropD list.set_intros(2))
    then have "utf8_ok (drop k t) ys" for k using 1(1) Cons by simp
    from this[of 0] this[of "max (utf8_len b) 2 - 1"] show ?thesis
      using 1(2) Cons utf8_ok_plain utf8_ok_lead by (cases "b AND 128 = 0") auto
  qed
qed

theorem n_utf8_refines:
  assumes "0 \<notin> set s"
  shows "agrees (n_utf8 (pre @ s @ 0 # ys) (length pre)) (utf8_fold s) pre (Suc (length s)) ys"
  using utf8_okD[OF utf8_ok_all[OF assms], of "replicate 6 0" pre "[]" ys 0 0] by (simp add: n_utf8_def)

end
