(* ===== verification/PathSpec.thy ===== *)
theory PathSpec
  imports UriSpec "HOL-Library.Sublist"
begin

text \<open>
  The path pass of \<open>normalize.c\<close> as functions on strings: backslashes become slashes,
  runs of slashes collapse, \<open>.\<close> components disappear and \<open>..\<close> components remove their
  predecessor.  The in-place \<open>n_path\<close> computes it, and its results are canonical.
\<close>

section \<open>Collapsing slashes\<close>

definition slashed :: "byte \<Rightarrow> byte" where
  "slashed c = (if c = BACKSLASH then SLASH else c)"

text \<open>The flag says whether the previous byte was a slash.\<close>

fun collapse :: "bool \<Rightarrow> bytes \<Rightarrow> bytes" where
  "collapse p [] = []"
| "collapse p (c # s) =
    (if slashed c = SLASH then (if p then collapse True s else SLASH # collapse True s)
     else c # collapse False s)"

lemma slashed_nul: "slashed c = 0 \<longleftrightarrow> c = 0"
  by (simp add: slashed_def)

lemma collapse_nul_free: "0 \<notin> set s \<Longrightarrow> 0 \<notin> set (collapse p s)"
  by (induction s arbitrary: p) auto

lemma collapse_length: "length (collapse p s) \<le> length s"
  by (induction s arbitrary: p) (auto simp: le_SucI)

lemma collapse_no_backslash: "BACKSLASH \<notin> set (collapse p s)"
  by (induction s arbitrary: p) (auto simp: slashed_def)

text \<open>One byte of \<open>n_pcount\<close>, with \<open>last\<close> at the preceding byte or not.\<close>

lemma n_pcount_skip:
  assumes "slashed c = SLASH" "lst \<noteq> None" "Suc (the lst) = length pre + length gap"
  shows "n_pcount_loop (pre @ gap @ c # ys) (length pre + length gap) out lst cnt =
    n_pcount_loop (pre @ (gap @ [SLASH]) @ ys) (length pre + length (gap @ [SLASH])) out
      (Some (length pre + length gap)) cnt"
  using assms by (subst n_pcount_loop.simps) (auto simp: slashed_def split: if_splits)

lemma n_pcount_keep:
  assumes "c \<noteq> 0" "\<not> (slashed c = SLASH \<and> lst \<noteq> None \<and> Suc (the lst) = length pre + length gap)"
  obtains gap' where "length gap' = length gap"
    "n_pcount_loop (pre @ gap @ c # ys) (length pre + length gap) (length pre) lst cnt =
     n_pcount_loop ((pre @ [slashed c]) @ gap' @ ys) (length (pre @ [slashed c]) + length gap')
       (length (pre @ [slashed c]))
       (if slashed c = SLASH then Some (length pre + length gap) else lst)
       (if slashed c = SLASH then Suc cnt else cnt)"
proof -
  obtain gap' where g: "length gap' = length gap"
    "wr (pre @ gap @ slashed c # ys) (length pre) (slashed c) = Inr (pre @ slashed c # gap' @ ys)"
    by (rule wr_gap)
  have "rbind (if c = BACKSLASH then wr (pre @ gap @ c # ys) (length pre + length gap) SLASH
      else Inr (pre @ gap @ c # ys)) f = f (pre @ gap @ slashed c # ys)"
    for f :: "bytes \<Rightarrow> (bytes \<times> nat) res"
    by (simp add: slashed_def)
  then show ?thesis
    by (intro that[OF g(1)], subst n_pcount_loop.simps)
       (use assms g in \<open>auto simp: Let_def slashed_nul\<close>)
qed

lemma n_pcount_loop_refines:
  assumes "0 \<notin> set s" "p \<longleftrightarrow> lst \<noteq> None \<and> Suc (the lst) = length pre + length gap"
    "\<forall>l. lst = Some l \<longrightarrow> l < length pre + length gap"
  shows "\<exists>junk. n_pcount_loop (pre @ gap @ s @ 0 # ys) (length pre + length gap) (length pre) lst cnt =
      Inr (pre @ collapse p s @ 0 # junk @ ys, cnt + count_list (collapse p s) SLASH) \<and>
    length (collapse p s) + length junk = length gap + length s"
  using assms
proof (induction s arbitrary: p pre gap lst cnt)
  case Nil
  obtain gap' where "length gap' = length gap"
    "wr (pre @ gap @ 0 # ys) (length pre) 0 = Inr (pre @ 0 # gap' @ ys)"
    by (rule wr_gap)
  then show ?case by (intro exI[of _ gap'], subst n_pcount_loop.simps) simp
next
  case (Cons c s)
  show ?case
  proof (cases "slashed c = SLASH \<and> p")
    case True
    then show ?thesis
      using Cons.IH[of True "Some (length pre + length gap)" pre "gap @ [SLASH]" cnt] Cons.prems
        n_pcount_skip[of c lst pre gap "s @ 0 # ys" "length pre" cnt]
      by auto
  next
    case False
    let ?lst = "if slashed c = SLASH then Some (length pre + length gap) else lst"
      and ?cnt = "if slashed c = SLASH then Suc cnt else cnt"
    obtain gap' where g: "length gap' = length gap"
      "n_pcount_loop (pre @ gap @ c # s @ 0 # ys) (length pre + length gap) (length pre) lst cnt =
       n_pcount_loop ((pre @ [slashed c]) @ gap' @ s @ 0 # ys) (length (pre @ [slashed c]) + length gap')
         (length (pre @ [slashed c])) ?lst ?cnt"
      by (rule n_pcount_keep[of c lst pre gap "s @ 0 # ys" cnt]) (use False Cons.prems in auto)
    have "\<exists>junk. n_pcount_loop ((pre @ [slashed c]) @ gap' @ s @ 0 # ys) (length (pre @ [slashed c]) + length gap')
         (length (pre @ [slashed c])) ?lst ?cnt =
       Inr ((pre @ [slashed c]) @ collapse (slashed c = SLASH) s @ 0 # junk @ ys,
         ?cnt + count_list (collapse (slashed c = SLASH) s) SLASH) \<and>
       length (collapse (slashed c = SLASH) s) + length junk = length gap' + length s"
      by (rule Cons.IH) (use Cons.prems g(1) in auto)
    moreover have "slashed c \<noteq> SLASH \<Longrightarrow> slashed c = c" by (auto simp: slashed_def)
    ultimately show ?thesis using False g by auto
  qed
qed

lemma n_pcount_refines:
  assumes "0 \<notin> set s"
  shows "\<exists>junk. n_pcount (pre @ s @ 0 # ys) (length pre) =
      Inr (pre @ collapse False s @ 0 # junk @ ys, count_list (collapse False s) SLASH) \<and>
    length (collapse False s) + length junk = length s"
  using n_pcount_loop_refines[OF assms, of False None pre "[]" ys 0] by (simp add: n_pcount_def)

section \<open>Components\<close>

text \<open>The parts between slashes; the first one is in front of the first slash.\<close>

fun splits :: "bytes \<Rightarrow> bytes list" where
  "splits [] = [[]]"
| "splits (c # s) = (if c = SLASH then [] # splits s else (c # hd (splits s)) # tl (splits s))"

text \<open>The indices behind the slashes of a string that starts at index \<open>p\<close>.\<close>

fun slash_offs :: "nat \<Rightarrow> bytes \<Rightarrow> nat list" where
  "slash_offs p [] = []"
| "slash_offs p (c # s) = (if c = SLASH then Suc p # slash_offs (Suc p) s else slash_offs (Suc p) s)"

definition cut :: "bytes \<Rightarrow> bytes" where
  "cut = map (\<lambda>c. if c = SLASH then 0 else c)"

lemma cut_simps [simp]:
  "cut [] = []" "cut (c # s) = (if c = SLASH then 0 else c) # cut s" "length (cut s) = length s"
  by (simp_all add: cut_def)

lemma splits_not_Nil [simp]: "splits s \<noteq> []"
  by (cases s) auto

lemma length_slash_offs: "length (slash_offs p s) = count_list s SLASH"
  by (induction s arbitrary: p) auto

lemma n_path_cut_refines:
  "0 \<notin> set s \<Longrightarrow>
   n_path_cut (pre @ s @ 0 # ys) (length pre) (cs @ replicate (count_list s SLASH) None) (length cs) =
   Inr (pre @ cut s @ 0 # ys, cs @ map Some (slash_offs (length pre) s))"
proof (induction s arbitrary: pre cs)
  case Nil
  show ?case by (subst n_path_cut.simps) simp
next
  case (Cons c s)
  then show ?case
    using Cons.IH[of "pre @ [0]" "cs @ [Some (Suc (length pre))]"] Cons.IH[of "pre @ [c]" cs]
    by (subst n_path_cut.simps) auto
qed

lemma cstr_cut: "0 \<notin> set s \<Longrightarrow> cstr (cut s @ 0 # ys) = hd (splits s)"
  by (induction s) auto

lemma slash_offs_string:
  assumes "0 \<notin> set s"
  shows "map (\<lambda>p. cstr (drop p (pre @ cut s @ 0 # ys))) (slash_offs (length pre) s) = tl (splits s)"
  using assms
proof (induction s arbitrary: pre)
  case (Cons c s)
  then show ?case
    using Cons.IH[of "pre @ [if c = SLASH then 0 else c]"] cstr_cut[of s ys]
    by (auto simp: hd_Cons_tl)
qed simp

lemma slash_offs_bound: "q \<in> set (slash_offs p s) \<Longrightarrow> p < q \<and> p + length (hd (splits s)) < q \<and> q \<le> p + length s"
  by (induction s arbitrary: p) (fastforce split: if_splits)+

text \<open>Each component ends before the next one starts, and inside the string.\<close>

definition spaced :: "bytes \<Rightarrow> nat list \<Rightarrow> bool" where
  "spaced m = sorted_wrt (\<lambda>p q. p + length (cstr (drop p m)) < q)"

lemma slash_offs_spaced:
  "0 \<notin> set s \<Longrightarrow> spaced (pre @ cut s @ 0 # ys) (slash_offs (length pre) s)"
proof (induction s arbitrary: pre)
  case (Cons c s)
  then show ?case
    using Cons.IH[of "pre @ [if c = SLASH then 0 else c]"] cstr_cut[of s ys]
    by (auto simp: spaced_def dest: slash_offs_bound)
qed (simp add: spaced_def)

lemma slash_offs_inside:
  "0 \<notin> set s \<Longrightarrow> q \<in> set (slash_offs (length pre) s) \<Longrightarrow>
   q + length (cstr (drop q (pre @ cut s @ 0 # ys))) \<le> length pre + length s \<and>
   0 \<in> set (drop q (pre @ cut s @ 0 # ys))"
proof (induction s arbitrary: pre)
  case (Cons c s)
  have "length (hd (splits s)) \<le> length s" by (induction s) auto
  with Cons show ?case
    using Cons.IH[of "pre @ [if c = SLASH then 0 else c]"] cstr_cut[of s ys]
    by (auto split: if_splits)
qed simp

section \<open>Removing dot components\<close>

text \<open>\<open>f\<close> names a component; \<open>out\<close> holds the components kept so far.\<close>

fun resolve :: "('a \<Rightarrow> bytes) \<Rightarrow> 'a list \<Rightarrow> 'a list \<Rightarrow> 'a list option" where
  "resolve f out [] = Some out"
| "resolve f out (c # cs) =
    (if f c = [DOT] then resolve f out cs
     else if f c = [DOT, DOT] then (if out = [] then None else resolve f (butlast out) cs)
     else resolve f (out @ [c]) cs)"

lemma resolve_map: "resolve id (map f out) (map f cs) = map_option (map f) (resolve f out cs)"
proof (induction cs arbitrary: out)
  case (Cons c cs)
  then show ?case using Cons[of "butlast out"] Cons[of "out @ [c]"] by (simp add: map_butlast)
qed simp

lemma resolve_set: "resolve f out cs = Some r \<Longrightarrow> set r \<subseteq> set out \<union> set cs"
proof (induction f out cs rule: resolve.induct)
  case (2 f out c cs)
  consider "f c = [DOT]" | "f c = [DOT, DOT]" | "f c \<noteq> [DOT]" "f c \<noteq> [DOT, DOT]" by blast
  then show ?case
  proof cases
    case 2
    then show ?thesis using 2 "2.IH"(2) "2.prems" by (auto split: if_splits dest: in_set_butlastD)
  qed (use 2 in auto)
qed simp

lemma resolve_sorted_wrt:
  "resolve f out cs = Some r \<Longrightarrow> sorted_wrt P (out @ cs) \<Longrightarrow> sorted_wrt P r"
proof (induction f out cs rule: resolve.induct)
  case (2 f out c cs)
  have out: "sorted_wrt P (out @ cs)" "sorted_wrt P ((out @ [c]) @ cs)"
    using "2.prems"(2) by (simp_all add: sorted_wrt_append)
  moreover have "sorted_wrt P (butlast out @ cs)"
    using out(1) by (cases out rule: rev_cases) (simp_all add: sorted_wrt_append)
  ultimately show ?case using 2 by (simp split: if_splits)
qed simp

definition dotless :: "bytes \<Rightarrow> bool" where
  "dotless c \<longleftrightarrow> c \<noteq> [DOT] \<and> c \<noteq> [DOT, DOT]"

lemma resolve_dotless_step:
  "resolve f out (c # cs) = Some r \<Longrightarrow> resolve f out cs = Some r \<or>
     resolve f (butlast out) cs = Some r \<or> dotless (f c) \<and> resolve f (out @ [c]) cs = Some r"
  by (auto simp: dotless_def split: if_splits)

lemma resolve_no_dots:
  "resolve f out cs = Some r \<Longrightarrow> list_all (\<lambda>c. dotless (f c)) out \<Longrightarrow> list_all (\<lambda>c. dotless (f c)) r"
proof (induction cs arbitrary: out)
  case (Cons c cs)
  have "list_all (\<lambda>c. dotless (f c)) (butlast out)"
    using Cons.prems(2) by (auto simp: list_all_iff dest: in_set_butlastD)
  moreover have "dotless (f c) \<Longrightarrow> list_all (\<lambda>c. dotless (f c)) (out @ [c])"
    using Cons.prems(2) by simp
  ultimately show ?case
    using resolve_dotless_step[OF Cons.prems(1)] Cons.IH Cons.prems(2) by blast
qed simp

section \<open>The three loops of n_path\<close>

definition stripped :: "((nat option list \<times> nat) option) res \<Rightarrow> nat list option \<Rightarrow> bool" where
  "stripped r ps = (case ps of None \<Rightarrow> r = Inr None
    | Some qs \<Rightarrow> \<exists>gap. r = Inr (Some (map Some qs @ gap, length qs)))"

lemma stripped_simps [simp]:
  "stripped r None \<longleftrightarrow> r = Inr None"
  "stripped r (Some qs) \<longleftrightarrow> (\<exists>gap. r = Inr (Some (map Some qs @ gap, length qs)))"
  by (simp_all add: stripped_def)

lemma n_path_strip_refines:
  assumes "list_all (\<lambda>p. string_at m p = Inr (f p)) ps"
  shows "stripped (n_path_strip m (length out + length gap + length ps) (map Some out @ gap @ map Some ps)
    (length out + length gap) (length out)) (resolve f out ps)"
  using assms
proof (induction ps arbitrary: out gap)
  case Nil
  show ?case by (subst n_path_strip.simps) simp
next
  case (Cons p ps)
  let ?c = "map Some out @ gap @ Some p # map Some ps"
  have p: "get_ptr ?c (length out + length gap) = Inr p" "string_at m p = Inr (f p)"
    using rd_gap[of "map Some out" gap "Some p" "map Some ps"] Cons.prems by (simp_all add: get_ptr_def)
  consider "f p = [DOT]" | "f p = [DOT, DOT]" "out = []" | l q where "f p = [DOT, DOT]" "out = l @ [q]"
    | "dotless (f p)" unfolding dotless_def by (metis rev_exhaust)
  then show ?case
  proof cases
    case 1
    then show ?thesis using Cons.IH[of out "gap @ [Some p]"] Cons.prems by (subst n_path_strip.simps) (simp add: p)
  next
    case 2
    then show ?thesis using p by (subst n_path_strip.simps) simp
  next
    case 3
    then show ?thesis using Cons.IH[of l "Some q # gap @ [Some p]"] Cons.prems p
      by (subst n_path_strip.simps) simp
  next
    case 4
    obtain gap' where g: "length gap' = length gap"
      "wr ?c (length out) (Some p) = Inr (map Some out @ Some p # gap' @ map Some ps)"
      using wr_gap[of gap "map Some out" "Some p" "map Some ps" "Some p"] by auto
    show ?thesis using 4 Cons.IH[of "out @ [p]" gap'] Cons.prems g by (subst n_path_strip.simps) (simp add: p dotless_def)
  qed
qed

lemma n_path_copy_refines:
  assumes "0 \<notin> set k"
  obtains gap' where "length gap' = length gap"
    "n_path_copy (pre @ gap @ k @ 0 # ys) (length pre) (length pre + length gap) =
     Inr ((pre @ k) @ gap' @ 0 # ys, length (pre @ k))"
proof -
  have "\<exists>gap'. length gap' = length gap \<and>
    n_path_copy (pre @ gap @ k @ 0 # ys) (length pre) (length pre + length gap) =
     Inr ((pre @ k) @ gap' @ 0 # ys, length (pre @ k))"
    using assms
  proof (induction k arbitrary: pre gap)
    case Nil
    show ?case by (intro exI[of _ gap], subst n_path_copy.simps) simp
  next
    case (Cons c k)
    obtain g where g: "length g = length gap"
      "wr (pre @ gap @ c # k @ 0 # ys) (length pre) c = Inr (pre @ c # g @ k @ 0 # ys)"
      by (rule wr_gap)
    from Cons.IH[of g "pre @ [c]"] Cons.prems g show ?case by (subst n_path_copy.simps) simp
  qed
  then show ?thesis using that by blast
qed

fun join :: "bytes list \<Rightarrow> bytes" where
  "join [] = []"
| "join [c] = c"
| "join (c # d # cs) = c @ SLASH # join (d # cs)"

text \<open>The third loop wrote \<open>w\<close> behind \<open>pre\<close> and left the bytes from \<open>q\<close> on as they were.\<close>

definition joined :: "(bytes \<times> nat) res \<Rightarrow> bytes \<Rightarrow> bytes \<Rightarrow> nat \<Rightarrow> bytes \<Rightarrow> bool" where
  "joined r pre w q m0 \<longleftrightarrow> (\<exists>m2. r = Inr (pre @ w @ m2, length pre + length w) \<and>
     length pre + length w < q \<and> length (pre @ w @ m2) = length m0 \<and> drop q (pre @ w @ m2) = drop q m0)"

lemma joined_append: "joined r (pre @ v) w q m0 \<Longrightarrow> joined r pre (v @ w) q m0"
  unfolding joined_def by auto

lemma cstr_split:
  assumes "0 \<in> set xs"
  obtains ys where "xs = cstr xs @ 0 # ys"
proof -
  have "\<exists>ys. xs = cstr xs @ 0 # ys" using assms by (induction xs) auto
  then show ?thesis using that by blast
qed

lemma drop_eq_mono: "drop p xs = drop p ys \<Longrightarrow> p \<le> n \<Longrightarrow> drop n xs = drop n ys"
  by (metis drop_drop le_add_diff_inverse2)

lemma n_path_join_refines:
  assumes "spaced m0 ps" "list_all (\<lambda>p. 0 \<in> set (drop p m0) \<and> p + length (cstr (drop p m0)) < q) ps"
    and "list_all (\<lambda>p. length pre \<le> p) ps" "ps \<noteq> [] \<longrightarrow> drop (hd ps) (pre @ m1) = drop (hd ps) m0"
    and "drop q (pre @ m1) = drop q m0" "length pre < q" "length (pre @ m1) = length m0"
  shows "joined (n_path_join (pre @ m1) (ds @ map Some ps @ gap) (length ds + length ps) (length pre) (length ds))
    pre (join (map (\<lambda>p. cstr (drop p m0)) ps)) q m0"
  using assms
proof (induction ps arbitrary: pre m1 ds)
  case Nil
  then show ?case unfolding joined_def by (subst n_path_join.simps) auto
next
  case (Cons p ps)
  define k where "k = cstr (drop p m0)"
  obtain ys where k: "drop p m0 = k @ 0 # ys" "0 \<notin> set k"
    using cstr_split[of "drop p m0"] Cons.prems(2) unfolding k_def by auto
  have pl: "length pre \<le> p" "p + length k < q" using Cons.prems(2,3) by (simp_all add: k_def)
  define g where "g = take (p - length pre) m1"
  have m1: "m1 = g @ k @ 0 # ys"
    using Cons.prems(4) k(1) pl(1) append_take_drop_id[of "p - length pre" m1] by (simp add: g_def)
  have "length (drop (p - length pre) m1) > 0" using Cons.prems(4) k(1) pl(1) by simp
  then have g: "length pre + length g = p" using pl(1) by (simp add: g_def)
  obtain g' where g': "length g' = length g" "n_path_copy (pre @ g @ k @ 0 # ys) (length pre) (length pre + length g) =
     Inr ((pre @ k) @ g' @ 0 # ys, length (pre @ k))"
    by (rule n_path_copy_refines[OF k(2)])
  have ptr: "get_ptr (ds @ Some p # map Some ps @ gap) (length ds) = Inr p" by (simp add: get_ptr_def)
  have tail: "drop n ((pre @ v) @ z @ ys) = drop n (pre @ m1)" if "p + length k < n" "length v + length z = length g + Suc (length k)" for n v z
  proof -
    have "n - (p + length k) = Suc (n - (length pre + length v + length z))" using that g by simp
    then show ?thesis using g m1 that by auto
  qed
  show ?case
  proof (cases ps)
    case Nil
    have "n_path_join (pre @ m1) (ds @ map Some [p] @ gap) (length ds + length [p]) (length pre) (length ds) =
      Inr (pre @ k @ g' @ 0 # ys, length pre + length k)"
      using g'(2) ptr g Nil by (subst n_path_join.simps, simp add: m1) (subst n_path_join.simps, simp)
    moreover have "drop q (pre @ k @ g' @ 0 # ys) = drop q m0"
      using tail[of q k "g' @ [0]"] pl(2) Cons.prems(5) g'(1) by simp
    moreover have "length (pre @ k @ g' @ 0 # ys) = length m0" using Cons.prems(7) g'(1) m1 by simp
    ultimately show ?thesis using pl g Nil unfolding joined_def by (auto simp: k_def)
  next
    case more: (Cons p' ps')
    obtain g2 where g2: "length g2 = length g'"
      "wr ((pre @ k) @ g' @ 0 # ys) (length (pre @ k)) SLASH = Inr ((pre @ k) @ SLASH # g2 @ ys)"
      by (rule wr_gap)
    let ?pre = "pre @ k @ [SLASH]" and ?m1 = "g2 @ ys"
    have start: "n_path_join (pre @ m1) (ds @ map Some (p # ps) @ gap) (length ds + length (p # ps)) (length pre) (length ds) =
      n_path_join (?pre @ ?m1) ((ds @ [Some p]) @ map Some ps @ gap) (length (ds @ [Some p]) + length ps)
        (length ?pre) (length (ds @ [Some p]))"
      using g'(2) g2(2) ptr g more by (subst n_path_join.simps) (simp add: m1)
    have after: "list_all (\<lambda>n. p + length k < n) ps"
      using Cons.prems(1) by (simp add: spaced_def k_def list_all_iff)
    have rest: "drop n (?pre @ ?m1) = drop n m0" if "p + length k < n" for n
      using tail[of n "k @ [SLASH]" g2] g2(1) g'(1) drop_eq_mono[of p "pre @ m1" m0 n] Cons.prems(4) that by simp
    have "joined (n_path_join (?pre @ ?m1) ((ds @ [Some p]) @ map Some ps @ gap) (length (ds @ [Some p]) + length ps)
        (length ?pre) (length (ds @ [Some p]))) ?pre (join (map (\<lambda>p. cstr (drop p m0)) ps)) q m0"
    proof (rule Cons.IH)
      show "spaced m0 ps" using Cons.prems(1) by (simp add: spaced_def)
      show "list_all (\<lambda>p. length ?pre \<le> p) ps" using after g by (auto simp: list_all_iff)
      show "ps \<noteq> [] \<longrightarrow> drop (hd ps) (?pre @ ?m1) = drop (hd ps) m0" using after rest more by simp
      show "drop q (?pre @ ?m1) = drop q m0" using rest pl(2) by blast
      show "length ?pre < q" using after Cons.prems(2) g more by auto
      show "length (?pre @ ?m1) = length m0" using Cons.prems(7) g2(1) g'(1) m1 by simp
    qed (use Cons.prems(2) in simp)
    from joined_append[OF this] show ?thesis unfolding start using more by (simp add: k_def)
  qed
qed

section \<open>The path pass\<close>

definition path_spec :: "bytes \<Rightarrow> bytes option" where
  "path_spec s = map_option (\<lambda>cs. SLASH # join cs) (resolve id [] (tl (splits (collapse False s))))"

definition path_spec_res :: "bytes \<Rightarrow> bytes \<times> nat option" where
  "path_spec_res s = (case path_spec s of None \<Rightarrow> ([], Some NADS_ERR_TRAVERSAL) | Some w \<Rightarrow> (w, None))"

text \<open>The last two stores of \<open>n_path\<close>.\<close>

lemma n_path_finish:
  assumes "joined r (pre @ [x]) w (length pre + n) m0" "drop (length pre + n) m0 = ys" "length m0 = length pre + n + length ys"
  shows "rewrote (rbind r (\<lambda>(m, dst). rbind (wr m (length pre) SLASH) (\<lambda>m. rbind (wr m dst 0) (\<lambda>m. Inr (m, None)))))
    pre (SLASH # w) n ys None"
proof -
  obtain m2 where r: "r = Inr (pre @ x # w @ m2, Suc (length pre + length w))"
    and m2: "Suc (length w) < n" "length (x # w @ m2) = n + length ys" "drop (length pre + n) (pre @ x # w @ m2) = ys"
    using assms unfolding joined_def by auto
  define j where "j = take (n - Suc (length w)) m2"
  have dr: "drop n (x # w @ m2) = drop (n - Suc (length w)) m2"
    using m2(1) by (simp add: drop_Cons')
  then have "m2 = j @ ys" using m2(3) append_take_drop_id[of "n - Suc (length w)" m2] by (simp add: j_def)
  moreover have "length j = n - Suc (length w)" using m2(1,2) by (simp add: j_def)
  then obtain y j' where "j = y # j'" using m2(1) by (cases j) auto
  ultimately have m2': "m2 = y # j' @ ys" by simp
  have "wr (pre @ SLASH # w @ m2) (Suc (length pre + length w)) 0 = Inr (pre @ SLASH # w @ 0 # j' @ ys)"
    using wr_append[of "pre @ SLASH # w" y "j' @ ys" 0] by (simp add: m2')
  moreover have "length (SLASH # w) + length (0 # j') = n"
    using m2(1) \<open>length j = n - Suc (length w)\<close> \<open>j = y # j'\<close> by simp
  ultimately show ?thesis unfolding rewrote_def r by (intro exI[of _ "0 # j'"]) simp
qed

lemma n_path_refines:
  assumes s: "0 \<notin> set s" "s \<noteq> []"
  shows "rewrote (n_path (pre @ s @ 0 # ys) (length pre)) pre (fst (path_spec_res s)) (Suc (length s)) ys
    (snd (path_spec_res s))"
proof -
  let ?cs = "collapse False s"
  have cs: "0 \<notin> set ?cs" by (rule collapse_nul_free[OF s(1)])
  obtain j where j: "n_pcount (pre @ s @ 0 # ys) (length pre) = Inr (pre @ ?cs @ 0 # j @ ys, count_list ?cs SLASH)"
    "length ?cs + length j = length s"
    using n_pcount_refines[OF s(1)] by blast
  let ?m = "pre @ cut ?cs @ 0 # j @ ys" and ?ps = "slash_offs (length pre) ?cs" and ?n = "Suc (length s)"
  let ?f = "\<lambda>p. cstr (drop p ?m)"
  have cutm: "n_path_cut (pre @ ?cs @ 0 # j @ ys) (length pre) (replicate (count_list ?cs SLASH) None) 0 =
      Inr (?m, map Some ?ps)"
    using n_path_cut_refines[OF cs, of pre "j @ ys" "[]"] by simp
  have inside: "q \<in> set ?ps \<Longrightarrow> q + length (?f q) \<le> length pre + length ?cs \<and> 0 \<in> set (drop q ?m)" for q
    by (rule slash_offs_inside[OF cs])
  have at: "list_all (\<lambda>p. string_at ?m p = Inr (?f p)) ?ps"
    using inside by (auto simp: list_all_iff string_at_def)
  have strip: "stripped (n_path_strip ?m (count_list ?cs SLASH) (map Some ?ps) 0 0) (resolve ?f [] ?ps)"
    using n_path_strip_refines[OF at, of "[]" "[]"] by (simp add: length_slash_offs)
  have spec: "resolve id [] (tl (splits ?cs)) = map_option (map ?f) (resolve ?f [] ?ps)"
    using resolve_map[of ?f "[]" ?ps] slash_offs_string[OF cs, of pre "j @ ys"] by simp
  show ?thesis
  proof (cases "resolve ?f [] ?ps")
    case None
    then have "n_path (pre @ s @ 0 # ys) (length pre) = Inr (?m, Some NADS_ERR_TRAVERSAL)"
      using strip by (simp add: n_path_def j(1) cutm)
    then show ?thesis
      using rewrote_error[of pre "cut ?cs @ 0 # j" ys] j(2) spec None by (simp add: path_spec_res_def path_spec_def)
  next
    case (Some qs)
    then obtain gap where gap: "n_path_strip ?m (count_list ?cs SLASH) (map Some ?ps) 0 0 = Inr (Some (map Some qs @ gap, length qs))"
      using strip by auto
    have qs: "spaced ?m qs" "set qs \<subseteq> set ?ps"
      using resolve_sorted_wrt[OF Some] slash_offs_spaced[OF cs] resolve_set[OF Some] by (auto simp: spaced_def)
    let ?nil = "[] :: nat option list"
    obtain x xs where x: "cut ?cs @ 0 # j @ ys = x # xs" by (cases "cut ?cs") auto
    have q: "drop (length pre + ?n) ?m = ys" "length ?m = length pre + ?n + length ys"
      unfolding j(2)[symmetric] by (simp_all add: Suc_diff_le)
    have mx: "?m = (pre @ [x]) @ xs" by (simp add: x)
    have "joined (n_path_join ((pre @ [x]) @ xs) (?nil @ map Some qs @ gap) (length ?nil + length qs) (length (pre @ [x])) (length ?nil))
      (pre @ [x]) (join (map ?f qs)) (length pre + ?n) ?m"
    proof (rule n_path_join_refines)
      show "list_all (\<lambda>p. 0 \<in> set (drop p ?m) \<and> p + length (?f p) < length pre + ?n) qs"
        unfolding list_all_iff
      proof
        fix p assume "p \<in> set qs"
        then have "p + length (?f p) \<le> length pre + length ?cs" "0 \<in> set (drop p ?m)"
          using inside[of p] qs(2) by blast+
        then show "0 \<in> set (drop p ?m) \<and> p + length (?f p) < length pre + ?n" using j(2) by linarith
      qed
      show "list_all (\<lambda>p. length (pre @ [x]) \<le> p) qs"
        using qs(2) slash_offs_bound by (fastforce simp: list_all_iff)
    qed (use qs x s in simp_all)
    then have "joined (n_path_join ?m (map Some qs @ gap) (length qs) (Suc (length pre)) 0)
      (pre @ [x]) (join (map ?f qs)) (length pre + ?n) ?m"
      using mx by (simp del: append_assoc)
    from n_path_finish[OF this q]
    have "rewrote (n_path (pre @ s @ 0 # ys) (length pre)) pre (SLASH # join (map ?f qs)) ?n ys None"
      by (simp add: n_path_def j(1) cutm gap)
    then show ?thesis using spec Some by (simp add: path_spec_res_def path_spec_def)
  qed
qed

text \<open>An empty path becomes \<open>/\<close>, and the byte behind its NUL is lost.\<close>

lemma n_path_empty: "n_path (pre @ 0 # y # ys) (length pre) = Inr (pre @ SLASH # 0 # ys, None)"
proof -
  have "wr (pre @ SLASH # y # ys) (Suc (length pre)) 0 = Inr (pre @ SLASH # 0 # ys)"
    using wr_append[of "pre @ [SLASH]" y ys 0] by simp
  then show ?thesis
    by (simp add: n_path_def n_pcount_def n_pcount_loop.simps n_path_cut.simps n_path_strip.simps n_path_join.simps)
qed

end
