(* ===== verification/UriProps.thy ===== *)
theory UriProps
  imports PathSpec
begin

text \<open>
  The passes together: what \<open>nads_normalize\<close> leaves in \<open>uribuf\<close>, that a normalised path
  is canonical (no dot components, no doubled slash, no backslash), that normalising a
  path again changes nothing, and that percent decoding inverts percent encoding.
\<close>

section \<open>Canonical paths\<close>

definition plain_comp :: "bytes \<Rightarrow> bool" where
  "plain_comp c \<longleftrightarrow> SLASH \<notin> set c \<and> BACKSLASH \<notin> set c \<and> 0 \<notin> set c"

text \<open>An absolute path whose components are no dots and, except for the last, not empty.\<close>

definition canonical :: "bytes \<Rightarrow> bool" where
  "canonical w \<longleftrightarrow> (\<exists>s. w = SLASH # s) \<and> BACKSLASH \<notin> set w \<and> 0 \<notin> set w \<and>
     list_all dotless (tl (splits w)) \<and> [] \<notin> set (butlast (tl (splits w)))"

lemma splits_plain: "BACKSLASH \<notin> set s \<Longrightarrow> 0 \<notin> set s \<Longrightarrow> list_all plain_comp (splits s)"
proof (induction s)
  case (Cons c s)
  then show ?case by (cases "splits s") (auto simp: plain_comp_def)
qed (simp add: plain_comp_def)

lemma splits_comp: "SLASH \<notin> set c \<Longrightarrow> splits c = [c]"
  by (induction c) auto

lemma splits_append: "SLASH \<notin> set c \<Longrightarrow> splits (c @ SLASH # s) = c # splits s"
  by (induction c) auto

lemma splits_join: "cs \<noteq> [] \<Longrightarrow> list_all plain_comp cs \<Longrightarrow> splits (join cs) = cs"
  by (induction cs rule: join.induct) (simp_all add: plain_comp_def splits_comp splits_append)

lemma collapse_plain:
  "c \<noteq> [] \<Longrightarrow> plain_comp c \<Longrightarrow> collapse p (c @ s) = c @ collapse False s"
  by (induction c arbitrary: p rule: list_nonempty_induct)
     (auto simp: plain_comp_def slashed_def)

lemma collapse_join: "list_all plain_comp cs \<Longrightarrow> [] \<notin> set (butlast cs) \<Longrightarrow> collapse True (join cs) = join cs"
proof (induction cs rule: join.induct)
  case (2 c)
  then show ?case using collapse_plain[of c True "[]"] by (cases "c = []") auto
next
  case (3 c d cs)
  then have "c \<noteq> []" by auto
  then show ?case using 3 collapse_plain[of c True] by (simp add: slashed_def)
qed simp

text \<open>Collapsing leaves no empty component inside.\<close>

lemma collapse_nonempty:
  "[] \<notin> set (butlast (splits (collapse True s))) \<and> [] \<notin> set (butlast (tl (splits (collapse False s))))"
proof (induction s)
  case (Cons c s)
  show ?case
  proof (cases "slashed c = SLASH")
    case True
    then show ?thesis using Cons by simp
  next
    case False
    then have "c \<noteq> SLASH" by (auto simp: slashed_def)
    then show ?thesis using False Cons by (cases "splits (collapse False s)") auto
  qed
qed simp

lemma set_butlast_shrink: "set (butlast (xs @ zs)) \<subseteq> set (butlast (xs @ y # zs))"
  by (cases zs) (auto simp: butlast_append dest: in_set_butlastD)

lemma resolve_nonempty:
  "resolve id out cs = Some r \<Longrightarrow> [] \<notin> set (butlast (out @ cs)) \<Longrightarrow> [] \<notin> set (butlast r)"
proof (induction cs arbitrary: out)
  case (Cons c cs)
  have 1: "[] \<notin> set (butlast (out @ cs))"
    using Cons.prems(2) set_butlast_shrink[of out cs c] by blast
  have 2: "[] \<notin> set (butlast (butlast out @ cs))"
  proof (cases out rule: rev_cases)
    case (snoc l q)
    then show ?thesis using 1 set_butlast_shrink[of l cs q] by auto
  qed (use 1 in simp)
  have 3: "[] \<notin> set (butlast ((out @ [c]) @ cs))" using Cons.prems(2) by simp
  show ?case using resolve_dotless_step[OF Cons.prems(1)] Cons.IH 1 2 3 by blast
qed simp

lemma list_all_butlast: "list_all P xs \<Longrightarrow> list_all P (butlast xs)"
  by (auto simp: list_all_iff dest: in_set_butlastD)

lemma join_set: "x \<in> set (join cs) \<Longrightarrow> x = SLASH \<or> (\<exists>c \<in> set cs. x \<in> set c)"
  by (induction cs rule: join.induct) auto

text \<open>The components a normalised path consists of.\<close>

lemma path_spec_comps:
  assumes "path_spec s = Some w" "0 \<notin> set s"
  obtains cs where "w = SLASH # join cs" "list_all plain_comp cs" "list_all dotless cs" "[] \<notin> set (butlast cs)"
proof -
  let ?t = "tl (splits (collapse False s))"
  obtain cs where cs: "resolve id [] ?t = Some cs" "w = SLASH # join cs"
    using assms(1) by (auto simp: path_spec_def)
  have "list_all plain_comp (splits (collapse False s))"
    by (rule splits_plain[OF collapse_no_backslash collapse_nul_free[OF assms(2)]])
  then have "list_all plain_comp ?t" by (cases "splits (collapse False s)") auto
  then have "list_all plain_comp cs" using resolve_set[OF cs(1)] by (auto simp: list_all_iff)
  moreover have "list_all dotless cs" using resolve_no_dots[OF cs(1)] by simp
  moreover have "[] \<notin> set (butlast cs)"
    using resolve_nonempty[OF cs(1)] collapse_nonempty[of s] by simp
  ultimately show ?thesis using that cs(2) by blast
qed

lemma path_spec_canonical:
  assumes "path_spec s = Some w" "0 \<notin> set s"
  shows "canonical w"
proof -
  obtain cs where w: "w = SLASH # join cs" "list_all plain_comp cs" "list_all dotless cs" "[] \<notin> set (butlast cs)"
    using assms by (rule path_spec_comps)
  have "BACKSLASH \<notin> set w" "0 \<notin> set w"
    using w(1,2) join_set by (fastforce simp: plain_comp_def list_all_iff)+
  moreover have "tl (splits w) = (if cs = [] then [[]] else cs)"
    using w(1,2) splits_join[of cs] by simp
  ultimately show ?thesis using w by (simp add: canonical_def dotless_def)
qed

lemma resolve_dotless: "list_all dotless cs \<Longrightarrow> resolve id out cs = Some (out @ cs)"
  by (induction cs arbitrary: out) (auto simp: dotless_def)

lemma path_spec_idem:
  assumes "path_spec s = Some w" "0 \<notin> set s"
  shows "path_spec w = Some w"
proof -
  obtain cs where w: "w = SLASH # join cs" "list_all plain_comp cs" "list_all dotless cs" "[] \<notin> set (butlast cs)"
    using assms by (rule path_spec_comps)
  have "collapse False w = w" using w collapse_join[of cs] by (simp add: slashed_def)
  moreover have "tl (splits w) = (if cs = [] then [[]] else cs)" using w(1,2) splits_join[of cs] by simp
  moreover have "list_all dotless [[]]" by (simp add: dotless_def)
  ultimately show ?thesis using resolve_dotless[of "tl (splits w)" "[]"] w by (auto simp: path_spec_def)
qed

section \<open>One pass after the other\<close>

text \<open>
  The first \<open>n\<close> bytes of the buffer hold the C string \<open>w\<close> (and bytes behind its NUL);
  \<open>ys\<close> follows.
\<close>

definition holds :: "bytes \<Rightarrow> bytes \<Rightarrow> nat \<Rightarrow> bytes \<Rightarrow> bool" where
  "holds m w n ys \<longleftrightarrow> 0 \<notin> set w \<and> (\<exists>j. m = w @ 0 # j @ ys \<and> Suc (length w + length j) = n)"

lemma cstr_upto: "cstr (q @ 0 # r) = cstr q"
  by (induction q) auto

lemma holds_cstr: "0 \<in> set xs \<Longrightarrow> length xs = n \<Longrightarrow> holds (xs @ ys) (cstr xs) n ys"
  unfolding holds_def
  by (rule cstr_split[of xs])
     (auto simp: cstr_nul_free, metis append.assoc append_Cons length_Cons length_append add_Suc_right)

lemma holds_string: "holds m w n ys \<Longrightarrow> cstr m = w"
  unfolding holds_def by (auto simp: cstr_append_nul)

lemma rewrote_holds:
  assumes "rewrote r [] w room ys None"
  obtains m where "r = Inr (m, None)" "holds m (cstr w) room ys"
proof -
  obtain j where j: "r = Inr ((w @ 0 # j) @ ys, None)" "length (w @ 0 # j) = room"
    using assms unfolding rewrote_def by (metis append.assoc append_Nil hd_Cons_tl length_append)
  then show ?thesis using that holds_cstr[of "w @ 0 # j" room ys] by (auto simp: cstr_upto)
qed

lemma rewrote_error_holds: "rewrote r [] w room ys (Some e) \<Longrightarrow> \<exists>m. r = Inr (m, Some e)"
  unfolding rewrote_def by blast

lemma holdsE:
  assumes "holds m w n ys"
  obtains j where "m = [] @ w @ 0 # j @ ys" "0 \<notin> set w" "n = Suc (length w) + length j"
  using assms unfolding holds_def by auto

lemma rewrote_tail:
  assumes "rewrote r [] w room (j @ ys) e"
  shows "rewrote r [] w (room + length j) ys e"
proof -
  obtain k where "r = Inr ([] @ w @ k @ j @ ys, e)" "length w + length k = room" "e = None \<longrightarrow> k \<noteq> [] \<and> hd k = 0"
    using assms unfolding rewrote_def by blast
  then show ?thesis unfolding rewrote_def by (intro exI[of _ "k @ j"]) auto
qed

lemma agrees_tail:
  assumes "agrees r spec [] room (j @ ys)"
  shows "agrees r spec [] (room + length j) ys"
proof (cases spec)
  case (Inr p)
  then show ?thesis using assms rewrote_tail[of r "fst p" room j ys "snd p"] by (cases p) simp
qed (use assms in simp)

lemma hex_pass:
  assumes "holds m w n ys"
  shows "rewrote (n_hex m 0) [] (fst (pct_decode w)) n ys (snd (pct_decode w))"
proof -
  obtain j where j: "m = [] @ w @ 0 # j @ ys" "0 \<notin> set w" "n = Suc (length w) + length j"
    using assms by (rule holdsE)
  show ?thesis using rewrote_tail[OF n_hex_refines[OF j(2), of "[]" "j @ ys"]] j by simp
qed

lemma utf8_pass:
  assumes "holds m w n ys"
  shows "agrees (n_utf8 m 0) (utf8_fold w) [] n ys"
proof -
  obtain j where j: "m = [] @ w @ 0 # j @ ys" "0 \<notin> set w" "n = Suc (length w) + length j"
    using assms by (rule holdsE)
  have "agrees (n_utf8 m 0) (utf8_fold w) [] (Suc (length w)) (j @ ys)"
    using n_utf8_refines[OF j(2), of "[]" "j @ ys"] j(1) by simp
  then show ?thesis unfolding j(3) by (rule agrees_tail)
qed

lemma path_pass:
  assumes "holds m w n ys" "2 \<le> n"
  shows "rewrote (n_path m 0) [] (fst (path_spec_res w)) n ys (snd (path_spec_res w))"
proof -
  obtain j where j: "m = [] @ w @ 0 # j @ ys" "0 \<notin> set w" "n = Suc (length w) + length j"
    using assms(1) by (rule holdsE)
  show ?thesis
  proof (cases "w = []")
    case True
    then obtain y j' where "j = y # j'" using assms(2) j(3) by (cases j) auto
    then show ?thesis
      using n_path_empty[of "[]" y "j' @ ys"] j True
      by (auto simp: rewrote_def path_spec_res_def path_spec_def intro!: exI[of _ "0 # j'"])
  next
    case False
    show ?thesis using rewrote_tail[OF n_path_refines[OF j(2) False, of "[]" "j @ ys"]] j by simp
  qed
qed

text \<open>The composed specification: a fault of the UTF-8 pass, an error code, or a path.\<close>

definition uri_spec :: "bytes \<Rightarrow> (nat + bytes) res" where
  "uri_spec s =
    (case pct_decode s of
       (w, Some e) \<Rightarrow> Inr (Inl e)
     | (w, None) \<Rightarrow> rbind (utf8_fold w) (\<lambda>(v, e). case e of
           Some e \<Rightarrow> Inr (Inl e)
         | None \<Rightarrow> (case path_spec (cstr v) of
               None \<Rightarrow> Inr (Inl NADS_ERR_TRAVERSAL)
             | Some p \<Rightarrow> Inr (Inr p))))"

lemma pct_decode_nul_free: "0 \<notin> set s \<Longrightarrow> 0 \<notin> set (fst (pct_decode s))"
  by (induction s rule: pct_decode.induct) auto

lemma uri_spec_canonical: "uri_spec s = Inr (Inr w) \<Longrightarrow> canonical w"
  using path_spec_canonical
  by (auto simp: uri_spec_def rbind_Inr_iff split: prod.splits option.splits)

definition uri_passes ::
  "nads_globals \<Rightarrow> nads \<Rightarrow> (nads_globals \<Rightarrow> (nads_globals \<times> nads \<times> bool) res) \<Rightarrow> (nads_globals \<times> nads \<times> bool) res" where
  "uri_passes g n k =
    rbind (nads_pass n_hex g 0) (\<lambda>(g, ok). if \<not> ok then Inr (g, n, False) else
    rbind (nads_pass n_utf8 g 0) (\<lambda>(g, ok). if \<not> ok then Inr (g, n, False) else
    rbind (nads_pass n_path g 0) (\<lambda>(g, ok). if \<not> ok then Inr (g, n, False) else k g)))"

lemma nads_pass_rewrote:
  assumes "rewrote (f (uribuf g) 0) [] w len ys e"
  shows "case e of
      None \<Rightarrow> \<exists>m. nads_pass f g 0 = Inr (g\<lparr>uribuf := m\<rparr>, True) \<and> holds m (cstr w) len ys
    | Some err \<Rightarrow> \<exists>m. nads_pass f g 0 = Inr (g\<lparr>uribuf := m, nads_errcode := err\<rparr>, False)"
proof (cases e)
  case None
  with assms obtain m where "f (uribuf g) 0 = Inr (m, None)" "holds m (cstr w) len ys"
    by (metis rewrote_holds)
  then show ?thesis using None by (auto simp: nads_pass_def)
next
  case (Some err)
  with assms obtain m where "f (uribuf g) 0 = Inr (m, Some err)" by (metis rewrote_error_holds)
  then show ?thesis using Some by (auto simp: nads_pass_def)
qed

lemmas nads_pass_ok = nads_pass_rewrote[where e = None, simplified]
lemmas nads_pass_err = nads_pass_rewrote[where e = "Some _", simplified]

lemma uri_passes_spec:
  assumes "holds (uribuf g) s len ys" "2 \<le> len"
  shows "case uri_spec s of
      Inl f \<Rightarrow> uri_passes g n k = Inl f
    | Inr (Inl e) \<Rightarrow> \<exists>m. uri_passes g n k = Inr (g\<lparr>uribuf := m, nads_errcode := e\<rparr>, n, False)
    | Inr (Inr w) \<Rightarrow> \<exists>m. uri_passes g n k = k (g\<lparr>uribuf := m\<rparr>) \<and> holds m w len ys"
proof -
  note hex = hex_pass[OF assms(1)]
  obtain w e where d: "pct_decode s = (w, e)" by (cases "pct_decode s")
  show ?thesis
  proof (cases e)
    case (Some err)
    then show ?thesis using nads_pass_err[of n_hex g w len ys err] hex d
      by (auto simp: uri_passes_def uri_spec_def)
  next
    case None
    have w: "cstr w = w" using pct_decode_nul_free[of s] assms(1) d by (simp add: cstr_id holds_def)
    then obtain m where m: "nads_pass n_hex g 0 = Inr (g\<lparr>uribuf := m\<rparr>, True)" "holds m w len ys"
      using nads_pass_ok[of n_hex g w len ys] hex d None by auto
    let ?g = "g\<lparr>uribuf := m\<rparr>"
    have utf: "agrees (n_utf8 (uribuf ?g) 0) (utf8_fold w) [] len ys" using utf8_pass[OF m(2)] by simp
    show ?thesis
    proof (cases "utf8_fold w")
      case (Inl f)
      then show ?thesis using utf m(1) d None by (simp add: uri_passes_def uri_spec_def nads_pass_def)
    next
      case (Inr p)
      obtain v e' where p: "utf8_fold w = Inr (v, e')" using Inr by (cases p) auto
      show ?thesis
      proof (cases e')
        case (Some err)
        then show ?thesis using nads_pass_err[of n_utf8 ?g v len ys err] utf p m(1) d None
          by (auto simp: uri_passes_def uri_spec_def)
      next
        case ok: None
        then obtain m2 where m2: "nads_pass n_utf8 ?g 0 = Inr (g\<lparr>uribuf := m2\<rparr>, True)" "holds m2 (cstr v) len ys"
          using nads_pass_ok[of n_utf8 ?g v len ys] utf p by auto
        let ?g2 = "g\<lparr>uribuf := m2\<rparr>"
        have path: "rewrote (n_path (uribuf ?g2) 0) [] (fst (path_spec_res (cstr v))) len ys (snd (path_spec_res (cstr v)))"
          using path_pass[OF m2(2) assms(2)] by simp
        show ?thesis
        proof (cases "path_spec (cstr v)")
          case bad: None
          then show ?thesis using nads_pass_err[of n_path ?g2 "[]" len ys NADS_ERR_TRAVERSAL] path m m2 d None p ok
            by (auto simp: uri_passes_def uri_spec_def path_spec_res_def)
        next
          case (Some x)
          have "cstr x = x" using path_spec_canonical[OF Some] by (simp add: canonical_def cstr_id)
          then show ?thesis using nads_pass_ok[of n_path ?g2 x len ys] Some path m m2 d None p ok
            by (auto simp: uri_passes_def uri_spec_def path_spec_res_def)
        qed
      qed
    qed
  qed
qed

section \<open>The query split\<close>

definition uri_bytes :: "bytes \<Rightarrow> bytes" where
  "uri_bytes = takeWhile (\<lambda>c. c \<noteq> QUESTION)"

definition query_bytes :: "bytes \<Rightarrow> bytes option" where
  "query_bytes buf = (case dropWhile (\<lambda>c. c \<noteq> QUESTION) buf of [] \<Rightarrow> None | c # q \<Rightarrow> Some q)"

lemma n_split_rest_spec:
  "length xs = length q \<Longrightarrow> n_split_rest (pre @ xs @ ys) (length pre) q = Inr (pre @ q @ ys, length pre + length q)"
proof (induction q arbitrary: pre xs)
  case (Cons c q)
  then obtain x xs' where xs: "xs = x # xs'" "length xs' = length q" by (cases xs) auto
  from Cons.IH[OF xs(2), of "pre @ [c]"] show ?case by (simp add: xs(1))
qed simp

lemma n_split_uri_spec:
  assumes "length xs = length buf"
  shows "n_split_uri (pre @ xs @ ys) (length pre) buf =
    Inr (pre @ uri_bytes buf @ (case query_bytes buf of None \<Rightarrow> [] | Some q \<Rightarrow> 0 # q) @ ys,
      length pre + length buf,
      map_option (\<lambda>q. Suc (length pre + length (uri_bytes buf))) (query_bytes buf))"
  using assms
proof (induction buf arbitrary: pre xs)
  case Nil
  then show ?case by (simp add: uri_bytes_def query_bytes_def)
next
  case (Cons c buf)
  then obtain x xs' where xs: "xs = x # xs'" "length xs' = length buf" by (cases xs) auto
  show ?case
    using Cons.IH[OF xs(2), of "pre @ [c]"] n_split_rest_spec[OF xs(2), of "pre @ [0]" ys]
    by (auto simp: xs(1) uri_bytes_def query_bytes_def)
qed

lemma uri_query_length:
  "length buf = length (uri_bytes buf) + (case query_bytes buf of None \<Rightarrow> 0 | Some q \<Rightarrow> Suc (length q))"
  by (induction buf) (auto simp: uri_bytes_def query_bytes_def split: list.splits)

lemma n_split_spec:
  assumes "length (nads_buf n) < length m"
  shows "n_split m n =
    Inr (uri_bytes (nads_buf n) @ 0 # (case query_bytes (nads_buf n) of None \<Rightarrow> [] | Some q \<Rightarrow> q @ [0]) @
         drop (Suc (length (nads_buf n))) m,
      n\<lparr>nads_uri := Some 0,
        nads_query := map_option (\<lambda>q. Suc (length (uri_bytes (nads_buf n)))) (query_bytes (nads_buf n))\<rparr>)"
proof -
  let ?b = "nads_buf n"
  obtain y where m: "m = take (length ?b) m @ y # drop (Suc (length ?b)) m"
    using id_take_nth_drop[OF assms] by blast
  have "n_split_uri m 0 ?b = Inr (uri_bytes ?b @ (case query_bytes ?b of None \<Rightarrow> [] | Some q \<Rightarrow> 0 # q) @ y # drop (Suc (length ?b)) m,
      length ?b, map_option (\<lambda>q. Suc (length (uri_bytes ?b))) (query_bytes ?b))"
    using n_split_uri_spec[of "take (length ?b) m" ?b "[]" "y # drop (Suc (length ?b)) m"] assms m by simp
  moreover have "wr (uri_bytes ?b @ x @ y # zs) (length ?b) 0 = Inr (uri_bytes ?b @ x @ 0 # zs)"
    if "x = (case query_bytes ?b of None \<Rightarrow> [] | Some q \<Rightarrow> 0 # q)" for x zs
  proof -
    have "length (uri_bytes ?b @ x) = length ?b"
      using uri_query_length[of ?b] that by (auto split: option.splits)
    then show ?thesis using wr_append[of "uri_bytes ?b @ x" y zs 0] by (simp only: append_assoc)
  qed
  ultimately show ?thesis by (auto simp: n_split_def split: option.split)
qed

section \<open>The whole normalisation\<close>

lemma nads_normalize_passes:
  "n_split (uribuf g) n = Inr (m, n') \<Longrightarrow> nads_uri n' = Some 0 \<Longrightarrow>
   nads_normalize g n = uri_passes (g\<lparr>uribuf := m\<rparr>) n' (\<lambda>g.
     rbind (case nads_query n' of None \<Rightarrow> Inr (g, True) | Some q \<Rightarrow> nads_pass n_hex g q) (\<lambda>(g, ok).
       if \<not> ok then Inr (g, n', False) else Inr (g\<lparr>nads_errcode := NADS_ERR_SUCCESS\<rparr>, n', True)))"
  by (simp add: nads_normalize_def uri_passes_def Let_def cong: if_cong)

text \<open>Decoding the query leaves the path in front of it alone.\<close>

lemma query_pass:
  assumes "holds m w len (q @ 0 # rest)" "uribuf g = m"
  shows "\<exists>m'. cstr m' = w \<and> nads_pass n_hex g len =
      Inr (case snd (pct_decode (cstr q)) of
             None \<Rightarrow> (g\<lparr>uribuf := m'\<rparr>, True)
           | Some e \<Rightarrow> (g\<lparr>uribuf := m', nads_errcode := e\<rparr>, False)) \<and>
    (snd (pct_decode (cstr q)) = None \<longrightarrow> string_at m' len = Inr (fst (pct_decode (cstr q))))"
proof -
  obtain j where m: "m = (w @ 0 # j) @ q @ 0 # rest" "0 \<notin> set w" "len = length (w @ 0 # j)"
    using assms(1) by (rule holdsE) auto
  obtain zs where zs: "q @ 0 # rest = cstr q @ 0 # zs"
    using cstr_split[of "q @ 0 # rest"] cstr_upto[of q rest] by auto
  let ?d = "pct_decode (cstr q)"
  have "rewrote (n_hex m len) (w @ 0 # j) (fst ?d) (Suc (length (cstr q))) zs (snd ?d)"
    using n_hex_refines[of "cstr q" "w @ 0 # j" zs] m zs by simp
  then obtain k where k: "n_hex m len = Inr (w @ 0 # j @ fst ?d @ k @ zs, snd ?d)"
    "snd ?d = None \<longrightarrow> k \<noteq> [] \<and> hd k = 0"
    unfolding rewrote_def by auto
  let ?m' = "w @ 0 # j @ fst ?d @ k @ zs"
  have "string_at ?m' len = Inr (fst ?d)" if "snd ?d = None"
    using string_at_append[of "fst ?d" "w @ 0 # j" "tl k @ zs"] pct_decode_nul_free[of "cstr q"] k(2) that m(3)
    by (cases k) auto
  then show ?thesis using m(2) k(1) assms(2)
    by (intro exI[of _ ?m']) (auto simp: cstr_append_nul nads_pass_def split: option.splits)
qed

text \<open>The result of a successful pass over the path, for a request without and with a query.\<close>

definition nads_done ::
  "nads_globals \<Rightarrow> nads \<Rightarrow> bytes \<Rightarrow> bytes option \<Rightarrow> (nads_globals \<times> nads \<times> bool) res \<Rightarrow> bool" where
  "nads_done g n w q r = (case q of
     None \<Rightarrow> \<exists>g'. r = Inr (g', n\<lparr>nads_uri := Some 0, nads_query := None\<rparr>, True) \<and>
       cstr (uribuf g') = w \<and> nads_errcode g' = NADS_ERR_SUCCESS
   | Some q \<Rightarrow> \<exists>g' p. r = Inr (g', n\<lparr>nads_uri := Some 0, nads_query := Some p\<rparr>, snd (pct_decode (cstr q)) = None) \<and>
       cstr (uribuf g') = w \<and>
       (snd (pct_decode (cstr q)) = None \<longrightarrow>
          nads_errcode g' = NADS_ERR_SUCCESS \<and> string_at (uribuf g') p = Inr (fst (pct_decode (cstr q)))))"

lemma nads_normalize_spec:
  assumes "length (nads_buf n) < length (uribuf g)" "uri_bytes (nads_buf n) \<noteq> []"
  shows "case uri_spec (cstr (uri_bytes (nads_buf n))) of
      Inl f \<Rightarrow> nads_normalize g n = Inl f
    | Inr (Inl e) \<Rightarrow> \<exists>g' n'. nads_normalize g n = Inr (g', n', False) \<and> nads_errcode g' = e
    | Inr (Inr w) \<Rightarrow> nads_done g n w (query_bytes (nads_buf n)) (nads_normalize g n)"
proof -
  let ?u = "uri_bytes (nads_buf n)" and ?q = "query_bytes (nads_buf n)"
  let ?len = "Suc (length ?u)" and ?rest = "drop (Suc (length (nads_buf n))) (uribuf g)"
  let ?ys = "(case ?q of None \<Rightarrow> [] | Some q \<Rightarrow> q @ [0]) @ ?rest"
  let ?n = "n\<lparr>nads_uri := Some 0, nads_query := map_option (\<lambda>q. ?len) ?q\<rparr>"
  have split: "n_split (uribuf g) n = Inr (?u @ 0 # ?ys, ?n)" using n_split_spec[OF assms(1)] by simp
  have h: "holds (?u @ 0 # ?ys) (cstr ?u) ?len ?ys"
    using holds_cstr[of "?u @ [0]" ?len ?ys] by (simp add: cstr_upto)
  let ?g = "g\<lparr>uribuf := ?u @ 0 # ?ys\<rparr>"
  let ?k = "\<lambda>g. rbind (case nads_query ?n of None \<Rightarrow> Inr (g, True) | Some q \<Rightarrow> nads_pass n_hex g q) (\<lambda>(g, ok).
       if \<not> ok then Inr (g, ?n, False) else Inr (g\<lparr>nads_errcode := NADS_ERR_SUCCESS\<rparr>, ?n, True))"
  have run: "nads_normalize g n = uri_passes ?g ?n ?k" using nads_normalize_passes[OF split] by simp
  have passes: "case uri_spec (cstr ?u) of
      Inl f \<Rightarrow> uri_passes ?g ?n ?k = Inl f
    | Inr (Inl e) \<Rightarrow> \<exists>m. uri_passes ?g ?n ?k = Inr (?g\<lparr>uribuf := m, nads_errcode := e\<rparr>, ?n, False)
    | Inr (Inr w) \<Rightarrow> \<exists>m. uri_passes ?g ?n ?k = ?k (?g\<lparr>uribuf := m\<rparr>) \<and> holds m w ?len ?ys"
    by (rule uri_passes_spec) (use h assms(2) in \<open>cases ?u; simp\<close>)+
  have fin: "nads_done g n w ?q (?k (?g\<lparr>uribuf := m\<rparr>))" if m: "holds m w ?len ?ys" for w m
  proof (cases ?q)
    case None
    then show ?thesis using holds_string[OF m] by (simp add: nads_done_def)
  next
    case (Some q)
    have "holds m w ?len (q @ 0 # ?rest)" using m Some by simp
    from query_pass[OF this, of "?g\<lparr>uribuf := m\<rparr>"] show ?thesis
      using Some by (auto simp: nads_done_def split: option.splits)
  qed
  show ?thesis unfolding run using passes fin
    by (cases "uri_spec (cstr ?u)" rule: sum.exhaust) (auto split: sum.splits)
qed

section \<open>Percent encoding\<close>

definition hex_digit :: "nat \<Rightarrow> byte" where
  "hex_digit n = (if n < 10 then of_nat (48 + n) else of_nat (87 + n))"

text \<open>Bytes that satisfy \<open>esc\<close> are written as escapes.\<close>

fun pct_encode :: "(byte \<Rightarrow> bool) \<Rightarrow> bytes \<Rightarrow> bytes" where
  "pct_encode esc [] = []"
| "pct_encode esc (c # s) =
    (if esc c then PERCENT # hex_digit (unat c div 16) # hex_digit (unat c mod 16) # pct_encode esc s
     else c # pct_encode esc s)"

lemma hex_digit_facts:
  "n < 16 \<Longrightarrow> is_hex (hex_digit n) \<and> hexchar (scast (hex_digit n)) = of_nat n \<and> hex_digit n \<noteq> 0"
proof -
  have "list_all (\<lambda>n. is_hex (hex_digit n) \<and> hexchar (scast (hex_digit n)) = of_nat n \<and> hex_digit n \<noteq> 0) [0..<16]"
    by code_simp
  then show "n < 16 \<Longrightarrow> ?thesis" by (simp add: list_all_iff)
qed

lemma nibbles: "push_bit 4 (of_nat (unat (b :: byte) div 16)) OR of_nat (unat b mod 16) = b"
proof -
  have "of_nat (unat b div 16) = drop_bit 4 b" "of_nat (unat b mod 16) = take_bit 4 b"
    using div_le_dividend[of "unat b" 16, THEN le_less_trans, OF byte_lt(1)]
    by (simp_all add: word_unat_eq_iff unat_div unat_mod drop_bit_eq_div take_bit_eq_mod unsigned_of_nat)
  then show ?thesis by (auto intro!: bit_eqI simp: bit_simps)
qed

lemma hex_digits:
  fixes b :: byte
  shows "is_hex (hex_digit (unat b div 16))" "is_hex (hex_digit (unat b mod 16))"
    "hex_pair (hex_digit (unat b div 16)) (hex_digit (unat b mod 16)) = b"
    "hex_digit (unat b div 16) \<noteq> 0" "hex_digit (unat b mod 16) \<noteq> 0"
proof -
  have "unat b div 16 < 16" "unat b mod 16 < 16" using byte_lt(1)[of b] by linarith+
  then show "is_hex (hex_digit (unat b div 16))" "is_hex (hex_digit (unat b mod 16))"
    "hex_pair (hex_digit (unat b div 16)) (hex_digit (unat b mod 16)) = b"
    "hex_digit (unat b div 16) \<noteq> 0" "hex_digit (unat b mod 16) \<noteq> 0"
    by (simp_all add: hex_digit_facts hex_pair_def nibbles)
qed

lemma pct_decode_encode:
  assumes "0 \<notin> set s" "esc PERCENT"
  shows "pct_decode (pct_encode esc s) = (s, None)"
  using assms(1)
proof (induction s)
  case (Cons c s)
  then show ?case using hex_digits[of c] assms(2) by (cases "c = PERCENT"; cases "esc c") (auto simp: pct_decode_plain)
qed simp

lemma pct_encode_nul_free: "0 \<notin> set s \<Longrightarrow> 0 \<notin> set (pct_encode esc s)"
proof (induction s)
  case (Cons c s)
  then show ?case using hex_digits(4,5)[of c] by auto
qed simp

section \<open>Bytes that cannot start a sequence\<close>

definition bad_lead :: "byte \<Rightarrow> bool" where
  "bad_lead b \<longleftrightarrow> b AND 192 = 128 \<or> b = 254 \<or> b = 255"

lemma bad_lead_len: "bad_lead b \<Longrightarrow> b AND 128 \<noteq> 0 \<and> (utf8_len b = 1 \<or> utf8_len b = 7)"
proof -
  have "b AND 128 = 128 \<and> b AND 64 = 0" if "b AND 192 = 128"
    using arg_cong[OF that, of "\<lambda>x. x AND 128"] arg_cong[OF that, of "\<lambda>x. x AND 64"]
    by (simp add: and.assoc)
  then show "bad_lead b \<Longrightarrow> ?thesis" by (auto simp: bad_lead_def utf8_len_def)
qed

lemma utf8_fold_bad_lead:
  "bad_lead b \<Longrightarrow> 6 \<le> length s \<Longrightarrow> utf8_fold (b # s) = Inl Out_of_bounds"
  using bad_lead_len[of b] by (auto simp: utf8_fold.simps(2) Let_def)

text \<open>Seven-bit text passes unchanged.\<close>

lemma utf8_fold_ascii: "list_all (\<lambda>c. c AND 128 = 0) s \<Longrightarrow> utf8_fold s = Inr (s, None)"
  by (induction s) (simp_all add: utf8_fold.simps(2))

section \<open>Properties\<close>



text \<open>
  C3.  A path that \<open>nads_normalize\<close> accepts cannot leave the web root: it is absolute, has
  no \<open>.\<close> and no \<open>..\<close> component, no doubled slash and no backslash, however the request
  encoded it.
\<close>

theorem normalized_path_canonical:
  assumes "nads_normalize g n = Inr (g', n', True)"
    and "length (nads_buf n) < length (uribuf g)" "uri_bytes (nads_buf n) \<noteq> []"
  shows "nads_uri n' = Some 0 \<and> canonical (cstr (uribuf g'))"
proof -
  note spec = nads_normalize_spec[OF assms(2,3)]
  obtain w where w: "uri_spec (cstr (uri_bytes (nads_buf n))) = Inr (Inr w)"
    using spec assms(1) by (auto split: sum.splits)
  then have "nads_uri n' = Some 0 \<and> cstr (uribuf g') = w"
    using spec assms(1) by (auto simp: nads_done_def split: option.splits)
  then show ?thesis using uri_spec_canonical[OF w] by simp
qed

theorem normalized_path_canonical_witness:
  "\<exists>g' n'. nads_normalize \<lparr>uribuf = replicate NADS_MAX_URI 0, nads_errcode = 0\<rparr>
       \<lparr>nads_buf = str ''/x/..%5c/y'', nads_uri = None, nads_query = None\<rparr> = Inr (g', n', True) \<and>
     canonical (cstr (uribuf g'))"
proof -
  let ?b = "str ''/x/..%5c/y''"
  let ?g = "\<lparr>uribuf = replicate NADS_MAX_URI 0, nads_errcode = 0\<rparr>"
    and ?n = "\<lparr>nads_buf = ?b, nads_uri = None, nads_query = None\<rparr>"
  have u: "uri_spec (cstr (uri_bytes (nads_buf ?n))) = Inr (Inr (str ''/y''))" by code_simp
  have q: "query_bytes (nads_buf ?n) = None" by code_simp
  have fit: "length (nads_buf ?n) < length (uribuf ?g)" by (simp add: NADS_MAX_URI_def)
  have ne: "uri_bytes (nads_buf ?n) \<noteq> []" by code_simp
  obtain g' n' where r: "nads_normalize ?g ?n = Inr (g', n', True)"
    using nads_normalize_spec[OF fit ne] unfolding u q by (auto simp: nads_done_def)
  with normalized_path_canonical[OF r fit ne] show ?thesis by blast
qed

text \<open>
  C31.  Normalising a normalised path changes nothing: after \<open>n_path\<close> has succeeded on a
  string, \<open>n_path\<close> succeeds on its result and leaves the same string.
\<close>

theorem n_path_idempotent:
  assumes "0 \<notin> set s" "s \<noteq> []" "n_path (s @ 0 # ys) 0 = Inr (m, None)"
  shows "\<exists>m'. n_path m 0 = Inr (m', None) \<and> cstr m' = cstr m"
proof -
  have r: "rewrote (n_path (s @ 0 # ys) 0) [] (fst (path_spec_res s)) (Suc (length s)) ys (snd (path_spec_res s))"
    using n_path_refines[OF assms(1,2), of "[]" ys] by simp
  then have "snd (path_spec_res s) = None" using assms(3) by (auto simp: rewrote_def)
  then obtain w where w: "path_spec s = Some w" by (auto simp: path_spec_res_def split: option.splits)
  then have m: "holds m (cstr w) (Suc (length s)) ys"
    using r assms(3) rewrote_holds[of "n_path (s @ 0 # ys) 0" w "Suc (length s)" ys]
    by (auto simp: path_spec_res_def)
  have cw: "cstr w = w" using path_spec_canonical[OF w assms(1)] by (simp add: canonical_def cstr_id)
  have "2 \<le> Suc (length s)" using assms(2) by (cases s) auto
  from path_pass[OF m this] have "rewrote (n_path m 0) [] w (Suc (length s)) ys None"
    using path_spec_idem[OF w assms(1)] by (simp add: path_spec_res_def cw)
  then show ?thesis using rewrote_holds[of "n_path m 0" w] holds_string m cw by metis
qed

theorem n_path_idempotent_witness:
  "\<exists>m m'. n_path (str ''a//b/./c/../d'' @ 0 # []) 0 = Inr (m, None) \<and> n_path m 0 = Inr (m', None) \<and> cstr m' = cstr m"
proof -
  let ?s = "str ''a//b/./c/../d''"
  have s: "0 \<notin> set ?s" "?s \<noteq> []" by code_simp+
  have "path_spec_res ?s = (str ''/b/d'', None)" by code_simp
  then obtain m where "n_path (?s @ 0 # []) 0 = Inr (m, None)"
    using n_path_refines[OF s, of "[]" "[]"] unfolding rewrote_def by auto
  with n_path_idempotent[OF s this] show ?thesis by blast
qed

text \<open>
  C32.  \<open>n_hex\<close> inverts percent encoding: whichever bytes a client chose to escape, as long
  as percent signs are among them, decoding in place restores the string.
\<close>

theorem n_hex_decodes_encoded:
  assumes "0 \<notin> set s" "esc PERCENT"
  shows "\<exists>m. n_hex (pct_encode esc s @ 0 # ys) 0 = Inr (m, None) \<and> cstr m = s"
proof -
  have "rewrote (n_hex (pct_encode esc s @ 0 # ys) 0) [] s (Suc (length (pct_encode esc s))) ys None"
    using n_hex_refines[OF pct_encode_nul_free[OF assms(1)], of "[]" esc ys] pct_decode_encode[of s esc] assms by simp
  then obtain m where "n_hex (pct_encode esc s @ 0 # ys) 0 = Inr (m, None)" "holds m (cstr s) (Suc (length (pct_encode esc s))) ys"
    by (rule rewrote_holds)
  then show ?thesis using holds_string cstr_id[OF assms(1)] by metis
qed

theorem n_hex_decodes_encoded_witness:
  "\<exists>m. n_hex (pct_encode (\<lambda>c. c = 37 \<or> c = 32) (str ''100% ok'') @ 0 # [1, 2]) 0 = Inr (m, None) \<and>
     cstr m = str ''100% ok''"
proof -
  have "0 \<notin> set (str ''100% ok'')" by code_simp
  from n_hex_decodes_encoded[OF this, of "\<lambda>c. c = 37 \<or> c = 32" "[1, 2]"] show ?thesis by blast
qed



text \<open>
  A target that is only a query loses it: the NUL that ends the normalised path
  \<open>/\<close> overwrites the first byte of the query string.
\<close>

lemma query_lost_without_path:
  assumes "nads_buf n = QUESTION # q" "length (nads_buf n) < length (uribuf g)"
  shows "\<exists>g' n'. nads_normalize g n = Inr (g', n', True) \<and> nads_query n' = Some 1 \<and>
    cstr (uribuf g') = [SLASH] \<and> string_at (uribuf g') 1 = Inr []"
proof -
  let ?m = "[] @ [] @ 0 # q @ 0 # drop (Suc (length (nads_buf n))) (uribuf g)"
  let ?n = "n\<lparr>nads_uri := Some 0, nads_query := Some 1\<rparr>"
  have split: "n_split (uribuf g) n = Inr (?m, ?n)"
    using n_split_spec[OF assms(2)] assms(1) by (simp add: uri_bytes_def query_bytes_def)
  obtain y ys where m: "q @ 0 # drop (Suc (length (nads_buf n))) (uribuf g) = y # ys" by (cases q) auto
  have run: "n_hex (0 # y # ys) 0 = Inr (0 # y # ys, None)" "n_utf8 (0 # y # ys) 0 = Inr (0 # y # ys, None)"
    "n_path (0 # y # ys) 0 = Inr (SLASH # 0 # ys, None)" "n_hex (SLASH # 0 # ys) 1 = Inr (SLASH # 0 # ys, None)"
    using n_hex_end[of "[]" "[]"] n_utf8_end[of "[]" "[]"] n_path_empty[of "[]"] n_hex_end[of "[SLASH]" "[]"]
    by (simp_all add: n_hex_def n_utf8_def wr_def)
  have "nads_normalize g n = Inr (g\<lparr>uribuf := SLASH # 0 # ys, nads_errcode := NADS_ERR_SUCCESS\<rparr>, ?n, True)"
    using nads_normalize_passes[OF split] m run by (simp add: uri_passes_def nads_pass_def)
  then show ?thesis by (simp add: string_at_def)
qed

lemma query_lost_without_path_witness:
  "\<exists>g' n'. nads_normalize \<lparr>uribuf = replicate 64 0, nads_errcode = 0\<rparr>
     \<lparr>nads_buf = str ''?abc'', nads_uri = None, nads_query = None\<rparr> = Inr (g', n', True) \<and>
   nads_query n' = Some 1 \<and> cstr (uribuf g') = [SLASH] \<and> string_at (uribuf g') 1 = Inr []"
  by (rule query_lost_without_path[where q = "str ''abc''"]) simp_all

text \<open>An overlong encoding of NUL passes, although \<open>n_hex\<close> rejects NUL bytes.\<close>

lemma overlong_nul: "uri_spec (str ''/a%c0%80/../../b'') = Inr (Inr (str ''/a''))"
  by code_simp

lemma nads_strerror_bound: "(\<exists>s. nads_strerror err = Inr s) \<longleftrightarrow> err \<noteq> 7"
  by (auto simp: nads_strerror_def estr_def rd_def)

end
