(* ===== verification/Heap.thy ===== *)
theory Heap
  imports Prelude
begin

text \<open>
  The address space the allocators work on: memory by bytes, pointers stored in it in
  little-endian order, and the blocks \<open>malloc\<close> has handed out.  \<open>malloc\<close> itself is a
  parameter; \<open>malloc_ok\<close> is what its specification promises.
\<close>

section \<open>Little-endian numbers\<close>

fun le_bytes :: "nat \<Rightarrow> nat \<Rightarrow> bytes" where
  "le_bytes 0 v = []"
| "le_bytes (Suc n) v = of_nat (v mod 256) # le_bytes n (v div 256)"

fun le_val :: "bytes \<Rightarrow> nat" where
  "le_val [] = 0"
| "le_val (b # bs) = unat b + 256 * le_val bs"

lemma length_le_bytes [simp]: "length (le_bytes n v) = n"
  by (induction n arbitrary: v) auto

lemma unat_of_nat_byte: "unat (of_nat (v mod 256) :: byte) = v mod 256"
  by (simp add: unsigned_of_nat take_bit_nat_eq_self)

lemma le_val_le_bytes: "le_val (le_bytes n v) = v mod 256 ^ n"
proof (induction n arbitrary: v)
  case (Suc n)
  have "v mod 256 ^ Suc n = v mod 256 + 256 * (v div 256 mod 256 ^ n)"
    using mod_mult2_eq[of v 256 "256 ^ n"] by simp
  then show ?case using Suc by (simp add: unat_of_nat_byte)
qed simp

lemma le_val_less: "le_val bs < 256 ^ length bs"
proof (induction bs)
  case (Cons b bs)
  have "unat b + 256 * x < 256 * y" if "x < y" for x y :: nat
    using byte_lt(1)[of b] that by linarith
  then show ?case using Cons by simp
qed simp

lemma le_bytes_le_val: "le_bytes (length bs) (le_val bs) = bs"
proof (induction bs)
  case (Cons b bs)
  have "(unat b + 256 * le_val bs) mod 256 = unat b" "(unat b + 256 * le_val bs) div 256 = le_val bs"
    using byte_lt(1)[of b] by (simp_all add: mod_less div_less)
  then show ?case using Cons by simp
qed simp

section \<open>Memory\<close>

type_synonym memory = "nat \<Rightarrow> byte"

definition load_bytes :: "memory \<Rightarrow> nat \<Rightarrow> nat \<Rightarrow> bytes" where
  "load_bytes m a n = map m [a..<a + n]"

definition store_bytes :: "memory \<Rightarrow> nat \<Rightarrow> bytes \<Rightarrow> memory" where
  "store_bytes m a bs = (\<lambda>x. if a \<le> x \<and> x < a + length bs then bs ! (x - a) else m x)"

definition load_ptr :: "memory \<Rightarrow> nat \<Rightarrow> nat" where
  "load_ptr m a = le_val (load_bytes m a 8)"

definition store_ptr :: "memory \<Rightarrow> nat \<Rightarrow> nat \<Rightarrow> memory" where
  "store_ptr m a p = store_bytes m a (le_bytes 8 p)"

text \<open>Two ranges of addresses, each a start and a size, that do not overlap.\<close>

definition apart :: "nat \<Rightarrow> nat \<Rightarrow> nat \<Rightarrow> nat \<Rightarrow> bool" where
  "apart a n b k \<longleftrightarrow> a + n \<le> b \<or> b + k \<le> a"

lemma apart_sym: "apart a n b k \<longleftrightarrow> apart b k a n"
  by (auto simp: apart_def)

lemma apart_mono: "apart a n b k \<Longrightarrow> a \<le> a' \<Longrightarrow> a' + n' \<le> a + n \<Longrightarrow> b \<le> b' \<Longrightarrow> b' + k' \<le> b + k \<Longrightarrow> apart a' n' b' k'"
  by (auto simp: apart_def)

lemma load_store_same: "load_bytes (store_bytes m a bs) a (length bs) = bs"
  by (rule nth_equalityI) (simp_all add: load_bytes_def store_bytes_def)

lemma load_store_other: "apart a n b (length bs) \<Longrightarrow> load_bytes (store_bytes m b bs) a n = load_bytes m a n"
  by (auto simp: load_bytes_def store_bytes_def apart_def)

lemma load_ptr_store_same [simp]: "p < 2 ^ 64 \<Longrightarrow> load_ptr (store_ptr m a p) a = p"
  using load_store_same[of m a "le_bytes 8 p"]
  by (simp add: load_ptr_def store_ptr_def le_val_le_bytes)

lemma load_ptr_store_other: "apart a 8 b 8 \<Longrightarrow> load_ptr (store_ptr m b p) a = load_ptr m a"
  by (simp add: load_ptr_def store_ptr_def load_store_other)

lemma load_ptr_cong: "(\<And>x. a \<le> x \<Longrightarrow> x < a + 8 \<Longrightarrow> m x = m' x) \<Longrightarrow> load_ptr m a = load_ptr m' a"
  unfolding load_ptr_def load_bytes_def by (intro arg_cong[of _ _ le_val] map_cong) auto

section \<open>Blocks\<close>

record heap =
  mem :: memory
  blocks :: "(nat \<times> nat) list"     \<comment> \<open>start and size of every block in use\<close>

type_synonym malloc = "(nat \<times> nat) list \<Rightarrow> nat \<Rightarrow> nat option"

text \<open>
  A successful \<open>malloc\<close> returns a block of its own, not at address 0, inside the
  address space.
\<close>

definition malloc_ok :: "malloc \<Rightarrow> bool" where
  "malloc_ok malloc \<longleftrightarrow> (\<forall>bs n a. malloc bs n = Some a \<longrightarrow>
     0 < a \<and> a + n < 2 ^ 64 \<and> list_all (\<lambda>(b, k). apart a n b k) bs)"

text \<open>\<open>free\<close> of something that is no block is undefined.\<close>

definition heap_free :: "heap \<Rightarrow> nat \<Rightarrow> heap res" where
  "heap_free hp a =
    (if a \<in> fst ` set (blocks hp) then Inr (hp\<lparr>blocks := filter (\<lambda>(b, k). b \<noteq> a) (blocks hp)\<rparr>)
     else Inl Out_of_bounds)"

lemma heap_free_shrinks:
  assumes "heap_free hp a = Inr hp'"
  shows "length (blocks hp') < length (blocks hp)"
proof -
  have "a \<in> fst ` set (blocks hp)" "hp' = hp\<lparr>blocks := filter (\<lambda>(b, k). b \<noteq> a) (blocks hp)\<rparr>"
    using assms by (auto simp: heap_free_def split: if_splits)
  then show ?thesis by (auto intro!: length_filter_less)
qed

text \<open>A \<open>malloc\<close> that satisfies its specification: allocate behind the last block.\<close>

definition bump_malloc :: malloc where
  "bump_malloc bs n =
    (let a = 16 + foldr (\<lambda>(b, k) m. max m (b + k)) bs 0 in if a + n < 2 ^ 64 then Some a else None)"

lemma bump_bound: "(b, k) \<in> set bs \<Longrightarrow> b + k \<le> foldr (\<lambda>(b, k) m. max m (b + k)) bs (0 :: nat)"
proof (induction bs)
  case (Cons p bs)
  then show ?case by (cases p) (auto simp: le_max_iff_disj)
qed simp

lemma bump_malloc_ok: "malloc_ok bump_malloc"
  unfolding malloc_ok_def bump_malloc_def Let_def list_all_iff apart_def
  using bump_bound by (fastforce split: if_splits)

end
