(* ===== verification/Hgang.thy ===== *)
theory Hgang
  imports Heap
begin

text \<open>
  The fixed-size object allocator (\<open>hgang.c\<close>): objects are carved from slabs, slabs are
  linked through their headers, and returned objects form a list linked through their
  first word.  All links live in the byte memory of theory \<open>Heap\<close>; a client may
  overwrite every byte of an object it holds.
\<close>

section \<open>The allocator\<close>

record hgang =
  obj_size :: nat
  next_obj :: nat
  slab_size :: nat
  slabs :: nat
  free_list :: nat

abbreviation (input) sizeof_ptr :: nat where "sizeof_ptr \<equiv> 8"
abbreviation (input) sizeof_hgang :: nat where "sizeof_hgang \<equiv> 40"
abbreviation (input) sizeof_hdr :: nat where "sizeof_hdr \<equiv> 8"

definition hgang_object_size :: "hgang \<Rightarrow> nat" where
  "hgang_object_size h = obj_size h"

definition first_byte :: "nat \<Rightarrow> nat" where
  "first_byte hdr = hdr + sizeof_hdr"

definition last_byte :: "hgang \<Rightarrow> nat \<Rightarrow> nat" where
  "last_byte h hdr = hdr + slab_size h"

definition obj_in_slab :: "hgang \<Rightarrow> nat \<Rightarrow> nat \<Rightarrow> bool" where
  "obj_in_slab h hdr obj \<longleftrightarrow> first_byte hdr \<le> obj \<and> obj + obj_size h \<le> last_byte h hdr"

text \<open>
  \<open>malloc\<close> leaves \<open>next_obj\<close> with the value \<open>junk\<close>.  The result is the address of the
  descriptor and its content.
\<close>

definition hgang_new :: "malloc \<Rightarrow> nat \<Rightarrow> heap \<Rightarrow> nat \<Rightarrow> nat \<Rightarrow> (nat \<times> hgang) option \<times> heap" where
  "hgang_new malloc junk hp osz n =
    (if osz = 0 then (None, hp)
     else case malloc (blocks hp) sizeof_hgang of
       None \<Rightarrow> (None, hp)
     | Some a \<Rightarrow>
         let osz = (if osz < sizeof_ptr then sizeof_ptr else osz);
             ssz = (if n \<noteq> 0 then (sizeof_hdr + n * osz) mod 2 ^ 64
                    else if osz < 8192 then (sizeof_hdr + (8192 - 8192 mod osz)) mod 2 ^ 64
                    else (sizeof_hdr + 4 * osz) mod 2 ^ 64)
         in (Some (a, \<lparr>obj_size = osz, next_obj = junk, slab_size = ssz, slabs = 0, free_list = 0\<rparr>),
             hp\<lparr>blocks := (a, sizeof_hgang) # blocks hp\<rparr>))"

definition hgang_alloc_slow :: "malloc \<Rightarrow> heap \<Rightarrow> hgang \<Rightarrow> nat option \<times> heap \<times> hgang" where
  "hgang_alloc_slow malloc hp h =
    (case malloc (blocks hp) (slab_size h) of
       None \<Rightarrow> (None, hp, h)
     | Some hdr \<Rightarrow>
         let ret = hdr + sizeof_hdr in
         (Some ret,
          hp\<lparr>mem := store_ptr (mem hp) hdr (slabs h), blocks := (hdr, slab_size h) # blocks hp\<rparr>,
          h\<lparr>next_obj := ret + obj_size h, slabs := hdr\<rparr>))"

definition hgang_alloc :: "malloc \<Rightarrow> heap \<Rightarrow> hgang \<Rightarrow> nat option \<times> heap \<times> hgang" where
  "hgang_alloc malloc hp h =
    (if free_list h \<noteq> 0 then
       (Some (free_list h), hp, h\<lparr>free_list := load_ptr (mem hp) (free_list h)\<rparr>)
     else if slabs h \<noteq> 0 \<and> obj_in_slab h (slabs h) (next_obj h) then
       (Some (next_obj h), hp, h\<lparr>next_obj := next_obj h + obj_size h\<rparr>)
     else hgang_alloc_slow malloc hp h)"

function hgang_free_slabs :: "heap \<Rightarrow> nat \<Rightarrow> heap res" where
  "hgang_free_slabs hp hdr =
    (if hdr = 0 then Inr hp
     else case heap_free hp hdr of Inl e \<Rightarrow> Inl e
       | Inr hp' \<Rightarrow> hgang_free_slabs hp' (load_ptr (mem hp) hdr))"
  by pat_completeness auto
termination
  by (relation "measure (\<lambda>(hp, hdr). length (blocks hp))") (auto dest: heap_free_shrinks)

declare hgang_free_slabs.simps [simp del]

definition hgang_free :: "heap \<Rightarrow> (nat \<times> hgang) option \<Rightarrow> heap res" where
  "hgang_free hp p = (case p of
     None \<Rightarrow> Inr hp
   | Some (a, h) \<Rightarrow> rbind (hgang_free_slabs hp (slabs h)) (\<lambda>hp. heap_free hp a))"

definition hgang_return :: "heap \<Rightarrow> hgang \<Rightarrow> nat \<Rightarrow> (heap \<times> hgang) res" where
  "hgang_return hp h obj =
    (if obj = 0 then Inr (hp, h)
     else rassert (obj_size h \<ge> sizeof_ptr)
       (Inr (hp\<lparr>mem := store_ptr (mem hp) obj (free_list h)\<rparr>, h\<lparr>free_list := obj\<rparr>)))"

definition hgang_alloc0 :: "malloc \<Rightarrow> heap \<Rightarrow> hgang \<Rightarrow> nat option \<times> heap \<times> hgang" where
  "hgang_alloc0 malloc hp h =
    (case hgang_alloc malloc hp h of
       (None, hp, h) \<Rightarrow> (None, hp, h)
     | (Some ret, hp, h) \<Rightarrow>
         (Some ret, hp\<lparr>mem := store_bytes (mem hp) ret (replicate (obj_size h) 0)\<rparr>, h))"

text \<open>
  \<open>hgang_foreach\<close>: the callback sees and updates \<open>priv\<close> and says whether to go on.
  Objects of the first slab end at \<open>next_obj\<close>, those of the others at the slab's end.
\<close>

function foreach_objs :: "('p \<Rightarrow> nat \<Rightarrow> 'p \<times> bool) \<Rightarrow> nat \<Rightarrow> nat \<Rightarrow> 'p \<Rightarrow> nat \<Rightarrow> 'p \<times> bool" where
  "foreach_objs cb osz limit priv obj =
    (if 0 < osz \<and> obj + osz \<le> limit
     then (case cb priv obj of
         (priv', ok) \<Rightarrow> if \<not> ok then (priv', False) else foreach_objs cb osz limit priv' (obj + osz))
     else (priv, True))"
  by pat_completeness auto
termination
  by (relation "measure (\<lambda>(cb, osz, limit, priv, obj). limit - obj)") auto

declare foreach_objs.simps [simp del]

text \<open>The slab list is followed for at most \<open>fuel\<close> slabs; \<open>None\<close> means that this was not enough.\<close>

fun foreach_slabs ::
  "nat \<Rightarrow> ('p \<Rightarrow> nat \<Rightarrow> 'p \<times> bool) \<Rightarrow> memory \<Rightarrow> hgang \<Rightarrow> 'p \<Rightarrow> nat \<Rightarrow> ('p \<times> bool) option" where
  "foreach_slabs fuel cb m h priv hdr =
    (if hdr = 0 then Some (priv, True)
     else case fuel of 0 \<Rightarrow> None
       | Suc fuel \<Rightarrow>
           (case foreach_objs cb (obj_size h) (last_byte h hdr) priv (first_byte hdr) of
              (priv', ok) \<Rightarrow> if \<not> ok then Some (priv', False)
                else foreach_slabs fuel cb m h priv' (load_ptr m hdr)))"

declare foreach_slabs.simps [simp del]

definition hgang_foreach ::
  "nat \<Rightarrow> ('p \<Rightarrow> nat \<Rightarrow> 'p \<times> bool) \<Rightarrow> heap \<Rightarrow> hgang \<Rightarrow> 'p \<Rightarrow> ('p \<times> bool) option res" where
  "hgang_foreach fuel cb hp h priv =
    (if slabs h = 0 then Inr (Some (priv, True))
     else rassert (free_list h \<noteq> 0)
       (case foreach_objs cb (obj_size h) (next_obj h) priv (first_byte (slabs h)) of
          (priv', ok) \<Rightarrow> if \<not> ok then Inr (Some (priv', False))
            else Inr (foreach_slabs fuel cb (mem hp) h priv' (load_ptr (mem hp) (slabs h)))))"

section \<open>The invariant\<close>

text \<open>A list linked through the first word of its elements.\<close>

fun chain :: "memory \<Rightarrow> nat \<Rightarrow> nat list \<Rightarrow> bool" where
  "chain m p [] = (p = 0)"
| "chain m p (x # xs) = (p = x \<and> x \<noteq> 0 \<and> chain m (load_ptr m x) xs)"

lemma chain_cong: "chain m p xs \<Longrightarrow> (\<And>x. x \<in> set xs \<Longrightarrow> load_ptr m' x = load_ptr m x) \<Longrightarrow> chain m' p xs"
  by (induction xs arbitrary: p) auto

definition slots :: "nat \<Rightarrow> nat \<Rightarrow> nat \<Rightarrow> nat set" where
  "slots osz s n = (\<lambda>k. s + 8 + k * osz) ` {..<n}"

definition slab_cap :: "hgang \<Rightarrow> nat" where
  "slab_cap h = (slab_size h - 8) div obj_size h"

text \<open>The objects handed out so far: \<open>n\<close> of the first slab and all of the others.\<close>

fun carved :: "hgang \<Rightarrow> nat list \<Rightarrow> nat \<Rightarrow> nat set" where
  "carved h [] n = {}"
| "carved h (s # ss) n = slots (obj_size h) s n \<union> (\<Union>t \<in> set ss. slots (obj_size h) t (slab_cap h))"

lemma slab_cap_update [simp]:
  "slab_cap (h\<lparr>free_list := x\<rparr>) = slab_cap h" "slab_cap (h\<lparr>next_obj := y\<rparr>) = slab_cap h"
  "slab_cap (h\<lparr>slabs := z\<rparr>) = slab_cap h"
  by (simp_all add: slab_cap_def)

lemma carved_update [simp]:
  "carved (h\<lparr>free_list := x\<rparr>) ss n = carved h ss n" "carved (h\<lparr>next_obj := y\<rparr>) ss n = carved h ss n"
  "carved (h\<lparr>slabs := z\<rparr>) ss n = carved h ss n"
  by (cases ss; simp)+

definition blocks_ok :: "(nat \<times> nat) list \<Rightarrow> bool" where
  "blocks_ok bs \<longleftrightarrow> sorted_wrt (\<lambda>(a, n) (b, k). apart a n b k) bs \<and> list_all (\<lambda>(a, n). 0 < a \<and> a + n < 2 ^ 64) bs"

text \<open>
  \<open>fs\<close> are the returned objects, \<open>ss\<close> the slabs and \<open>L\<close> the objects clients hold: every
  object handed out is in exactly one of \<open>fs\<close> and \<open>L\<close>.
\<close>

definition hg_inv :: "heap \<Rightarrow> hgang \<Rightarrow> nat list \<Rightarrow> nat list \<Rightarrow> nat \<Rightarrow> nat set \<Rightarrow> bool" where
  "hg_inv hp h fs ss n L \<longleftrightarrow>
     8 \<le> obj_size h \<and> 8 + obj_size h \<le> slab_size h \<and>
     chain (mem hp) (free_list h) fs \<and> chain (mem hp) (slabs h) ss \<and>
     distinct fs \<and> set fs \<inter> L = {} \<and> set fs \<union> L = carved h ss n \<and>
     distinct ss \<and> (\<forall>s \<in> set ss. (s, slab_size h) \<in> set (blocks hp)) \<and> blocks_ok (blocks hp) \<and>
     (ss \<noteq> [] \<longrightarrow> next_obj h = hd ss + 8 + n * obj_size h \<and> n \<le> slab_cap h)"

definition pool_inv :: "heap \<times> hgang \<Rightarrow> nat set \<Rightarrow> bool" where
  "pool_inv s L \<longleftrightarrow> (\<exists>fs ss n. hg_inv (fst s) (snd s) fs ss n L)"

section \<open>Objects do not overlap\<close>

lemma cap_iff: "8 \<le> obj_size h \<Longrightarrow> k \<le> slab_cap h \<longleftrightarrow> k * obj_size h \<le> slab_size h - 8"
  unfolding slab_cap_def by (rule less_eq_div_iff_mult_less_eq) simp

lemma slots_inside:
  assumes "o' \<in> slots osz s n" "n \<le> (ssz - 8) div osz" "8 \<le> ssz"
  shows "s + 8 \<le> o' \<and> o' + osz \<le> s + ssz"
proof -
  obtain k where k: "k < n" "o' = s + 8 + k * osz" using assms(1) by (auto simp: slots_def)
  have "Suc k * osz \<le> (ssz - 8) div osz * osz" using k(1) assms(2) by (intro mult_le_mono1) simp
  also have "\<dots> \<le> ssz - 8" by simp
  finally show ?thesis using k(2) assms(3) by simp
qed

lemma slots_apart:
  assumes "a \<in> slots osz s n" "b \<in> slots osz s n" "a \<noteq> b"
  shows "apart a osz b osz"
proof -
  obtain i j where ij: "a = s + 8 + i * osz" "b = s + 8 + j * osz" "i \<noteq> j"
    using assms by (auto simp: slots_def)
  consider "Suc i \<le> j" | "Suc j \<le> i" using ij(3) by linarith
  then show ?thesis
  proof cases
    case 1
    then have "Suc i * osz \<le> j * osz" by (rule mult_le_mono1)
    then show ?thesis using ij by (simp add: apart_def)
  next
    case 2
    then have "Suc j * osz \<le> i * osz" by (rule mult_le_mono1)
    then show ?thesis using ij by (simp add: apart_def)
  qed
qed

lemma slots_mono: "n \<le> m \<Longrightarrow> slots osz s n \<subseteq> slots osz s m"
  by (auto simp: slots_def)

lemma slots_Suc: "slots osz s (Suc n) = insert (s + 8 + n * osz) (slots osz s n)"
  by (auto simp: slots_def lessThan_Suc)

lemma carved_slot: "o' \<in> carved h ss n \<Longrightarrow> n \<le> slab_cap h \<Longrightarrow> \<exists>s \<in> set ss. o' \<in> slots (obj_size h) s (slab_cap h)"
  by (cases ss) (auto dest: subsetD[OF slots_mono])

lemma blocks_apart:
  "blocks_ok bs \<Longrightarrow> (a, n) \<in> set bs \<Longrightarrow> (b, k) \<in> set bs \<Longrightarrow> (a, n) \<noteq> (b, k) \<Longrightarrow> apart a n b k"
proof (induction bs)
  case (Cons p bs)
  then show ?case by (auto simp: blocks_ok_def apart_sym[of a] split: prod.splits)
qed simp

lemma blocks_range: "blocks_ok bs \<Longrightarrow> (a, n) \<in> set bs \<Longrightarrow> 0 < a \<and> a + n < 2 ^ 64"
  by (auto simp: blocks_ok_def list_all_iff)

text \<open>Where the objects of a pool are.\<close>

lemma hg_slot:
  assumes "hg_inv hp h fs ss n L" "o' \<in> set fs \<union> L"
  obtains s where "s \<in> set ss" "o' \<in> slots (obj_size h) s (slab_cap h)" "(s, slab_size h) \<in> set (blocks hp)"
    "s + 8 \<le> o'" "o' + obj_size h \<le> s + slab_size h"
proof -
  have inv: "8 \<le> slab_size h" "set fs \<union> L = carved h ss n" "ss \<noteq> [] \<longrightarrow> n \<le> slab_cap h"
    "\<forall>s \<in> set ss. (s, slab_size h) \<in> set (blocks hp)"
    using assms(1) by (auto simp: hg_inv_def)
  then obtain s where s: "s \<in> set ss" "o' \<in> slots (obj_size h) s (slab_cap h)"
    using carved_slot[of o' h ss n] assms(2) by (cases ss) auto
  with slots_inside[OF s(2), of "slab_size h"] inv show ?thesis by (intro that[of s]) (auto simp: slab_cap_def)
qed

lemma hg_objects_apart:
  assumes inv: "hg_inv hp h fs ss n L" and a: "a \<in> set fs \<union> L" and b: "b \<in> set fs \<union> L" and "a \<noteq> b"
  shows "apart a (obj_size h) b (obj_size h)"
proof -
  obtain s where s: "s \<in> set ss" "a \<in> slots (obj_size h) s (slab_cap h)" "(s, slab_size h) \<in> set (blocks hp)"
    "s + 8 \<le> a" "a + obj_size h \<le> s + slab_size h" using hg_slot[OF inv a] .
  obtain t where t: "t \<in> set ss" "b \<in> slots (obj_size h) t (slab_cap h)" "(t, slab_size h) \<in> set (blocks hp)"
    "t + 8 \<le> b" "b + obj_size h \<le> t + slab_size h" using hg_slot[OF inv b] .
  show ?thesis
  proof (cases "s = t")
    case True
    then show ?thesis using slots_apart s(2) t(2) \<open>a \<noteq> b\<close> by blast
  next
    case False
    have "blocks_ok (blocks hp)" using inv by (simp add: hg_inv_def)
    from blocks_apart[OF this s(3) t(3)] False have "apart s (slab_size h) t (slab_size h)" by simp
    from apart_mono[OF this _ s(5) _ t(5)] s(4) t(4) show ?thesis by simp
  qed
qed

text \<open>Objects keep clear of the slab headers.\<close>

lemma hg_header_apart:
  assumes inv: "hg_inv hp h fs ss n L" and a: "a \<in> set fs \<union> L" and t: "t \<in> set ss"
  shows "apart t 8 a (obj_size h)"
proof -
  obtain s where s: "(s, slab_size h) \<in> set (blocks hp)" "s + 8 \<le> a" "a + obj_size h \<le> s + slab_size h"
    using hg_slot[OF inv a] .
  have ok: "blocks_ok (blocks hp)" "(t, slab_size h) \<in> set (blocks hp)" "8 \<le> slab_size h"
    using inv t by (auto simp: hg_inv_def)
  show ?thesis
  proof (cases "s = t")
    case False
    then have "apart t (slab_size h) s (slab_size h)" using blocks_apart[OF ok(1,2) s(1)] by simp
    from apart_mono[OF this _ _ _ s(3)] s(2) ok(3) show ?thesis by simp
  qed (use s in \<open>simp add: apart_def\<close>)
qed

lemma hg_object_range:
  assumes "hg_inv hp h fs ss n L" "a \<in> set fs \<union> L"
  shows "0 < a \<and> a + obj_size h < 2 ^ 64"
proof -
  obtain s where "(s, slab_size h) \<in> set (blocks hp)" "s + 8 \<le> a" "a + obj_size h \<le> s + slab_size h"
    using hg_slot[OF assms] .
  moreover have "blocks_ok (blocks hp)" using assms(1) by (simp add: hg_inv_def)
  ultimately have "0 < s" "s + slab_size h < 2 ^ 64" "s + 8 \<le> a" "a + obj_size h \<le> s + slab_size h"
    using blocks_range by blast+
  then show ?thesis by linarith
qed

section \<open>Every operation keeps the invariant\<close>

lemma chain_head: "chain m p xs \<Longrightarrow> p = (case xs of [] \<Rightarrow> 0 | x # _ \<Rightarrow> x)"
  by (cases xs) auto

text \<open>A change of memory inside the objects of clients.\<close>

lemma hg_inv_write:
  assumes inv: "hg_inv hp h fs ss n L"
    and w: "\<And>x. (\<And>a. a \<in> L \<Longrightarrow> \<not> (a \<le> x \<and> x < a + obj_size h)) \<Longrightarrow> m x = mem hp x"
  shows "hg_inv (hp\<lparr>mem := m\<rparr>) h fs ss n L"
proof -
  have same: "load_ptr m y = load_ptr (mem hp) y" if "\<forall>a \<in> L. apart y 8 a (obj_size h)" for y
    by (rule load_ptr_cong, rule w) (use that in \<open>auto simp: apart_def\<close>)
  have "apart f 8 a (obj_size h)" if "f \<in> set fs" "a \<in> L" for f a
  proof -
    have "f \<noteq> a" "8 \<le> obj_size h" using inv that by (auto simp: hg_inv_def)
    then show ?thesis using hg_objects_apart[OF inv, of f a] that apart_mono[of f "obj_size h" a "obj_size h" f 8 a "obj_size h"] by auto
  qed
  then have f: "load_ptr m f = load_ptr (mem hp) f" if "f \<in> set fs" for f using same that by blast
  have t: "load_ptr m t = load_ptr (mem hp) t" if "t \<in> set ss" for t
    using same hg_header_apart[OF inv _ that] by blast
  have "chain m (free_list h) fs" "chain m (slabs h) ss"
    by (rule chain_cong[OF _ f], use inv in \<open>simp_all add: hg_inv_def\<close>)
       (rule chain_cong[OF _ t], use inv in \<open>simp_all add: hg_inv_def\<close>)
  then show ?thesis using inv by (simp add: hg_inv_def)
qed

lemma hg_inv_alloc_free:
  assumes "hg_inv hp h (x # fs) ss n L"
  shows "free_list h = x \<and> x \<notin> L \<and> hg_inv hp (h\<lparr>free_list := load_ptr (mem hp) x\<rparr>) fs ss n (insert x L)"
  using assms by (auto simp: hg_inv_def)

lemma hg_inv_alloc_fast:
  assumes inv: "hg_inv hp h [] ss n L" and sl: "slabs h \<noteq> 0" "obj_in_slab h (slabs h) (next_obj h)"
  shows "next_obj h \<notin> L \<and> hg_inv hp (h\<lparr>next_obj := next_obj h + obj_size h\<rparr>) [] ss (Suc n) (insert (next_obj h) L)"
proof -
  obtain ts where ss: "ss = slabs h # ts" using inv sl(1) by (cases ss) (auto simp: hg_inv_def)
  have nx: "next_obj h = slabs h + 8 + n * obj_size h" "n \<le> slab_cap h" "8 \<le> obj_size h" "L = carved h ss n"
    using inv by (auto simp: hg_inv_def ss)
  have "Suc n * obj_size h \<le> slab_size h - 8"
    using sl(2) nx(1) by (auto simp: obj_in_slab_def last_byte_def)
  then have n: "Suc n \<le> slab_cap h" using nx(3) by (simp only: cap_iff)
  have new: "next_obj h \<in> slots (obj_size h) (slabs h) (Suc n)" using nx(1) by (simp add: slots_Suc)
  have "next_obj h \<notin> L"
  proof
    assume "next_obj h \<in> L"
    then consider "next_obj h \<in> slots (obj_size h) (slabs h) n"
      | t where "t \<in> set ts" "next_obj h \<in> slots (obj_size h) t (slab_cap h)"
      using nx(4) ss by auto
    then show False
    proof cases
      case 1
      then show ?thesis using nx(1,3) by (auto simp: slots_def)
    next
      case 2
      have bl: "blocks_ok (blocks hp)" "(t, slab_size h) \<in> set (blocks hp)" "(slabs h, slab_size h) \<in> set (blocks hp)"
        "t \<noteq> slabs h" "8 \<le> slab_size h" using inv 2(1) by (auto simp: hg_inv_def ss)
      have "apart t (slab_size h) (slabs h) (slab_size h)" using blocks_apart[OF bl(1,2,3)] bl(4) by simp
      moreover have "t + 8 \<le> next_obj h \<and> next_obj h + obj_size h \<le> t + slab_size h"
        using slots_inside[OF 2(2), of "slab_size h"] bl(5) by (simp add: slab_cap_def)
      moreover have "slabs h + 8 \<le> next_obj h \<and> next_obj h + obj_size h \<le> slabs h + slab_size h"
        using slots_inside[OF new, of "slab_size h"] n bl(5) by (simp add: slab_cap_def)
      ultimately show ?thesis using nx(3) by (auto simp: apart_def)
    qed
  qed
  then show ?thesis using inv n nx by (simp add: hg_inv_def ss slots_Suc insert_commute)
qed

text \<open>When the slow path runs, the first slab is full.\<close>

lemma hg_slab_full:
  assumes inv: "hg_inv hp h [] ss n L" and "ss \<noteq> []" "\<not> obj_in_slab h (slabs h) (next_obj h)"
  shows "n = slab_cap h"
proof -
  obtain ts where ss: "ss = slabs h # ts" using inv assms(2) by (cases ss) (auto simp: hg_inv_def)
  have nx: "next_obj h = slabs h + 8 + n * obj_size h" "n \<le> slab_cap h" "8 \<le> obj_size h"
    using inv by (auto simp: hg_inv_def ss)
  have "\<not> Suc n * obj_size h \<le> slab_size h - 8"
    using assms(3) nx(1,3) by (auto simp: obj_in_slab_def last_byte_def first_byte_def)
  then have "\<not> Suc n \<le> slab_cap h" using nx(3) cap_iff by blast
  then show ?thesis using nx(2) by simp
qed

lemma hg_inv_alloc_slow:
  assumes inv: "hg_inv hp h [] ss n L" and full: "ss \<noteq> [] \<longrightarrow> n = slab_cap h" and ok: "malloc_ok malloc"
    and m: "malloc (blocks hp) (slab_size h) = Some a"
  shows "a + 8 \<notin> L \<and> hg_inv (hp\<lparr>mem := store_ptr (mem hp) a (slabs h), blocks := (a, slab_size h) # blocks hp\<rparr>)
    (h\<lparr>next_obj := a + 8 + obj_size h, slabs := a\<rparr>) [] (a # ss) 1 (insert (a + 8) L)"
proof -
  have sz: "8 \<le> obj_size h" "8 + obj_size h \<le> slab_size h" using inv by (auto simp: hg_inv_def)
  have a: "0 < a" "a + slab_size h < 2 ^ 64" "\<And>b k. (b, k) \<in> set (blocks hp) \<Longrightarrow> apart a (slab_size h) b k"
    using ok m by (fastforce simp: malloc_ok_def list_all_iff)+
  have bl: "blocks_ok ((a, slab_size h) # blocks hp)" using inv a by (auto simp: hg_inv_def blocks_ok_def)
  have ap: "s \<in> set ss \<Longrightarrow> apart s (slab_size h) a (slab_size h)" for s
    using a(3)[of s "slab_size h"] inv apart_sym[of a "slab_size h" s "slab_size h"] by (simp add: hg_inv_def)
  have fresh: "a \<notin> set ss" using ap[of a] sz by (auto simp: apart_def)
  have "slabs h < 2 ^ 64"
  proof (cases ss)
    case (Cons t ts)
    then show ?thesis using inv blocks_range[of "blocks hp" t "slab_size h"] by (auto simp: hg_inv_def)
  qed (use inv in \<open>simp add: hg_inv_def\<close>)
  moreover have "chain (store_ptr (mem hp) a (slabs h)) (slabs h) ss"
  proof (rule chain_cong)
    show "chain (mem hp) (slabs h) ss" using inv by (simp add: hg_inv_def)
    fix s assume "s \<in> set ss"
    with ap[of s] sz show "load_ptr (store_ptr (mem hp) a (slabs h)) s = load_ptr (mem hp) s"
      by (intro load_ptr_store_other) (auto simp: apart_def)
  qed
  ultimately have ch: "chain (store_ptr (mem hp) a (slabs h)) a (a # ss)" using a(1) by simp
  have cap: "1 \<le> slab_cap h" using sz by (simp add: cap_iff)
  have cv: "carved h (a # ss) 1 = insert (a + 8) (carved h ss n)"
    using full by (cases ss) (auto simp: slots_Suc slots_def)
  have "a + 8 \<notin> L"
  proof
    assume "a + 8 \<in> L"
    then obtain s where "s \<in> set ss" "s + 8 \<le> a + 8" "a + 8 + obj_size h \<le> s + slab_size h"
      using hg_slot[OF inv, of "a + 8"] by auto
    with ap[of s] sz show False by (auto simp: apart_def)
  qed
  then show ?thesis using inv bl ch cap cv fresh by (simp add: hg_inv_def)
qed

lemma hg_inv_return:
  assumes inv: "hg_inv hp h fs ss n L" and x: "x \<in> L"
  shows "hg_inv (hp\<lparr>mem := store_ptr (mem hp) x (free_list h)\<rparr>) (h\<lparr>free_list := x\<rparr>) (x # fs) ss n (L - {x})"
proof -
  have sz: "8 \<le> obj_size h" using inv by (simp add: hg_inv_def)
  have w: "hg_inv (hp\<lparr>mem := store_ptr (mem hp) x (free_list h)\<rparr>) h fs ss n L"
    by (rule hg_inv_write[OF inv], use x sz in \<open>force simp: store_ptr_def store_bytes_def\<close>)
  have "free_list h < 2 ^ 64"
    using hg_object_range[OF inv, of "free_list h"] inv by (cases fs) (auto simp: hg_inv_def)
  moreover have "0 < x" using hg_object_range[OF inv, of x] x by simp
  ultimately show ?thesis using w x inv by (auto simp: hg_inv_def)
qed

lemma pool_invI: "hg_inv hp h fs ss n L \<Longrightarrow> pool_inv (hp, h) L"
  by (auto simp: pool_inv_def)

lemma pool_alloc:
  assumes ok: "malloc_ok malloc" and p: "pool_inv (hp, h) L" and r: "hgang_alloc malloc hp h = (r, hp', h')"
  shows "case r of
      None \<Rightarrow> pool_inv (hp', h') L
    | Some x \<Rightarrow> x \<notin> L \<and> pool_inv (hp', h') (insert x L) \<and> obj_size h' = obj_size h"
proof -
  obtain fs ss n where inv: "hg_inv hp h fs ss n L" using p by (auto simp: pool_inv_def)
  show ?thesis
  proof (cases fs)
    case (Cons x gs)
    note fr = hg_inv_alloc_free[OF inv[unfolded Cons]]
    have "x \<noteq> 0" using hg_object_range[OF inv, of x] Cons by simp
    then show ?thesis using fr pool_invI[OF conjunct2[OF conjunct2[OF fr]]] r by (auto simp: hgang_alloc_def)
  next
    case Nil
    then have fl: "free_list h = 0" using inv by (simp add: hg_inv_def)
    show ?thesis
    proof (cases "slabs h \<noteq> 0 \<and> obj_in_slab h (slabs h) (next_obj h)")
      case True
      note fast = hg_inv_alloc_fast[OF inv[unfolded Nil] conjunct1[OF True] conjunct2[OF True]]
      show ?thesis using fast pool_invI[OF conjunct2[OF fast]] r fl True by (auto simp: hgang_alloc_def)
    next
      case False
      then have full: "ss \<noteq> [] \<longrightarrow> n = slab_cap h"
        using hg_slab_full[of hp h ss n L] inv Nil chain_head[of "mem hp" "slabs h" ss]
        by (cases ss) (auto simp: hg_inv_def)
      show ?thesis
      proof (cases "malloc (blocks hp) (slab_size h)")
        case None
        then show ?thesis using r fl False p by (auto simp: hgang_alloc_def hgang_alloc_slow_def)
      next
        case (Some a)
        note new = hg_inv_alloc_slow[OF inv[unfolded Nil] full ok Some]
        show ?thesis using new pool_invI[OF conjunct2[OF new]] r fl False Some
          by (auto simp: hgang_alloc_def hgang_alloc_slow_def Let_def)
      qed
    qed
  qed
qed

lemma pool_return:
  assumes "pool_inv (hp, h) L" "x \<in> L"
  shows "\<exists>hp' h'. hgang_return hp h x = Inr (hp', h') \<and> pool_inv (hp', h') (L - {x})"
proof -
  obtain fs ss n where inv: "hg_inv hp h fs ss n L" using assms(1) by (auto simp: pool_inv_def)
  have "8 \<le> obj_size h" "x \<noteq> 0" using inv hg_object_range[OF inv, of x] assms(2) by (auto simp: hg_inv_def)
  then show ?thesis using hg_inv_return[OF inv assms(2)] by (auto simp: hgang_return_def pool_inv_def)
qed

lemma pool_write:
  assumes "pool_inv (hp, h) L" "\<And>x. (\<And>a. a \<in> L \<Longrightarrow> \<not> (a \<le> x \<and> x < a + obj_size h)) \<Longrightarrow> m x = mem hp x"
  shows "pool_inv (hp\<lparr>mem := m\<rparr>, h) L"
  using assms(1) hg_inv_write[OF _ assms(2)] unfolding pool_inv_def by fastforce

lemma pool_apart: "pool_inv (hp, h) L \<Longrightarrow> a \<in> L \<Longrightarrow> b \<in> L \<Longrightarrow> a \<noteq> b \<Longrightarrow> apart a (obj_size h) b (obj_size h)"
  unfolding pool_inv_def using hg_objects_apart by fastforce

lemma pool_inside:
  assumes "pool_inv (hp, h) L" "a \<in> L"
  shows "0 < a \<and> (\<exists>s. (s, slab_size h) \<in> set (blocks hp) \<and> s + 8 \<le> a \<and> a + obj_size h \<le> s + slab_size h)"
proof -
  obtain fs ss n where inv: "hg_inv hp h fs ss n L" using assms(1) by (auto simp: pool_inv_def)
  show ?thesis using hg_slot[OF inv, of a] hg_object_range[OF inv, of a] assms(2) by (metis UnI2)
qed

lemma pool_new:
  assumes ok: "malloc_ok malloc" and bs: "blocks_ok (blocks hp)"
    and r: "hgang_new malloc junk hp osz n = (Some (a, h), hp')"
    and small: "8 + n * max osz 8 < 2 ^ 64" "8 + 4 * osz < 2 ^ 64"
  shows "pool_inv (hp', h) {} \<and> obj_size h = max osz 8"
proof -
  have a: "osz \<noteq> 0" "malloc (blocks hp) 40 = Some a" "hp' = hp\<lparr>blocks := (a, 40) # blocks hp\<rparr>"
    "obj_size h = max osz 8" "slabs h = 0" "free_list h = 0"
    using r by (auto simp: hgang_new_def Let_def max_def split: if_splits option.splits)
  have ssz: "slab_size h = 8 + (if n \<noteq> 0 then n * max osz 8 else if max osz 8 < 8192
       then 8192 - 8192 mod max osz 8 else 4 * max osz 8)"
    using r small by (auto simp: hgang_new_def Let_def max_def split: if_splits option.splits)
  have dv: "m \<le> 8192 - 8192 mod m" if "0 < m" "m < 8192" for m :: nat
  proof -
    have "8192 - 8192 mod m = m * (8192 div m)" by (simp add: minus_mod_eq_mult_div)
    moreover have "1 \<le> 8192 div m" using that by (simp add: div_greater_zero_iff Suc_le_eq)
    ultimately show ?thesis by (metis mult.right_neutral mult_le_mono2)
  qed
  define m where "m = max osz 8"
  have "0 < m" by (simp add: m_def)
  from dv[OF this] have "m < 8192 \<Longrightarrow> m \<le> 8192 - 8192 mod m" .
  moreover have "n \<noteq> 0 \<Longrightarrow> m \<le> n * m" by (cases n) auto
  ultimately have "8 + m \<le> slab_size h" unfolding ssz[folded m_def] by simp
  then have sz: "8 + max osz 8 \<le> slab_size h" by (simp only: m_def)
  have "blocks_ok (blocks hp')"
    using ok a(2,3) bs by (fastforce simp: malloc_ok_def blocks_ok_def list_all_iff)
  then have "hg_inv hp' h [] [] 0 {}" using a sz by (simp add: hg_inv_def)
  then show ?thesis using a(4) by (auto simp: pool_inv_def)
qed

section \<open>The interface of an object pool\<close>

text \<open>
  What a client of a pool relies on: \<open>inv s L\<close> says that \<open>L\<close> are the objects clients
  hold.  An allocation gives a new one or fails, and a release takes one back.
\<close>

locale object_pool =
  fixes inv :: "'s \<Rightarrow> nat set \<Rightarrow> bool"
    and alloc :: "'s \<Rightarrow> nat option \<times> 's"
    and release :: "'s \<Rightarrow> nat \<Rightarrow> 's res"
    and osize :: "'s \<Rightarrow> nat"
  assumes alloc_some: "inv s L \<Longrightarrow> alloc s = (Some x, s') \<Longrightarrow> x \<notin> L \<and> inv s' (insert x L)"
    and alloc_none: "inv s L \<Longrightarrow> alloc s = (None, s') \<Longrightarrow> inv s' L"
    and release_ok: "inv s L \<Longrightarrow> x \<in> L \<Longrightarrow> \<exists>s'. release s x = Inr s' \<and> inv s' (L - {x})"
    and live_apart: "inv s L \<Longrightarrow> x \<in> L \<Longrightarrow> y \<in> L \<Longrightarrow> x \<noteq> y \<Longrightarrow> apart x (osize s) y (osize s)"
begin

text \<open>A client that allocates objects and releases ones it holds.\<close>

inductive client :: "'s \<Rightarrow> nat set \<Rightarrow> 's \<Rightarrow> nat set \<Rightarrow> bool" where
  start: "client s L s L"
| got: "client s L s1 L1 \<Longrightarrow> alloc s1 = (Some x, s2) \<Longrightarrow> client s L s2 (insert x L1)"
| failed: "client s L s1 L1 \<Longrightarrow> alloc s1 = (None, s2) \<Longrightarrow> client s L s2 L1"
| gave: "client s L s1 L1 \<Longrightarrow> x \<in> L1 \<Longrightarrow> release s1 x = Inr s2 \<Longrightarrow> client s L s2 (L1 - {x})"

lemma client_inv: "client s L s' L' \<Longrightarrow> inv s L \<Longrightarrow> inv s' L'"
proof (induction rule: client.induct)
  case (gave s L s1 L1 x s2)
  then show ?case using release_ok[of s1 L1 x] by auto
qed (auto dest: alloc_some alloc_none)

lemma client_apart:
  "client s L s' L' \<Longrightarrow> inv s L \<Longrightarrow> x \<in> L' \<Longrightarrow> y \<in> L' \<Longrightarrow> x \<noteq> y \<Longrightarrow> apart x (osize s') y (osize s')"
  using client_inv live_apart by blast

text \<open>A released object can be released only once: it is not held any more.\<close>

lemma client_fresh: "client s L s' L' \<Longrightarrow> inv s L \<Longrightarrow> alloc s' = (Some x, s2) \<Longrightarrow> x \<notin> L'"
  using client_inv alloc_some by blast

end

text \<open>The \<open>hgang\<close> allocator over a heap, for a \<open>malloc\<close> that keeps its promise.\<close>

definition total_malloc :: "malloc \<Rightarrow> malloc" where
  "total_malloc malloc = (if malloc_ok malloc then malloc else (\<lambda>bs n. None))"

lemma total_malloc_ok: "malloc_ok (total_malloc malloc)"
  by (simp add: total_malloc_def malloc_ok_def)

definition hg_alloc :: "malloc \<Rightarrow> heap \<times> hgang \<Rightarrow> nat option \<times> (heap \<times> hgang)" where
  "hg_alloc malloc s = hgang_alloc (total_malloc malloc) (fst s) (snd s)"

definition hg_release :: "heap \<times> hgang \<Rightarrow> nat \<Rightarrow> (heap \<times> hgang) res" where
  "hg_release s x = hgang_return (fst s) (snd s) x"

interpretation hg: object_pool pool_inv "hg_alloc malloc" hg_release "\<lambda>s. obj_size (snd s)"
proof
  fix s :: "heap \<times> hgang" and s' L x y
  show "pool_inv s L \<Longrightarrow> hg_alloc malloc s = (Some x, s') \<Longrightarrow> x \<notin> L \<and> pool_inv s' (insert x L)"
    using pool_alloc[OF total_malloc_ok, of "fst s" "snd s" L malloc "Some x" "fst s'" "snd s'"]
    by (simp add: hg_alloc_def)
  show "pool_inv s L \<Longrightarrow> hg_alloc malloc s = (None, s') \<Longrightarrow> pool_inv s' L"
    using pool_alloc[OF total_malloc_ok, of "fst s" "snd s" L malloc None "fst s'" "snd s'"]
    by (simp add: hg_alloc_def)
  show "pool_inv s L \<Longrightarrow> x \<in> L \<Longrightarrow> \<exists>s'. hg_release s x = Inr s' \<and> pool_inv s' (L - {x})"
    using pool_return[of "fst s" "snd s" L x] by (auto simp: hg_release_def)
  show "pool_inv s L \<Longrightarrow> x \<in> L \<Longrightarrow> y \<in> L \<Longrightarrow> x \<noteq> y \<Longrightarrow> apart x (obj_size (snd s)) y (obj_size (snd s))"
    using pool_apart[of "fst s" "snd s" L x y] by simp
qed

section \<open>Runs of a pool\<close>

text \<open>
  Every way a program may use a pool: allocate, return an object it holds, overwrite the
  objects it holds, and call \<open>malloc\<close> for other purposes.
\<close>

inductive hg_run :: "malloc \<Rightarrow> heap \<Rightarrow> hgang \<Rightarrow> nat set \<Rightarrow> bool" for malloc where
  new: "blocks_ok (blocks hp) \<Longrightarrow> hgang_new malloc junk hp osz n = (Some (a, h), hp') \<Longrightarrow>
    8 + n * max osz 8 < 2 ^ 64 \<Longrightarrow> 8 + 4 * osz < 2 ^ 64 \<Longrightarrow> hg_run malloc hp' h {}"
| alloc: "hg_run malloc hp h L \<Longrightarrow> hgang_alloc malloc hp h = (Some x, hp', h') \<Longrightarrow> hg_run malloc hp' h' (insert x L)"
| fail: "hg_run malloc hp h L \<Longrightarrow> hgang_alloc malloc hp h = (None, hp', h') \<Longrightarrow> hg_run malloc hp' h' L"
| alloc0: "hg_run malloc hp h L \<Longrightarrow> hgang_alloc0 malloc hp h = (Some x, hp', h') \<Longrightarrow> hg_run malloc hp' h' (insert x L)"
| ret: "hg_run malloc hp h L \<Longrightarrow> x \<in> L \<Longrightarrow> hgang_return hp h x = Inr (hp', h') \<Longrightarrow> hg_run malloc hp' h' (L - {x})"
| upd: "hg_run malloc hp h L \<Longrightarrow>
    (\<And>x. (\<And>a. a \<in> L \<Longrightarrow> \<not> (a \<le> x \<and> x < a + obj_size h)) \<Longrightarrow> m x = mem hp x) \<Longrightarrow> hg_run malloc (hp\<lparr>mem := m\<rparr>) h L"
| other: "hg_run malloc hp h L \<Longrightarrow> malloc (blocks hp) k = Some a \<Longrightarrow>
    hg_run malloc (hp\<lparr>blocks := (a, k) # blocks hp\<rparr>) h L"

lemma pool_other:
  assumes "malloc_ok malloc" "pool_inv (hp, h) L" "malloc (blocks hp) k = Some a"
  shows "pool_inv (hp\<lparr>blocks := (a, k) # blocks hp\<rparr>, h) L"
proof -
  obtain fs ss n where inv: "hg_inv hp h fs ss n L" using assms(2) by (auto simp: pool_inv_def)
  then have "blocks_ok ((a, k) # blocks hp)"
    using assms(1,3) by (fastforce simp: hg_inv_def malloc_ok_def blocks_ok_def list_all_iff)
  then have "hg_inv (hp\<lparr>blocks := (a, k) # blocks hp\<rparr>) h fs ss n L" using inv by (simp add: hg_inv_def)
  then show ?thesis by (rule pool_invI)
qed

lemma hg_run_inv:
  assumes ok: "malloc_ok malloc" and run: "hg_run malloc hp h L"
  shows "pool_inv (hp, h) L"
  using run
proof (induction rule: hg_run.induct)
  case (new hp junk osz n a h hp')
  then show ?case using pool_new[OF ok] by blast
next
  case (alloc hp h L x hp' h')
  then show ?case using hg.alloc_some[of "(hp, h)" L malloc x "(hp', h')"] ok
    by (simp add: hg_alloc_def total_malloc_def)
next
  case (fail hp h L hp' h')
  then show ?case using hg.alloc_none[of "(hp, h)" L malloc "(hp', h')"] ok
    by (simp add: hg_alloc_def total_malloc_def)
next
  case (alloc0 hp h L x hp' h')
  obtain hp1 where a: "hgang_alloc malloc hp h = (Some x, hp1, h')"
    and hp': "hp' = hp1\<lparr>mem := store_bytes (mem hp1) x (replicate (obj_size h') 0)\<rparr>"
    using alloc0(2) by (auto simp: hgang_alloc0_def split: prod.splits option.splits)
  have "pool_inv (hp1, h') (insert x L)"
    using hg.alloc_some[of "(hp, h)" L malloc x "(hp1, h')"] alloc0 a ok by (simp add: hg_alloc_def total_malloc_def)
  then show ?case unfolding hp' by (rule pool_write) (auto simp: store_bytes_def)
next
  case (ret hp h L x hp' h')
  then show ?case using hg.release_ok[of "(hp, h)" L x] by (auto simp: hg_release_def)
next
  case (upd hp h L m)
  show ?case by (rule pool_write[OF upd(3)], rule upd(2)) blast
next
  case (other hp h L k a)
  then show ?case using pool_other[OF ok] by blast
qed

text \<open>Freeing the slabs: the loop frees exactly the slab blocks.\<close>

lemma hgang_free_slabs_chain:
  assumes "chain (mem hp) p ss" "distinct ss" "\<forall>s \<in> set ss. s \<in> fst ` set (blocks hp)"
  shows "hgang_free_slabs hp p = Inr (hp\<lparr>blocks := filter (\<lambda>(b, k). b \<notin> set ss) (blocks hp)\<rparr>)"
  using assms
proof (induction ss arbitrary: hp p)
  case Nil
  then show ?case by (subst hgang_free_slabs.simps) simp
next
  case (Cons s ss)
  let ?hp = "hp\<lparr>blocks := filter (\<lambda>(b, k). b \<noteq> s) (blocks hp)\<rparr>"
  have f: "heap_free hp s = Inr ?hp" using Cons.prems(3) by (simp add: heap_free_def)
  have "hgang_free_slabs ?hp (load_ptr (mem hp) s) =
      Inr (?hp\<lparr>blocks := filter (\<lambda>(b, k). b \<notin> set ss) (blocks ?hp)\<rparr>)"
    by (rule Cons.IH) (use Cons.prems in \<open>force+\<close>)
  moreover have "filter (\<lambda>(b, k). b \<notin> set ss) (filter (\<lambda>(b, k). b \<noteq> s) (blocks hp)) =
      filter (\<lambda>(b, k). b \<notin> set (s # ss)) (blocks hp)"
    by (auto intro: filter_cong)
  ultimately show ?case using Cons.prems(1) f by (subst hgang_free_slabs.simps) simp
qed

text \<open>A pool of eight-byte objects, two to a slab, with two objects held.\<close>

definition sample_heap :: heap where
  "sample_heap = \<lparr>mem = store_ptr (\<lambda>x. 0) 72 0, blocks = [(72, 24), (16, 40)]\<rparr>"

definition sample_pool :: hgang where
  "sample_pool = \<lparr>obj_size = 8, next_obj = 96, slab_size = 24, slabs = 72, free_list = 0\<rparr>"

lemma sample_run: "hg_run bump_malloc sample_heap sample_pool {88, 80}"
proof -
  let ?hp = "\<lparr>mem = (\<lambda>x. 0), blocks = [(16, 40)]\<rparr>"
  let ?h = "\<lparr>obj_size = 8, next_obj = 7, slab_size = 24, slabs = 0, free_list = 0\<rparr>"
  have new: "hgang_new bump_malloc 7 \<lparr>mem = (\<lambda>x. 0), blocks = []\<rparr> 5 2 = (Some (16, ?h), ?hp)"
    by (simp add: hgang_new_def bump_malloc_def)
  have r0: "hg_run bump_malloc ?hp ?h {}" by (rule hg_run.new[OF _ new]) (simp_all add: blocks_ok_def)
  have r1: "hg_run bump_malloc sample_heap (sample_pool\<lparr>next_obj := 88\<rparr>) (insert 80 {})"
    by (rule hg_run.alloc[OF r0])
       (simp add: hgang_alloc_def hgang_alloc_slow_def bump_malloc_def Let_def sample_heap_def sample_pool_def)
  show ?thesis
    by (rule hg_run.alloc[OF r1])
       (simp add: hgang_alloc_def obj_in_slab_def first_byte_def last_byte_def sample_pool_def)
qed

section \<open>Properties\<close>

text \<open>
  C9.  The objects of a pool never overlap: after any sequence of allocations, returns and
  writes to objects by their holders, the objects held lie inside blocks of \<open>malloc\<close>, two
  different ones have no byte in common, and the next allocation returns none of them.
\<close>

theorem hgang_objects_disjoint:
  assumes "malloc_ok malloc" "hg_run malloc hp h L"
  shows "\<forall>a \<in> L. (\<exists>s. (s, slab_size h) \<in> set (blocks hp) \<and> s + 8 \<le> a \<and> a + obj_size h \<le> s + slab_size h) \<and>
      (\<forall>b \<in> L. a \<noteq> b \<longrightarrow> apart a (obj_size h) b (obj_size h)) \<and> fst (hgang_alloc malloc hp h) \<noteq> Some a"
proof
  fix a assume a: "a \<in> L"
  have inv: "pool_inv (hp, h) L" using assms by (rule hg_run_inv)
  have "fst (hgang_alloc malloc hp h) \<noteq> Some a"
    using hg.alloc_some[of "(hp, h)" L malloc a "snd (hgang_alloc malloc hp h)"] inv a assms(1)
    by (auto simp: hg_alloc_def total_malloc_def prod_eq_iff)
  then show "(\<exists>s. (s, slab_size h) \<in> set (blocks hp) \<and> s + 8 \<le> a \<and> a + obj_size h \<le> s + slab_size h) \<and>
      (\<forall>b \<in> L. a \<noteq> b \<longrightarrow> apart a (obj_size h) b (obj_size h)) \<and> fst (hgang_alloc malloc hp h) \<noteq> Some a"
    using pool_inside[OF inv a] hg.live_apart[of "(hp, h)" L a] inv a by auto
qed

theorem hgang_objects_disjoint_witness:
  "apart 80 8 88 8 \<and> fst (hgang_alloc bump_malloc sample_heap sample_pool) \<noteq> Some 80"
  using hgang_objects_disjoint[OF bump_malloc_ok sample_run] by (simp add: sample_pool_def)

text \<open>
  Returned objects are reused last in, first out, without a call of \<open>malloc\<close>: an
  allocation right after a return gives the object back and restores the pool.
\<close>

lemma hgang_alloc_after_return:
  assumes "malloc_ok malloc" "hg_run malloc hp h L" "x \<in> L" "hgang_return hp h x = Inr (hp', h')"
  shows "hgang_alloc malloc hp' h' = (Some x, hp', h)"
proof -
  have inv: "pool_inv (hp, h) L" using assms(1,2) by (rule hg_run_inv)
  then obtain fs ss n where hi: "hg_inv hp h fs ss n L" by (auto simp: pool_inv_def)
  have "x \<noteq> 0" using pool_inside[OF inv assms(3)] by simp
  moreover have "free_list h < 2 ^ 64"
    using hg_object_range[OF hi, of "free_list h"] hi by (cases fs) (auto simp: hg_inv_def)
  ultimately show ?thesis
    using assms(4) by (auto simp: hgang_return_def hgang_alloc_def rassert_Inr_iff)
qed

lemma hgang_alloc_after_return_witness:
  "\<exists>hp h. hgang_return sample_heap sample_pool 80 = Inr (hp, h) \<and> hgang_alloc bump_malloc hp h = (Some 80, hp, sample_pool)"
proof -
  obtain hp h where r: "hgang_return sample_heap sample_pool 80 = Inr (hp, h)"
    by (simp add: hgang_return_def sample_pool_def)
  from hgang_alloc_after_return[OF bump_malloc_ok sample_run _ r] r show ?thesis by simp
qed

text \<open>
  C34.  \<open>hgang_free\<close> ends and releases every slab: the loop over the slab list returns, every
  block that remains was there before, and none of them holds an object of the pool.
\<close>

theorem hgang_free_releases_slabs:
  assumes "malloc_ok malloc" "hg_run malloc hp h L"
  shows "\<exists>hp'. hgang_free_slabs hp (slabs h) = Inr hp' \<and> set (blocks hp') \<subseteq> set (blocks hp) \<and>
    (\<forall>a \<in> L. \<forall>(b, k) \<in> set (blocks hp'). apart a (obj_size h) b k)"
proof -
  obtain fs ss n where inv: "hg_inv hp h fs ss n L"
    using hg_run_inv[OF assms] by (auto simp: pool_inv_def)
  let ?hp = "hp\<lparr>blocks := filter (\<lambda>(b, k). b \<notin> set ss) (blocks hp)\<rparr>"
  have "hgang_free_slabs hp (slabs h) = Inr ?hp"
  proof (rule hgang_free_slabs_chain)
    show "chain (mem hp) (slabs h) ss" "distinct ss" using inv by (simp_all add: hg_inv_def)
    have "\<forall>s \<in> set ss. (s, slab_size h) \<in> set (blocks hp)" using inv by (simp add: hg_inv_def)
    then show "\<forall>s \<in> set ss. s \<in> fst ` set (blocks hp)" by force
  qed
  moreover have "apart a (obj_size h) b k" if "a \<in> L" "(b, k) \<in> set (blocks ?hp)" for a b k
  proof -
    obtain s where s: "s \<in> set ss" "(s, slab_size h) \<in> set (blocks hp)" "s + 8 \<le> a" "a + obj_size h \<le> s + slab_size h"
      by (rule hg_slot[OF inv UnI2[OF \<open>a \<in> L\<close>]])
    have "apart s (slab_size h) b k"
      using blocks_apart[of "blocks hp" s "slab_size h" b k] inv s that(2) by (auto simp: hg_inv_def)
    then show ?thesis by (rule apart_mono) (use s in simp_all)
  qed
  ultimately show ?thesis by (intro exI[of _ ?hp]) auto
qed

theorem hgang_free_releases_slabs_witness:
  "\<exists>hp'. hgang_free_slabs sample_heap 72 = Inr hp' \<and> (\<forall>(b, k) \<in> set (blocks hp'). apart 80 8 b k)"
  using hgang_free_releases_slabs[OF bump_malloc_ok sample_run] by (auto simp: sample_pool_def)

text \<open>
  \<open>hgang_foreach\<close> cannot be used the way its comment asks: on a pool from which
  objects are held and to which none was returned, its assertion fails.
\<close>

lemma hgang_foreach_asserts:
  assumes "malloc_ok malloc" "hg_run malloc hp h L" "L \<noteq> {}" "free_list h = 0"
  shows "hgang_foreach fuel cb hp h priv = Inl Assert_failed"
proof -
  obtain fs ss n where inv: "hg_inv hp h fs ss n L"
    using hg_run_inv[OF assms(1,2)] by (auto simp: pool_inv_def)
  then have "ss \<noteq> []" using assms(3) by (auto simp: hg_inv_def)
  then have "slabs h \<noteq> 0" using inv by (cases ss) (auto simp: hg_inv_def)
  then show ?thesis using assms(4) by (simp add: hgang_foreach_def)
qed

lemma hgang_foreach_asserts_witness:
  "hgang_foreach 5 (\<lambda>n x. (Suc n, True)) sample_heap sample_pool 0 = Inl Assert_failed"
  by (rule hgang_foreach_asserts[OF bump_malloc_ok sample_run]) (simp_all add: sample_pool_def)

end
