(* ===== verification/HttpBuf.thy ===== *)
theory HttpBuf
  imports Hgang
begin

text \<open>
  The connection buffers (\<open>http_buf.c\<close>): a block of memory between \<open>b_base\<close> and \<open>b_end\<close>
  with a reading and a writing pointer, allocated from the pools of the constructor.
  The bytes between the two pointers form a queue.
\<close>

section \<open>Buffers\<close>

record http_buf =
  b_base :: nat
  b_end :: nat
  b_read :: nat
  b_write :: nat

text \<open>The size and the pointer, \<open>None\<close> for NULL.\<close>

definition buf_read :: "http_buf \<Rightarrow> (nat \<times> nat option) res" where
  "buf_read b = rassert (b_write b \<ge> b_read b)
     (Inr (b_write b - b_read b, if b_read b \<noteq> 0 then Some (b_read b) else None))"

definition buf_write :: "http_buf \<Rightarrow> (nat \<times> nat option) res" where
  "buf_write b = rassert (b_write b \<le> b_end b)
     (Inr (b_end b - b_write b, if b_write b < b_end b then Some (b_write b) else None))"

definition buf_done_read :: "http_buf \<Rightarrow> nat \<Rightarrow> (nat \<times> http_buf) res" where
  "buf_done_read b sz =
    rassert (b_read b + sz \<le> b_write b) (rassert (b_read b + sz \<le> b_end b)
      (let b = b\<lparr>b_read := b_read b + sz\<rparr> in Inr (b_write b - b_read b, b)))"

definition buf_done_write :: "http_buf \<Rightarrow> nat \<Rightarrow> (nat \<times> http_buf) res" where
  "buf_done_write b sz =
    rassert (b_write b + sz \<le> b_end b)
      (let b = b\<lparr>b_write := b_write b + sz\<rparr> in Inr (b_end b - b_write b, b))"

definition buf_reset :: "memory \<Rightarrow> http_buf \<Rightarrow> (memory \<times> http_buf) res" where
  "buf_reset m b =
    rassert (b_read b \<le> b_write b) (rassert (b_read b \<le> b_end b)
      (if b_read b = b_write b then Inr (m, b\<lparr>b_read := b_base b, b_write := b_base b\<rparr>)
       else
         let res = b_write b - b_read b in
         Inr (store_bytes m (b_base b) (load_bytes m (b_read b) res),
              b\<lparr>b_read := b_base b, b_write := b_base b + res\<rparr>)))"

section \<open>Allocation\<close>

abbreviation (input) HTTP_MAX_REQ :: nat where "HTTP_MAX_REQ \<equiv> 2048"
abbreviation (input) HTTP_MAX_RESP :: nat where "HTTP_MAX_RESP \<equiv> 1024"
abbreviation (input) HTTP_DATA_BUFFER :: nat where "HTTP_DATA_BUFFER \<equiv> 4096"
abbreviation (input) sizeof_http_buf :: nat where "sizeof_http_buf \<equiv> 32"

type_synonym hgang_t = "(nat \<times> hgang) option"

record buf_pools =
  bp_heap :: heap
  h_req :: hgang_t
  h_res :: hgang_t
  h_dat :: hgang_t
  h_buf :: hgang_t

definition http_buf_ctor :: "malloc \<Rightarrow> nat \<Rightarrow> heap \<Rightarrow> buf_pools" where
  "http_buf_ctor malloc junk hp =
    (let (buf, hp) = hgang_new malloc junk hp sizeof_http_buf 256;
         (res, hp) = hgang_new malloc junk hp HTTP_MAX_REQ 16;
         (req, hp) = hgang_new malloc junk hp HTTP_MAX_RESP 8;
         (dat, hp) = hgang_new malloc junk hp HTTP_DATA_BUFFER 32
     in \<lparr>bp_heap = hp, h_req = req, h_res = res, h_dat = dat, h_buf = buf\<rparr>)"

datatype buf_kind = Naked | Req | Res | Dat

fun pool_of :: "buf_kind \<Rightarrow> buf_pools \<Rightarrow> hgang_t" where
  "pool_of Naked p = None"
| "pool_of Req p = h_req p"
| "pool_of Res p = h_res p"
| "pool_of Dat p = h_dat p"

fun set_pool :: "buf_kind \<Rightarrow> nat \<times> hgang \<Rightarrow> buf_pools \<Rightarrow> buf_pools" where
  "set_pool Naked x p = p"
| "set_pool Req x p = p\<lparr>h_req := Some x\<rparr>"
| "set_pool Res x p = p\<lparr>h_res := Some x\<rparr>"
| "set_pool Dat x p = p\<lparr>h_dat := Some x\<rparr>"

text \<open>
  The result is the address of the \<open>struct http_buf\<close> and its content, which is \<open>junk\<close>
  (uninitialised) for a buffer without storage.
\<close>

definition do_alloc :: "malloc \<Rightarrow> http_buf \<Rightarrow> buf_kind \<Rightarrow> buf_pools \<Rightarrow> ((nat \<times> http_buf) option \<times> buf_pools) res" where
  "do_alloc malloc junk kind p =
    (case h_buf p of
       None \<Rightarrow> Inl Null_deref
     | Some (ba, bh) \<Rightarrow>
         (case hgang_alloc malloc (bp_heap p) bh of
            (None, hp, bh) \<Rightarrow> Inr (None, p\<lparr>bp_heap := hp, h_buf := Some (ba, bh)\<rparr>)
          | (Some b, hp, bh) \<Rightarrow>
              let p = p\<lparr>bp_heap := hp, h_buf := Some (ba, bh)\<rparr> in
              (case pool_of kind p of
                 None \<Rightarrow> Inr (Some (b, junk), p)
               | Some (da, dh) \<Rightarrow>
                   (case hgang_alloc malloc hp dh of
                      (None, hp, dh) \<Rightarrow>
                        rbind (hgang_return hp bh b) (\<lambda>(hp, bh).
                          Inr (None, set_pool kind (da, dh) (p\<lparr>bp_heap := hp, h_buf := Some (ba, bh)\<rparr>)))
                    | (Some base, hp, dh) \<Rightarrow>
                        let sz = hgang_object_size dh in
                        Inr (Some (b, \<lparr>b_base = base, b_end = base + sz, b_read = base, b_write = base\<rparr>),
                             set_pool kind (da, dh) (p\<lparr>bp_heap := hp\<rparr>))))))"

definition do_free :: "buf_kind \<Rightarrow> buf_pools \<Rightarrow> (nat \<times> http_buf) option \<Rightarrow> buf_pools res" where
  "do_free kind p b =
    (case b of
       None \<Rightarrow> Inr p
     | Some (a, b) \<Rightarrow>
         rbind (case pool_of kind p of
                  None \<Rightarrow> Inr p
                | Some (da, dh) \<Rightarrow>
                    rbind (hgang_return (bp_heap p) dh (b_base b)) (\<lambda>(hp, dh).
                      Inr (set_pool kind (da, dh) (p\<lparr>bp_heap := hp\<rparr>)))) (\<lambda>p.
           case h_buf p of
             None \<Rightarrow> Inl Null_deref
           | Some (ba, bh) \<Rightarrow>
               rbind (hgang_return (bp_heap p) bh a) (\<lambda>(hp, bh).
                 Inr (p\<lparr>bp_heap := hp, h_buf := Some (ba, bh)\<rparr>))))"

definition "buf_alloc_naked malloc junk = do_alloc malloc junk Naked"
definition "buf_free_naked = do_free Naked"
definition "buf_alloc_req malloc junk = do_alloc malloc junk Req"
definition "buf_free_req = do_free Req"
definition "buf_alloc_res malloc junk = do_alloc malloc junk Res"
definition "buf_free_res = do_free Res"
definition "buf_alloc_data malloc junk = do_alloc malloc junk Dat"
definition "buf_free_data = do_free Dat"

section \<open>The buffer as a queue of bytes\<close>

definition buf_ok :: "http_buf \<Rightarrow> bool" where
  "buf_ok b \<longleftrightarrow> 0 < b_base b \<and> b_base b \<le> b_read b \<and> b_read b \<le> b_write b \<and> b_write b \<le> b_end b"

definition queued :: "memory \<Rightarrow> http_buf \<Rightarrow> bytes" where
  "queued m b = load_bytes m (b_read b) (b_write b - b_read b)"

text \<open>
  The interface the connection code uses: \<open>put\<close> appends at most \<open>room\<close> bytes, \<open>take\<close>
  drops bytes from the front, \<open>pack\<close> makes room.
\<close>

locale byte_queue =
  fixes valid :: "'q \<Rightarrow> bool" and content :: "'q \<Rightarrow> bytes" and room :: "'q \<Rightarrow> nat" and capacity :: "'q \<Rightarrow> nat"
    and put :: "'q \<Rightarrow> bytes \<Rightarrow> 'q res" and shift :: "'q \<Rightarrow> nat \<Rightarrow> 'q res" and pack :: "'q \<Rightarrow> 'q res"
  assumes put_ok: "valid q \<Longrightarrow> length xs \<le> room q \<Longrightarrow>
      \<exists>q'. put q xs = Inr q' \<and> valid q' \<and> content q' = content q @ xs \<and> room q' = room q - length xs \<and> capacity q' = capacity q"
    and shift_ok: "valid q \<Longrightarrow> n \<le> length (content q) \<Longrightarrow>
      \<exists>q'. shift q n = Inr q' \<and> valid q' \<and> content q' = drop n (content q) \<and> room q' = room q \<and> capacity q' = capacity q"
    and pack_ok: "valid q \<Longrightarrow>
      \<exists>q'. pack q = Inr q' \<and> valid q' \<and> content q' = content q \<and> room q' = capacity q - length (content q) \<and> capacity q' = capacity q"
begin

text \<open>\<open>session q ins outs q'\<close>: from \<open>q\<close> to \<open>q'\<close>, \<open>ins\<close> went in and \<open>outs\<close> came out.\<close>

inductive session :: "'q \<Rightarrow> bytes \<Rightarrow> bytes \<Rightarrow> 'q \<Rightarrow> bool" where
  start: "session q [] [] q"
| put: "session q ins outs q1 \<Longrightarrow> length xs \<le> room q1 \<Longrightarrow> put q1 xs = Inr q2 \<Longrightarrow> session q (ins @ xs) outs q2"
| shift: "session q ins outs q1 \<Longrightarrow> n \<le> length (content q1) \<Longrightarrow> shift q1 n = Inr q2 \<Longrightarrow>
    session q ins (outs @ take n (content q1)) q2"
| pack: "session q ins outs q1 \<Longrightarrow> pack q1 = Inr q2 \<Longrightarrow> session q ins outs q2"

lemma session_fifo:
  "session q ins outs q' \<Longrightarrow> valid q \<Longrightarrow> valid q' \<and> content q @ ins = outs @ content q' \<and> capacity q' = capacity q"
proof (induction rule: session.induct)
  case (put q ins outs q1 xs q2)
  then show ?case using put_ok[of q1 xs] by (metis append.assoc sum.inject(2))
next
  case (shift q ins outs q1 n q2)
  then have "valid q1" "content q @ ins = outs @ content q1" "capacity q1 = capacity q" by auto
  moreover obtain q3 where "shift q1 n = Inr q3" "valid q3" "content q3 = drop n (content q1)" "capacity q3 = capacity q1"
    using shift_ok[OF \<open>valid q1\<close> shift(2)] by blast
  ultimately show ?case using shift(3) by simp
next
  case (pack q ins outs q1 q2)
  then show ?case using pack_ok[of q1] by auto
qed auto

end

definition buf_put :: "memory \<times> http_buf \<Rightarrow> bytes \<Rightarrow> (memory \<times> http_buf) res" where
  "buf_put s xs = rbind (buf_write (snd s)) (\<lambda>(sz, p).
     rbind (buf_done_write (snd s) (length xs)) (\<lambda>(_, b). Inr (store_bytes (fst s) (b_write (snd s)) xs, b)))"

definition buf_shift :: "memory \<times> http_buf \<Rightarrow> nat \<Rightarrow> (memory \<times> http_buf) res" where
  "buf_shift s n = rbind (buf_done_read (snd s) n) (\<lambda>(_, b). Inr (fst s, b))"

definition buf_pack :: "memory \<times> http_buf \<Rightarrow> (memory \<times> http_buf) res" where
  "buf_pack s = buf_reset (fst s) (snd s)"

definition buf_cap :: "http_buf \<Rightarrow> nat" where "buf_cap b = b_end b - b_base b"

lemma load_bytes_append: "load_bytes m a (n + k) = load_bytes m a n @ load_bytes m (a + n) k"
  using upt_add_eq_append[of a "a + n" k] by (simp add: load_bytes_def add.assoc)

lemma load_bytes_zero [simp]: "load_bytes m a 0 = []"
  by (simp add: load_bytes_def)

lemma length_load_bytes [simp]: "length (load_bytes m a n) = n"
  by (simp add: load_bytes_def)

lemma drop_load_bytes: "k \<le> n \<Longrightarrow> drop k (load_bytes m a n) = load_bytes m (a + k) (n - k)"
  using load_bytes_append[of m a k "n - k"] by simp

interpretation bq: byte_queue "\<lambda>s. buf_ok (snd s)" "\<lambda>s. queued (fst s) (snd s)"
    "\<lambda>s. b_end (snd s) - b_write (snd s)" "\<lambda>s. buf_cap (snd s)" buf_put buf_shift buf_pack
proof
  fix s :: "memory \<times> http_buf" and xs n
  obtain m b where s: "s = (m, b)" by (cases s)
  show "\<exists>q'. buf_put s xs = Inr q' \<and> buf_ok (snd q') \<and> queued (fst q') (snd q') = queued (fst s) (snd s) @ xs \<and>
      b_end (snd q') - b_write (snd q') = b_end (snd s) - b_write (snd s) - length xs \<and> buf_cap (snd q') = buf_cap (snd s)"
    if ok: "buf_ok (snd s)" and len: "length xs \<le> b_end (snd s) - b_write (snd s)"
  proof -
    let ?n = "b_write b - b_read b" and ?m = "store_bytes m (b_write b) xs"
    have "queued ?m (b\<lparr>b_write := b_write b + length xs\<rparr>) = load_bytes ?m (b_read b) ?n @ load_bytes ?m (b_write b) (length xs)"
      using load_bytes_append[of ?m "b_read b" ?n "length xs"] ok by (simp add: queued_def buf_ok_def s)
    moreover have "load_bytes ?m (b_read b) ?n = queued m b"
      using ok by (auto simp: queued_def buf_ok_def s apart_def intro: load_store_other)
    ultimately have "queued ?m (b\<lparr>b_write := b_write b + length xs\<rparr>) = queued m b @ xs"
      using load_store_same[of m "b_write b" xs] by simp
    then show ?thesis using ok len by (auto simp: s buf_put_def buf_write_def buf_done_write_def buf_ok_def buf_cap_def rassert_def)
  qed
  show "\<exists>q'. buf_shift s n = Inr q' \<and> buf_ok (snd q') \<and> queued (fst q') (snd q') = drop n (queued (fst s) (snd s)) \<and>
      b_end (snd q') - b_write (snd q') = b_end (snd s) - b_write (snd s) \<and> buf_cap (snd q') = buf_cap (snd s)"
    if "buf_ok (snd s)" "n \<le> length (queued (fst s) (snd s))"
    using that by (auto simp: s buf_shift_def buf_done_read_def buf_ok_def buf_cap_def queued_def drop_load_bytes rassert_def)
  show "\<exists>q'. buf_pack s = Inr q' \<and> buf_ok (snd q') \<and> queued (fst q') (snd q') = queued (fst s) (snd s) \<and>
      b_end (snd q') - b_write (snd q') = buf_cap (snd s) - length (queued (fst s) (snd s)) \<and> buf_cap (snd q') = buf_cap (snd s)"
    if "buf_ok (snd s)"
    using that load_store_same[of m "b_base b" "load_bytes m (b_read b) (b_write b - b_read b)"]
    by (auto simp: s buf_pack_def buf_reset_def buf_ok_def buf_cap_def queued_def rassert_def Let_def)
qed

section \<open>Runs of one buffer\<close>

text \<open>A writer that respects the size it was told, a reader that consumes what is there.\<close>

datatype buf_op = Put bytes | Shift nat | Pack

fun buf_op_step :: "memory \<times> http_buf \<Rightarrow> buf_op \<Rightarrow> (memory \<times> http_buf) res" where
  "buf_op_step s (Put xs) = buf_put s xs"
| "buf_op_step s (Shift n) = buf_shift s n"
| "buf_op_step s Pack = buf_pack s"

fun buf_run :: "memory \<times> http_buf \<Rightarrow> buf_op list \<Rightarrow> (memory \<times> http_buf) res" where
  "buf_run s [] = Inr s"
| "buf_run s (x # xs) = rbind (buf_op_step s x) (\<lambda>s. buf_run s xs)"

fun put_total :: "buf_op list \<Rightarrow> bytes" where
  "put_total [] = []"
| "put_total (Put xs # ops) = xs @ put_total ops"
| "put_total (x # ops) = put_total ops"

fun shift_total :: "buf_op list \<Rightarrow> nat" where
  "shift_total [] = 0"
| "shift_total (Shift n # ops) = n + shift_total ops"
| "shift_total (x # ops) = shift_total ops"

text \<open>What the assertions of the code accept.\<close>

lemma buf_op_accepts:
  assumes "buf_ok (snd s)" "buf_op_step s x = Inr s'"
  shows "(\<forall>xs. x = Put xs \<longrightarrow> length xs \<le> b_end (snd s) - b_write (snd s)) \<and>
    (\<forall>n. x = Shift n \<longrightarrow> n \<le> length (queued (fst s) (snd s)))"
  using assms by (cases x)
    (auto simp: buf_put_def buf_shift_def buf_done_write_def buf_done_read_def queued_def buf_ok_def
       rbind_Inr_iff rassert_Inr_iff)

lemma buf_run_fifo:
  assumes "buf_ok (snd s)" "buf_run s ops = Inr s'"
  shows "buf_ok (snd s') \<and> shift_total ops \<le> length (queued (fst s) (snd s) @ put_total ops) \<and>
    queued (fst s') (snd s') = drop (shift_total ops) (queued (fst s) (snd s) @ put_total ops)"
  using assms
proof (induction ops arbitrary: s)
  case (Cons x ops)
  obtain s1 where s1: "buf_op_step s x = Inr s1" "buf_run s1 ops = Inr s'"
    using Cons.prems(2) by (auto simp: rbind_Inr_iff)
  note acc = buf_op_accepts[OF Cons.prems(1) s1(1)]
  show ?case
  proof (cases x)
    case (Put xs)
    then have "buf_ok (snd s1)" "queued (fst s1) (snd s1) = queued (fst s) (snd s) @ xs"
      using bq.put_ok[OF Cons.prems(1), of xs] acc s1(1) by auto
    then show ?thesis using Cons.IH[OF _ s1(2)] Put by auto
  next
    case (Shift n)
    then have "buf_ok (snd s1)" "queued (fst s1) (snd s1) = drop n (queued (fst s) (snd s))" "n \<le> length (queued (fst s) (snd s))"
      using bq.shift_ok[OF Cons.prems(1), of n] acc s1(1) by auto
    then show ?thesis using Cons.IH[OF _ s1(2)] Shift by (auto simp: add.commute)
  next
    case Pack
    then have "buf_ok (snd s1)" "queued (fst s1) (snd s1) = queued (fst s) (snd s)"
      using bq.pack_ok[OF Cons.prems(1)] s1(1) by auto
    then show ?thesis using Cons.IH[OF _ s1(2)] Pack by auto
  qed
qed simp

section \<open>Properties\<close>

text \<open>
  C10.  Bytes leave a connection buffer in the order they entered it: whatever sequence of
  writes, reads and resets succeeds, the buffer stays well formed and what it holds is
  everything that was ever put in, less exactly the bytes that were taken out.
\<close>

theorem buf_is_fifo:
  assumes "buf_ok b" "buf_run (m, b) ops = Inr (m', b')"
  shows "buf_ok b' \<and> queued m' b' = drop (shift_total ops) (queued m b @ put_total ops)"
  using buf_run_fifo[of "(m, b)" ops "(m', b')"] assms by simp

theorem buf_is_fifo_witness:
  "\<exists>m' b'. buf_run (\<lambda>x. 0, \<lparr>b_base = 8, b_end = 12, b_read = 8, b_write = 8\<rparr>)
       [Put [1, 2, 3], Shift 2, Pack, Put [4, 5]] = Inr (m', b') \<and> queued m' b' = [3, 4, 5]"
proof -
  let ?b = "\<lparr>b_base = 8, b_end = 12, b_read = 8, b_write = 8\<rparr>"
    and ?ops = "[Put [1, 2, 3], Shift 2, Pack, Put [4, 5]]"
  obtain m' b' where r: "buf_run (\<lambda>x. 0, ?b) ?ops = Inr (m', b')"
    by (simp add: buf_put_def buf_shift_def buf_pack_def buf_write_def buf_done_write_def buf_done_read_def
        buf_reset_def Let_def)
  have "queued (\<lambda>x. 0) ?b = []" by (simp add: queued_def)
  with buf_is_fifo[OF _ r] r show ?thesis by (simp add: buf_ok_def)
qed

text \<open>
  Resetting a buffer makes all its free space available at the end and never fails
  on a well-formed buffer, whatever part of it has been read.
\<close>

lemma buf_reset_makes_room:
  assumes "buf_ok b"
  shows "\<exists>m' b'. buf_reset m b = Inr (m', b') \<and> queued m' b' = queued m b \<and>
    buf_write b' = Inr (b_end b - b_base b - length (queued m b),
      if length (queued m b) < b_end b - b_base b then Some (b_base b + length (queued m b)) else None)"
  using assms load_store_same[of m "b_base b" "load_bytes m (b_read b) (b_write b - b_read b)"]
  by (auto simp: buf_reset_def buf_write_def buf_ok_def queued_def rassert_def Let_def)

lemma buf_reset_makes_room_witness:
  "\<exists>m' b'. buf_reset (\<lambda>x. of_nat x) \<lparr>b_base = 8, b_end = 12, b_read = 10, b_write = 12\<rparr> = Inr (m', b') \<and>
     queued m' b' = [10, 11] \<and> buf_write b' = Inr (2, Some 10)"
proof -
  let ?b = "\<lparr>b_base = 8, b_end = 12, b_read = 10, b_write = 12\<rparr>"
  have "buf_ok ?b" "queued (\<lambda>x. of_nat x) ?b = [10, 11]"
    by (simp_all add: buf_ok_def queued_def load_bytes_def upt_conv_Cons)
  with buf_reset_makes_room[of ?b "\<lambda>x. of_nat x"] show ?thesis by simp
qed

text \<open>
  The constructor swaps two sizes: when every pool could be made, request buffers
  hold \<open>HTTP_MAX_RESP\<close> bytes and response buffers \<open>HTTP_MAX_REQ\<close>.
\<close>

lemma request_buffers_are_small:
  assumes "h_req (http_buf_ctor malloc junk hp) = Some (qa, q)" "h_res (http_buf_ctor malloc junk hp) = Some (ra, r)"
  shows "hgang_object_size q = HTTP_MAX_RESP \<and> hgang_object_size r = HTTP_MAX_REQ"
  using assms
  by (auto simp: http_buf_ctor_def Let_def hgang_new_def hgang_object_size_def split: prod.splits option.splits)

lemma request_buffers_are_small_witness:
  "\<exists>qa q. h_req (http_buf_ctor bump_malloc 0 \<lparr>mem = (\<lambda>x. 0), blocks = []\<rparr>) = Some (qa, q) \<and> hgang_object_size q = HTTP_MAX_RESP"
proof -
  let ?p = "http_buf_ctor bump_malloc 0 \<lparr>mem = (\<lambda>x. 0), blocks = []\<rparr>"
  obtain qa q ra r where "h_req ?p = Some (qa, q)" "h_res ?p = Some (ra, r)"
    by (simp add: http_buf_ctor_def hgang_new_def bump_malloc_def Let_def)
  with request_buffers_are_small[OF this] show ?thesis by simp
qed

end
