(* ===== verification/Critbit.thy ===== *)
theory Critbit
  imports Prelude
begin

text \<open>
  The crit-bit tree (\<open>critbit.c\<close>) that maps host names to web roots.  Keys are C strings;
  \<open>char\<close> is signed, so the exclusive or of two characters is sign-extended before it is
  stored in an unsigned 32-bit word.
\<close>

section \<open>Trees\<close>

datatype 'v cb_node =
    Leaf (cb_key: bytes) (cb_val: "'v option")
  | Node (cb_byte: nat) (cb_otherbits: byte) (cb_child0: "'v cb_node") (cb_child1: "'v cb_node")

type_synonym 'v cb_tree = "'v cb_node option"

text \<open>The byte a node tests, 0 behind the end of the key, and the way to go.\<close>

definition key_byte :: "bytes \<Rightarrow> nat \<Rightarrow> byte" where
  "key_byte u i = (if i < length u then u ! i else 0)"

definition direction :: "byte \<Rightarrow> byte \<Rightarrow> nat" where
  "direction otherbits c = (1 + unat (otherbits OR c)) div 256"

fun cb_walk :: "bytes \<Rightarrow> 'v cb_node \<Rightarrow> bytes \<times> 'v option" where
  "cb_walk u (Leaf k v) = (k, v)"
| "cb_walk u (Node b ob l r) =
    (if direction ob (key_byte u b) = 0 then cb_walk u l else cb_walk u r)"

text \<open>\<open>Some v\<close>: found with value \<open>v\<close> (\<open>None\<close> is a null pointer).\<close>

definition cb_contains :: "'v cb_tree \<Rightarrow> bytes \<Rightarrow> 'v option option" where
  "cb_contains t u = (case t of
     None \<Rightarrow> None
   | Some n \<Rightarrow> (let (k, v) = cb_walk u n in if k = u then Some v else None))"

section \<open>Insertion\<close>

text \<open>
  The loop that looks for the first byte that differs from the key of the leaf; the key is
  read up to and including its NUL, which differs from every byte of \<open>u\<close>.
\<close>

fun first_diff :: "bytes \<Rightarrow> bytes \<Rightarrow> nat \<Rightarrow> (nat \<times> u32) option" where
  "first_diff k [] i = (if k = [] then None else Some (i, scast (hd k)))"
| "first_diff [] (c # u) i = Some (i, scast (0 :: byte) XOR scast c)"
| "first_diff (d # k) (c # u) i =
    (if d \<noteq> c then Some (i, scast d XOR scast c) else first_diff k u (Suc i))"

definition spread :: "u32 \<Rightarrow> u32" where
  "spread x =
    (let x = x OR drop_bit 1 x; x = x OR drop_bit 2 x; x = x OR drop_bit 4 x
     in (x AND NOT (drop_bit 1 x)) XOR 255)"

definition newdirection :: "u32 \<Rightarrow> byte \<Rightarrow> nat" where
  "newdirection otherbits c = unat (drop_bit 8 (1 + (otherbits OR ucast c)))"

text \<open>The new node on top of \<open>t\<close>, its leaf on the side \<open>1 - newdirection\<close>.\<close>

definition mk_node :: "nat \<Rightarrow> u32 \<Rightarrow> nat \<Rightarrow> 'v cb_node \<Rightarrow> 'v cb_node \<Rightarrow> 'v cb_node" where
  "mk_node newbyte otherbits newdir leaf t =
    (if newdir = 0 then Node newbyte (ucast otherbits) t leaf else Node newbyte (ucast otherbits) leaf t)"

text \<open>
  The descent through \<open>wherep\<close>.  The second component is the path to the new leaf, which
  stands for the pointer to its value.
\<close>

fun cb_splice :: "bytes \<Rightarrow> nat \<Rightarrow> u32 \<Rightarrow> nat \<Rightarrow> 'v cb_node \<Rightarrow> 'v cb_node \<Rightarrow> 'v cb_node \<times> nat list" where
  "cb_splice u newbyte otherbits newdir leaf (Leaf k v) =
    (mk_node newbyte otherbits newdir leaf (Leaf k v), [1 - newdir])"
| "cb_splice u newbyte otherbits newdir leaf (Node b ob l r) =
    (if b > newbyte \<or> b = newbyte \<and> (ucast ob :: u32) > otherbits
     then (mk_node newbyte otherbits newdir leaf (Node b ob l r), [1 - newdir])
     else if direction ob (key_byte u b) = 0
     then (let (l', p) = cb_splice u newbyte otherbits newdir leaf l in (Node b ob l' r, 0 # p))
     else (let (r', p) = cb_splice u newbyte otherbits newdir leaf r in (Node b ob l r', 1 # p)))"

fun walk_path :: "bytes \<Rightarrow> 'v cb_node \<Rightarrow> nat list" where
  "walk_path u (Leaf k v) = []"
| "walk_path u (Node b ob l r) =
    (if direction ob (key_byte u b) = 0 then 0 # walk_path u l else 1 # walk_path u r)"

text \<open>
  \<open>mem_ok\<close> says whether the allocations succeed; if one fails, those made before are freed
  and the tree is unchanged.  The result is the return code (0 failure, 1 already present,
  2 inserted), the tree and the slot of the value.
\<close>

definition cb_insert :: "bool \<Rightarrow> 'v cb_tree \<Rightarrow> bytes \<Rightarrow> (nat \<times> 'v cb_tree \<times> nat list) res" where
  "cb_insert mem_ok t u = (case t of
     None \<Rightarrow> if mem_ok then Inr (2, Some (Leaf u None), []) else Inr (0, t, [])
   | Some n \<Rightarrow>
       (case first_diff (fst (cb_walk u n)) u 0 of
          None \<Rightarrow> Inr (1, t, walk_path u n)
        | Some (newbyte, x) \<Rightarrow>
            let otherbits = spread x;
                newdir = newdirection otherbits (key_byte (fst (cb_walk u n)) newbyte)
            in if \<not> mem_ok then Inr (0, t, [])
               else if newdir > 1 then Inl Out_of_bounds
               else let (n', p) = cb_splice u newbyte otherbits newdir (Leaf u None) n
                    in Inr (2, Some n', p)))"

text \<open>Reading and writing the value a slot points to.\<close>

fun slot_get :: "'v cb_node \<Rightarrow> nat list \<Rightarrow> 'v option" where
  "slot_get (Leaf k v) p = v"
| "slot_get (Node b ob l r) (d # p) = (if d = 0 then slot_get l p else slot_get r p)"
| "slot_get (Node b ob l r) [] = None"

fun slot_set :: "'v cb_node \<Rightarrow> nat list \<Rightarrow> 'v option \<Rightarrow> 'v cb_node" where
  "slot_set (Leaf k v) p x = Leaf k x"
| "slot_set (Node b ob l r) (d # p) x =
    (if d = 0 then Node b ob (slot_set l p x) r else Node b ob l (slot_set r p x))"
| "slot_set (Node b ob l r) [] x = Node b ob l r"

section \<open>Deletion\<close>

text \<open>
  The descent keeps the last inner node; when its child is the leaf, the other child takes
  the node's place.  \<open>None\<close>: no such key.
\<close>

fun cb_delete_node :: "bytes \<Rightarrow> 'v cb_node \<Rightarrow> ('v option \<times> 'v cb_tree) option" where
  "cb_delete_node u (Leaf k v) = (if u = k then Some (v, None) else None)"
| "cb_delete_node u (Node b ob l r) =
    (if direction ob (key_byte u b) = 0
     then map_option (\<lambda>(v, l'). (v, Some (case l' of None \<Rightarrow> r | Some l' \<Rightarrow> Node b ob l' r))) (cb_delete_node u l)
     else map_option (\<lambda>(v, r'). (v, Some (case r' of None \<Rightarrow> l | Some r' \<Rightarrow> Node b ob l r'))) (cb_delete_node u r))"

definition cb_delete :: "'v cb_tree \<Rightarrow> bytes \<Rightarrow> ('v option \<times> 'v cb_tree) option" where
  "cb_delete t u = (case t of None \<Rightarrow> None | Some n \<Rightarrow> cb_delete_node u n)"

text \<open>\<open>cb_free\<close> calls its callback on these values in this order.\<close>

fun traverse :: "'v cb_node \<Rightarrow> 'v option list" where
  "traverse (Leaf k v) = [v]"
| "traverse (Node b ob l r) = traverse l @ traverse r"

definition cb_free :: "'v cb_tree \<Rightarrow> 'v option list \<times> 'v cb_tree" where
  "cb_free t = (case t of None \<Rightarrow> ([], None) | Some n \<Rightarrow> (traverse n, None))"

section \<open>Keys as bit sequences\<close>

text \<open>Position \<open>8 * i + j\<close> is bit \<open>7 - j\<close> of byte \<open>i\<close>, counted from the most significant.\<close>

definition kbit :: "bytes \<Rightarrow> nat \<Rightarrow> bool" where
  "kbit u p = bit (key_byte u (p div 8)) (7 - p mod 8)"

definition ascii_key :: "bytes \<Rightarrow> bool" where
  "ascii_key u \<longleftrightarrow> 0 \<notin> set u \<and> list_all (\<lambda>c. c < 128) u"

definition crit_mask :: "nat \<Rightarrow> byte" where
  "crit_mask k = NOT (push_bit k 1)"

lemma bit_byte_ge: "8 \<le> n \<Longrightarrow> \<not> bit (c :: byte) n"
  using bit_imp_le_length[of c n] by auto

lemma or_crit_mask: "k < 8 \<Longrightarrow> crit_mask k OR c = 255 \<longleftrightarrow> bit c k"
proof
  assume k: "k < 8" and e: "crit_mask k OR c = 255"
  have "bit (255 :: byte) k" using k by (auto simp: numeral_nat less_Suc_eq bit_simps)
  then have "bit (crit_mask k OR c) k" using e by simp
  then show "bit c k" by (simp add: crit_mask_def bit_simps)
next
  assume k: "k < 8" and b: "bit c k"
  have "crit_mask k OR c = NOT 0" using b by (auto intro!: bit_eqI simp: crit_mask_def bit_simps)
  then show "crit_mask k OR c = 255" by simp
qed

lemma direction_crit: "k < 8 \<Longrightarrow> direction (crit_mask k) c = (if bit c k then 1 else 0)"
proof -
  assume k: "k < 8"
  have eq: "unat (crit_mask k OR c) = 255 \<longleftrightarrow> bit c k"
    using or_crit_mask[OF k, of c] by (simp add: word_unat_eq_iff)
  have "(1 + n) div 256 = (if n = 255 then 1 else 0)" if "n < 256" for n :: nat
    using that by auto
  then show ?thesis using eq byte_lt(1)[of "crit_mask k OR c"] by (simp add: direction_def)
qed

definition node_pos :: "nat \<Rightarrow> nat \<Rightarrow> nat" where
  "node_pos b k = 8 * b + (7 - k)"

lemma node_pos_kbit: "k < 8 \<Longrightarrow> kbit u (node_pos b k) = bit (key_byte u b) k"
proof -
  assume k: "k < 8"
  have "node_pos b k mod 8 = 7 - k"
    unfolding node_pos_def mod_mult_self4 by (rule mod_less) simp
  moreover have "node_pos b k div 8 = b"
    unfolding node_pos_def by (subst div_mult_self4) simp_all
  moreover have "7 - (7 - k) = k" using k by simp
  ultimately show ?thesis by (simp add: kbit_def)
qed

lemma direction_kbit: "k < 8 \<Longrightarrow> direction (crit_mask k) (key_byte u b) = (if kbit u (node_pos b k) then 1 else 0)"
  by (simp add: direction_crit node_pos_kbit)

text \<open>Nodes closer to the root test earlier positions.\<close>

lemma crit_mask_less:
  assumes "j < 8" "k < 8"
  shows "crit_mask k > crit_mask j \<longleftrightarrow> k < j"
proof -
  have "j \<in> {0, 1, 2, 3, 4, 5, 6, 7}" "k \<in> {0, 1, 2, 3, 4, 5, 6, 7}" using assms by auto
  then show ?thesis by (auto simp: crit_mask_def word_less_nat_alt)
qed

section \<open>Well-formed trees\<close>

fun cb_keys :: "'v cb_node \<Rightarrow> bytes set" where
  "cb_keys (Leaf k v) = {k}"
| "cb_keys (Node b ob l r) = cb_keys l \<union> cb_keys r"

definition agree :: "nat \<Rightarrow> bytes set \<Rightarrow> bool" where
  "agree p S \<longleftrightarrow> (\<forall>u \<in> S. \<forall>w \<in> S. \<forall>q < p. kbit u q = kbit w q)"

fun cb_wf :: "'v cb_node \<Rightarrow> bool" where
  "cb_wf (Leaf k v) = ascii_key k"
| "cb_wf (Node b ob l r) =
    (\<exists>k < 8. ob = crit_mask k \<and> cb_wf l \<and> cb_wf r \<and>
       (\<forall>u \<in> cb_keys l. \<not> kbit u (node_pos b k)) \<and> (\<forall>u \<in> cb_keys r. kbit u (node_pos b k)) \<and>
       agree (node_pos b k) (cb_keys l \<union> cb_keys r))"

fun cb_map :: "'v cb_node \<Rightarrow> bytes \<rightharpoonup> 'v option" where
  "cb_map (Leaf k v) = [k \<mapsto> v]"
| "cb_map (Node b ob l r) = cb_map l ++ cb_map r"

lemma dom_cb_map [simp]: "dom (cb_map t) = cb_keys t"
  by (induction t) (auto split: if_splits)

lemma cb_keys_nonempty [simp]: "cb_keys t \<noteq> {}"
  by (induction t) auto

lemma cb_walk_key: "fst (cb_walk u t) \<in> cb_keys t"
  by (induction t) auto

lemma cb_wf_ascii: "cb_wf t \<Longrightarrow> w \<in> cb_keys t \<Longrightarrow> ascii_key w"
  by (induction t) auto

text \<open>Looking up a key of the tree leads to its leaf.\<close>

lemma cb_map_side:
  assumes "cb_wf (Node b (crit_mask k) l r)" "k < 8" "u \<in> cb_keys (Node b (crit_mask k) l r)"
  shows "(if direction (crit_mask k) (key_byte u b) = 0 then u \<in> cb_keys l \<and> u \<notin> cb_keys r else u \<in> cb_keys r \<and> u \<notin> cb_keys l)"
proof -
  obtain j where "j < 8" "crit_mask k = crit_mask j"
    and sides: "\<forall>u \<in> cb_keys l. \<not> kbit u (node_pos b j)" "\<forall>u \<in> cb_keys r. kbit u (node_pos b j)"
    using assms(1) by auto
  then have "j = k" using crit_mask_less[of j k] crit_mask_less[of k j] assms(2) by (metis less_irrefl linorder_neqE_nat)
  then show ?thesis using sides assms(2,3) by (auto simp: direction_kbit)
qed

lemma cb_walk_map: "cb_wf t \<Longrightarrow> u \<in> cb_keys t \<Longrightarrow> fst (cb_walk u t) = u \<and> cb_map t u = Some (snd (cb_walk u t))"
proof (induction t)
  case (Node b ob l r)
  obtain k where k: "k < 8" "ob = crit_mask k" using Node.prems(1) by auto
  have side: "if direction ob (key_byte u b) = 0 then u \<in> cb_keys l \<and> u \<notin> cb_keys r else u \<in> cb_keys r \<and> u \<notin> cb_keys l"
    using cb_map_side[of b k l r u] Node.prems k by simp
  have "u \<notin> cb_keys r \<Longrightarrow> cb_map r u = None" using dom_cb_map[of r] by blast
  then show ?case using Node side by (auto simp: map_add_def split: if_splits option.splits)
qed simp

section \<open>The critical bit\<close>

lemma ascii_bit7: "c < 128 \<Longrightarrow> \<not> bit (c :: byte) 7"
proof -
  assume "c < 128"
  then have "unat c div 2 ^ 7 = 0" by (simp add: word_less_nat_alt)
  then have "\<not> bit (unat c) 7" by (simp add: bit_iff_odd)
  then show ?thesis by (simp add: bit_unsigned_iff)
qed

lemma scast_ascii: "c < 128 \<Longrightarrow> (scast (c :: byte) :: u32) = ucast c"
proof (rule bit_eqI)
  fix n assume c: "c < 128" and "possible_bit TYPE(32 word) n"
  then have "n < 32" by (simp add: possible_bit_word)
  then show "bit (scast c :: u32) n = bit (ucast c :: u32) n"
    using ascii_bit7[OF c] bit_byte_ge[of n c] by (cases "n < 7"; cases "n = 7") (auto simp: bit_simps min_def)
qed

lemma ucast_xor: "(ucast (a :: byte) :: u32) XOR ucast b = ucast (a XOR b)"
  by (rule bit_eqI) (auto simp: bit_simps)

text \<open>The first differing byte of two ASCII keys.\<close>

lemma first_diff_None: "first_diff k u i = None \<longleftrightarrow> k = u"
  by (induction k u i rule: first_diff.induct) auto

lemma first_diff_Some:
  assumes "first_diff k u i = Some (j, x)" "ascii_key k" "ascii_key u"
  shows "\<exists>n. j = i + n \<and> (\<forall>m < n. key_byte k m = key_byte u m) \<and> key_byte k n \<noteq> key_byte u n \<and>
    key_byte k n < 128 \<and> key_byte u n < 128 \<and> x = ucast (key_byte k n XOR key_byte u n)"
  using assms
proof (induction k u i rule: first_diff.induct)
  case (1 k i)
  then show ?case by (intro exI[of _ 0], cases k) (auto simp: key_byte_def ascii_key_def scast_ascii)
next
  case (2 c u i)
  then show ?case by (intro exI[of _ 0]) (auto simp: key_byte_def ascii_key_def scast_ascii)
next
  case (3 d k c u i)
  show ?case
  proof (cases "d = c")
    case False
    with 3 show ?thesis by (intro exI[of _ 0]) (auto simp: key_byte_def ascii_key_def scast_ascii ucast_xor)
  next
    case True
    with 3 obtain n where n: "j = Suc i + n" "\<forall>m < n. key_byte k m = key_byte u m" "key_byte k n \<noteq> key_byte u n"
      "key_byte k n < 128" "key_byte u n < 128" "x = ucast (key_byte k n XOR key_byte u n)"
      by (auto simp: ascii_key_def)
    have "key_byte (d # k) m = key_byte (c # u) m" if "m < Suc n" for m
      using n(2) that True by (cases m) (auto simp: key_byte_def)
    moreover have "key_byte (d # k) (Suc n) = key_byte k n" "key_byte (c # u) (Suc n) = key_byte u n"
      by (simp_all add: key_byte_def)
    ultimately show ?thesis using n by (intro exI[of _ "Suc n"]) simp
  qed
qed

lemma top_bit:
  assumes "(d :: byte) \<noteq> 0" "\<not> bit d 7"
  obtains k where "k < 7" "bit d k" "\<And>j. k < j \<Longrightarrow> \<not> bit d j"
proof -
  let ?S = "{j. bit d j}"
  have fin: "finite ?S" by (rule finite_subset[of _ "{..<8}"]) (use bit_byte_ge[of _ d] in \<open>auto simp: not_le[symmetric]\<close>)
  have "?S \<noteq> {}" using assms(1) by (metis (mono_tags, lifting) bit_0_eq bit_eqI bot_apply bot_bool_def mem_Collect_eq empty_iff)
  from Max_in[OF fin this] Max_ge[OF fin] have k: "bit d (Max ?S)" "\<And>j. Max ?S < j \<Longrightarrow> \<not> bit d j"
    by (auto simp: leD)
  moreover have "Max ?S < 8" using k(1) bit_byte_ge[of "Max ?S" d] by (metis not_le)
  moreover have "Max ?S \<noteq> 7" using k(1) assms(2) by metis
  ultimately have "Max ?S < 7" by linarith
  then show ?thesis using that[of "Max ?S"] k by blast
qed

lemma spread_top:
  assumes k: "k < 7" "bit d k" "\<And>j. k < j \<Longrightarrow> \<not> bit (d :: byte) j"
  shows "spread (ucast d) = ucast (crit_mask k)"
proof -
  define x where "x = (ucast d :: u32)"
  define y where "y = (let x = x OR drop_bit 1 x; x = x OR drop_bit 2 x in x OR drop_bit 4 x)"
  have x: "bit x i \<longleftrightarrow> bit d i" for i
    using bit_byte_ge[of i d] by (cases "i < 8") (auto simp: x_def bit_simps)
  have "bit y i \<longleftrightarrow> bit d i \<or> bit d (i + 1) \<or> bit d (i + 2) \<or> bit d (i + 3) \<or> bit d (i + 4) \<or> bit d (i + 5) \<or> bit d (i + 6) \<or> bit d (i + 7)" for i
    by (auto simp: y_def Let_def bit_simps x eval_nat_numeral)
  moreover have "(bit d i \<or> bit d (i + 1) \<or> bit d (i + 2) \<or> bit d (i + 3) \<or> bit d (i + 4) \<or> bit d (i + 5) \<or> bit d (i + 6) \<or> bit d (i + 7)) \<longleftrightarrow> i \<le> k" for i
  proof
    assume "bit d i \<or> bit d (i + 1) \<or> bit d (i + 2) \<or> bit d (i + 3) \<or> bit d (i + 4) \<or> bit d (i + 5) \<or> bit d (i + 6) \<or> bit d (i + 7)"
    then obtain m where "bit d (i + m)" by (metis add_0_right)
    then show "i \<le> k" using k(3)[of "i + m"] by (meson not_le le_add1 order_trans)
  next
    assume "i \<le> k"
    then have "k = i \<or> k = i + 1 \<or> k = i + 2 \<or> k = i + 3 \<or> k = i + 4 \<or> k = i + 5 \<or> k = i + 6" using k(1) by linarith
    then show "bit d i \<or> bit d (i + 1) \<or> bit d (i + 2) \<or> bit d (i + 3) \<or> bit d (i + 4) \<or> bit d (i + 5) \<or> bit d (i + 6) \<or> bit d (i + 7)"
      using k(2) by metis
  qed
  ultimately have y: "bit y i \<longleftrightarrow> i \<le> k" for i by blast
  have m: "(255 :: u32) = mask 8" by (simp add: mask_eq_exp_minus_1)
  have "spread x = (y AND NOT (drop_bit 1 y)) XOR mask 8" unfolding spread_def y_def Let_def m by simp
  also have "\<dots> = ucast (crit_mask k)"
    by (rule bit_eqI) (use k(1) in \<open>auto simp: bit_simps y crit_mask_def\<close>)
  finally show ?thesis by (simp add: x_def)
qed

lemma newdirection_direction: "newdirection (ucast (m :: byte)) c = direction m c"
proof -
  have o: "(ucast m :: u32) OR ucast c = ucast (m OR c)" by (rule bit_eqI) (auto simp: bit_simps)
  have "1 + unat (m OR c) < 2 ^ 32" by (rule less_trans[of _ 257]) (use byte_lt(1)[of "m OR c"] in linarith, simp)
  then have "unat (1 + (ucast (m OR c) :: u32)) = 1 + unat (m OR c)"
    by (subst unat_add_lem[THEN iffD1]) simp_all
  then show ?thesis
    by (simp add: newdirection_def direction_def o drop_bit_eq_div unat_div)
qed

text \<open>The critical position of two different ASCII keys, as \<open>cb_insert\<close> computes it.\<close>

lemma crit_position:
  assumes "first_diff w u 0 = Some (nb, x)" "ascii_key w" "ascii_key u"
  obtains k where "k < 8" "spread x = ucast (crit_mask k)"
    "kbit w (node_pos nb k) \<noteq> kbit u (node_pos nb k)"
    "\<And>q. q < node_pos nb k \<Longrightarrow> kbit w q = kbit u q"
proof -
  let ?d = "key_byte w nb XOR key_byte u nb"
  have d: "\<forall>m < nb. key_byte w m = key_byte u m" "key_byte w nb \<noteq> key_byte u nb"
    "key_byte w nb < 128" "key_byte u nb < 128" "x = ucast ?d"
    using first_diff_Some[OF assms] by auto
  have "(key_byte w nb XOR key_byte u nb) XOR key_byte u nb = key_byte w nb" by (simp add: xor.assoc)
  then have "?d \<noteq> 0" using d(2) by auto
  moreover have "\<not> bit ?d 7" using ascii_bit7[OF d(3)] ascii_bit7[OF d(4)] by (simp add: bit_simps)
  ultimately obtain k where k: "k < 7" "bit ?d k" "\<And>j. k < j \<Longrightarrow> \<not> bit ?d j" by (rule top_bit) blast
  have k8: "k < 8" using k(1) by simp
  show ?thesis
  proof (rule that[OF k8])
    show "spread x = ucast (crit_mask k)" unfolding d(5) by (rule spread_top[OF k])
    show "kbit w (node_pos nb k) \<noteq> kbit u (node_pos nb k)"
      using k(2) by (simp add: node_pos_kbit[OF k8] bit_simps)
    fix q assume q: "q < node_pos nb k"
    have "q div 8 < nb \<or> q div 8 = nb \<and> k < 7 - q mod 8"
    proof (cases "q div 8 < nb")
      case False
      have e: "q = 8 * (q div 8) + q mod 8" "q mod 8 < 8" by simp_all
      then have "8 * (q div 8) < 8 * nb + 8" using q k8 unfolding node_pos_def by linarith
      then have eq: "q div 8 = nb" using False by linarith
      then have "q mod 8 < 7 - k" using q e(1) unfolding node_pos_def by linarith
      then show ?thesis using eq by linarith
    qed simp
    then consider "q div 8 < nb" | "q div 8 = nb" "k < 7 - q mod 8" by blast
    then show "kbit w q = kbit u q"
    proof cases
      case 2
      then show ?thesis using k(3)[of "7 - q mod 8"] by (simp add: kbit_def bit_simps)
    qed (use d(1) in \<open>simp add: kbit_def\<close>)
  qed
qed

section \<open>Insertion\<close>

lemma agree_mono: "agree p S \<Longrightarrow> q \<le> p \<Longrightarrow> agree q S"
  unfolding agree_def by (meson less_le_trans)

lemma agree_subset: "agree p S \<Longrightarrow> T \<subseteq> S \<Longrightarrow> agree p T"
  unfolding agree_def by blast

lemma agree_insert:
  assumes "agree p S" "w \<in> S" "\<And>q. q < p \<Longrightarrow> kbit w q = kbit u q"
  shows "agree p (insert u S)"
  using assms unfolding agree_def by (metis insert_iff)

lemma mk_node_wf:
  assumes wf: "cb_wf t" and u: "ascii_key u" and k: "k < 8" and w: "w \<in> cb_keys t"
    and diff: "kbit w (node_pos nb k) \<noteq> kbit u (node_pos nb k)"
    and same: "\<And>q. q < node_pos nb k \<Longrightarrow> kbit w q = kbit u q"
    and ag: "agree (Suc (node_pos nb k)) (cb_keys t)"
    and d: "d = (if kbit w (node_pos nb k) then 1 else 0)"
  shows "cb_wf (mk_node nb (ucast (crit_mask k)) d (Leaf u v) t) \<and>
    cb_map (mk_node nb (ucast (crit_mask k)) d (Leaf u v) t) = (cb_map t)(u \<mapsto> v)"
proof -
  let ?p = "node_pos nb k"
  have all: "y \<in> cb_keys t \<Longrightarrow> kbit y ?p = kbit w ?p" for y using ag w unfolding agree_def by blast
  have "agree ?p (cb_keys t)" using ag unfolding agree_def by (meson less_SucI)
  from agree_insert[OF this w same] have ag': "agree ?p (insert u (cb_keys t))" .
  have "u \<notin> cb_keys t" using all diff by blast
  then have um: "cb_map t u = None" using dom_cb_map[of t] by blast
  have m: "ucast (ucast (crit_mask k) :: u32) = crit_mask k" by (rule bit_eqI) (auto simp: bit_simps)
  have "[u \<mapsto> v] ++ cb_map t = (cb_map t)(u \<mapsto> v)" using um by (auto simp: map_add_def split: option.splits)
  moreover have "cb_map t ++ [u \<mapsto> v] = (cb_map t)(u \<mapsto> v)" by simp
  ultimately show ?thesis
    using wf u k all diff ag' d by (auto simp: mk_node_def m insert_commute)
qed

lemma agree_deeper:
  assumes "cb_wf (Node b ob l r)" "ob = crit_mask k" "k < 8" "p < node_pos b k"
  shows "agree (Suc p) (cb_keys (Node b ob l r))"
proof -
  obtain j where "j < 8" "ob = crit_mask j" "agree (node_pos b j) (cb_keys l \<union> cb_keys r)" using assms(1) by auto
  moreover from this have "j = k" using crit_mask_less[of j k] crit_mask_less[of k j] assms(2,3)
    by (metis less_irrefl linorder_neqE_nat)
  ultimately show ?thesis using agree_mono[of "node_pos b k" _ "Suc p"] assms(4) by simp
qed

text \<open>A node the descent does not stop at tests an earlier position.\<close>

lemma node_stop:
  assumes "j < 8" "k < 8"
  shows "(b > nb \<or> b = nb \<and> (ucast (crit_mask j) :: u32) > ucast (crit_mask k)) \<longleftrightarrow> node_pos nb k < node_pos b j"
proof -
  have "(ucast (crit_mask j) :: u32) > ucast (crit_mask k) \<longleftrightarrow> j < k"
    using crit_mask_less[of k j] assms by (simp add: word_less_nat_alt)
  then show ?thesis using assms unfolding node_pos_def by auto
qed

lemma cb_splice_wf:
  assumes "cb_wf t" "ascii_key u" "k < 8" "w = fst (cb_walk u t)"
    "kbit w (node_pos nb k) \<noteq> kbit u (node_pos nb k)" "\<And>q. q < node_pos nb k \<Longrightarrow> kbit w q = kbit u q"
    "d = (if kbit w (node_pos nb k) then 1 else 0)"
  shows "cb_wf (fst (cb_splice u nb (ucast (crit_mask k)) d (Leaf u v) t)) \<and>
    cb_map (fst (cb_splice u nb (ucast (crit_mask k)) d (Leaf u v) t)) = (cb_map t)(u \<mapsto> v)"
  using assms
proof (induction t)
  case (Leaf x y)
  have "agree (Suc (node_pos nb k)) (cb_keys (Leaf x y))" by (simp add: agree_def)
  moreover have "w \<in> cb_keys (Leaf x y)" using Leaf.prems(4) by simp
  ultimately show ?case
    using mk_node_wf[OF Leaf.prems(1,2,3) _ Leaf.prems(5,6) _ Leaf.prems(7)] by (simp only: cb_splice.simps fst_conv)
next
  case (Node b ob l r)
  obtain j where j: "j < 8" "ob = crit_mask j" "cb_wf l" "cb_wf r"
    "\<forall>u \<in> cb_keys l. \<not> kbit u (node_pos b j)" "\<forall>u \<in> cb_keys r. kbit u (node_pos b j)"
    "agree (node_pos b j) (cb_keys l \<union> cb_keys r)" using Node.prems(1) by auto
  let ?stop = "b > nb \<or> b = nb \<and> (ucast ob :: u32) > ucast (crit_mask k)"
  have wk: "w \<in> cb_keys (Node b ob l r)" unfolding Node.prems(4) by (rule cb_walk_key)
  show ?case
  proof (cases ?stop)
    case True
    then have "node_pos nb k < node_pos b j" using node_stop[OF j(1) Node.prems(3)] j(2) by simp
    from agree_deeper[OF Node.prems(1) j(2,1) this]
    show ?thesis using mk_node_wf[OF Node.prems(1,2,3) wk Node.prems(5,6) _ Node.prems(7)] True
      by (simp only: cb_splice.simps if_True fst_conv)
  next
    case False
    have dir: "direction ob (key_byte u b) = (if kbit u (node_pos b j) then 1 else 0)"
      using direction_kbit[OF j(1)] j(2) by simp
    have side: "w \<in> (if kbit u (node_pos b j) then cb_keys r else cb_keys l)"
      using cb_walk_key[of u l] cb_walk_key[of u r] Node.prems(4) by (simp add: dir split: if_splits)
    have "node_pos b j \<noteq> node_pos nb k"
      using side j(5,6) Node.prems(5) by (auto split: if_splits)
    then have lt: "node_pos b j < node_pos nb k"
      using False node_stop[OF j(1) Node.prems(3)] j(2) by (metis linorder_neqE_nat)
    have "w \<in> cb_keys l \<union> cb_keys r" using wk by simp
    from agree_insert[OF j(7) this] have ag: "agree (node_pos b j) (insert u (cb_keys l \<union> cb_keys r))"
      using Node.prems(6) lt by (meson less_trans)
    show ?thesis
    proof (cases "kbit u (node_pos b j)")
      case True
      let ?r = "fst (cb_splice u nb (ucast (crit_mask k)) d (Leaf u v) r)"
      have IH: "cb_wf ?r \<and> cb_map ?r = (cb_map r)(u \<mapsto> v)"
        by (rule Node.IH(2)) (use Node.prems j True dir in auto)
      then have "cb_keys ?r = insert u (cb_keys r)" using dom_cb_map[of ?r] by simp
      moreover have "cb_splice u nb (ucast (crit_mask k)) d (Leaf u v) (Node b ob l r) =
          (Node b ob l ?r, 1 # snd (cb_splice u nb (ucast (crit_mask k)) d (Leaf u v) r))"
        using False True dir by (auto simp: split_def Let_def)
      ultimately show ?thesis using IH j ag True by auto
    next
      case nu: False
      let ?l = "fst (cb_splice u nb (ucast (crit_mask k)) d (Leaf u v) l)"
      have IH: "cb_wf ?l \<and> cb_map ?l = (cb_map l)(u \<mapsto> v)"
        by (rule Node.IH(1)) (use Node.prems j nu dir in auto)
      then have keys: "cb_keys ?l = insert u (cb_keys l)" using dom_cb_map[of ?l] by simp
      have "u \<notin> cb_keys r" using j(6) nu by blast
      then have "(cb_map l)(u \<mapsto> v) ++ cb_map r = (cb_map l ++ cb_map r)(u \<mapsto> v)"
        using dom_cb_map[of r] by (metis map_add_upd_left)
      moreover have "cb_splice u nb (ucast (crit_mask k)) d (Leaf u v) (Node b ob l r) =
          (Node b ob ?l r, 0 # snd (cb_splice u nb (ucast (crit_mask k)) d (Leaf u v) l))"
        using False nu dir by (auto simp: split_def Let_def)
      ultimately show ?thesis using IH j ag nu keys by auto
    qed
  qed
qed

text \<open>The slot an insertion returns is the one a lookup of the key leads to.\<close>

lemma mk_node_path:
  assumes "k < 8" "d = (if kbit u (node_pos nb k) then 0 else 1)"
  shows "walk_path u (mk_node nb (ucast (crit_mask k)) d (Leaf u v) t) = [1 - d]"
proof -
  have m: "ucast (ucast (crit_mask k) :: u32) = crit_mask k" by (rule bit_eqI) (auto simp: bit_simps)
  show ?thesis using assms direction_kbit[OF assms(1), of u nb] by (simp add: mk_node_def m)
qed

lemma cb_splice_path:
  assumes "k < 8" "d = (if kbit u (node_pos nb k) then 0 else 1)"
  shows "snd (cb_splice u nb (ucast (crit_mask k)) d (Leaf u v) t) =
    walk_path u (fst (cb_splice u nb (ucast (crit_mask k)) d (Leaf u v) t))"
proof (induction t)
  case (Leaf x y)
  show ?case using mk_node_path[OF assms, of v "Leaf x y"] by (simp only: cb_splice.simps fst_conv snd_conv)
next
  case (Node b ob l r)
  then show ?case using mk_node_path[OF assms, of v "Node b ob l r"] by (auto simp: split_def Let_def)
qed

lemma slot_walk_path: "slot_get t (walk_path u t) = snd (cb_walk u t)"
  by (induction t) auto

lemma slot_set_keys [simp]: "cb_keys (slot_set t p x) = cb_keys t"
  by (induction t p x rule: slot_set.induct) auto

lemma slot_set_wf: "cb_wf t \<Longrightarrow> cb_wf (slot_set t p x)"
proof (induction t p x rule: slot_set.induct)
  case (2 b ob l r d p x)
  then show ?case by (cases "d = 0") auto
qed auto

lemma slot_set_map:
  assumes "cb_wf t" "u \<in> cb_keys t"
  shows "cb_map (slot_set t (walk_path u t) x) = (cb_map t)(u \<mapsto> x)"
  using assms
proof (induction t)
  case (Node b ob l r)
  obtain k where k: "k < 8" "ob = crit_mask k" using Node.prems(1) by auto
  have side: "if direction ob (key_byte u b) = 0 then u \<in> cb_keys l \<and> u \<notin> cb_keys r else u \<in> cb_keys r \<and> u \<notin> cb_keys l"
    using cb_map_side[of b k l r u] Node.prems k by simp
  have wf: "cb_wf l" "cb_wf r" using Node.prems(1) by auto
  show ?case
  proof (cases "direction ob (key_byte u b) = 0")
    case True
    then have "u \<in> cb_keys l" "u \<notin> dom (cb_map r)" using side by simp_all
    then show ?thesis using True Node.IH(1) wf map_add_upd_left[of u "cb_map r" "cb_map l" x]
      by (simp del: fun_upd_apply)
  next
    case False
    then show ?thesis using side Node.IH(2) wf by (simp del: fun_upd_apply)
  qed
qed auto

section \<open>Deletion\<close>

lemma cb_delete_node_None: "cb_delete_node u t = None \<longleftrightarrow> fst (cb_walk u t) \<noteq> u"
  by (induction t) auto

lemma cb_delete_node_Some:
  assumes "cb_wf t" "cb_delete_node u t = Some (v, t')"
  shows "cb_map t u = Some v \<and>
    (case t' of None \<Rightarrow> cb_map t = [u \<mapsto> v] | Some n \<Rightarrow> cb_wf n \<and> cb_map n = (cb_map t)(u := None))"
  using assms
proof (induction t arbitrary: t')
  case (Leaf k x)
  then show ?case by (auto split: if_splits)
next
  case (Node b ob l r)
  obtain k where k: "k < 8" "ob = crit_mask k" "cb_wf l" "cb_wf r"
    "\<forall>u \<in> cb_keys l. \<not> kbit u (node_pos b k)" "\<forall>u \<in> cb_keys r. kbit u (node_pos b k)"
    "agree (node_pos b k) (cb_keys l \<union> cb_keys r)" using Node.prems(1) by auto
  show ?case
  proof (cases "direction ob (key_byte u b) = 0")
    case True
    then obtain l' where l': "cb_delete_node u l = Some (v, l')"
      "t' = Some (case l' of None \<Rightarrow> r | Some l' \<Rightarrow> Node b ob l' r)"
      using Node.prems(2) by auto
    note IH = Node.IH(1)[OF k(3) l'(1)]
    have "u \<in> cb_keys l" using IH dom_cb_map[of l] by blast
    then have ur: "u \<notin> cb_keys r" using k(5,6) by blast
    then have um: "cb_map r u = None" using dom_cb_map[of r] by blast
    have mu: "(cb_map l ++ cb_map r) u = Some v" using IH um by (simp add: map_add_def)
    have eq: "(cb_map l)(u := None) ++ cb_map r = (cb_map l ++ cb_map r)(u := None)"
      using um by (auto simp: map_add_def fun_eq_iff split: option.split)
    show ?thesis
    proof (cases l')
      case None
      then have "(cb_map l)(u := None) = Map.empty" using IH by auto
      then show ?thesis using l'(2) None k(4) mu eq by (simp del: fun_upd_apply)
    next
      case (Some n)
      have wf: "cb_wf n" "cb_map n = (cb_map l)(u := None)" using IH Some by auto
      then have sub: "cb_keys n \<subseteq> cb_keys l" using dom_cb_map[of n] dom_cb_map[of l] by auto
      then have "agree (node_pos b k) (cb_keys n \<union> cb_keys r)" by (intro agree_subset[OF k(7)]) blast
      then have "cb_wf (Node b ob n r)" using wf(1) k sub unfolding cb_wf.simps by (intro exI[of _ k]) blast
      then show ?thesis using l'(2) Some wf(2) mu eq by simp
    qed
  next
    case False
    then obtain r' where r': "cb_delete_node u r = Some (v, r')"
      "t' = Some (case r' of None \<Rightarrow> l | Some r' \<Rightarrow> Node b ob l r')"
      using Node.prems(2) by auto
    note IH = Node.IH(2)[OF k(4) r'(1)]
    have "u \<in> cb_keys r" using IH dom_cb_map[of r] by blast
    then have "u \<notin> cb_keys l" using k(5,6) by blast
    then have um: "cb_map l u = None" using dom_cb_map[of l] by blast
    have mu: "(cb_map l ++ cb_map r) u = Some v" using IH by (simp add: map_add_def)
    have eq: "cb_map l ++ (cb_map r)(u := None) = (cb_map l ++ cb_map r)(u := None)"
      using um by (auto simp: map_add_def fun_eq_iff split: option.split)
    show ?thesis
    proof (cases r')
      case None
      then have "(cb_map r)(u := None) = Map.empty" using IH by auto
      then show ?thesis using r'(2) None k(3) mu eq by (simp del: fun_upd_apply)
    next
      case (Some n)
      have wf: "cb_wf n" "cb_map n = (cb_map r)(u := None)" using IH Some by auto
      then have sub: "cb_keys n \<subseteq> cb_keys r" using dom_cb_map[of n] dom_cb_map[of r] by auto
      then have "agree (node_pos b k) (cb_keys l \<union> cb_keys n)" by (intro agree_subset[OF k(7)]) blast
      then have "cb_wf (Node b ob l n)" using wf(1) k sub unfolding cb_wf.simps by (intro exI[of _ k]) blast
      then show ?thesis using r'(2) Some wf(2) mu eq by simp
    qed
  qed
qed

section \<open>The tree as a map\<close>

definition tree_map :: "'v cb_tree \<Rightarrow> bytes \<rightharpoonup> 'v option" where
  "tree_map t = (case t of None \<Rightarrow> Map.empty | Some n \<Rightarrow> cb_map n)"

definition tree_wf :: "'v cb_tree \<Rightarrow> bool" where
  "tree_wf t = (case t of None \<Rightarrow> True | Some n \<Rightarrow> cb_wf n)"

lemma cb_contains_map: "tree_wf t \<Longrightarrow> cb_contains t u = tree_map t u"
proof (cases t)
  case (Some n)
  assume "tree_wf t"
  then have wf: "cb_wf n" by (simp add: tree_wf_def Some)
  show ?thesis
  proof (cases "u \<in> cb_keys n")
    case True
    then show ?thesis using cb_walk_map[OF wf True] by (simp add: cb_contains_def tree_map_def Some split_def Let_def)
  next
    case False
    then have "fst (cb_walk u n) \<noteq> u" "cb_map n u = None"
      using cb_walk_key[of u n] dom_cb_map[of n] by (metis, blast)
    then show ?thesis by (simp add: cb_contains_def tree_map_def Some split_def Let_def)
  qed
qed (simp add: cb_contains_def tree_map_def)

lemma cb_insert_spec:
  assumes wf: "tree_wf t" and u: "ascii_key u"
  shows "\<exists>t' p. cb_insert True t u = Inr (if tree_map t u = None then 2 else 1, Some t', p) \<and> cb_wf t' \<and>
    cb_map t' = (if tree_map t u = None then (tree_map t)(u \<mapsto> None) else tree_map t) \<and> p = walk_path u t'"
proof (cases t)
  case None
  then show ?thesis using u by (auto simp: cb_insert_def tree_map_def)
next
  case (Some n)
  have wn: "cb_wf n" using wf by (simp add: tree_wf_def Some)
  define w where "w = fst (cb_walk u n)"
  have wk: "w \<in> cb_keys n" unfolding w_def by (rule cb_walk_key)
  show ?thesis
  proof (cases "first_diff w u 0")
    case None
    then have "w = u" by (simp add: first_diff_None)
    then have "cb_map n u \<noteq> None" using wk dom_cb_map[of n] by blast
    then show ?thesis using None wn by (auto simp: cb_insert_def Some w_def tree_map_def)
  next
    case diff: (Some nx)
    obtain nb x where nx: "nx = (nb, x)" by (cases nx)
    have aw: "ascii_key w" using cb_wf_ascii[OF wn wk] .
    obtain k where k: "k < 8" "spread x = ucast (crit_mask k)"
      "kbit w (node_pos nb k) \<noteq> kbit u (node_pos nb k)"
      "\<And>q. q < node_pos nb k \<Longrightarrow> kbit w q = kbit u q"
      using crit_position[OF diff[unfolded nx] aw u] by blast
    define d where "d = (if kbit w (node_pos nb k) then 1 else (0 :: nat))"
    have nd: "newdirection (spread x) (key_byte w nb) = d"
      unfolding k(2) newdirection_direction d_def using direction_kbit[OF k(1), of w nb] by simp
    let ?s = "cb_splice u nb (ucast (crit_mask k)) d (Leaf u None) n"
    have sp: "cb_wf (fst ?s) \<and> cb_map (fst ?s) = (cb_map n)(u \<mapsto> None)"
      by (rule cb_splice_wf[OF wn u k(1) w_def k(3,4) d_def])
    have path: "snd ?s = walk_path u (fst ?s)"
      by (rule cb_splice_path[OF k(1)]) (use k(3) in \<open>auto simp: d_def\<close>)
    have "u \<notin> cb_keys n"
      using cb_walk_map[OF wn, of u] first_diff_None[of w u 0] diff w_def by auto
    then have "cb_map n u = None" using dom_cb_map[of n] by blast
    moreover have "cb_insert True t u = Inr (2, Some (fst ?s), snd ?s)"
      using diff nx nd k(2) by (simp add: cb_insert_def Some w_def[symmetric] Let_def split_def d_def)
    ultimately show ?thesis using sp path by (auto simp: tree_map_def Some)
  qed
qed

text \<open>The map interface the virtual hosts use.\<close>

locale string_map =
  fixes valid :: "'t \<Rightarrow> bool" and look :: "'t \<Rightarrow> bytes \<Rightarrow> 'v option"
    and put :: "'t \<Rightarrow> bytes \<Rightarrow> 'v \<Rightarrow> 't res" and del :: "'t \<Rightarrow> bytes \<Rightarrow> 't option" and key_ok :: "bytes \<Rightarrow> bool"
  assumes put_ok: "valid t \<Longrightarrow> key_ok u \<Longrightarrow> \<exists>t'. put t u x = Inr t' \<and> valid t' \<and> look t' = (look t)(u \<mapsto> x)"
    and del_none: "valid t \<Longrightarrow> del t u = None \<longleftrightarrow> look t u = None"
    and del_some: "valid t \<Longrightarrow> del t u = Some t' \<Longrightarrow> valid t' \<and> look t' = (look t)(u := None)"
begin

text \<open>Updates of one key do not disturb another.\<close>

lemma put_other: "valid t \<Longrightarrow> key_ok u \<Longrightarrow> put t u x = Inr t' \<Longrightarrow> w \<noteq> u \<Longrightarrow> look t' w = look t w"
  using put_ok[of t u x] by auto

lemma put_del: "valid t \<Longrightarrow> key_ok u \<Longrightarrow> look t u = None \<Longrightarrow> put t u x = Inr t' \<Longrightarrow>
    \<exists>t''. del t' u = Some t'' \<and> valid t'' \<and> look t'' = look t"
proof -
  assume a: "valid t" "key_ok u" "look t u = None" "put t u x = Inr t'"
  then have t': "valid t'" "look t' = (look t)(u \<mapsto> x)" using put_ok[of t u x] by auto
  then obtain t'' where t'': "del t' u = Some t''" using del_none[of t' u] by auto
  then show ?thesis using del_some[OF t'(1) t''] t'(2) a(3) by (auto simp: fun_upd_idem)
qed

end

definition cb_put :: "'v cb_tree \<Rightarrow> bytes \<Rightarrow> 'v option \<Rightarrow> 'v cb_tree res" where
  "cb_put t u x = rbind (cb_insert True t u) (\<lambda>(c, t', p). Inr (map_option (\<lambda>n. slot_set n p x) t'))"

definition cb_remove :: "'v cb_tree \<Rightarrow> bytes \<Rightarrow> 'v cb_tree option" where
  "cb_remove t u = map_option snd (cb_delete t u)"

lemma cb_put_spec:
  assumes "tree_wf t" "ascii_key u"
  shows "\<exists>t'. cb_put t u x = Inr t' \<and> tree_wf t' \<and> tree_map t' = (tree_map t)(u \<mapsto> x)"
proof -
  obtain n p where n: "cb_insert True t u = Inr (if tree_map t u = None then 2 else 1, Some n, p)" "cb_wf n"
    "cb_map n = (if tree_map t u = None then (tree_map t)(u \<mapsto> None) else tree_map t)" "p = walk_path u n"
    using cb_insert_spec[OF assms] by blast
  have "u \<in> cb_keys n" using n(3) dom_cb_map[of n] by (auto split: if_splits)
  then have "cb_map (slot_set n p x) = (tree_map t)(u \<mapsto> x)"
    using slot_set_map[OF n(2), of u x] n(3,4) by (auto split: if_splits)
  then show ?thesis using n(1) slot_set_wf[OF n(2), of p x] by (simp add: cb_put_def tree_wf_def tree_map_def)
qed

lemma cb_delete_spec:
  assumes "tree_wf t"
  shows "cb_delete t u = None \<longleftrightarrow> tree_map t u = None"
    and "cb_delete t u = Some (v, t') \<Longrightarrow> tree_map t u = Some v \<and> tree_wf t' \<and> tree_map t' = (tree_map t)(u := None)"
proof -
  show "cb_delete t u = None \<longleftrightarrow> tree_map t u = None"
  proof (cases t)
    case (Some n)
    have "cb_contains t u = None \<longleftrightarrow> fst (cb_walk u n) \<noteq> u"
      by (simp add: cb_contains_def Some split_def Let_def)
    then show ?thesis
      using cb_contains_map[OF assms, of u] cb_delete_node_None[of u n] by (simp add: cb_delete_def Some)
  qed (simp add: cb_delete_def tree_map_def)
  assume d: "cb_delete t u = Some (v, t')"
  then obtain n where n: "t = Some n" "cb_delete_node u n = Some (v, t')" by (auto simp: cb_delete_def split: option.splits)
  have "cb_wf n" using assms n(1) by (simp add: tree_wf_def)
  from cb_delete_node_Some[OF this n(2)]
  show "tree_map t u = Some v \<and> tree_wf t' \<and> tree_map t' = (tree_map t)(u := None)"
    by (auto simp: n(1) tree_map_def tree_wf_def split: option.splits)
qed

interpretation cb: string_map tree_wf cb_contains cb_put cb_remove ascii_key
proof
  fix t t' :: "'v cb_tree" and u x
  show "tree_wf t \<Longrightarrow> ascii_key u \<Longrightarrow> \<exists>t'. cb_put t u x = Inr t' \<and> tree_wf t' \<and> cb_contains t' = (cb_contains t)(u \<mapsto> x)"
    using cb_put_spec[of t u x] cb_contains_map by (metis ext)
  show "tree_wf t \<Longrightarrow> (cb_remove t u = None) = (cb_contains t u = None)"
    using cb_delete_spec(1)[of t u] cb_contains_map[of t u] by (simp add: cb_remove_def)
  show "tree_wf t' \<and> cb_contains t' = (cb_contains t)(u := None)" if wf: "tree_wf t" and r: "cb_remove t u = Some t'"
  proof -
    obtain v where "cb_delete t u = Some (v, t')" using r by (auto simp: cb_remove_def)
    then have "tree_wf t'" "tree_map t' = (tree_map t)(u := None)" using cb_delete_spec(2)[OF wf] by auto
    then show ?thesis using cb_contains_map wf by (metis ext)
  qed
qed

section \<open>Properties\<close>

text \<open>
  C11.  \<open>cb_insert\<close> implements insertion into a map: on a well-formed tree and an ASCII key it
  succeeds without leaving a node, reports whether the key was new, changes nothing but
  that key (which gets a null value), and the slot it returns is the one through which a
  value is stored under the key.
\<close>

theorem cb_insert_refines_map:
  assumes "tree_wf t" "ascii_key u"
  shows "\<exists>n p. cb_insert True t u = Inr (if tree_map t u = None then 2 else 1, Some n, p) \<and>
    tree_map (Some n) = (if tree_map t u = None then (tree_map t)(u \<mapsto> None) else tree_map t) \<and>
    (\<forall>x. tree_wf (Some (slot_set n p x)) \<and> tree_map (Some (slot_set n p x)) = (tree_map t)(u \<mapsto> x))"
proof -
  obtain n p where n: "cb_insert True t u = Inr (if tree_map t u = None then 2 else 1, Some n, p)" "cb_wf n"
    "cb_map n = (if tree_map t u = None then (tree_map t)(u \<mapsto> None) else tree_map t)" "p = walk_path u n"
    using cb_insert_spec[OF assms] by blast
  have "u \<in> cb_keys n" using n(3) dom_cb_map[of n] by (auto split: if_splits)
  then have "cb_map (slot_set n p x) = (tree_map t)(u \<mapsto> x)" for x
    using slot_set_map[OF n(2), of u x] n(3,4) by (auto split: if_splits)
  then show ?thesis using n slot_set_wf[OF n(2), of p] by (auto simp: tree_wf_def tree_map_def)
qed

lemma sample_tree_wf: "tree_wf (Some (Leaf (str ''abc'') (Some (1 :: nat))))"
  by (simp add: tree_wf_def ascii_key_def)

theorem cb_insert_refines_map_witness:
  "\<exists>n p. cb_insert True (Some (Leaf (str ''abc'') (Some (1 :: nat)))) (str ''abd'') = Inr (2, Some n, p) \<and>
     tree_map (Some (slot_set n p (Some 7))) (str ''abd'') = Some (Some 7)"
proof -
  have "ascii_key (str ''abd'')" by (simp add: ascii_key_def)
  from cb_insert_refines_map[OF sample_tree_wf this] show ?thesis by (auto simp: tree_map_def)
qed

text \<open>
  C22.  Lookup and deletion implement the map: on a well-formed tree \<open>cb_contains\<close> finds
  exactly the keys of the map with their values, for any string, and \<open>cb_delete\<close> fails
  exactly on other strings and otherwise removes that key and nothing else.
\<close>

theorem cb_lookup_delete_refine_map:
  assumes "tree_wf t"
  shows "cb_contains t u = tree_map t u \<and>
    (case cb_delete t u of
       None \<Rightarrow> tree_map t u = None
     | Some (v, t') \<Rightarrow> tree_map t u = Some v \<and> tree_wf t' \<and> tree_map t' = (tree_map t)(u := None))"
  using cb_contains_map[OF assms, of u] cb_delete_spec(1)[OF assms, of u] cb_delete_spec(2)[OF assms, of u]
  by (auto split: option.splits)

theorem cb_lookup_delete_refine_map_witness:
  "cb_contains (Some (Leaf (str ''abc'') (Some (1 :: nat)))) (str ''abc'') = Some (Some 1)"
  using cb_lookup_delete_refine_map[OF sample_tree_wf, of "str ''abc''"] by (simp add: tree_map_def)



end
