(* ===== verification/Trie.thy ===== *)
theory Trie
  imports Mem "HOL-Library.Sublist"
begin

text \<open>
  The radix trie the web root builder constructs over the URIs (\<^verbatim>\<open>trie.c\<close>): the recursion
  of \<open>do_radix\<close> over the sorted entries with its allocations, and the proof that the edges
  it builds represent exactly the entries.  Layout and on-disk format are in the theory
  \<^verbatim>\<open>TrieDisk\<close>.
\<close>

section \<open>Entries and edges\<close>

record trie_entry =
  t_str :: bytes
  t_oid :: u32

datatype trie_edge = Edge (e_cmp: bytes) (e_terminal: "trie_entry option") (e_edges: "trie_edge list")

definition RE_EDGE_MAX :: nat where "RE_EDGE_MAX = 8"

fun match_len :: "bytes \<Rightarrow> bytes \<Rightarrow> nat" where
  "match_len (a # as) (b # bs) = (if a = b then Suc (match_len as bs) else 0)"
| "match_len _ _ = 0"

definition common_prefix :: "bytes \<Rightarrow> bytes \<Rightarrow> nat \<Rightarrow> nat" where
  "common_prefix a b ofs =
    (if min (length a) (length b) \<le> ofs then 0
     else let ret = match_len (drop ofs a) (drop ofs b) in if RE_EDGE_MAX < ret then RE_EDGE_MAX else ret)"

text \<open>
  The loop that collects the entries sharing a prefix with the first one: the length of
  the prefix and the number of entries in the group.
\<close>

fun scan_group :: "bytes \<Rightarrow> nat \<Rightarrow> trie_entry list \<Rightarrow> nat \<Rightarrow> nat \<Rightarrow> nat \<times> nat" where
  "scan_group v ofs [] len k = (len, k)"
| "scan_group v ofs (tmp # rest) len k =
    (if \<not> len < 0x100 then (len, k)
     else let x = common_prefix v (t_str tmp) ofs in
       if x = 0 then (len, k) else scan_group v ofs rest (if x < len then x else len) (k + 1))"

definition group_of :: "trie_entry \<Rightarrow> trie_entry list \<Rightarrow> nat \<Rightarrow> nat \<times> nat" where
  "group_of v es ofs = (case scan_group (t_str v) ofs es (length (t_str v) - ofs) 0 of (len, k) \<Rightarrow> (len, max k 1))"

text \<open>
  \<open>do_radix\<close> over the entries from \<open>v\<close> to \<open>end\<close>.  \<open>al\<close> tells which allocations of an edge
  succeed, counted from the first of the trie.  The result is the list of edges added to the
  parent, the count of allocations and the return value; that of the recursive call is
  ignored, as in the code.
\<close>

lemma scan_group_ge:
  "scan_group v ofs es len k = (len', k') \<Longrightarrow> k \<le> k' \<and> k' \<le> k + length es \<and> len' \<le> len \<and> (0 < len \<longrightarrow> 0 < len')"
  by (induction v ofs es len k rule: scan_group.induct) (fastforce simp: Let_def split: if_splits)+

lemma group_of_bounds:
  assumes "group_of v es ofs = (len, g)" "es \<noteq> []" "ofs \<le> length (t_str v)"
  shows "1 \<le> g" "g \<le> length es" "ofs + len \<le> length (t_str v)" "ofs < length (t_str v) \<Longrightarrow> 0 < len"
proof -
  obtain k where k: "scan_group (t_str v) ofs es (length (t_str v) - ofs) 0 = (len, k)" "g = max k 1"
    using assms(1) by (auto simp: group_of_def split: prod.splits)
  show "1 \<le> g" using k(2) by simp
  show "g \<le> length es" using k scan_group_ge[OF k(1)] assms(2) by (simp add: Suc_le_eq)
  show "ofs + len \<le> length (t_str v)" using scan_group_ge[OF k(1)] assms(3) by linarith
  show "0 < len" if "ofs < length (t_str v)" using scan_group_ge[OF k(1)] that by simp
qed

definition radix_size :: "nat \<Rightarrow> trie_entry list \<Rightarrow> nat" where
  "radix_size ofs es = sum_list (map (\<lambda>v. Suc (length (t_str v) - ofs)) es)"

lemma radix_size_simps [simp]:
  "radix_size ofs [] = 0"
  "radix_size ofs (v # es) = Suc (length (t_str v) - ofs) + radix_size ofs es"
  by (simp_all add: radix_size_def)

lemma radix_size_append: "radix_size ofs (xs @ ys) = radix_size ofs xs + radix_size ofs ys"
  by (simp add: radix_size_def)

lemma radix_size_take_drop: "radix_size ofs es = radix_size ofs (take n es) + radix_size ofs (drop n es)"
  using radix_size_append[of ofs "take n es" "drop n es"] by simp

lemma radix_size_mono: "ofs \<le> ofs' \<Longrightarrow> radix_size ofs' es \<le> radix_size ofs es"
proof (induction es)
  case (Cons v es)
  then show ?case using diff_le_mono2[of ofs ofs' "length (t_str v)"] by simp
qed simp

lemma do_radix_rest_size:
  "1 \<le> g \<Longrightarrow> radix_size ofs (drop g (v # rest)) < radix_size ofs (v # rest)"
  using radix_size_take_drop[of ofs "v # rest" g] by (cases g) auto

lemma do_radix_group_size:
  assumes "group_of v (v # rest) ofs = (len, g)" "\<not> length (t_str v) < ofs"
  shows "ofs + len \<noteq> length (t_str v) \<Longrightarrow> radix_size (ofs + len) (take g (v # rest)) < radix_size ofs (v # rest)"
    and "radix_size (ofs + len) (tl (take g (v # rest))) < radix_size ofs (v # rest)"
proof -
  have b: "1 \<le> g" "ofs + len \<le> length (t_str v)" "ofs < length (t_str v) \<Longrightarrow> 0 < len"
    using group_of_bounds[OF assms(1)] assms(2) by auto
  then obtain g' where g: "take g (v # rest) = v # take g' rest" by (cases g) auto
  have rest: "radix_size (ofs + len) (take g' rest) \<le> radix_size ofs rest"
    using radix_size_mono[of ofs "ofs + len" "take g' rest"] radix_size_take_drop[of ofs rest g'] by simp
  then show "radix_size (ofs + len) (tl (take g (v # rest))) < radix_size ofs (v # rest)" by (simp add: g)
  show "radix_size (ofs + len) (take g (v # rest)) < radix_size ofs (v # rest)" if "ofs + len \<noteq> length (t_str v)"
    using rest b that by (auto simp: g)
qed

function do_radix :: "(nat \<Rightarrow> bool) \<Rightarrow> trie_entry list \<Rightarrow> nat \<Rightarrow> nat \<Rightarrow> (trie_edge list \<times> nat \<times> bool) res" where
  "do_radix al [] ofs n = Inr ([], n, True)"
| "do_radix al (v # rest) ofs n =
    (if length (t_str v) < ofs then Inl Out_of_bounds
     else case group_of v (v # rest) ofs of (len, g) \<Rightarrow>
       if \<not> al n then Inr ([], n + 1, False)
       else rassert (ofs + len \<le> length (t_str v))
         (let cmp = take len (drop ofs (t_str v)); terminal = (ofs + len = length (t_str v)) in
          if terminal \<and> g = 1
          then rbind (do_radix al (drop g (v # rest)) ofs (n + 1))
                 (\<lambda>(es, n', ok). Inr (Edge cmp (Some v) [] # es, n', ok))
          else rbind (do_radix al (if terminal then tl (take g (v # rest)) else take g (v # rest)) (ofs + len) (n + 1))
                 (\<lambda>(cs, n', _). rbind (do_radix al (drop g (v # rest)) ofs n')
                   (\<lambda>(es, n'', ok). Inr (Edge cmp (if terminal then Some v else None) cs # es, n'', ok)))))"
  by pat_completeness auto

termination
proof (relation "measure (\<lambda>(al, es, ofs, n). radix_size ofs es)", goal_cases)
  case (2 al v rest ofs n len g)
  then have "1 \<le> g" using group_of_bounds(1)[of v "v # rest" ofs len g] by simp
  then show ?case using do_radix_rest_size by simp
next
  case (3 al v rest ofs n len g)
  then show ?case using do_radix_group_size[of v rest ofs len g] by (auto simp del: radix_size_simps)
next
  case (4 al v rest ofs n len g)
  then have "1 \<le> g" using group_of_bounds(1)[of v "v # rest" ofs len g] by simp
  then show ?case using do_radix_rest_size by simp
qed simp

declare do_radix.simps [simp del]

text \<open>\<open>construct_radix\<close>: no entries at all is the null pointer; the root edge matches nothing.\<close>

definition construct_radix :: "(nat \<Rightarrow> bool) \<Rightarrow> trie_entry list option \<Rightarrow> (bool \<times> trie_edge option \<times> nat) res" where
  "construct_radix al ent =
    (case ent of None \<Rightarrow> Inr (True, None, 0)
     | Some es \<Rightarrow>
       if \<not> al 0 then Inr (False, None, 1)
       else rassert (es \<noteq> []) (rbind (do_radix al es 0 1)
         (\<lambda>(cs, n, ok). Inr (ok, Some (Edge [] None cs), n))))"

section \<open>What a trie represents\<close>

text \<open>The entry a list of sibling edges leads to for a string.\<close>

lemma find_edge_smaller [termination_simp]:
  "find P es = Some e \<Longrightarrow> size_list size (e_edges e) < size_list size (es :: trie_edge list)"
proof (induction es)
  case (Cons a es)
  then show ?case by (cases a) (auto split: if_splits)
qed simp

function trie_find :: "trie_edge list \<Rightarrow> bytes \<Rightarrow> trie_entry option" where
  "trie_find es s =
    (case find (\<lambda>e. prefix (e_cmp e) s) es of
       None \<Rightarrow> None
     | Some e \<Rightarrow> let s' = drop (length (e_cmp e)) s in
         if s' = [] then e_terminal e else trie_find (e_edges e) s')"
  by pat_completeness auto
termination
  by (relation "measure (\<lambda>(es, s). size_list size es)") (auto intro: find_edge_smaller)

declare trie_find.simps [simp del]

text \<open>
  A well-formed list of siblings: labels of one to eight bytes without NUL, with strictly
  increasing first bytes.
\<close>

fun edge_ok :: "trie_edge \<Rightarrow> bool" where
  "edge_ok (Edge cmp t cs) \<longleftrightarrow> cmp \<noteq> [] \<and> length cmp \<le> RE_EDGE_MAX \<and> 0 \<notin> set cmp \<and>
     list_all edge_ok cs \<and> sorted_wrt (<) (map (hd \<circ> e_cmp) cs)"

definition edges_ok :: "trie_edge list \<Rightarrow> bool" where
  "edges_ok cs \<longleftrightarrow> list_all edge_ok cs \<and> sorted_wrt (<) (map (hd \<circ> e_cmp) cs)"

lemma edge_ok_iff:
  "edge_ok e \<longleftrightarrow> e_cmp e \<noteq> [] \<and> length (e_cmp e) \<le> RE_EDGE_MAX \<and> 0 \<notin> set (e_cmp e) \<and> edges_ok (e_edges e)"
  by (cases e) (auto simp: edges_ok_def)

fun edge_count :: "trie_edge \<Rightarrow> nat" where
  "edge_count (Edge cmp t cs) = Suc (sum_list (map edge_count cs))"

section \<open>Groups of sorted entries\<close>

definition sfx :: "nat \<Rightarrow> trie_entry \<Rightarrow> bytes" where
  "sfx ofs v = drop ofs (t_str v)"

text \<open>What the builder relies on: strings strictly sorted, longer than the common offset.\<close>

definition sorted_entries :: "nat \<Rightarrow> trie_entry list \<Rightarrow> bool" where
  "sorted_entries ofs es \<longleftrightarrow> sorted_wrt ord_class.lexordp (map (sfx ofs) es) \<and>
     (\<forall>v \<in> set es. ofs < length (t_str v) \<and> length (t_str v) < ofs + 256 \<and> 0 \<notin> set (t_str v))"

lemma match_len_take: "k \<le> match_len a b \<Longrightarrow> k \<le> length b \<and> take k a = take k b"
proof (induction a b arbitrary: k rule: match_len.induct)
  case (1 a as b bs)
  then show ?case by (cases k) (auto split: if_splits)
qed auto

lemma match_len_self [simp]: "match_len a a = length a"
  by (induction a) auto

lemma match_len_0: "a \<noteq> [] \<Longrightarrow> b \<noteq> [] \<Longrightarrow> match_len a b = 0 \<longleftrightarrow> hd a \<noteq> hd b"
  by (cases a; cases b) auto

lemma common_prefix_take:
  "k \<le> common_prefix a b ofs \<Longrightarrow> k \<le> length (drop ofs b) \<and> take k (drop ofs a) = take k (drop ofs b) \<and> k \<le> RE_EDGE_MAX"
  using match_len_take[of k "drop ofs a" "drop ofs b"]
  by (auto simp: common_prefix_def Let_def split: if_splits)

lemma common_prefix_0:
  "ofs < length a \<Longrightarrow> ofs < length b \<Longrightarrow> common_prefix a b ofs = 0 \<longleftrightarrow> hd (drop ofs a) \<noteq> hd (drop ofs b)"
  using match_len_0[of "drop ofs a" "drop ofs b"] by (auto simp: common_prefix_def Let_def RE_EDGE_MAX_def)

lemma scan_group_spec:
  "scan_group (t_str v) ofs es len k = (len', k') \<Longrightarrow> len < 256 \<Longrightarrow> ofs < length (t_str v) \<Longrightarrow>
   \<forall>u \<in> set es. ofs < length (t_str u) \<Longrightarrow>
   k' = k + length (takeWhile (\<lambda>u. hd (sfx ofs u) = hd (sfx ofs v)) es) \<and>
   (\<forall>u \<in> set (takeWhile (\<lambda>u. hd (sfx ofs u) = hd (sfx ofs v)) es). len' \<le> common_prefix (t_str v) (t_str u) ofs)"
proof (induction es arbitrary: len k)
  case (Cons u es)
  let ?x = "common_prefix (t_str v) (t_str u) ofs"
  show ?case
  proof (cases "?x = 0")
    case True
    then have "hd (sfx ofs u) \<noteq> hd (sfx ofs v)" using Cons.prems(3,4) common_prefix_0[of ofs "t_str v" "t_str u"]
      by (auto simp: sfx_def)
    then show ?thesis using Cons.prems(1,2) True by (simp add: Let_def)
  next
    case False
    then have h: "hd (sfx ofs u) = hd (sfx ofs v)" using Cons.prems(3,4) common_prefix_0[of ofs "t_str v" "t_str u"]
      by (auto simp: sfx_def)
    let ?l = "if ?x < len then ?x else len"
    have rest: "scan_group (t_str v) ofs es ?l (k + 1) = (len', k')" using Cons.prems(1,2) False by (simp add: Let_def)
    have "len' \<le> ?x" using scan_group_ge[OF rest] by (auto split: if_splits)
    then show ?thesis using Cons.IH[OF rest] Cons.prems(2-4) h by auto
  qed
qed simp

lemma sorted_entries_subset:
  "sorted_entries ofs (xs @ ys) \<Longrightarrow> sorted_entries ofs xs \<and> sorted_entries ofs ys"
  by (auto simp: sorted_entries_def sorted_wrt_append)

lemma lexordp_hd: "ord_class.lexordp a b \<Longrightarrow> a \<noteq> [] \<Longrightarrow> hd a \<le> (hd b :: byte)"
  by (cases a; cases b) auto

lemma lexordp_drop_same: "take k a = take k b \<Longrightarrow> k \<le> length a \<Longrightarrow> k \<le> length b \<Longrightarrow> ord_class.lexordp (drop k a) (drop k b) \<longleftrightarrow> ord_class.lexordp a (b :: bytes)"
proof (induction k arbitrary: a b)
  case (Suc k)
  then show ?case by (cases a; cases b) auto
qed simp

lemma lexordp_not_prefix: "ord_class.lexordp a b \<Longrightarrow> \<not> prefix b (a :: bytes)"
proof (induction a arbitrary: b)
  case (Cons x a)
  then show ?case by (cases b) auto
qed simp

text \<open>The entries a group takes from the front of a sorted list.\<close>

lemma group_of_spec:
  assumes g: "group_of v (v # rest) ofs = (len, g)" and s: "sorted_entries ofs (v # rest)"
  shows "take g (v # rest) = takeWhile (\<lambda>u. hd (sfx ofs u) = hd (sfx ofs v)) (v # rest)"
    and "drop g (v # rest) = dropWhile (\<lambda>u. hd (sfx ofs u) = hd (sfx ofs v)) (v # rest)"
    and "0 < len" "len \<le> RE_EDGE_MAX"
    and "u \<in> set (take g (v # rest)) \<Longrightarrow> len \<le> length (sfx ofs u) \<and> take len (sfx ofs u) = take len (sfx ofs v)"
proof -
  let ?P = "\<lambda>u. hd (sfx ofs u) = hd (sfx ofs v)" let ?es = "v # rest"
  have v: "ofs < length (t_str v)" "length (t_str v) - ofs < 256" and all: "\<forall>u \<in> set ?es. ofs < length (t_str u)"
    using s by (auto simp: sorted_entries_def)
  obtain k where k: "scan_group (t_str v) ofs ?es (length (t_str v) - ofs) 0 = (len, k)" "g = max k 1"
    using g by (auto simp: group_of_def split: prod.splits)
  note sc = scan_group_spec[OF k(1) v(2,1) all]
  have g: "g = length (takeWhile ?P ?es)" using sc k(2) by simp
  show tk: "take g ?es = takeWhile ?P ?es" unfolding g by (metis takeWhile_eq_take)
  show "drop g ?es = dropWhile ?P ?es" unfolding g by (metis dropWhile_eq_drop)
  show "0 < len" using scan_group_ge[OF k(1)] v(1) by simp
  have cp: "len \<le> common_prefix (t_str v) (t_str u) ofs" if "u \<in> set (take g ?es)" for u
    using sc that unfolding tk by blast
  have "v \<in> set (take g ?es)" unfolding tk by simp
  then show "len \<le> RE_EDGE_MAX" using cp common_prefix_take by blast
  show "len \<le> length (sfx ofs u) \<and> take len (sfx ofs u) = take len (sfx ofs v)" if "u \<in> set (take g ?es)"
    using common_prefix_take[OF cp[OF that]] by (auto simp: sfx_def)
qed

text \<open>Behind the group every first byte is larger.\<close>

lemma after_group_greater:
  assumes "sorted_entries ofs (v # rest)" "u \<in> set (dropWhile (\<lambda>u. hd (sfx ofs u) = hd (sfx ofs v)) (v # rest))"
  shows "hd (sfx ofs v) < hd (sfx ofs u)"
proof -
  let ?P = "\<lambda>u. hd (sfx ofs u) = hd (sfx ofs v)" let ?es = "v # rest"
  obtain x xs where d: "dropWhile ?P ?es = x # xs" using assms(2) by (metis (no_types, lifting) list.set_cases)
  then have x: "\<not> ?P x" using hd_dropWhile[of ?P ?es] by simp
  have es: "v # rest = takeWhile ?P ?es @ x # xs" using d takeWhile_dropWhile_id[of ?P ?es] by simp
  have ne: "sfx ofs w \<noteq> []" if "w \<in> set ?es" for w using assms(1) that by (auto simp: sorted_entries_def sfx_def)
  have sx: "sorted_wrt ord_class.lexordp (map (sfx ofs) (takeWhile ?P ?es @ x # xs))"
    using assms(1) es unfolding sorted_entries_def by metis
  have "v \<in> set (takeWhile ?P ?es)" by simp
  then have "ord_class.lexordp (sfx ofs v) (sfx ofs x)" using sx by (auto simp: sorted_wrt_append)
  then have vx: "hd (sfx ofs v) < hd (sfx ofs x)" using lexordp_hd[of "sfx ofs v" "sfx ofs x"] x ne[of v] by force
  have "x \<in> set ?es" using es by (metis in_set_conv_decomp)
  moreover have "u = x \<or> ord_class.lexordp (sfx ofs x) (sfx ofs u)" using sx assms(2) unfolding d by (auto simp: sorted_wrt_append)
  ultimately have "hd (sfx ofs x) \<le> hd (sfx ofs u)" using lexordp_hd[of "sfx ofs x" "sfx ofs u"] ne by auto
  then show ?thesis using vx by simp
qed

text \<open>The entries the recursive call gets are sorted and longer than the new offset.\<close>

lemma sfx_add: "sfx (ofs + len) u = drop len (sfx ofs u)"
  by (simp add: sfx_def add.commute)

lemma group_entries_sorted:
  assumes g: "group_of v (v # rest) ofs = (len, g)" and s: "sorted_entries ofs (v # rest)"
  defines "grp \<equiv> take g (v # rest)"
  shows "sorted_entries (ofs + len) (if ofs + len = length (t_str v) then tl grp else grp)"
proof -
  note sp = group_of_spec[OF g s, folded grp_def]
  have "1 \<le> g" "ofs \<le> length (t_str v)" using group_of_bounds[OF g] s by (auto simp: sorted_entries_def)
  then obtain gs where gv: "grp = v # gs" by (cases g) (auto simp: grp_def)
  have so: "sorted_entries ofs grp" using s sorted_entries_subset[of ofs grp "drop g (v # rest)"] by (simp add: grp_def)
  then have so': "sorted_wrt (\<lambda>x y. ord_class.lexordp (sfx ofs x) (sfx ofs y)) grp"
    by (simp add: sorted_entries_def sorted_wrt_map)
  have "sorted_wrt (\<lambda>x y. ord_class.lexordp (sfx (ofs + len) x) (sfx (ofs + len) y)) grp"
    using so' by (rule sorted_wrt_mono_rel[rotated])
      (use sp(5) in \<open>auto simp: sfx_add lexordp_drop_same\<close>)
  then have sorted: "sorted_wrt ord_class.lexordp (map (sfx (ofs + len)) grp)" by (simp add: sorted_wrt_map)
  have later: "ord_class.lexordp (sfx ofs v) (sfx ofs u)" if "u \<in> set gs" for u using so' that gv by simp
  have longer: "ofs + len < length (t_str u)" if u: "u \<in> set (if ofs + len = length (t_str v) then gs else grp)" for u
  proof -
    have ug: "u \<in> set grp" using u gv by (auto split: if_splits)
    have l: "len \<le> length (sfx ofs u)" "take len (sfx ofs u) = take len (sfx ofs v)" "ofs < length (t_str u)"
      using sp(5)[OF ug] so ug by (auto simp: sorted_entries_def)
    have "length (sfx ofs u) \<noteq> len"
    proof
      assume eq: "length (sfx ofs u) = len"
      then have pu: "sfx ofs u = take len (sfx ofs v)" using l(2) by simp
      show False
      proof (cases "u \<in> set gs")
        case True
        then show False using lexordp_not_prefix[OF later[OF True]] pu take_is_prefix[of len "sfx ofs v"] by simp
      next
        case False
        then have "u = v" "ofs + len \<noteq> length (t_str v)" using u gv by (auto split: if_splits)
        then show False using eq l(3) by (simp add: sfx_def)
      qed
    qed
    then show ?thesis using l(1,3) by (simp add: sfx_def)
  qed
  have "\<forall>u \<in> set grp. length (t_str u) < ofs + len + 256 \<and> 0 \<notin> set (t_str u)"
    using so by (fastforce simp: sorted_entries_def)
  then show ?thesis using sorted longer gv by (auto simp: sorted_entries_def split: if_splits)
qed

section \<open>Correctness of the construction\<close>

definition entry_map :: "nat \<Rightarrow> trie_entry list \<Rightarrow> bytes \<rightharpoonup> trie_entry" where
  "entry_map ofs es = map_of (map (\<lambda>u. (sfx ofs u, u)) es)"

lemma entry_map_append: "entry_map ofs (xs @ ys) s = (case entry_map ofs xs s of None \<Rightarrow> entry_map ofs ys s | Some v \<Rightarrow> Some v)"
  unfolding entry_map_def by (simp add: map_add_def)

lemma entry_map_None: "entry_map ofs es s = None \<longleftrightarrow> (\<forall>u \<in> set es. sfx ofs u \<noteq> s)"
  unfolding entry_map_def map_of_eq_None_iff by (auto simp: image_image)

lemma entry_map_shift:
  "(\<And>u. u \<in> set g \<Longrightarrow> take len (sfx ofs u) = c \<and> len \<le> length (sfx ofs u)) \<Longrightarrow>
    entry_map ofs g (c @ s) = entry_map (ofs + len) g s"
proof (induction g)
  case (Cons u g)
  have "sfx ofs u = c @ sfx (ofs + len) u" using Cons.prems[of u] by (metis append_take_drop_id list.set_intros(1) sfx_add)
  then show ?case using Cons by (auto simp: entry_map_def)
qed (simp add: entry_map_def)

lemma edge_group_find:
  assumes g: "group_of v (v # rest) ofs = (len, g)" and s: "sorted_entries ofs (v # rest)"
  defines "grp \<equiv> take g (v # rest)" and "t \<equiv> (if ofs + len = length (t_str v) then Some v else None)"
    and "c \<equiv> take len (sfx ofs v)"
  assumes cs: "\<And>x. x \<noteq> [] \<Longrightarrow> trie_find cs x = entry_map (ofs + len) (if t = None then grp else tl grp) x"
    and es: "\<And>x. x \<noteq> [] \<Longrightarrow> trie_find es x = entry_map ofs (drop g (v # rest)) x"
    and x: "x \<noteq> []"
  shows "trie_find (Edge c t cs # es) x = entry_map ofs (v # rest) x"
proof -
  note sp = group_of_spec[OF g s, folded grp_def]
  have "1 \<le> g" "ofs < length (t_str v)" using group_of_bounds[OF g] s by (auto simp: sorted_entries_def)
  then obtain gs where gv: "grp = v # gs" by (cases g) (auto simp: grp_def)
  have split: "entry_map ofs (v # rest) x = (case entry_map ofs grp x of None \<Rightarrow> entry_map ofs (drop g (v # rest)) x | r \<Rightarrow> r)"
    using entry_map_append[of ofs grp "drop g (v # rest)" x] by (simp add: grp_def option.case_eq_if)
  have lc: "length c = len" "c \<noteq> []" using sp(5)[of v] gv sp(3) by (auto simp: c_def)
  show ?thesis
  proof (cases "prefix c x")
    case True
    then obtain y where y: "x = c @ y" by (auto elim: prefixE)
    have grp: "entry_map ofs grp x = entry_map (ofs + len) grp y"
      unfolding y by (rule entry_map_shift) (use sp(5) c_def in auto)
    have "hd x = hd (sfx ofs v)" using y lc(2) sp(3) by (simp add: c_def)
    then have "sfx ofs u \<noteq> x" if "u \<in> set (drop g (v # rest))" for u
      using after_group_greater[OF s, of u] that unfolding sp(2) by auto
    then have "entry_map ofs (drop g (v # rest)) x = None" by (simp add: entry_map_None)
    then have r: "entry_map ofs (v # rest) x = entry_map (ofs + len) grp y" using split grp by (simp split: option.splits)
    have l: "trie_find (Edge c t cs # es) x = (if y = [] then t else trie_find cs y)"
      using True y lc by (simp add: trie_find.simps[of "Edge c t cs # es"] Let_def)
    have vy: "sfx (ofs + len) v = [] \<longleftrightarrow> t \<noteq> None" using \<open>ofs < length (t_str v)\<close> sp(5)[of v] gv by (auto simp: t_def sfx_def)
    show ?thesis
    proof (cases "t = None")
      case True
      have "\<forall>u \<in> set grp. ofs + len < length (t_str u)"
        using group_entries_sorted[OF g s, folded grp_def] True by (auto simp: sorted_entries_def t_def split: if_splits)
      then have "entry_map (ofs + len) grp [] = None" by (auto simp: entry_map_None sfx_def)
      then show ?thesis using l r cs[of y] True by auto
    next
      case False
      then have "entry_map (ofs + len) grp y = (if y = [] then Some v else entry_map (ofs + len) gs y)"
        using vy gv by (auto simp: entry_map_def)
      moreover have "t = Some v" using False by (auto simp: t_def split: if_splits)
      ultimately show ?thesis using l r cs[of y] gv by auto
    qed
  next
    case False
    then have "\<forall>u \<in> set grp. sfx ofs u \<noteq> x" using sp(5) take_is_prefix c_def by metis
    then have "entry_map ofs grp x = None" by (simp add: entry_map_None)
    moreover have "trie_find (Edge c t cs # es) x = trie_find es x"
      using False by (simp add: trie_find.simps[of "_ # es"] trie_find.simps[of es])
    ultimately show ?thesis using split es[OF x] by simp
  qed
qed

lemma do_radix_correct:
  assumes "sorted_entries ofs es"
  shows "\<exists>r. do_radix (\<lambda>_. True) es ofs n = Inr (r, n + sum_list (map edge_count r), True) \<and> edges_ok r \<and>
    (\<forall>e \<in> set r. \<exists>u \<in> set es. hd (e_cmp e) = hd (sfx ofs u)) \<and>
    (\<forall>x. x \<noteq> [] \<longrightarrow> trie_find r x = entry_map ofs es x)"
  using assms
proof (induction "radix_size ofs es" arbitrary: ofs es n rule: less_induct)
  case less
  show ?case
  proof (cases es)
    case Nil
    then show ?thesis by (auto simp: do_radix.simps edges_ok_def trie_find.simps entry_map_def)
  next
    case (Cons v rest)
    note s = less.prems[unfolded Cons]
    obtain len g where g: "group_of v (v # rest) ofs = (len, g)" by (cases "group_of v (v # rest) ofs")
    let ?grp = "take g (v # rest)" let ?rest = "drop g (v # rest)" let ?c = "take len (sfx ofs v)"
    let ?t = "if ofs + len = length (t_str v) then Some v else None"
    let ?cs = "if ofs + len = length (t_str v) then tl ?grp else ?grp"
    have v: "\<not> length (t_str v) < ofs" "ofs + len \<le> length (t_str v)" "0 \<notin> set (t_str v)" "1 \<le> g"
      using s group_of_bounds[OF g] by (auto simp: sorted_entries_def)
    note sp = group_of_spec[OF g s]
    have "radix_size (ofs + len) ?cs < radix_size ofs es"
      using do_radix_group_size[OF g v(1)] Cons by (simp only: split: if_split) blast
    from less.hyps[OF this group_entries_sorted[OF g s], of "n + 1"]
    obtain cs where cs: "do_radix (\<lambda>_. True) ?cs (ofs + len) (n + 1) = Inr (cs, n + 1 + sum_list (map edge_count cs), True)"
      "edges_ok cs" "\<And>x. x \<noteq> [] \<Longrightarrow> trie_find cs x = entry_map (ofs + len) ?cs x" by blast
    have "sorted_entries ofs ?rest" using s sorted_entries_subset[of ofs ?grp ?rest] by simp
    from less.hyps[OF _ this, of "n + 1 + sum_list (map edge_count cs)"] do_radix_rest_size[OF v(4), of ofs v rest] Cons
    obtain r where r: "do_radix (\<lambda>_. True) ?rest ofs (n + 1 + sum_list (map edge_count cs)) =
        Inr (r, n + 1 + sum_list (map edge_count cs) + sum_list (map edge_count r), True)" "edges_ok r"
      "\<forall>e \<in> set r. \<exists>u \<in> set ?rest. hd (e_cmp e) = hd (sfx ofs u)"
      "\<And>x. x \<noteq> [] \<Longrightarrow> trie_find r x = entry_map ofs ?rest x" by metis
    have one: "cs = []" if "g = 1" "ofs + len = length (t_str v)" using cs(1) that by (simp add: do_radix.simps)
    have run: "do_radix (\<lambda>_. True) (v # rest) ofs n =
        Inr (Edge ?c ?t cs # r, n + sum_list (map edge_count (Edge ?c ?t cs # r)), True)"
      using v g cs(1) r(1) one by (auto simp: do_radix.simps(2) Let_def sfx_def)
    have "edge_ok (Edge ?c ?t cs)" using sp(3,4) v cs(2) sp(5)[of v] set_take_subset[of len "sfx ofs v"] set_drop_subset[of ofs "t_str v"]
      by (auto simp: edge_ok_iff sfx_def)
    moreover have "hd (sfx ofs v) < hd (e_cmp e)" if "e \<in> set r" for e
      using r(3) that after_group_greater[OF s] unfolding sp(2) by force
    ultimately have "edges_ok (Edge ?c ?t cs # r)" using r(2) sp(3) by (auto simp: edges_ok_def)
    moreover have "\<forall>e \<in> set (Edge ?c ?t cs # r). \<exists>u \<in> set es. hd (e_cmp e) = hd (sfx ofs u)"
      using r(3) sp(3) set_drop_subset[of g "v # rest"] Cons by auto
    moreover have "trie_find (Edge ?c ?t cs # r) x = entry_map ofs es x" if "x \<noteq> []" for x
      unfolding Cons by (rule edge_group_find[OF g s _ r(4) that]) (use cs(3) in \<open>auto split: if_splits\<close>)
    ultimately show ?thesis unfolding Cons run by blast
  qed
qed

text \<open>
  A first entry with 256 bytes or more behind the offset is not split: its edge carries
  the whole remainder.
\<close>

lemma do_radix_long_edge:
  assumes "256 \<le> length (t_str v) - ofs" "do_radix al (v # rest) ofs n = Inr (r, n', True)"
  shows "\<exists>e es. r = e # es \<and> e_cmp e = drop ofs (t_str v)"
proof -
  have g: "group_of v (v # rest) ofs = (length (t_str v) - ofs, 1)" using assms(1) by (simp add: group_of_def)
  show ?thesis using assms by (auto simp: do_radix.simps g rbind_Inr_iff Let_def split: if_splits)
qed

text \<open>The trie of sorted entries.\<close>

lemma construct_radix_correct:
  assumes "sorted_entries 0 es" "es \<noteq> []"
  shows "\<exists>cs. construct_radix (\<lambda>_. True) (Some es) = Inr (True, Some (Edge [] None cs), edge_count (Edge [] None cs)) \<and>
    edges_ok cs \<and> (\<forall>x. x \<noteq> [] \<longrightarrow> trie_find cs x = map_of (map (\<lambda>u. (t_str u, u)) es) x)"
  using do_radix_correct[OF assms(1), of 1] assms(2)
  by (auto simp: construct_radix_def entry_map_def sfx_def)

text \<open>
  An allocation that fails inside the recursion is not reported: the trie is returned as
  complete with entries missing.
\<close>

lemma construct_radix_drops_entries:
  "construct_radix (\<lambda>n. n \<noteq> 2) (Some [\<lparr>t_str = str ''/a'', t_oid = 0\<rparr>, \<lparr>t_str = str ''/b'', t_oid = 1\<rparr>]) =
    Inr (True, Some (Edge [] None [Edge (str ''/'') None []]), 3)"
  by (simp add: construct_radix_def do_radix.simps group_of_def common_prefix_def RE_EDGE_MAX_def Let_def)

end
