(* ===== verification/Os.thy ===== *)
theory Os
  imports Mem
begin

text \<open>
  The system call wrappers of \<^verbatim>\<open>os.c\<close>.  The kernel is a list of answers, one for each
  system call the code makes: a call that transfers some bytes, or one that fails with an
  error number.  A wrapper that has used up the answers is still waiting (\<open>Blocked\<close>).  The
  file behind a descriptor is its content and its offset.
\<close>

section \<open>The environment\<close>

datatype errno = EINTR | EAGAIN | EROFS | EINVAL | ErrOther

datatype sysret = Ret nat | Err errno

record ofile =
  f_data :: bytes
  f_pos :: nat

text \<open>\<open>SSIZE_MAX\<close>, the largest count of a transfer.\<close>

definition SSIZE_MAX :: nat where "SSIZE_MAX = 2 ^ 63 - 1"

definition xfer_len :: "nat \<Rightarrow> nat" where
  "xfer_len len = (if len < SSIZE_MAX then len else SSIZE_MAX)"

text \<open>
  What \<open>write(2)\<close> does to a file at its offset (a hole is filled with zeros, nothing
  happens when no byte is written), and what
  \<open>read(2)\<close> at an offset returns: at least one byte unless there is none left or none was
  asked for.
\<close>

definition put_at :: "bytes \<Rightarrow> nat \<Rightarrow> bytes \<Rightarrow> bytes" where
  "put_at d p bs =
    (if bs = [] then d else take p (d @ replicate (p - length d) 0) @ bs @ drop (p + length bs) d)"

definition sys_write :: "ofile \<Rightarrow> bytes \<Rightarrow> ofile" where
  "sys_write f bs = f\<lparr>f_data := put_at (f_data f) (f_pos f) bs, f_pos := f_pos f + length bs\<rparr>"

definition sys_pread :: "ofile \<Rightarrow> nat \<Rightarrow> nat \<Rightarrow> nat \<Rightarrow> bytes" where
  "sys_pread f off len n = take (min (max 1 n) len) (drop off (f_data f))"

text \<open>A call without data: \<open>fsync\<close> or \<open>close\<close>, with the error it fails with.\<close>

fun sys_call :: "sysret list \<Rightarrow> (errno option \<times> sysret list) res" where
  "sys_call [] = Inl Blocked"
| "sys_call (Ret n # s) = Inr (None, s)"
| "sys_call (Err e # s) = Inr (Some e, s)"

section \<open>The wrappers\<close>

fun fd_wait_single :: "sysret list \<Rightarrow> (bool \<times> sysret list) res" where
  "fd_wait_single [] = Inl Blocked"
| "fd_wait_single (Err e # s) = (if e = EINTR then fd_wait_single s else Inr (False, s))"
| "fd_wait_single (Ret n # s) = Inr (True, s)"

lemma fd_wait_single_shorter: "fd_wait_single s = Inr (b, s') \<Longrightarrow> length s' < length s"
  by (induction s rule: fd_wait_single.induct) (auto simp: less_Suc_eq split: if_splits)

text \<open>
  The error branch the three wrappers share: whether the call is to be made again, and the
  answers left.
\<close>

definition io_retry :: "errno \<Rightarrow> sysret list \<Rightarrow> (bool \<times> sysret list) res" where
  "io_retry e s = (if e = EINTR then Inr (True, s) else if e = EAGAIN then fd_wait_single s else Inr (False, s))"

lemma io_retry_shorter: "io_retry e s = Inr (b, s') \<Longrightarrow> length s' \<le> length s"
  using fd_wait_single_shorter[of s b s'] by (auto simp: io_retry_def split: if_splits)

function fd_write :: "sysret list \<Rightarrow> ofile \<Rightarrow> bytes \<Rightarrow> (bool \<times> sysret list \<times> ofile) res" where
  "fd_write [] f buf = Inl Blocked"
| "fd_write (Err e # s) f buf =
     rbind (io_retry e s) (\<lambda>(again, s'). if again then fd_write s' f buf else Inr (False, s', f))"
| "fd_write (Ret n # s) f buf =
     (let ret = min n (xfer_len (length buf)); f' = sys_write f (take ret buf)
      in if ret < length buf then fd_write s f' (drop ret buf) else Inr (True, s, f'))"
  by pat_completeness auto
termination
  by (relation "measure (\<lambda>(s, f, buf). length s)") (auto dest: io_retry_shorter)

text \<open>
  \<open>fd_read\<close> returns whether it succeeded, the bytes it stored, the end-of-file flag, the
  answers left and the file.  \<open>fd_pread\<close> takes the flag from its caller: it sets it at the
  end of the file and does not clear it.
\<close>

function fd_read :: "sysret list \<Rightarrow> ofile \<Rightarrow> nat \<Rightarrow> (bool \<times> bytes \<times> bool \<times> sysret list \<times> ofile) res" where
  "fd_read [] f len = Inl Blocked"
| "fd_read (Err e # s) f len =
     rbind (io_retry e s) (\<lambda>(again, s'). if again then fd_read s' f len else Inr (False, [], False, s', f))"
| "fd_read (Ret n # s) f len =
     (let got = sys_pread f (f_pos f) (xfer_len len) n;
          f' = f\<lparr>f_pos := f_pos f + length got\<rparr>
      in if got = [] then Inr (True, [], True, s, f')
         else if length got < len
         then rbind (fd_read s f' (len - length got))
                (\<lambda>(ok, more, eof, s', f''). Inr (ok, got @ more, eof, s', f''))
         else Inr (True, got, False, s, f'))"
  by pat_completeness auto
termination
  by (relation "measure (\<lambda>(s, f, len). length s)") (auto dest: io_retry_shorter)

function fd_pread :: "sysret list \<Rightarrow> ofile \<Rightarrow> nat \<Rightarrow> nat \<Rightarrow> bool \<Rightarrow> (bool \<times> bytes \<times> bool \<times> sysret list) res" where
  "fd_pread [] f off len eof = Inl Blocked"
| "fd_pread (Err e # s) f off len eof =
     rbind (io_retry e s) (\<lambda>(again, s'). if again then fd_pread s' f off len eof else Inr (False, [], eof, s'))"
| "fd_pread (Ret n # s) f off len eof =
     (let got = sys_pread f off (xfer_len len) n
      in if got = [] then Inr (True, [], True, s)
         else if length got < len
         then rbind (fd_pread s f (off + length got) (len - length got) eof)
                (\<lambda>(ok, more, eof', s'). Inr (ok, got @ more, eof', s'))
         else Inr (True, got, eof, s))"
  by pat_completeness auto
termination
  by (relation "measure (\<lambda>(s, f, off, len, eof). length s)") (auto dest: io_retry_shorter)

text \<open>\<open>fd_block\<close> and \<open>fd_coe\<close> on the flag words \<open>fcntl\<close> reads and stores.\<close>

definition O_NONBLOCK :: u32 where "O_NONBLOCK = 0x800"

definition FD_CLOEXEC :: u32 where "FD_CLOEXEC = 1"

definition fd_block :: "u32 option \<Rightarrow> bool \<Rightarrow> bool \<Rightarrow> bool \<times> u32 option" where
  "fd_block getfl set_ok b =
    (case getfl of None \<Rightarrow> (False, None)
     | Some fl \<Rightarrow> let fl' = (if b then fl AND NOT O_NONBLOCK else fl OR O_NONBLOCK)
                 in if set_ok then (True, Some fl') else (False, Some fl))"

definition fd_coe :: "u32 \<Rightarrow> bool \<Rightarrow> bool \<Rightarrow> bool \<times> u32" where
  "fd_coe fl set_ok coe = (if set_ok then (True, if coe then FD_CLOEXEC else 0) else (False, fl))"

section \<open>What the wrappers transfer\<close>

lemma put_at_Nil [simp]: "put_at d p [] = d"
  by (simp add: put_at_def)

lemma length_put_at: "bs \<noteq> [] \<Longrightarrow> length (put_at d p bs) = max (length d) (p + length bs)"
  by (auto simp: put_at_def)

lemma put_at_nth: "bs \<noteq> [] \<Longrightarrow> i < max (length d) (p + length bs) \<Longrightarrow> put_at d p bs ! i =
    (if i < p then if i < length d then d ! i else 0 else if i < p + length bs then bs ! (i - p) else d ! i)"
  by (auto simp: put_at_def nth_append min_def)

lemma put_at_put_at: "put_at (put_at d p xs) (p + length xs) ys = put_at d p (xs @ ys)"
proof (cases "xs = [] \<or> ys = []")
  case False
  then have ne: "xs \<noteq> []" "ys \<noteq> []" "xs @ ys \<noteq> []" by auto
  show ?thesis
  proof (rule nth_equalityI)
    show "length (put_at (put_at d p xs) (p + length xs) ys) = length (put_at d p (xs @ ys))"
      using ne by (auto simp: length_put_at)
    fix i assume "i < length (put_at (put_at d p xs) (p + length xs) ys)"
    then have i: "i < max (length (put_at d p xs)) (p + length xs + length ys)" using ne by (simp add: length_put_at)
    then have j: "i < max (length d) (p + length (xs @ ys))" using ne by (auto simp: length_put_at)
    show "put_at (put_at d p xs) (p + length xs) ys ! i = put_at d p (xs @ ys) ! i"
      unfolding put_at_nth[OF ne(2) i] put_at_nth[OF ne(3) j]
      using j ne by (auto simp: put_at_nth length_put_at nth_append)
  qed
qed auto

lemma put_at_append: "put_at d (length d) bs = d @ bs"
  by (simp add: put_at_def)

lemma sys_write_sys_write: "sys_write (sys_write f xs) ys = sys_write f (xs @ ys)"
  by (simp add: sys_write_def put_at_put_at add.assoc)

lemma sys_write_Nil [simp]: "sys_write f [] = f"
  by (simp add: sys_write_def)

text \<open>
  Whatever the kernel answers, \<open>fd_write\<close> has written a prefix of the data, all of it when
  it reports success.
\<close>

lemma fd_write_prefix:
  "fd_write s f buf = Inr (ok, s', f') \<Longrightarrow>
     \<exists>n. f' = sys_write f (take n buf) \<and> (ok \<longrightarrow> take n buf = buf)"
proof (induction s f buf rule: fd_write.induct)
  case (2 e s f buf)
  then show ?case by (fastforce simp: rbind_Inr_iff intro: exI[of _ 0] split: if_splits)
next
  case (3 n s f buf)
  let ?r = "min n (xfer_len (length buf))"
  show ?case
  proof (cases "?r < length buf")
    case True
    then obtain k where "f' = sys_write (sys_write f (take ?r buf)) (take k (drop ?r buf))"
      "ok \<longrightarrow> take k (drop ?r buf) = drop ?r buf"
      using 3 by (auto simp: Let_def)
    then show ?thesis
      by (intro exI[of _ "?r + k"]) (simp add: sys_write_sys_write take_add)
  next
    case False
    then have "take ?r buf = buf" unfolding not_less by (rule take_all)
    then show ?thesis using 3(2) False by (intro exI[of _ ?r]) (simp add: Let_def)
  qed
qed simp

text \<open>Its only other outcome is to wait for the kernel.\<close>

lemma fd_wait_single_fault: "fd_wait_single s = Inl e \<Longrightarrow> e = Blocked"
  by (induction s rule: fd_wait_single.induct) (auto split: if_splits)

lemma io_retry_fault: "io_retry x s = Inl e \<Longrightarrow> e = Blocked"
  using fd_wait_single_fault[of s e] by (auto simp: io_retry_def split: if_splits)

lemma sys_call_fault: "sys_call s = Inl e \<Longrightarrow> e = Blocked"
  by (cases s rule: sys_call.cases) auto

lemma rbind_Inl_iff: "rbind m f = Inl e \<longleftrightarrow> m = Inl e \<or> (\<exists>x. m = Inr x \<and> f x = Inl e)"
  by (cases m) auto

lemma fd_write_fault: "fd_write s f buf = Inl e \<Longrightarrow> e = Blocked"
  by (induction s f buf rule: fd_write.induct)
    (auto simp: rbind_Inl_iff Let_def dest: io_retry_fault split: if_splits)

text \<open>
  A kernel that transfers something at every call.  \<open>fd_write\<close> then returns, and uses at
  most one answer for each byte.
\<close>

definition generous :: "sysret list \<Rightarrow> bool" where
  "generous s \<longleftrightarrow> list_all (\<lambda>r. case r of Ret n \<Rightarrow> 0 < n | Err e \<Rightarrow> False) s"

lemma generous_drop: "generous s \<Longrightarrow> generous (drop n s)"
  unfolding generous_def list_all_iff using set_drop_subset[of n s] by blast

lemma fd_write_returns:
  "generous s \<Longrightarrow> buf \<noteq> [] \<Longrightarrow> length buf \<le> length s \<Longrightarrow>
     \<exists>k \<le> length buf. fd_write s f buf = Inr (True, drop k s, sys_write f buf)"
proof (induction s f buf rule: fd_write.induct)
  case (3 n s f buf)
  let ?r = "min n (xfer_len (length buf))"
  have r: "0 < ?r" using 3(2,3) by (auto simp: generous_def xfer_len_def SSIZE_MAX_def)
  show ?case
  proof (cases "?r < length buf")
    case True
    have g: "generous s" using 3(2) by (simp add: generous_def)
    have "length (drop ?r buf) \<le> length s" "drop ?r buf \<noteq> []" using 3(4) r True by auto
    from 3(1)[OF refl refl True g this(2,1)] obtain k where "k \<le> length (drop ?r buf)"
      "fd_write s (sys_write f (take ?r buf)) (drop ?r buf) =
        Inr (True, drop k s, sys_write (sys_write f (take ?r buf)) (drop ?r buf))" by blast
    then show ?thesis using True r
      by (intro exI[of _ "Suc k"]) (auto simp: Let_def sys_write_sys_write)
  next
    case False
    then have "take ?r buf = buf" unfolding not_less by (rule take_all)
    then show ?thesis using False 3(3) by (intro exI[of _ 1]) (auto simp: Let_def Suc_le_eq)
  qed
qed (auto simp: generous_def)

text \<open>
  A successful \<open>fd_read\<close> returns the next bytes of the file, and reports the end of the file
  exactly when there were fewer than asked for (or none was asked for).
\<close>

lemma sys_pread_take: "\<exists>k. sys_pread f off (xfer_len len) n = take k (drop off (f_data f)) \<and> k \<le> len"
  by (rule exI[of _ "min (max 1 n) (xfer_len len)"]) (auto simp: sys_pread_def xfer_len_def)

lemma sys_pread_Nil: "sys_pread f off (xfer_len len) n = [] \<longleftrightarrow> len = 0 \<or> length (f_data f) \<le> off"
  by (auto simp: sys_pread_def xfer_len_def SSIZE_MAX_def)

lemma fd_read_spec:
  "fd_read s f len = Inr (True, got, eof, s', f') \<Longrightarrow>
     got = take len (drop (f_pos f) (f_data f)) \<and> (eof \<longleftrightarrow> len = 0 \<or> length got < len) \<and>
     f' = f\<lparr>f_pos := f_pos f + length got\<rparr>"
proof (induction s f len arbitrary: got rule: fd_read.induct)
  case (2 e s f len)
  then show ?case by (auto simp: rbind_Inr_iff split: if_splits)
next
  case (3 n s f len)
  let ?g = "sys_pread f (f_pos f) (xfer_len len) n"
  let ?f = "f\<lparr>f_pos := f_pos f + length ?g\<rparr>"
  obtain k where k: "?g = take k (drop (f_pos f) (f_data f))" "k \<le> len" using sys_pread_take by blast
  consider "?g = []" | "?g \<noteq> []" "length ?g < len" | "?g \<noteq> []" "\<not> length ?g < len" by blast
  then show ?case
  proof cases
    case 1
    then show ?thesis using 3(2) by (auto simp: Let_def sys_pread_Nil)
  next
    case 2
    then obtain more where m: "fd_read s ?f (len - length ?g) = Inr (True, more, eof, s', f')" "got = ?g @ more"
      using 3(2) by (auto simp: Let_def rbind_Inr_iff)
    define g where "g = length ?g"
    have ih: "more = take (len - g) (drop (f_pos f + g) (f_data f))"
      "eof \<longleftrightarrow> len - g = 0 \<or> length more < len - g" "f' = f\<lparr>f_pos := f_pos f + g + length more\<rparr>"
      using 3(1)[OF refl refl 2 m(1)] unfolding g_def by simp_all
    have g: "?g = take g (drop (f_pos f) (f_data f))" unfolding g_def k(1) by (auto simp: min_def)
    have "g < len" using 2(2) by (simp add: g_def)
    moreover have "got = take g (drop (f_pos f) (f_data f)) @ more" using m(2) g by (rule trans[OF _ arg_cong[of _ _ "\<lambda>x. x @ more"]])
    moreover have "take len xs = take g xs @ take (len - g) (drop g xs)" for xs :: bytes
      using take_add[of g "len - g" xs] \<open>g < len\<close> by simp
    moreover have "length got = g + length more" using m(2) by (simp add: g_def)
    ultimately show ?thesis using ih by (auto simp: add.commute add.assoc)
  next
    case 3
    then have r: "got = ?g" "\<not> eof" "f' = ?f" using "3.prems" by (auto simp: Let_def)
    have "length ?g = len" using 3 k by (simp only: length_take min_def) auto
    then have "?g = take len (drop (f_pos f) (f_data f))" using k by (auto simp: min_def)
    then show ?thesis using r 3(1) \<open>length ?g = len\<close> by auto
  qed
qed simp

lemma fd_read_returns:
  "generous s \<Longrightarrow> len < length s \<Longrightarrow> \<exists>got eof s' f'. fd_read s f len = Inr (True, got, eof, s', f')"
proof (induction s f len rule: fd_read.induct)
  case (3 n s f len)
  let ?g = "sys_pread f (f_pos f) (xfer_len len) n"
  show ?case
  proof (cases "?g = [] \<or> \<not> length ?g < len")
    case False
    then have c: "?g \<noteq> []" "length ?g < len" by auto
    then have "0 < length ?g" by blast
    then have "len - length ?g < length s" using 3(3) c(2) unfolding length_Cons by linarith
    moreover have "generous s" using 3(2) by (simp add: generous_def)
    ultimately show ?thesis using 3(1)[OF refl refl c] c by (fastforce simp: Let_def)
  qed (auto simp: Let_def)
qed (auto simp: generous_def)

section \<open>Properties\<close>

text \<open>
  C36.  \<open>fd_write\<close> hides short writes, interruptions and non-blocking descriptors: whatever
  the kernel answers, what it wrote is a prefix of the data at the offset of the file, all
  of it if it reports success, and it does return with success when every call transfers
  something and there are as many answers as bytes.
\<close>

theorem fd_write_delivers:
  "(fd_write s f buf = Inr (ok, s', f') \<longrightarrow> (\<exists>n. f' = sys_write f (take n buf) \<and> (ok \<longrightarrow> take n buf = buf))) \<and>
   (generous s \<and> buf \<noteq> [] \<and> length buf \<le> length s \<longrightarrow> (\<exists>k. fd_write s f buf = Inr (True, drop k s, sys_write f buf)))"
  using fd_write_prefix[of s f buf ok s' f'] fd_write_returns[of s buf f] by blast

theorem fd_write_delivers_witness:
  "fd_write [Ret 2, Err EINTR, Err EAGAIN, Ret 0, Ret 5] \<lparr>f_data = [9, 9], f_pos = 1\<rparr> [1, 2, 3] =
     Inr (True, [], \<lparr>f_data = [9, 1, 2, 3], f_pos = 4\<rparr>) \<and>
   (\<exists>n. \<lparr>f_data = [9, 1, 2, 3], f_pos = 4\<rparr> = sys_write \<lparr>f_data = [9, 9], f_pos = 1\<rparr> (take n [1, 2, 3])) \<and>
   (\<exists>k. fd_write [Ret 1, Ret 2, Ret 1] \<lparr>f_data = [9, 9], f_pos = 1\<rparr> [1, 2, 3] =
     Inr (True, drop k [Ret 1, Ret 2, Ret 1], sys_write \<lparr>f_data = [9, 9], f_pos = 1\<rparr> [1, 2, 3]))"
proof -
  have run: "fd_write [Ret 2, Err EINTR, Err EAGAIN, Ret 0, Ret 5] \<lparr>f_data = [9, 9], f_pos = 1\<rparr> [1, 2, 3] =
     Inr (True, [], \<lparr>f_data = [9, 1, 2, 3], f_pos = 4\<rparr>)"
    by (simp add: Let_def xfer_len_def SSIZE_MAX_def sys_write_def put_at_def io_retry_def)
  have g: "generous [Ret 1, Ret 2, Ret 1] \<and> [1, 2, 3] \<noteq> ([] :: bytes) \<and> length ([1, 2, 3] :: bytes) \<le> length [Ret 1, Ret 2, Ret 1]"
    by (simp add: generous_def)
  show ?thesis
    using run fd_write_delivers[THEN conjunct1, rule_format, OF run] fd_write_delivers[THEN conjunct2, rule_format, OF g]
    by blast
qed

text \<open>
  \<open>fd_read\<close> returns exactly the bytes that follow the offset, as many as asked for
  unless the file ends before, sets the end-of-file flag exactly when it returned fewer (or
  none was asked for), moves the offset behind them, and returns when every call transfers
  something.
\<close>

lemma fd_read_exact:
  "(fd_read s f len = Inr (True, got, eof, s', f') \<longrightarrow>
     got = take len (drop (f_pos f) (f_data f)) \<and> (eof \<longleftrightarrow> len = 0 \<or> length got < len) \<and>
     f' = f\<lparr>f_pos := f_pos f + length got\<rparr>) \<and>
   (generous s \<and> len < length s \<longrightarrow> (\<exists>got eof s' f'. fd_read s f len = Inr (True, got, eof, s', f')))"
  using fd_read_spec[of s f len got eof s' f'] fd_read_returns[of s len f] by blast

lemma fd_read_exact_witness:
  "fd_read [Ret 2, Err EINTR, Ret 7, Ret 1] \<lparr>f_data = [1, 2, 3, 4], f_pos = 1\<rparr> 5 =
     Inr (True, [2, 3, 4], True, [], \<lparr>f_data = [1, 2, 3, 4], f_pos = 4\<rparr>) \<and>
   [2, 3, 4] = take 5 (drop 1 ([1, 2, 3, 4] :: bytes)) \<and>
   (\<exists>got eof s' f'. fd_read [Ret 1, Ret 2] \<lparr>f_data = [1, 2], f_pos = 0\<rparr> 1 = Inr (True, got, eof, s', f'))"
proof -
  have run: "fd_read [Ret 2, Err EINTR, Ret 7, Ret 1] \<lparr>f_data = [1, 2, 3, 4], f_pos = 1\<rparr> 5 =
     Inr (True, [2, 3, 4], True, [], \<lparr>f_data = [1, 2, 3, 4], f_pos = 4\<rparr>)"
    by (simp add: Let_def xfer_len_def SSIZE_MAX_def sys_pread_def io_retry_def)
  have g: "generous [Ret 1, Ret 2] \<and> 1 < length [Ret 1, Ret 2]" by (simp add: generous_def)
  have "[2, 3, 4] = take 5 (drop 1 ([1, 2, 3, 4] :: bytes))"
    using fd_read_exact[THEN conjunct1, rule_format, OF run] by (simp only: ofile.simps)
  then show ?thesis using run fd_read_exact[THEN conjunct2, rule_format, OF g] by blast
qed

end
