(* ===== verification/Fobuf.thy ===== *)
theory Fobuf
  imports Os
begin

text \<open>
  The output buffer of \<^verbatim>\<open>fobuf.c\<close>, through which the web root builder writes its file.  The
  state of a buffer and of the file behind it is passed along with the answers of the
  kernel.  \<open>byte_sink\<close> is the interface the writers of the builder rely on: a successful
  write appends its data to what the file will hold.
\<close>

section \<open>Buffer and operations\<close>

record fobuf =
  fb_fd :: int
  fb_buf :: bytes      \<comment> \<open>\<open>buf\<close>, an array of \<open>buf_sz\<close> bytes\<close>
  fb_ptr :: nat        \<comment> \<open>\<open>ptr - buf\<close>\<close>
  fb_len :: nat        \<comment> \<open>\<open>buf_len\<close>, the bytes that are free\<close>
  fb_sz :: nat

type_synonym sink = "sysret list \<times> ofile \<times> fobuf"

definition flush_buf :: "sink \<Rightarrow> (bool \<times> sink) res" where
  "flush_buf = (\<lambda>(s, f, b).
     let len = fb_sz b - fb_len b in
     if len = 0 then Inr (True, s, f, b)
     else if length (fb_buf b) < len then Inl Out_of_bounds
     else rbind (fd_write s f (take len (fb_buf b))) (\<lambda>(ok, s', f').
       if \<not> ok then Inr (False, s', f', b)
       else Inr (True, s', f', b\<lparr>fb_ptr := 0, fb_len := fb_sz b\<rparr>)))"

definition fobuf_flush :: "sink \<Rightarrow> (bool \<times> sink) res" where
  "fobuf_flush = flush_buf"

text \<open>
  The content of the fresh buffer is arbitrary.  A failure of the second \<open>malloc\<close> returns
  null (and loses the first block).
\<close>

definition fobuf_new :: "bool \<Rightarrow> bool \<Rightarrow> int \<Rightarrow> nat \<Rightarrow> bytes \<Rightarrow> fobuf option" where
  "fobuf_new malloc1 malloc2 fd bufsz junk =
    (if \<not> malloc1 then None
     else let bufsz = (if bufsz = 0 then 4096 else bufsz) in
       if \<not> malloc2 then None
       else Some \<lparr>fb_fd = fd, fb_buf = take bufsz (junk @ replicate bufsz 0), fb_ptr = 0,
                  fb_len = bufsz, fb_sz = bufsz\<rparr>)"

text \<open>\<open>memcpy(b->ptr, buf, n); b->ptr += n; b->buf_len -= n\<close>\<close>

definition copy_in :: "fobuf \<Rightarrow> bytes \<Rightarrow> nat \<Rightarrow> fobuf res" where
  "copy_in b bs n =
    (if n \<le> length bs \<and> fb_ptr b + n \<le> length (fb_buf b)
     then Inr (b\<lparr>fb_buf := take (fb_ptr b) (fb_buf b) @ take n bs @ drop (fb_ptr b + n) (fb_buf b),
                 fb_ptr := fb_ptr b + n, fb_len := fb_len b - n\<rparr>)
     else Inl Out_of_bounds)"

definition fobuf_write_slow :: "sink \<Rightarrow> bytes \<Rightarrow> (bool \<times> sink) res" where
  "fobuf_write_slow = (\<lambda>(s, f, b) bs.
     let n = fb_len b; rest = drop n bs in
     rbind (copy_in b bs n) (\<lambda>b.
     rbind (flush_buf (s, f, b)) (\<lambda>(ok, s, f, b).
       if \<not> ok then Inr (False, s, f, b)
       else if fb_sz b \<le> length rest
       then rbind (fd_write s f rest) (\<lambda>(ok, s, f). Inr (ok, s, f, b))
       else rbind (copy_in b rest (length rest)) (\<lambda>b. Inr (True, s, f, b)))))"

definition fobuf_write :: "sink \<Rightarrow> bytes \<Rightarrow> (bool \<times> sink) res" where
  "fobuf_write = (\<lambda>(s, f, b) bs.
     if length bs < fb_len b then rbind (copy_in b bs (length bs)) (\<lambda>b. Inr (True, s, f, b))
     else fobuf_write_slow (s, f, b) bs)"

text \<open>Whether \<open>fsync\<close> failed for a reason other than that the file does not support it.\<close>

definition sync_failed :: "errno option \<Rightarrow> bool" where
  "sync_failed r = (case r of None \<Rightarrow> False | Some e \<Rightarrow> e \<noteq> EROFS \<and> e \<noteq> EINVAL)"

definition fobuf_close :: "sink \<Rightarrow> (bool \<times> sysret list \<times> ofile) res" where
  "fobuf_close = (\<lambda>(s, f, b).
     if fb_fd b = -1 then Inr (True, s, f)
     else rbind (flush_buf (s, f, b)) (\<lambda>(ok, s, f, b).
       rbind (sys_call s) (\<lambda>(sync, s).
       rbind (sys_call s) (\<lambda>(close, s).
         Inr (ok \<and> \<not> sync_failed sync \<and> close = None, s, f)))))"

definition fobuf_newfd :: "sink \<Rightarrow> int \<Rightarrow> (bool \<times> sink) res" where
  "fobuf_newfd = (\<lambda>(s, f, b) fd.
     if fb_fd b = -1 then Inr (True, s, f, b\<lparr>fb_fd := fd\<rparr>)
     else rbind (flush_buf (s, f, b)) (\<lambda>(ok, s, f, b).
       rbind (sys_call s) (\<lambda>(sync, s).
       rbind (sys_call s) (\<lambda>(close, s).
         Inr (ok \<and> \<not> sync_failed sync \<and> close \<noteq> None, s, f, b\<lparr>fb_fd := fd\<rparr>)))))"

section \<open>The interface of a sink of bytes\<close>

locale byte_sink =
  fixes put :: "'s \<Rightarrow> bytes \<Rightarrow> (bool \<times> 's) res"
    and view :: "'s \<Rightarrow> ofile"
    and good :: "'s \<Rightarrow> bool"
  assumes put_good: "good s \<Longrightarrow> put s bs = Inr (ok, s') \<Longrightarrow> good s'"
    and put_view: "good s \<Longrightarrow> put s bs = Inr (True, s') \<Longrightarrow> view s' = sys_write (view s) bs"
    and put_fault: "good s \<Longrightarrow> put s bs = Inl e \<Longrightarrow> e = Blocked"
begin

text \<open>A writer that stops at the first failure, as every loop of the builder does.\<close>

fun put_all :: "'s \<Rightarrow> bytes list \<Rightarrow> (bool \<times> 's) res" where
  "put_all s [] = Inr (True, s)"
| "put_all s (b # bs) = rbind (put s b) (\<lambda>(ok, s'). if ok then put_all s' bs else Inr (False, s'))"

lemma put_all_good: "good s \<Longrightarrow> put_all s bs = Inr (ok, s') \<Longrightarrow> good s'"
  by (induction bs arbitrary: s) (auto simp: rbind_Inr_iff dest: put_good split: if_splits)

lemma put_all_view: "good s \<Longrightarrow> put_all s bs = Inr (True, s') \<Longrightarrow> view s' = sys_write (view s) (concat bs)"
proof (induction bs arbitrary: s)
  case (Cons b bs)
  then obtain t where t: "put s b = Inr (True, t)" "put_all t bs = Inr (True, s')"
    by (auto simp: rbind_Inr_iff split: if_splits)
  then show ?case using Cons.IH[OF put_good[OF Cons.prems(1) t(1)]] put_view[OF Cons.prems(1) t(1)]
    by (simp add: sys_write_sys_write)
qed simp

lemma put_all_fault: "good s \<Longrightarrow> put_all s bs = Inl e \<Longrightarrow> e = Blocked"
  by (induction bs arbitrary: s)
    (auto simp: rbind_Inl_iff dest: put_good put_fault split: if_splits)

lemma put_all_append:
  "put_all s (xs @ ys) = rbind (put_all s xs) (\<lambda>(ok, s'). if ok then put_all s' ys else Inr (False, s'))"
proof (induction xs arbitrary: s)
  case (Cons x xs)
  then show ?case by (cases "put s x") auto
qed simp

end

section \<open>The buffer is such a sink\<close>

definition fobuf_ok :: "fobuf \<Rightarrow> bool" where
  "fobuf_ok b \<longleftrightarrow> length (fb_buf b) = fb_sz b \<and> fb_ptr b + fb_len b = fb_sz b \<and> 0 < fb_sz b"

text \<open>The file as it will be once the buffered bytes are written.\<close>

definition pending :: "fobuf \<Rightarrow> bytes" where
  "pending b = take (fb_ptr b) (fb_buf b)"

definition sink_view :: "sink \<Rightarrow> ofile" where
  "sink_view = (\<lambda>(s, f, b). sys_write f (pending b))"

definition sink_ok :: "sink \<Rightarrow> bool" where
  "sink_ok = (\<lambda>(s, f, b). fobuf_ok b)"

lemma fobuf_new_ok:
  "fobuf_new True True fd n junk = Some b \<Longrightarrow> fobuf_ok b \<and> pending b = [] \<and> fb_fd b = fd"
  by (auto simp: fobuf_new_def Let_def fobuf_ok_def pending_def split: if_splits)

lemma copy_in_ok:
  assumes "fobuf_ok b" "n \<le> length bs" "n \<le> fb_len b"
  shows "\<exists>b'. copy_in b bs n = Inr b' \<and> fobuf_ok b' \<and> pending b' = pending b @ take n bs \<and>
    fb_len b' = fb_len b - n \<and> fb_sz b' = fb_sz b \<and> fb_fd b' = fb_fd b"
proof -
  have "fb_ptr b + n \<le> length (fb_buf b)" using assms by (simp add: fobuf_ok_def)
  then show ?thesis using assms
    by (auto simp: copy_in_def fobuf_ok_def pending_def min_def)
qed

lemma flush_buf_Inr:
  assumes "fobuf_ok b" "flush_buf (s, f, b) = Inr (ok, s', f', b')"
  shows "fobuf_ok b' \<and> fb_sz b' = fb_sz b \<and> fb_fd b' = fb_fd b \<and>
    (ok \<longrightarrow> pending b' = [] \<and> fb_len b' = fb_sz b' \<and> f' = sys_write f (pending b))"
proof -
  have p: "take (fb_sz b - fb_len b) (fb_buf b) = pending b"
    unfolding pending_def using assms(1) by (intro arg_cong[of _ _ "\<lambda>n. take n _"]) (auto simp: fobuf_ok_def)
  show ?thesis
  proof (cases "fb_sz b - fb_len b = 0")
    case True
    then have "pending b = []" "fb_len b = fb_sz b" "fb_ptr b = 0" using assms(1) by (auto simp: pending_def fobuf_ok_def)
    then show ?thesis using assms True by (auto simp: flush_buf_def)
  next
    case False
    then have "rbind (fd_write s f (pending b)) (\<lambda>(ok, s', f').
       if \<not> ok then Inr (False, s', f', b) else Inr (True, s', f', b\<lparr>fb_ptr := 0, fb_len := fb_sz b\<rparr>)) = Inr (ok, s', f', b')"
      using assms p by (auto simp: flush_buf_def Let_def fobuf_ok_def split: if_splits)
    then show ?thesis
      using assms(1) fd_write_prefix[of s f "pending b"]
      by (fastforce simp: rbind_Inr_iff fobuf_ok_def pending_def split: if_splits)
  qed
qed

lemma flush_buf_fault: "fobuf_ok b \<Longrightarrow> flush_buf (s, f, b) = Inl e \<Longrightarrow> e = Blocked"
  by (auto simp: flush_buf_def Let_def fobuf_ok_def rbind_Inl_iff dest: fd_write_fault split: if_splits)

lemma fobuf_write_slow_sink:
  assumes ok: "fobuf_ok b" and len: "fb_len b \<le> length bs"
  shows "fobuf_write_slow (s, f, b) bs = Inl e \<Longrightarrow> e = Blocked"
    and "fobuf_write_slow (s, f, b) bs = Inr (r, s', f', b') \<Longrightarrow> fobuf_ok b' \<and>
      (r \<longrightarrow> sys_write f' (pending b') = sys_write f (pending b @ bs))"
proof -
  let ?n = "fb_len b" let ?rest = "drop ?n bs"
  obtain c where c: "copy_in b bs ?n = Inr c" "fobuf_ok c" "pending c = pending b @ take ?n bs" "fb_sz c = fb_sz b"
    using copy_in_ok[OF ok len] by auto
  let ?k = "\<lambda>(ok, s, f, b). if \<not> ok then Inr (False, s, f, b)
       else if fb_sz b \<le> length ?rest then rbind (fd_write s f ?rest) (\<lambda>(ok, s, f). Inr (ok, s, f, b))
       else rbind (copy_in b ?rest (length ?rest)) (\<lambda>b. Inr (True, s, f, b))"
  have slow: "fobuf_write_slow (s, f, b) bs = rbind (flush_buf (s, f, c)) ?k"
    using c(1) by (simp add: fobuf_write_slow_def Let_def)
  have last: "\<exists>d'. copy_in d ?rest (length ?rest) = Inr d' \<and> fobuf_ok d' \<and> pending d' = ?rest"
    if "fobuf_ok d" "pending d = []" "fb_len d = fb_sz d" "\<not> fb_sz d \<le> length ?rest" for d
    using copy_in_ok[OF that(1), of "length ?rest" ?rest] that by auto
  show "e = Blocked" if e: "fobuf_write_slow (s, f, b) bs = Inl e"
  proof (cases "flush_buf (s, f, c)")
    case (Inl a)
    then show ?thesis using e flush_buf_fault[OF c(2), of s f a] unfolding slow by simp
  next
    case (Inr y)
    obtain ok1 s1 f1 d where y: "y = (ok1, s1, f1, d)" by (cases y) auto
    then show ?thesis
      using e Inr flush_buf_Inr[OF c(2) Inr[unfolded y]] last[of d] fd_write_fault[of s1 f1 ?rest e]
      unfolding slow by (auto simp: rbind_Inl_iff split: if_splits)
  qed
  assume r: "fobuf_write_slow (s, f, b) bs = Inr (r, s', f', b')"
  then obtain ok1 s1 f1 d where fl: "flush_buf (s, f, c) = Inr (ok1, s1, f1, d)"
    and k: "?k (ok1, s1, f1, d) = Inr (r, s', f', b')"
    unfolding slow rbind_Inr_iff by force
  note d = flush_buf_Inr[OF c(2) fl]
  consider "\<not> ok1" | "ok1" "fb_sz d \<le> length ?rest" | "ok1" "\<not> fb_sz d \<le> length ?rest" by blast
  then show "fobuf_ok b' \<and> (r \<longrightarrow> sys_write f' (pending b') = sys_write f (pending b @ bs))"
  proof cases
    case 1
    then show ?thesis using k d by simp
  next
    case 2
    then have "fd_write s1 f1 ?rest = Inr (r, s', f')" "b' = d" using k by (auto simp: rbind_Inr_iff)
    then have "r \<longrightarrow> f' = sys_write f1 ?rest" using fd_write_prefix by fastforce
    then show ?thesis using d 2 c(3) \<open>b' = d\<close> by (auto simp: sys_write_sys_write)
  next
    case 3
    then obtain d' where "copy_in d ?rest (length ?rest) = Inr d'" "fobuf_ok d'" "pending d' = ?rest"
      using last[of d] d by auto
    then show ?thesis using d 3 c(3) k by (auto simp: sys_write_sys_write)
  qed
qed

lemma fobuf_write_sink:
  assumes "fobuf_ok b"
  shows "fobuf_write (s, f, b) bs = Inl e \<Longrightarrow> e = Blocked"
    and "fobuf_write (s, f, b) bs = Inr (r, s', f', b') \<Longrightarrow> fobuf_ok b' \<and>
      (r \<longrightarrow> sys_write f' (pending b') = sys_write f (pending b @ bs))"
proof -
  show "e = Blocked" if "fobuf_write (s, f, b) bs = Inl e"
    using that fobuf_write_slow_sink(1)[OF assms, of bs s f e] copy_in_ok[OF assms, of "length bs" bs]
    by (cases "length bs < fb_len b") (auto simp: fobuf_write_def)
  show "fobuf_ok b' \<and> (r \<longrightarrow> sys_write f' (pending b') = sys_write f (pending b @ bs))"
    if "fobuf_write (s, f, b) bs = Inr (r, s', f', b')"
    using that fobuf_write_slow_sink(2)[OF assms, of bs s f r s' f' b'] copy_in_ok[OF assms, of "length bs" bs]
    by (cases "length bs < fb_len b") (auto simp: fobuf_write_def)
qed

interpretation fb: byte_sink fobuf_write sink_view sink_ok
proof unfold_locales
  fix x bs ok x' e
  show "sink_ok x \<Longrightarrow> fobuf_write x bs = Inr (ok, x') \<Longrightarrow> sink_ok x'"
    using fobuf_write_sink(2) by (cases x; cases x') (auto simp: sink_ok_def)
  show "sink_ok x \<Longrightarrow> fobuf_write x bs = Inr (True, x') \<Longrightarrow> sink_view x' = sys_write (sink_view x) bs"
    using fobuf_write_sink(2) by (cases x; cases x') (fastforce simp: sink_ok_def sink_view_def sys_write_sys_write)
  show "sink_ok x \<Longrightarrow> fobuf_write x bs = Inl e \<Longrightarrow> e = Blocked"
    using fobuf_write_sink(1) by (cases x) (auto simp: sink_ok_def)
qed

section \<open>Progress\<close>

text \<open>
  With a kernel that transfers something at every call, the operations succeed and use at
  most one answer for each byte that reaches the file.
\<close>

lemma flush_buf_returns:
  assumes "fobuf_ok b" "generous s" "length (pending b) \<le> length s"
  shows "\<exists>k f' b'. k \<le> length (pending b) \<and> flush_buf (s, f, b) = Inr (True, drop k s, f', b')"
proof -
  have p: "fb_sz b - fb_len b = length (pending b)" "take (fb_sz b - fb_len b) (fb_buf b) = pending b"
    "\<not> length (fb_buf b) < fb_sz b - fb_len b"
    using assms(1) by (auto simp: fobuf_ok_def pending_def intro!: arg_cong[of _ _ "\<lambda>n. take n _"])
  show ?thesis
  proof (cases "pending b = []")
    case False
    then obtain k where "k \<le> length (pending b)" "fd_write s f (pending b) = Inr (True, drop k s, sys_write f (pending b))"
      using fd_write_returns[OF assms(2) _ assms(3)] by blast
    then show ?thesis using p False by (auto simp: flush_buf_def Let_def)
  qed (use p in \<open>auto simp: flush_buf_def\<close>)
qed

lemma fobuf_write_returns:
  assumes "fobuf_ok b" "generous s" "length (pending b) + length bs \<le> length s"
  shows "\<exists>s' f' b'. fobuf_write (s, f, b) bs = Inr (True, s', f', b') \<and> generous s' \<and>
    length (pending b') + length s \<le> length s' + length (pending b) + length bs"
proof (cases "length bs < fb_len b")
  case True
  then show ?thesis using copy_in_ok[OF assms(1), of "length bs" bs] assms(2) by (auto simp: fobuf_write_def)
next
  case False
  let ?n = "fb_len b" let ?rest = "drop ?n bs"
  obtain c where c: "copy_in b bs ?n = Inr c" "fobuf_ok c" "pending c = pending b @ take ?n bs"
    using copy_in_ok[OF assms(1), of ?n bs] False by auto
  obtain k f1 d where k: "k \<le> length (pending c)" "flush_buf (s, f, c) = Inr (True, drop k s, f1, d)"
    using flush_buf_returns[OF c(2) assms(2)] c(3) assms(3) by fastforce
  have d: "fobuf_ok d" "pending d = []" "fb_len d = fb_sz d" using flush_buf_Inr[OF c(2) k(2)] by auto
  have room: "length ?rest \<le> length (drop k s)" using k(1) c(3) assms(3) False by simp
  show ?thesis
  proof (cases "fb_sz d \<le> length ?rest")
    case True
    then have "?rest \<noteq> []" using d(1) by (auto simp: fobuf_ok_def)
    then obtain j where "j \<le> length ?rest" "fd_write (drop k s) f1 ?rest = Inr (True, drop j (drop k s), sys_write f1 ?rest)"
      using fd_write_returns[OF generous_drop[OF assms(2)] _ room] by blast
    then show ?thesis using False c k True d(2) assms(2)
      by (auto simp: fobuf_write_def fobuf_write_slow_def Let_def generous_drop)
  next
    case small: False
    then obtain d' where "copy_in d ?rest (length ?rest) = Inr d'" "pending d' = ?rest"
      using copy_in_ok[OF d(1), of "length ?rest" ?rest] d by auto
    then show ?thesis using False c k small assms(2)
      by (auto simp: fobuf_write_def fobuf_write_slow_def Let_def generous_drop)
  qed
qed

lemma put_all_returns:
  "fobuf_ok b \<Longrightarrow> generous s \<Longrightarrow> length (pending b) + length (concat ds) \<le> length s \<Longrightarrow>
    \<exists>s' f' b'. fb.put_all (s, f, b) ds = Inr (True, s', f', b') \<and> fobuf_ok b' \<and> generous s' \<and>
      length (pending b') + length s \<le> length s' + length (pending b) + length (concat ds)"
proof (induction ds arbitrary: s f b)
  case (Cons d ds)
  obtain s1 f1 b1 where w: "fobuf_write (s, f, b) d = Inr (True, s1, f1, b1)" "generous s1"
    "length (pending b1) + length s \<le> length s1 + length (pending b) + length d"
    using fobuf_write_returns[OF Cons.prems(1,2), of d f] Cons.prems(3) by auto
  have ok: "fobuf_ok b1" using fobuf_write_sink(2)[OF Cons.prems(1) w(1)] by simp
  have "length (pending b1) + length (concat ds) \<le> length s1" using w(3) Cons.prems(3) by simp
  from Cons.IH[OF ok w(2) this, of f1] show ?case using w by auto
qed auto

lemma fobuf_close_flushes:
  assumes "fobuf_ok b" "fb_fd b \<noteq> -1" "fobuf_close (s, f, b) = Inr (True, s', f')"
  shows "f' = sys_write f (pending b)"
proof -
  obtain s1 b1 where "flush_buf (s, f, b) = Inr (True, s1, f', b1)"
    using assms(2,3) by (auto simp: fobuf_close_def rbind_Inr_iff split: if_splits)
  then show ?thesis using flush_buf_Inr[OF assms(1)] by blast
qed

lemma fobuf_close_returns:
  assumes "fobuf_ok b" "generous s" "length (pending b) + 2 \<le> length s"
  shows "\<exists>s' f'. fobuf_close (s, f, b) = Inr (True, s', f')"
proof -
  obtain k f' b' where k: "k \<le> length (pending b)" "flush_buf (s, f, b) = Inr (True, drop k s, f', b')"
    using flush_buf_returns[OF assms(1,2)] assms(3) by fastforce
  have "2 \<le> length (drop k s)" using k(1) assms(3) by simp
  then obtain x y s' where s': "drop k s = x # y # s'" unfolding numeral_2_eq_2 Suc_le_length_iff by blast
  have "generous (x # y # s')" using generous_drop[OF assms(2), of k] s' by simp
  then obtain i j where "x = Ret i" "y = Ret j" by (auto simp: generous_def split: sysret.splits)
  then show ?thesis using k(2) s' by (auto simp: fobuf_close_def sync_failed_def)
qed

lemma fobuf_write_fd: "fobuf_write (s, f, b) d = Inr (r, s', f', b') \<Longrightarrow> fb_fd b' = fb_fd b"
  by (auto simp: fobuf_write_def fobuf_write_slow_def flush_buf_def copy_in_def Let_def rbind_Inr_iff split: if_splits)

lemma put_all_fd: "fb.put_all (s, f, b) ds = Inr (r, s', f', b') \<Longrightarrow> fb_fd b' = fb_fd b"
proof (induction ds arbitrary: s f b)
  case (Cons d ds)
  then show ?case by (auto simp: rbind_Inr_iff split: if_splits dest!: fobuf_write_fd)
qed simp

section \<open>Properties\<close>

text \<open>
  C26.  What a client writes through an output buffer is what the file holds: if a sequence
  of writes and the closing of a fresh buffer all report success, the file holds the
  concatenation of the data at its offset, whatever the sizes of the pieces and of the
  buffer and whatever short writes the kernel made; and with a kernel that transfers
  something at every call they all do report success.
\<close>

theorem fobuf_stream:
  assumes "fobuf_new True True fd n junk = Some b" "fd \<noteq> -1"
  shows "(fb.put_all (s, f, b) ds = Inr (True, x) \<and> fobuf_close x = Inr (True, s', f') \<longrightarrow> f' = sys_write f (concat ds)) \<and>
    (generous s \<and> length (concat ds) + 2 \<le> length s \<longrightarrow>
      (\<exists>x s'. fb.put_all (s, f, b) ds = Inr (True, x) \<and> fobuf_close x = Inr (True, s', sys_write f (concat ds))))"
proof -
  have b: "fobuf_ok b" "pending b = []" "fb_fd b \<noteq> -1" using fobuf_new_ok[OF assms(1)] assms(2) by auto
  have ok: "sink_ok (s, f, b)" using b by (simp add: sink_ok_def)
  have safe: "f' = sys_write f (concat ds)"
    if w: "fb.put_all (s, f, b) ds = Inr (True, x)" and c: "fobuf_close x = Inr (True, s', f')" for x s' f'
  proof -
    obtain s1 f1 b1 where x: "x = (s1, f1, b1)" by (cases x) auto
    have "fobuf_ok b1" using fb.put_all_good[OF ok w] x by (simp add: sink_ok_def)
    moreover have "sys_write f1 (pending b1) = sys_write f (concat ds)"
      using fb.put_all_view[OF ok w] x b(2) by (simp add: sink_view_def)
    ultimately show ?thesis using fobuf_close_flushes[of b1 s1 f1 s' f'] c put_all_fd[OF w[unfolded x]] b(3) x by simp
  qed
  have "\<exists>x s' f'. fb.put_all (s, f, b) ds = Inr (True, x) \<and> fobuf_close x = Inr (True, s', f')"
    if g: "generous s" "length (concat ds) + 2 \<le> length s"
  proof -
    obtain s1 f1 b1 where "fb.put_all (s, f, b) ds = Inr (True, s1, f1, b1)" "fobuf_ok b1" "generous s1"
      "length (pending b1) + length s \<le> length s1 + length (concat ds)"
      using put_all_returns[OF b(1) g(1), of ds f] g(2) b(2) by auto
    then show ?thesis using fobuf_close_returns[of b1 s1 f1] g(2) by fastforce
  qed
  then show ?thesis using safe by blast
qed

theorem fobuf_stream_witness:
  "\<exists>b x s'. fobuf_new True True 3 2 [] = Some b \<and>
     fb.put_all (replicate 7 (Ret 1), \<lparr>f_data = [], f_pos = 0\<rparr>, b) [[1, 2, 3], [4, 5]] = Inr (True, x) \<and>
     fobuf_close x = Inr (True, s', \<lparr>f_data = [1, 2, 3, 4, 5], f_pos = 5\<rparr>)"
proof -
  obtain b where b: "fobuf_new True True 3 2 [] = Some b" by (simp add: fobuf_new_def)
  have "generous (replicate 7 (Ret 1)) \<and> length (concat [[1, 2, 3], [4, 5 :: byte]]) + 2 \<le> length (replicate 7 (Ret 1))"
    by (simp add: generous_def list_all_iff)
  moreover have "sys_write \<lparr>f_data = [], f_pos = 0\<rparr> (concat [[1, 2, 3], [4, 5]]) = \<lparr>f_data = [1, 2, 3, 4, 5], f_pos = 5\<rparr>"
    by (simp add: sys_write_def put_at_def)
  ultimately show ?thesis using b fobuf_stream[OF b, THEN conjunct2, rule_format] by fastforce
qed

text \<open>
  \<open>fobuf_newfd\<close> has the sense of \<open>close\<close> inverted: if the old descriptor was open and
  everything succeeded, it reports failure.
\<close>

lemma fobuf_newfd_reports_failure:
  assumes "fb_fd b \<noteq> -1" "flush_buf (s, f, b) = Inr (True, Ret i # Ret j # s', f', b')"
  shows "fobuf_newfd (s, f, b) fd = Inr (False, s', f', b'\<lparr>fb_fd := fd\<rparr>)"
  using assms by (simp add: fobuf_newfd_def)

lemma fobuf_newfd_reports_failure_witness:
  "fobuf_newfd ([Ret 1, Ret 0, Ret 0], \<lparr>f_data = [], f_pos = 0\<rparr>, \<lparr>fb_fd = 3, fb_buf = [7, 0], fb_ptr = 1, fb_len = 1, fb_sz = 2\<rparr>) 4 =
    Inr (False, [], \<lparr>f_data = [7], f_pos = 1\<rparr>, \<lparr>fb_fd = 4, fb_buf = [7, 0], fb_ptr = 0, fb_len = 2, fb_sz = 2\<rparr>)"
proof -
  let ?b = "\<lparr>fb_fd = 3, fb_buf = [7, 0], fb_ptr = 1, fb_len = 1, fb_sz = 2\<rparr>"
  have "flush_buf ([Ret 1, Ret 0, Ret 0], \<lparr>f_data = [], f_pos = 0\<rparr>, ?b) =
    Inr (True, [Ret 0, Ret 0], \<lparr>f_data = [7], f_pos = 1\<rparr>, ?b\<lparr>fb_ptr := 0, fb_len := 2\<rparr>)"
    by (simp add: flush_buf_def Let_def xfer_len_def SSIZE_MAX_def sys_write_def put_at_def)
  then show ?thesis using fobuf_newfd_reports_failure[of ?b] by simp
qed

end
