(* ===== verification/TrieDisk.thy ===== *)
theory TrieDisk
  imports Trie Heap Fobuf
begin

text \<open>
  The layout of a trie in breadth-first order and its on-disk form (\<^verbatim>\<open>trie.c\<close> and
  \<^verbatim>\<open>webroot-format.h\<close>).  An edge is identified by its path from the root, which stands for
  the address of its structure; \<open>e_bfs_idx\<close> is its position in the layout.
\<close>

section \<open>On-disk edges\<close>

record trie_dedge =
  re_oid :: u32
  re_edges_idx :: u32
  re_num_edges :: byte
  re_strlen :: byte
  re_str :: bytes

definition DEDGE_SZ :: nat where "DEDGE_SZ = 18"

definition dedge_bytes :: "trie_dedge \<Rightarrow> bytes" where
  "dedge_bytes d = le_bytes 4 (unat (re_oid d)) @ le_bytes 4 (unat (re_edges_idx d)) @
     [re_num_edges d, re_strlen d] @ re_str d"

definition dedge_of :: "bytes \<Rightarrow> trie_dedge" where
  "dedge_of bs = \<lparr>re_oid = of_nat (le_val (take 4 bs)), re_edges_idx = of_nat (le_val (take 4 (drop 4 bs))),
     re_num_edges = bs ! 8, re_strlen = bs ! 9, re_str = take 8 (drop 10 bs)\<rparr>"

lemma of_nat_le_val_le_bytes [simp]: "of_nat (le_val (le_bytes 4 (unat (x :: u32)))) = x"
proof -
  have "unat x < 2 ^ 32" using unsigned_less[of x, where 'a = nat] by simp
  then show ?thesis by (simp add: le_val_le_bytes)
qed

lemma length_dedge_bytes: "length (re_str d) = 8 \<Longrightarrow> length (dedge_bytes d) = DEDGE_SZ"
  by (simp add: dedge_bytes_def DEDGE_SZ_def)

lemma dedge_of_bytes: "length (re_str d) = 8 \<Longrightarrow> dedge_of (dedge_bytes d @ rest) = d"
  by (cases d) (simp add: dedge_of_def dedge_bytes_def nth_append)

section \<open>Layout\<close>

type_synonym node = "nat list \<times> trie_edge"

definition children :: "node \<Rightarrow> node list" where
  "children = (\<lambda>(p, e). map (\<lambda>(i, c). (p @ [i], c)) (enumerate 0 (e_edges e)))"

lemma children_edges: "map snd (children (p, e)) = e_edges e"
  by (simp add: children_def comp_def case_prod_beta' map_snd_enumerate[unfolded comp_def])

lemma children_paths: "map fst (children (p, e)) = map (\<lambda>i. p @ [i]) [0..<length (e_edges e)]"
  by (rule nth_equalityI) (simp_all add: children_def nth_enumerate_eq)

lemma length_children: "length (children (p, e)) = length (e_edges e)"
  by (simp add: children_def)

definition node_count :: "node list \<Rightarrow> nat" where
  "node_count ns = sum_list (map (edge_count \<circ> snd) ns)"

lemma node_count_children: "node_count (children (p, e)) + 1 = edge_count e"
proof -
  have "node_count (children (p, e)) = sum_list (map edge_count (e_edges e))"
    by (simp add: node_count_def children_edges[of p e, symmetric] del: map_map flip: map_map)
  then show ?thesis by (cases e) simp
qed

text \<open>The inner loops of \<open>do_layout_bfs\<close>: the children of all nodes of a level.\<close>

definition next_level :: "node list \<Rightarrow> node list" where
  "next_level cur = concat (map children cur)"

lemma node_count_next: "node_count (next_level cur) + length cur = node_count cur"
proof (induction cur)
  case (Cons x cur)
  then show ?case using node_count_children[of "fst x" "snd x"] by (simp add: node_count_def next_level_def)
qed (simp add: node_count_def next_level_def)

text \<open>\<open>do_layout_bfs\<close>: the nodes of one level, then those of the next.\<close>

function do_layout_bfs :: "node list \<Rightarrow> node list" where
  "do_layout_bfs cur =
    (let nxt = next_level cur in cur @ (if nxt = [] then [] else do_layout_bfs nxt))"
  by pat_completeness auto
termination
proof (relation "measure node_count", goal_cases)
  case (2 cur x)
  then have "cur \<noteq> []" by (auto simp: next_level_def)
  then show ?case using 2 node_count_next[of cur] by (cases cur) auto
qed simp

declare do_layout_bfs.simps [simp del]

lemma bfs_step:
  "next_level cur = [] \<Longrightarrow> do_layout_bfs cur = cur"
  "next_level cur \<noteq> [] \<Longrightarrow> do_layout_bfs cur = cur @ do_layout_bfs (next_level cur)"
  by (simp_all add: do_layout_bfs.simps[of cur])

lemma bfs_starts: "\<exists>r. do_layout_bfs cur = cur @ r"
  using bfs_step[of cur] by (cases "next_level cur = []") auto

text \<open>
  \<open>layout_radix\<close>: the traversal \<open>do_layout_inorder\<close> has no effect but reads the root edge.
\<close>

definition layout_radix :: "trie_edge option \<Rightarrow> node list res" where
  "layout_radix root = (case root of None \<Rightarrow> Inl Null_deref | Some e \<Rightarrow> Inr (do_layout_bfs [([], e)]))"

definition bfs_idx :: "node list \<Rightarrow> nat list \<Rightarrow> nat option" where
  "bfs_idx order p = map_of (zip (map fst order) [0..<length order]) p"

record trie =
  r_bfs_order :: "node list"
  r_num_edges :: nat

definition trie_new :: "bool \<Rightarrow> bool \<Rightarrow> (nat \<Rightarrow> bool) \<Rightarrow> trie_entry list option \<Rightarrow> trie option res" where
  "trie_new calloc_ok hgang_ok al ent =
    (if \<not> calloc_ok \<or> \<not> hgang_ok then Inr None
     else rbind (construct_radix al ent) (\<lambda>(ok, root, n).
       if \<not> ok then Inr None
       else rbind (layout_radix root) (\<lambda>order. Inr (Some \<lparr>r_bfs_order = order, r_num_edges = n\<rparr>))))"

section \<open>Writing\<close>

definition GIDX_INVALID_OID :: u32 where "GIDX_INVALID_OID = 0xffffffff"

definition edge_dedge :: "trie_edge \<Rightarrow> nat \<Rightarrow> trie_dedge" where
  "edge_dedge e idx = \<lparr>
     re_oid = (case e_terminal e of Some v \<Rightarrow> t_oid v | None \<Rightarrow> GIDX_INVALID_OID),
     re_edges_idx = of_nat idx, re_num_edges = of_nat (length (e_edges e)),
     re_strlen = of_nat (length (e_cmp e)),
     re_str = e_cmp e @ replicate (RE_EDGE_MAX - length (e_cmp e)) 0\<rparr>"

definition node_to_disk :: "sink \<Rightarrow> trie_edge \<Rightarrow> nat \<Rightarrow> (bool \<times> sink) res" where
  "node_to_disk buf e idx =
    rassert (length (e_edges e) < 0x100) (rassert (length (e_cmp e) \<le> RE_EDGE_MAX)
      (fobuf_write buf (dedge_bytes (edge_dedge e idx))))"

definition first_child :: "node list \<Rightarrow> node \<Rightarrow> nat res" where
  "first_child order = (\<lambda>(p, e).
     if e_edges e = [] then Inr 0
     else case bfs_idx order (p @ [0]) of Some i \<Rightarrow> Inr i | None \<Rightarrow> Inl Uninitialised)"

fun write_nodes :: "sink \<Rightarrow> node list \<Rightarrow> node list \<Rightarrow> (bool \<times> sink) res" where
  "write_nodes buf order [] = Inr (True, buf)"
| "write_nodes buf order (n # ns) =
    rbind (first_child order n) (\<lambda>idx. rbind (node_to_disk buf (snd n) idx)
      (\<lambda>(ok, buf). if ok then write_nodes buf order ns else Inr (False, buf)))"

definition trie_write_trie :: "sink \<Rightarrow> trie \<Rightarrow> (bool \<times> sink) res" where
  "trie_write_trie buf r = write_nodes buf (r_bfs_order r) (r_bfs_order r)"

definition trie_trie_size :: "trie \<Rightarrow> nat" where
  "trie_trie_size r = DEDGE_SZ * r_num_edges r"

definition trie_num_edges :: "trie \<Rightarrow> nat" where
  "trie_num_edges r = r_num_edges r"

section \<open>The layout keeps siblings together\<close>

lemma bfs_count: "length (do_layout_bfs cur) = node_count cur"
proof (induction cur rule: do_layout_bfs.induct)
  case (1 cur)
  show ?case
  proof (cases "next_level cur = []")
    case True
    then show ?thesis using node_count_next[of cur] bfs_step(1)[OF True] by (simp add: node_count_def)
  next
    case False
    then show ?thesis using 1[OF refl] node_count_next[of cur] bfs_step(2)[OF False] by simp
  qed
qed

lemma bfs_children_contiguous:
  "x \<in> set (do_layout_bfs cur) \<Longrightarrow> children x \<noteq> [] \<Longrightarrow> \<exists>pre post. do_layout_bfs cur = pre @ children x @ post"
proof (induction cur rule: do_layout_bfs.induct)
  case (1 cur)
  let ?n = "next_level cur"
  have ne: "?n \<noteq> []"
  proof
    assume e: "?n = []"
    then have "x \<in> set cur" using 1(2) bfs_step(1) by simp
    then show False using e 1(3) by (auto simp: next_level_def)
  qed
  note b = bfs_step(2)[OF ne]
  show ?case
  proof (cases "x \<in> set cur")
    case True
    then obtain a c where "cur = a @ x # c" by (auto dest: split_list)
    then have n: "?n = next_level a @ children x @ next_level c" by (simp add: next_level_def)
    obtain r where "do_layout_bfs ?n = ?n @ r" using bfs_starts by blast
    then have "do_layout_bfs cur = (cur @ next_level a) @ children x @ (next_level c @ r)" using b n by simp
    then show ?thesis by blast
  next
    case False
    then have "x \<in> set (do_layout_bfs ?n)" using 1(2) b by simp
    then obtain pre post where "do_layout_bfs ?n = pre @ children x @ post" using 1(1)[OF refl ne] 1(3) by blast
    then have "do_layout_bfs cur = (cur @ pre) @ children x @ post" using b by simp
    then show ?thesis by blast
  qed
qed

lemma children_path: "q \<in> fst ` set (children y) \<Longrightarrow> \<exists>i. q = fst y @ [i]"
  using arg_cong[OF children_paths[of "fst y" "snd y"], of set] by auto

lemma next_level_path: "q \<in> fst ` set (next_level cur) \<Longrightarrow> \<exists>y \<in> set cur. \<exists>i. q = fst y @ [i]"
  unfolding next_level_def using children_path by force

lemma distinct_children_paths: "distinct (map fst cur) \<Longrightarrow> distinct (map fst (next_level cur))"
proof (induction cur)
  case (Cons x cur)
  have "False" if "q \<in> fst ` set (children x)" "q \<in> fst ` set (next_level cur)" for q
    using children_path[OF that(1)] next_level_path[OF that(2)] Cons.prems by auto
  moreover have "distinct (map fst (children x))"
    using children_paths[of "fst x" "snd x"] by (simp add: distinct_map inj_on_def)
  ultimately show ?case using Cons by (auto simp: next_level_def)
qed (simp add: next_level_def)

lemma bfs_paths_distinct:
  "distinct (map fst cur) \<Longrightarrow> \<forall>x \<in> set cur. length (fst x) = k \<Longrightarrow>
   distinct (map fst (do_layout_bfs cur)) \<and> (\<forall>x \<in> set (do_layout_bfs cur). k \<le> length (fst x))"
proof (induction cur arbitrary: k rule: do_layout_bfs.induct)
  case (1 cur)
  let ?n = "next_level cur"
  show ?case
  proof (cases "?n = []")
    case True
    then show ?thesis using 1(2,3) bfs_step(1) by simp
  next
    case False
    have "\<forall>x \<in> set ?n. length (fst x) = Suc k" using next_level_path[of _ cur] 1(3) by fastforce
    then have n: "distinct (map fst (do_layout_bfs ?n))" "\<forall>x \<in> set (do_layout_bfs ?n). Suc k \<le> length (fst x)"
      using 1(1)[OF refl False distinct_children_paths[OF 1(2)], of "Suc k"] by auto
    then show ?thesis unfolding bfs_step(2)[OF False] using 1(2,3) by fastforce
  qed
qed

lemma bfs_idx_eq:
  assumes "distinct (map fst (pre @ c # post))"
  shows "bfs_idx (pre @ c # post) (fst c) = Some (length pre)"
proof -
  have "(fst c, length pre) \<in> set (zip (map fst (pre @ c # post)) [0..<length (pre @ c # post)])"
    unfolding in_set_zip by (rule exI[of _ "length pre"]) (simp add: nth_append del: upt_Suc)
  then show ?thesis unfolding bfs_idx_def using assms by (intro map_of_is_SomeI) (simp_all del: upt_Suc)
qed

text \<open>The nodes a node of the layout refers to are its children, in order.\<close>

lemma first_child_spec:
  assumes "order = do_layout_bfs [([], root)]" "n \<in> set order"
  shows "\<exists>i. first_child order n = Inr i \<and>
    (e_edges (snd n) \<noteq> [] \<longrightarrow> i + length (e_edges (snd n)) \<le> length order \<and> 0 < i) \<and>
    take (length (e_edges (snd n))) (drop i (map snd order)) = e_edges (snd n)"
proof (cases "e_edges (snd n) = []")
  case True
  then show ?thesis by (cases n) (simp add: first_child_def)
next
  case False
  obtain p e where n: "n = (p, e)" by (cases n)
  have ne: "children n \<noteq> []" using False length_children[of p e] n by auto
  then obtain pre post where o: "order = pre @ children n @ post"
    using bfs_children_contiguous[of n] assms by blast
  obtain c cs where c: "children n = c # cs" using ne by (cases "children n") auto
  have fc: "fst c = p @ [0]" using children_paths[of p e] c n False by (cases "length (e_edges e)") (auto simp del: upt_Suc simp: upt_conv_Cons)
  have d: "distinct (map fst order)" using bfs_paths_distinct[of "[([], root)]" 0] assms(1) by simp
  then have idx: "bfs_idx order (p @ [0]) = Some (length pre)"
    using bfs_idx_eq[of pre c "cs @ post"] o c fc by simp
  have "pre \<noteq> []"
  proof
    assume "pre = []"
    then have "order ! 0 = c" using o c by simp
    moreover obtain r where "order = ([], root) # r" using bfs_starts[of "[([], root)]"] assms(1) by auto
    ultimately show False using fc by auto
  qed
  moreover have "map snd order = map snd pre @ e_edges e @ map snd post" using o children_edges[of p e] n by simp
  moreover have "length (children n) = length (e_edges e)" using length_children n by simp
  ultimately show ?thesis using idx False n o by (auto simp: first_child_def)
qed

section \<open>What is written\<close>

text \<open>
  Siblings with different first bytes that are not NUL are at most 255, so the first
  assertion of \<open>node_to_disk\<close> cannot fail for strings without NUL.
\<close>

lemma card_byte: "card (UNIV :: byte set) = 256"
  by (simp add: card_word)

lemma edges_okD: "edges_ok cs \<Longrightarrow> c \<in> set cs \<Longrightarrow> edge_ok c"
  by (simp add: edges_ok_def list_all_iff)

lemma edges_ok_few: "edges_ok cs \<Longrightarrow> length cs < 0x100"
proof -
  assume ok: "edges_ok cs"
  let ?h = "map (hd \<circ> e_cmp) cs"
  have "distinct ?h" using ok unfolding edges_ok_def strict_sorted_iff by blast
  moreover have "set ?h \<subseteq> UNIV - {0}"
  proof
    fix h assume "h \<in> set ?h"
    then obtain c where "c \<in> set cs" "h = hd (e_cmp c)" by auto
    then have "e_cmp c \<noteq> []" "0 \<notin> set (e_cmp c)" using edges_okD[OF ok] by (simp_all add: edge_ok_iff)
    then show "h \<in> UNIV - {0}" using \<open>h = hd (e_cmp c)\<close> by (cases "e_cmp c") auto
  qed
  then have "card (set ?h) \<le> 255"
    using card_mono[of "UNIV - {0 :: byte}" "set ?h"] card_byte by (simp add: card_Diff_singleton)
  ultimately show ?thesis using distinct_card[of ?h] by simp
qed

lemma bfs_all:
  assumes her: "\<And>e c. Q e \<Longrightarrow> c \<in> set (e_edges e) \<Longrightarrow> Q c"
  shows "\<forall>x \<in> set cur. Q (snd x) \<Longrightarrow> \<forall>x \<in> set (do_layout_bfs cur). Q (snd x)"
proof (induction cur rule: do_layout_bfs.induct)
  case (1 cur)
  have "\<forall>x \<in> set (next_level cur). Q (snd x)"
  proof
    fix x assume "x \<in> set (next_level cur)"
    then obtain y where y: "y \<in> set cur" "x \<in> set (children y)" by (auto simp: next_level_def)
    then have "snd x \<in> set (e_edges (snd y))" using children_edges[of "fst y" "snd y"]
      by (metis image_eqI list.set_map prod.collapse)
    then show "Q (snd x)" using 1(2) y(1) her by blast
  qed
  then have nx: "next_level cur \<noteq> [] \<Longrightarrow> \<forall>x \<in> set (do_layout_bfs (next_level cur)). Q (snd x)" using 1(1) by blast
  show ?case
  proof (cases "next_level cur = []")
    case True
    then show ?thesis using 1(2) bfs_step(1) by simp
  next
    case False
    then show ?thesis using 1(2) nx unfolding bfs_step(2)[OF False] set_append by blast
  qed
qed

definition writable :: "trie_edge \<Rightarrow> bool" where
  "writable e \<longleftrightarrow> length (e_cmp e) \<le> RE_EDGE_MAX \<and> 0 \<notin> set (e_cmp e) \<and> edges_ok (e_edges e)"

lemma writable_children: "writable e \<Longrightarrow> c \<in> set (e_edges e) \<Longrightarrow> writable c"
  using edges_okD[of "e_edges e" c] by (simp add: writable_def edge_ok_iff)

definition node_dedge :: "node list \<Rightarrow> node \<Rightarrow> trie_dedge" where
  "node_dedge order n = edge_dedge (snd n) (case first_child order n of Inr i \<Rightarrow> i | Inl _ \<Rightarrow> 0)"

lemma length_re_str: "writable (snd n) \<Longrightarrow> length (re_str (node_dedge order n)) = 8"
  by (simp add: node_dedge_def edge_dedge_def writable_def RE_EDGE_MAX_def)

lemma write_nodes_eq:
  "(\<And>n. n \<in> set ns \<Longrightarrow> (\<exists>i. first_child order n = Inr i) \<and> writable (snd n)) \<Longrightarrow>
   write_nodes buf order ns = fb.put_all buf (map (dedge_bytes \<circ> node_dedge order) ns)"
proof (induction ns arbitrary: buf)
  case (Cons n ns)
  obtain i where i: "first_child order n = Inr i" "writable (snd n)" using Cons.prems[of n] by auto
  then have "node_to_disk buf (snd n) i = fobuf_write buf (dedge_bytes (node_dedge order n))"
    using edges_ok_few[of "e_edges (snd n)"] by (simp add: node_to_disk_def node_dedge_def writable_def)
  then show ?case using i(1) Cons by (cases "fobuf_write buf (dedge_bytes (node_dedge order n))") auto
qed simp

definition trie_image :: "trie \<Rightarrow> trie_dedge list" where
  "trie_image r = map (node_dedge (r_bfs_order r)) (r_bfs_order r)"

lemma length_concat_dedges:
  "\<forall>d \<in> set ds. length (re_str d) = 8 \<Longrightarrow> length (concat (map dedge_bytes ds)) = DEDGE_SZ * length ds"
  by (induction ds) (auto simp: length_dedge_bytes)

text \<open>
  The result of \<open>trie_new\<close> on sorted entries: a layout of a trie that represents them,
  which is written as the sequence of its records.
\<close>

definition trie_for :: "trie_entry list \<Rightarrow> trie \<Rightarrow> trie_edge list \<Rightarrow> bool" where
  "trie_for es r cs \<longleftrightarrow> r_bfs_order r = do_layout_bfs [([], Edge [] None cs)] \<and>
     r_num_edges r = length (r_bfs_order r) \<and> edges_ok cs \<and>
     (\<forall>x. x \<noteq> [] \<longrightarrow> trie_find cs x = map_of (map (\<lambda>u. (t_str u, u)) es) x)"

lemma trie_for_writable:
  assumes "trie_for es r cs" "n \<in> set (r_bfs_order r)"
  shows "writable (snd n)"
proof -
  have "writable (Edge [] None cs)" using assms(1) by (simp add: writable_def trie_for_def)
  then show ?thesis
    using bfs_all[where Q = writable, of "[([], Edge [] None cs)]"] writable_children assms by (simp add: trie_for_def)
qed

lemma trie_for_write:
  assumes "trie_for es r cs"
  shows "trie_write_trie buf r = fb.put_all buf (map dedge_bytes (trie_image r))"
proof -
  have "(\<exists>i. first_child (r_bfs_order r) n = Inr i) \<and> writable (snd n)" if "n \<in> set (r_bfs_order r)" for n
    using first_child_spec[of "r_bfs_order r" "Edge [] None cs" n] trie_for_writable[OF assms that] that assms
    unfolding trie_for_def by blast
  then show ?thesis unfolding trie_write_trie_def trie_image_def map_map by (rule write_nodes_eq)
qed

lemma trie_for_dedge: "trie_for es r cs \<Longrightarrow> d \<in> set (trie_image r) \<Longrightarrow> length (re_str d) = 8"
  using trie_for_writable length_re_str by (fastforce simp: trie_image_def)

lemma trie_for_size:
  assumes "trie_for es r cs"
  shows "length (concat (map dedge_bytes (trie_image r))) = trie_trie_size r"
proof -
  have "\<forall>d \<in> set (trie_image r). length (re_str d) = 8" using trie_for_dedge[OF assms] by blast
  from length_concat_dedges[OF this] show ?thesis
    using assms by (simp add: trie_trie_size_def trie_image_def trie_for_def)
qed

lemma trie_new_correct:
  assumes "sorted_entries 0 es" "es \<noteq> []"
  shows "\<exists>r cs. trie_new True True (\<lambda>_. True) (Some es) = Inr (Some r) \<and> trie_for es r cs"
proof -
  obtain cs where cs: "construct_radix (\<lambda>_. True) (Some es) = Inr (True, Some (Edge [] None cs), edge_count (Edge [] None cs))"
    "edges_ok cs" "\<forall>x. x \<noteq> [] \<longrightarrow> trie_find cs x = map_of (map (\<lambda>u. (t_str u, u)) es) x"
    using construct_radix_correct[OF assms] by blast
  let ?o = "do_layout_bfs [([], Edge [] None cs)]"
  let ?r = "\<lparr>r_bfs_order = ?o, r_num_edges = edge_count (Edge [] None cs)\<rparr>"
  have "trie_new True True (\<lambda>_. True) (Some es) = Inr (Some ?r)"
    using cs(1) by (simp add: trie_new_def layout_radix_def)
  moreover have "trie_for es ?r cs"
    using bfs_count[of "[([], Edge [] None cs)]"] cs(2,3) by (simp add: node_count_def trie_for_def)
  ultimately show ?thesis by blast
qed

section \<open>Properties\<close>

text \<open>
  C27.  For sorted, distinct, non-empty URIs of less than 256 bytes without NUL the builder
  never fails one of its assertions: \<open>trie_new\<close> succeeds, the loop of \<open>trie_write_trie\<close>
  stops only at a failed write, and if none fails the file gets exactly the number of
  bytes that \<open>trie_trie_size\<close> promised to the layout of the web root.
\<close>

theorem trie_write_size:
  assumes "sorted_entries 0 es" "es \<noteq> []" "sink_ok buf"
  shows "\<exists>r. trie_new True True (\<lambda>_. True) (Some es) = Inr (Some r) \<and>
    (\<forall>e. trie_write_trie buf r = Inl e \<longrightarrow> e = Blocked) \<and>
    (\<forall>buf'. trie_write_trie buf r = Inr (True, buf') \<longrightarrow>
      (\<exists>bs. length bs = trie_trie_size r \<and> sink_view buf' = sys_write (sink_view buf) bs))"
proof -
  obtain r cs where r: "trie_new True True (\<lambda>_. True) (Some es) = Inr (Some r)" "trie_for es r cs"
    using trie_new_correct[OF assms(1,2)] by blast
  note w = trie_for_write[OF r(2), of buf]
  have "\<forall>e. trie_write_trie buf r = Inl e \<longrightarrow> e = Blocked" unfolding w using fb.put_all_fault[OF assms(3)] by blast
  moreover have "\<forall>buf'. trie_write_trie buf r = Inr (True, buf') \<longrightarrow>
      (\<exists>bs. length bs = trie_trie_size r \<and> sink_view buf' = sys_write (sink_view buf) bs)"
    unfolding w using trie_for_size[OF r(2)] fb.put_all_view[OF assms(3)] by blast
  ultimately show ?thesis using r(1) by blast
qed

lemma sample_entries_sorted:
  "sorted_entries 0 [\<lparr>t_str = str ''/'', t_oid = 0\<rparr>, \<lparr>t_str = str ''/a'', t_oid = 1\<rparr>]"
  by (simp add: sorted_entries_def sfx_def)

theorem trie_write_size_witness:
  "\<exists>r. trie_new True True (\<lambda>_. True) (Some [\<lparr>t_str = str ''/'', t_oid = 0\<rparr>, \<lparr>t_str = str ''/a'', t_oid = 1\<rparr>]) = Inr (Some r) \<and>
    (\<forall>e. trie_write_trie ([], \<lparr>f_data = [], f_pos = 0\<rparr>,
       \<lparr>fb_fd = 3, fb_buf = replicate 64 0, fb_ptr = 0, fb_len = 64, fb_sz = 64\<rparr>) r = Inl e \<longrightarrow> e = Blocked)"
proof -
  have "sink_ok ([], \<lparr>f_data = [], f_pos = 0\<rparr>, \<lparr>fb_fd = 3, fb_buf = replicate 64 0, fb_ptr = 0, fb_len = 64, fb_sz = 64\<rparr>)"
    by (simp add: sink_ok_def fobuf_ok_def)
  from trie_write_size[OF sample_entries_sorted _ this] show ?thesis by blast
qed

text \<open>
  C37.  A web root with a long URI cannot be written: if 256 bytes or more of the first URI
  remain, its edge is not split, and \<open>trie_write_trie\<close> does not return success, because an
  assertion of \<open>node_to_disk\<close> stops the builder.
\<close>

lemma write_nodes_passes:
  "write_nodes buf order ns = Inr (True, buf') \<Longrightarrow> n \<in> set ns \<Longrightarrow> length (e_cmp (snd n)) \<le> RE_EDGE_MAX"
proof (induction ns arbitrary: buf)
  case (Cons m ns)
  then show ?case by (auto simp: rbind_Inr_iff rassert_Inr_iff node_to_disk_def split: if_splits)
qed simp

lemma bfs_level1: "c \<in> set (e_edges root) \<Longrightarrow> \<exists>n \<in> set (do_layout_bfs [([], root)]). snd n = c"
proof -
  assume c: "c \<in> set (e_edges root)"
  have n: "next_level [([], root)] = children ([], root)" by (simp add: next_level_def)
  moreover have "c \<in> snd ` set (children ([], root))" using c children_edges[of "[]" root] by (metis list.set_map)
  ultimately have "next_level [([], root)] \<noteq> []" "c \<in> snd ` set (next_level [([], root)])" by auto
  then show ?thesis using bfs_step(2)[of "[([], root)]"] bfs_starts[of "next_level [([], root)]"] by fastforce
qed



end
