(* ===== verification/Webroot.thy ===== *)
theory Webroot
  imports TrieDisk
begin

text \<open>
  The server's view of a web root (\<^verbatim>\<open>webroot.c\<close>, \<^verbatim>\<open>webroot-format.h\<close>): the records of the
  mapped file, opening and checking it, the search of a URI in the on-disk trie, and the
  reference count of an open web root.  Pointers into the mapping are offsets.
\<close>

section \<open>File records\<close>

record webroot_hdr =
  h_num_edges :: u32
  h_num_redirect :: u32
  h_num_file :: u32
  h_strtab_sz :: u32
  h_magic :: u32
  h_vers :: u32
  h_files_begin :: u32
  h_pad :: u32

record webroot_file =
  f_off :: u64
  f_len :: u64
  f_type :: u32
  f_type_len :: u32
  f_modified :: u32
  f_digest :: bytes

record webroot_redirect =
  r_off :: u32
  r_len :: u32

definition WEBROOT_MAGIC :: u32 where "WEBROOT_MAGIC = 0x37135777"
definition WEBROOT_CURRENT_VER :: u32 where "WEBROOT_CURRENT_VER = 3"
definition WEBROOT_INVALID_REDIRECT :: u32 where "WEBROOT_INVALID_REDIRECT = 0xffffffff"
definition HDR_SZ :: nat where "HDR_SZ = 32"
definition FILE_SZ :: nat where "FILE_SZ = 48"
definition REDIRECT_SZ :: nat where "REDIRECT_SZ = 8"

definition u32_at :: "bytes \<Rightarrow> nat \<Rightarrow> u32" where
  "u32_at bs p = of_nat (le_val (take 4 (drop p bs)))"

definition u64_at :: "bytes \<Rightarrow> nat \<Rightarrow> u64" where
  "u64_at bs p = of_nat (le_val (take 8 (drop p bs)))"

definition u32_bytes :: "u32 \<Rightarrow> bytes" where
  "u32_bytes x = le_bytes 4 (unat x)"

definition u64_bytes :: "u64 \<Rightarrow> bytes" where
  "u64_bytes x = le_bytes 8 (unat x)"

definition hdr_of :: "bytes \<Rightarrow> webroot_hdr" where
  "hdr_of bs = \<lparr>h_num_edges = u32_at bs 0, h_num_redirect = u32_at bs 4, h_num_file = u32_at bs 8,
     h_strtab_sz = u32_at bs 12, h_magic = u32_at bs 16, h_vers = u32_at bs 20,
     h_files_begin = u32_at bs 24, h_pad = u32_at bs 28\<rparr>"

definition hdr_bytes :: "webroot_hdr \<Rightarrow> bytes" where
  "hdr_bytes h = u32_bytes (h_num_edges h) @ u32_bytes (h_num_redirect h) @ u32_bytes (h_num_file h) @
     u32_bytes (h_strtab_sz h) @ u32_bytes (h_magic h) @ u32_bytes (h_vers h) @
     u32_bytes (h_files_begin h) @ u32_bytes (h_pad h)"

definition file_of :: "bytes \<Rightarrow> webroot_file" where
  "file_of bs = \<lparr>f_off = u64_at bs 0, f_len = u64_at bs 8, f_type = u32_at bs 16, f_type_len = u32_at bs 20,
     f_modified = u32_at bs 24, f_digest = take 20 (drop 28 bs)\<rparr>"

definition file_bytes :: "webroot_file \<Rightarrow> bytes" where
  "file_bytes f = u64_bytes (f_off f) @ u64_bytes (f_len f) @ u32_bytes (f_type f) @
     u32_bytes (f_type_len f) @ u32_bytes (f_modified f) @ f_digest f"

definition redirect_of :: "bytes \<Rightarrow> webroot_redirect" where
  "redirect_of bs = \<lparr>r_off = u32_at bs 0, r_len = u32_at bs 4\<rparr>"

definition redirect_bytes :: "webroot_redirect \<Rightarrow> bytes" where
  "redirect_bytes r = u32_bytes (r_off r) @ u32_bytes (r_len r)"

lemma length_u_bytes [simp]: "length (u32_bytes x) = 4" "length (u64_bytes y) = 8"
  by (simp_all add: u32_bytes_def u64_bytes_def)

lemma u32_at_bytes [simp]: "p = length pre \<Longrightarrow> u32_at (pre @ u32_bytes x @ post) p = x"
  by (simp add: u32_at_def u32_bytes_def)

lemma u64_at_bytes [simp]: "p = length pre \<Longrightarrow> u64_at (pre @ u64_bytes x @ post) p = x"
proof -
  have "unat x < 2 ^ 64" using unsigned_less[of x, where 'a = nat] by simp
  then show "p = length pre \<Longrightarrow> u64_at (pre @ u64_bytes x @ post) p = x"
    by (simp add: u64_at_def u64_bytes_def le_val_le_bytes)
qed

lemma record_sizes:
  "length (hdr_bytes h) = HDR_SZ"
  "length (f_digest f) = 20 \<Longrightarrow> length (file_bytes f) = FILE_SZ"
  "length (redirect_bytes r) = REDIRECT_SZ"
  by (simp_all add: hdr_bytes_def file_bytes_def redirect_bytes_def HDR_SZ_def FILE_SZ_def REDIRECT_SZ_def)

lemma u32_at_append [simp]: "u32_at (u32_bytes x @ post) 0 = x"
  using u32_at_bytes[of 0 "[]"] by simp

lemma u64_at_append [simp]: "u64_at (u64_bytes x @ post) 0 = x"
  using u64_at_bytes[of 0 "[]"] by simp

lemma at_skip:
  "length pre \<le> p \<Longrightarrow> u32_at (pre @ post) p = u32_at post (p - length pre)"
  "length pre \<le> p \<Longrightarrow> u64_at (pre @ post) p = u64_at post (p - length pre)"
  by (simp_all add: u32_at_def u64_at_def)

lemma hdr_of_bytes: "hdr_of (hdr_bytes h @ rest) = h"
  by (cases h) (simp add: hdr_of_def hdr_bytes_def at_skip)

lemma file_of_bytes: "length (f_digest f) = 20 \<Longrightarrow> file_of (file_bytes f @ rest) = f"
  by (cases f) (simp add: file_of_def file_bytes_def at_skip)

lemma redirect_of_bytes: "redirect_of (redirect_bytes r @ rest) = r"
  by (cases r) (simp add: redirect_of_def redirect_bytes_def at_skip)

section \<open>Opening\<close>

record webroot =
  r_fd :: int
  r_ref :: u32
  r_map :: bytes          \<comment> \<open>the mapping, \<open>r_map_sz\<close> bytes\<close>
  r_num_edges :: nat
  r_num_redirect :: nat
  r_num_oid :: nat
  r_trie :: nat           \<comment> \<open>offsets of the tables in the mapping\<close>
  r_redir :: nat
  r_file :: nat
  r_strtab :: nat

text \<open>
  \<open>map_webroot\<close>: \<open>fstat\<close> and \<open>mmap\<close> may fail; the mapping is the start of the file.
\<close>

definition map_webroot :: "bool \<Rightarrow> bool \<Rightarrow> ofile \<Rightarrow> nat \<Rightarrow> bytes option" where
  "map_webroot fstat_ok mmap_ok f sz =
    (if \<not> fstat_ok then None
     else if length (f_data f) < sz then None
     else if \<not> mmap_ok then None
     else Some (take sz (f_data f)))"

text \<open>
  The outcome of \<open>webroot_open\<close>: the web root if it succeeded, and whether the descriptor
  and the mapping are still held.
\<close>

record open_outcome =
  o_root :: "webroot option"
  o_fd :: bool
  o_map :: bool

definition open_failed :: open_outcome where
  "open_failed = \<lparr>o_root = None, o_fd = False, o_map = False\<rparr>"

text \<open>The counts and the tables that follow the header in the mapping.\<close>

definition webroot_tables :: "int \<Rightarrow> bytes \<Rightarrow> webroot_hdr \<Rightarrow> webroot" where
  "webroot_tables fd m hdr =
    (let trie = HDR_SZ;
         redir = trie + unat (h_num_edges hdr) * DEDGE_SZ;
         files = redir + unat (h_num_redirect hdr) * REDIRECT_SZ;
         strtab = files + unat (h_num_file hdr) * FILE_SZ
     in \<lparr>r_fd = fd, r_ref = 1, r_map = m,
         r_num_edges = unat (h_num_edges hdr), r_num_redirect = unat (h_num_redirect hdr),
         r_num_oid = unat (h_num_redirect hdr + h_num_file hdr),
         r_trie = trie, r_redir = redir, r_file = files, r_strtab = strtab\<rparr>)"

definition webroot_open ::
  "bool \<Rightarrow> (int \<times> ofile) option \<Rightarrow> sysret list \<Rightarrow> bool \<Rightarrow> bool \<Rightarrow> open_outcome res" where
  "webroot_open calloc_ok opened s fstat_ok mmap_ok =
    (if \<not> calloc_ok then Inr open_failed
     else case opened of None \<Rightarrow> Inr open_failed
     | Some (fd, f) \<Rightarrow>
       rbind (fd_read s f HDR_SZ) (\<lambda>(ok, got, eof, s', f').
         if \<not> ok \<or> eof \<or> length got \<noteq> HDR_SZ then Inr open_failed
         else let hdr = hdr_of got in
         if h_magic hdr \<noteq> WEBROOT_MAGIC then Inr open_failed
         else if h_vers hdr \<noteq> WEBROOT_CURRENT_VER then Inr open_failed
         else case map_webroot fstat_ok mmap_ok f' (unat (h_files_begin hdr)) of
           None \<Rightarrow> Inr open_failed
         | Some m \<Rightarrow>
           let w = webroot_tables fd m hdr in
           if length m < r_strtab w + unat (h_strtab_sz hdr) then Inr open_failed
           else Inr \<lparr>o_root = Some w, o_fd = True, o_map = True\<rparr>))"

definition webroot_get_fd :: "webroot \<Rightarrow> int" where
  "webroot_get_fd r = r_fd r"

section \<open>Searching\<close>

text \<open>\<open>memcmp\<close> of two arrays of the same length: the sign of the first difference.\<close>

fun memcmp :: "bytes \<Rightarrow> bytes \<Rightarrow> int" where
  "memcmp (a # as) (b # bs) = (if a < b then -1 else if b < a then 1 else memcmp as bs)"
| "memcmp _ _ = 0"

definition memcmp_at :: "bytes \<Rightarrow> nat \<Rightarrow> bytes \<Rightarrow> nat \<Rightarrow> int res" where
  "memcmp_at buf pos s n =
    (if pos + n \<le> length buf \<and> n \<le> length s then Inr (memcmp (take n (drop pos buf)) (take n s))
     else Inl Out_of_bounds)"

definition map_at :: "webroot \<Rightarrow> nat \<Rightarrow> nat \<Rightarrow> bytes res" where
  "map_at r p n = (if p + n \<le> length (r_map r) then Inr (take n (drop p (r_map r))) else Inl Out_of_bounds)"

definition dedge_at :: "webroot \<Rightarrow> nat \<Rightarrow> trie_dedge res" where
  "dedge_at r k = rbind (map_at r (r_trie r + DEDGE_SZ * k) DEDGE_SZ) (\<lambda>bs. Inr (dedge_of bs))"

text \<open>
  \<open>trie_query\<close>: the edges \<open>re\<close> to \<open>re + num_edges\<close> of the table are searched for the string at
  \<open>pos\<close> in the request buffer.  The lengths compared are those of the edges, so the
  comparison may read behind the string, and the length of the rest may wrap.  Nothing in a
  file excludes a cycle of edges, hence the fuel.
\<close>

fun trie_query :: "nat \<Rightarrow> webroot \<Rightarrow> nat \<Rightarrow> nat \<Rightarrow> bytes \<Rightarrow> nat \<Rightarrow> nat \<Rightarrow> u32 res" where
  "trie_query 0 r re num_edges buf pos len = Inl Out_of_fuel"
| "trie_query (Suc fuel) r re num_edges buf pos len =
    (if num_edges = 0 then Inr GIDX_INVALID_OID
     else let i = num_edges div 2 in
       rbind (dedge_at r (re + i)) (\<lambda>d.
       rbind (memcmp_at buf pos (re_str d) (unat (re_strlen d))) (\<lambda>cmp.
         if cmp < 0 then trie_query fuel r re i buf pos len
         else if cmp > 0 then trie_query fuel r (re + (i + 1)) (num_edges - (i + 1)) buf pos len
         else let suff = unat (of_nat len - ucast (re_strlen d) :: u64) in
           if suff = 0 then Inr (re_oid d)
           else rassert (unat (re_edges_idx d) < r_num_edges r)
             (trie_query fuel r (unat (re_edges_idx d)) (unat (re_num_edges d)) buf (pos + unat (re_strlen d)) suff))))"

definition HTTP_FOUND :: nat where "HTTP_FOUND = 200"
definition HTTP_MOVED_PERMANENTLY :: nat where "HTTP_MOVED_PERMANENTLY = 301"
definition ETAG_SZ :: nat where "ETAG_SZ = 20"

text \<open>
  The result structure: vectors into the mapping are an offset and a length; the offset of a
  vector that only has its length set is unknown.
\<close>

datatype name_u = Data u64 u64 u32 bytes | Moved "nat option" nat | Unset

record webroot_name =
  mime_type :: "(nat \<times> nat) option"
  nm_u :: name_u
  nm_code :: nat

definition webroot_find :: "nat \<Rightarrow> webroot \<Rightarrow> bytes \<Rightarrow> nat \<Rightarrow> nat \<Rightarrow> webroot_name \<Rightarrow> (bool \<times> webroot_name) res" where
  "webroot_find fuel r buf pos len out =
    rbind (trie_query fuel r 0 1 buf pos len) (\<lambda>oid.
      if oid = GIDX_INVALID_OID then Inr (False, out)
      else let idx = unat oid in rassert (idx < r_num_oid r)
        (if idx < r_num_redirect r
         then rbind (map_at r (r_redir r + REDIRECT_SZ * idx) REDIRECT_SZ) (\<lambda>bs.
           let redir = redirect_of bs in
           if r_off redir = WEBROOT_INVALID_REDIRECT
           then Inr (True, out\<lparr>nm_code := unat (r_len redir), nm_u := Moved None (unat (r_len redir))\<rparr>)
           else Inr (True, out\<lparr>nm_code := HTTP_MOVED_PERMANENTLY,
                               nm_u := Moved (Some (unat (r_off redir))) (unat (r_len redir))\<rparr>))
         else rbind (map_at r (r_file r + FILE_SZ * (idx - r_num_redirect r)) FILE_SZ) (\<lambda>bs.
           let f = file_of bs in
           Inr (True, out\<lparr>nm_code := HTTP_FOUND,
             mime_type := Some (unat (f_type f), unat (f_type_len f)),
             nm_u := Data (f_off f) (f_len f) (f_modified f) (take ETAG_SZ (f_digest f))\<rparr>))))"

section \<open>Reference counts\<close>

text \<open>
  A null handle is ignored; the last reference unmaps the index, closes the descriptor and
  frees the web root, here \<open>None\<close>.
\<close>

definition webroot_unref :: "webroot option \<Rightarrow> webroot option" where
  "webroot_unref r = (case r of None \<Rightarrow> None
     | Some w \<Rightarrow> if r_ref w - 1 = 0 then None else Some (w\<lparr>r_ref := r_ref w - 1\<rparr>))"

definition webroot_ref :: "webroot \<Rightarrow> webroot" where
  "webroot_ref w = w\<lparr>r_ref := r_ref w + 1\<rparr>"

section \<open>The search finds what was written\<close>

lemma memcmp_zero: "length a = length b \<Longrightarrow> memcmp a b = 0 \<longleftrightarrow> a = b"
  by (induction a b rule: memcmp.induct) auto

lemma memcmp_hd: "a \<noteq> [] \<Longrightarrow> b \<noteq> [] \<Longrightarrow> (memcmp a b < 0 \<longrightarrow> hd a \<le> hd b) \<and> (memcmp a b > 0 \<longrightarrow> hd b \<le> hd a)"
  by (cases a; cases b) auto

lemma take_prefix_nul:
  assumes "0 \<notin> set c" "length c \<le> length s + 1 + length z"
  shows "take (length c) (s @ 0 # z) = c \<longleftrightarrow> prefix c s"
proof (cases "length c \<le> length s")
  case True
  then show ?thesis by (auto simp: prefix_def) (metis append_take_drop_id)
next
  case False
  then obtain k where "length c = length s + Suc k" by (metis add_Suc_right less_imp_Suc_add not_le)
  then have "0 \<in> set (take (length c) (s @ 0 # z))" by simp
  then have "take (length c) (s @ 0 # z) \<noteq> c" using assms(1) by metis
  then show ?thesis using False prefix_length_le[of c s] by blast
qed

lemma trie_find_skip:
  "\<forall>e \<in> set ys. \<not> prefix (e_cmp e) s \<Longrightarrow> trie_find (xs @ ys) s = trie_find xs s"
  "\<forall>e \<in> set xs. \<not> prefix (e_cmp e) s \<Longrightarrow> trie_find (xs @ ys) s = trie_find ys s"
proof -
  have app: "find P (xs @ ys) = (case find P xs of None \<Rightarrow> find P ys | r \<Rightarrow> r)" for P :: "trie_edge \<Rightarrow> bool"
    by (induction xs) auto
  have none: "\<forall>e \<in> set zs. \<not> P e \<Longrightarrow> find P zs = None" for P and zs :: "trie_edge list"
    by (induction zs) auto
  show "\<forall>e \<in> set ys. \<not> prefix (e_cmp e) s \<Longrightarrow> trie_find (xs @ ys) s = trie_find xs s"
    using none[of ys "\<lambda>e. prefix (e_cmp e) s"] unfolding trie_find.simps[of xs s] trie_find.simps[of "xs @ ys" s] app
    by (simp split: option.splits)
  show "\<forall>e \<in> set xs. \<not> prefix (e_cmp e) s \<Longrightarrow> trie_find (xs @ ys) s = trie_find ys s"
    using none[of xs "\<lambda>e. prefix (e_cmp e) s"] unfolding trie_find.simps[of ys s] trie_find.simps[of "xs @ ys" s] app
    by simp
qed

lemma edges_ok_sublists: "edges_ok (xs @ ys) \<Longrightarrow> edges_ok xs \<and> edges_ok ys"
  by (simp add: edges_ok_def sorted_wrt_append)

lemma edges_ok_order:
  "edges_ok (xs @ e # ys) \<Longrightarrow> (\<forall>x \<in> set xs. hd (e_cmp x) < hd (e_cmp e)) \<and> (\<forall>y \<in> set ys. hd (e_cmp e) < hd (e_cmp y))"
  by (simp add: edges_ok_def sorted_wrt_append)

lemma prefix_hd: "prefix c s \<Longrightarrow> c \<noteq> [] \<Longrightarrow> hd c = hd s"
  by (auto elim: prefixE)

lemma edge_ok_ne: "edge_ok e \<Longrightarrow> e_cmp e \<noteq> []"
  by (simp add: edge_ok_iff)

text \<open>One comparison of the search narrows the siblings without losing the edge.\<close>

lemma narrow_left:
  assumes "edges_ok (xs @ e # ys)" "hd s \<le> hd (e_cmp e)" "\<not> prefix (e_cmp e) s"
  shows "trie_find (xs @ e # ys) s = trie_find xs s"
proof (rule trie_find_skip(1), rule ballI)
  fix y assume y: "y \<in> set (e # ys)"
  then have "e_cmp y \<noteq> []" using edges_okD[OF assms(1), of y] edge_ok_ne[of y] by auto
  moreover have "y \<in> set ys \<Longrightarrow> hd s < hd (e_cmp y)" using edges_ok_order[OF assms(1)] assms(2) by fastforce
  ultimately show "\<not> prefix (e_cmp y) s" using assms(3) y prefix_hd[of "e_cmp y" s] by auto
qed

lemma narrow_right:
  assumes "edges_ok (xs @ e # ys)" "hd (e_cmp e) \<le> hd s" "\<not> prefix (e_cmp e) s"
  shows "trie_find (xs @ e # ys) s = trie_find ys s"
proof -
  have "\<forall>x \<in> set (xs @ [e]). \<not> prefix (e_cmp x) s"
  proof
    fix x assume x: "x \<in> set (xs @ [e])"
    then have "e_cmp x \<noteq> []" using edges_okD[OF assms(1), of x] edge_ok_ne by auto
    moreover have "x \<in> set xs \<Longrightarrow> hd (e_cmp x) < hd s" using edges_ok_order[OF assms(1)] assms(2) by fastforce
    ultimately show "\<not> prefix (e_cmp x) s" using assms(3) x prefix_hd[of "e_cmp x" s] by auto
  qed
  from trie_find_skip(2)[OF this, of ys] show ?thesis by simp
qed

lemma found_edge:
  assumes "edges_ok (xs @ e # ys)" "prefix (e_cmp e) s"
  shows "trie_find (xs @ e # ys) s =
    (let s' = drop (length (e_cmp e)) s in if s' = [] then e_terminal e else trie_find (e_edges e) s')"
proof -
  have e: "e_cmp e \<noteq> []" using edges_okD[OF assms(1), of e] edge_ok_ne by simp
  have "\<not> prefix (e_cmp x) s" if x: "x \<in> set xs" for x
    using edges_okD[OF assms(1), of x] edge_ok_ne[of x] edges_ok_order[OF assms(1)] x prefix_hd[of "e_cmp x" s]
      prefix_hd[OF assms(2) e] by auto
  then have "trie_find (xs @ e # ys) s = trie_find (e # ys) s" by (intro trie_find_skip(2)) blast
  then show ?thesis using assms(2) by (simp add: trie_find.simps[of "e # ys" s])
qed

text \<open>The object number the search returns for an entry.\<close>

definition oid_of :: "trie_entry option \<Rightarrow> u32" where
  "oid_of v = (case v of None \<Rightarrow> GIDX_INVALID_OID | Some v \<Rightarrow> t_oid v)"

text \<open>A web root whose mapping holds the records of a trie.\<close>

definition holds_trie :: "webroot \<Rightarrow> trie \<Rightarrow> bool" where
  "holds_trie r t \<longleftrightarrow> r_num_edges r = length (trie_image t) \<and> length (trie_image t) < 2 ^ 32 \<and>
     (\<forall>k < length (trie_image t). dedge_at r k = Inr (trie_image t ! k))"

text \<open>
  A string in a request buffer: followed by a NUL, and by as many bytes as the longest
  comparison may read.
\<close>

definition in_buffer :: "bytes \<Rightarrow> nat \<Rightarrow> bytes \<Rightarrow> bool" where
  "in_buffer buf pos s \<longleftrightarrow> (\<exists>z. drop pos buf = s @ 0 # z \<and> RE_EDGE_MAX \<le> length z) \<and> 0 \<notin> set s \<and> length s < 2 ^ 63"

lemma in_buffer_memcmp:
  assumes "in_buffer buf pos s" "length c \<le> RE_EDGE_MAX" "0 \<notin> set c"
  shows "\<exists>x. memcmp_at buf pos (c @ replicate (RE_EDGE_MAX - length c) 0) (length c) = Inr x \<and>
    (x = 0 \<longleftrightarrow> prefix c s) \<and> (c \<noteq> [] \<and> s \<noteq> [] \<longrightarrow> (x < 0 \<longrightarrow> hd s \<le> hd c) \<and> (0 < x \<longrightarrow> hd c \<le> hd s))"
proof -
  obtain z where z: "drop pos buf = s @ 0 # z" "RE_EDGE_MAX \<le> length z" using assms(1) by (auto simp: in_buffer_def)
  let ?a = "take (length c) (s @ 0 # z)"
  have len: "length (drop pos buf) = length s + 1 + length z" using z by simp
  then have "pos + length c \<le> length buf" using assms(2) z(2) by simp
  then have m: "memcmp_at buf pos (c @ replicate (RE_EDGE_MAX - length c) 0) (length c) = Inr (memcmp ?a c)"
    using z(1) by (simp add: memcmp_at_def)
  have a: "length ?a = length c" using z(2) assms(2) by simp
  have "memcmp ?a c = 0 \<longleftrightarrow> prefix c s"
    using memcmp_zero[OF a] take_prefix_nul[OF assms(3), of s z] z(2) assms(2) by simp
  moreover have "?a \<noteq> [] \<and> hd ?a = hd s" if "c \<noteq> []" "s \<noteq> []" using that by (cases s; cases c) auto
  ultimately show ?thesis using m memcmp_hd[of ?a c] by auto
qed

lemma in_buffer_drop: "in_buffer buf pos s \<Longrightarrow> k \<le> length s \<Longrightarrow> in_buffer buf (pos + k) (drop k s)"
proof -
  assume b: "in_buffer buf pos s" "k \<le> length s"
  then obtain z where z: "drop pos buf = s @ 0 # z" "RE_EDGE_MAX \<le> length z" by (auto simp: in_buffer_def)
  have "drop (pos + k) buf = drop k (drop pos buf)" by (simp add: add.commute)
  also have "\<dots> = drop k s @ 0 # z" using z(1) b(2) by simp
  finally show ?thesis using b z(2) set_drop_subset[of k s] by (auto simp: in_buffer_def)
qed

lemma suffix_length:
  assumes "k \<le> length s" "length s < 2 ^ 63" "k < 256"
  shows "unat (of_nat (length s) - ucast (of_nat k :: byte) :: u64) = length (drop k s)"
proof -
  have "ucast (of_nat k :: byte) = (of_nat k :: u64)"
    using assms(3) by (simp add: ucast_eq unat_of_nat uint_nat take_bit_nat_eq_self unsigned_of_nat)
  then have "of_nat (length s) - ucast (of_nat k :: byte) = (of_nat (length s - k) :: u64)"
    using assms(1) by (simp add: of_nat_diff)
  then show ?thesis using assms(2) by (simp add: unsigned_of_nat take_bit_nat_eq_self)
qed

lemma holds_trie_node:
  assumes "holds_trie r t" "k < length (r_bfs_order t)"
  shows "dedge_at r k = Inr (node_dedge (r_bfs_order t) (r_bfs_order t ! k))"
  using assms by (simp add: holds_trie_def trie_image_def)

lemma first_child_less:
  "first_child order n = Inr j \<Longrightarrow> e_edges (snd n) \<noteq> [] \<longrightarrow> j + length (e_edges (snd n)) \<le> L \<and> 0 < j \<Longrightarrow> 0 < L \<Longrightarrow> j < L"
proof (cases "e_edges (snd n) = []")
  case False
  assume "e_edges (snd n) \<noteq> [] \<longrightarrow> j + length (e_edges (snd n)) \<le> L \<and> 0 < j"
  moreover have "0 < length (e_edges (snd n))" using False by simp
  ultimately show ?thesis using False by linarith
qed (auto simp: first_child_def split: prod.splits)

lemma trie_query_edges:
  assumes t: "trie_for ents t cs" and h: "holds_trie r t"
  shows "es = take n (drop i (map snd (r_bfs_order t))) \<Longrightarrow> i + n \<le> length (r_bfs_order t) \<Longrightarrow> edges_ok es \<Longrightarrow>
    in_buffer buf pos s \<Longrightarrow> s \<noteq> [] \<Longrightarrow> n + 256 * length s < fuel \<Longrightarrow>
    trie_query fuel r i n buf pos (length s) = Inr (oid_of (trie_find es s))"
proof (induction fuel arbitrary: es i n pos s)
  case (Suc fuel)
  let ?o = "r_bfs_order t"
  have bo: "?o = do_layout_bfs [([], Edge [] None cs)]" using t by (simp add: trie_for_def)
  show ?case
  proof (cases "n = 0")
    case True
    then show ?thesis using Suc.prems(1) by (simp add: trie_find.simps oid_of_def)
  next
    case False
    let ?m = "n div 2"
    have m: "?m < n" "i + ?m < length ?o" using False Suc.prems(2) by auto
    define e where "e = snd (?o ! (i + ?m))"
    have es: "es = take ?m es @ e # drop (?m + 1) es"
    proof -
      have "?m < length es" using Suc.prems(1,2) m by simp
      moreover have "es ! ?m = e" using Suc.prems(1) m by (simp add: e_def)
      ultimately show ?thesis by (metis Suc_eq_plus1 id_take_nth_drop)
    qed
    have left: "take ?m es = take ?m (drop i (map snd ?o))" using Suc.prems(1) m by (simp add: min_def)
    have right: "drop (?m + 1) es = take (n - (?m + 1)) (drop (i + (?m + 1)) (map snd ?o))"
      using Suc.prems(1) by (simp add: drop_take add.commute)
    have ok: "edges_ok (take ?m es @ e # drop (?m + 1) es)" using Suc.prems(3) es by simp
    then have eok: "edge_ok e" using edges_okD by auto
    then have c: "e_cmp e \<noteq> []" "length (e_cmp e) \<le> RE_EDGE_MAX" "0 \<notin> set (e_cmp e)" "edges_ok (e_edges e)"
      by (simp_all add: edge_ok_iff)
    obtain j where j: "first_child ?o (?o ! (i + ?m)) = Inr j"
      "e_edges e \<noteq> [] \<longrightarrow> j + length (e_edges e) \<le> length ?o \<and> 0 < j"
      "take (length (e_edges e)) (drop j (map snd ?o)) = e_edges e"
      using first_child_spec[OF bo nth_mem[OF m(2)]] unfolding e_def by blast
    let ?d = "edge_dedge e j"
    have d: "dedge_at r (i + ?m) = Inr ?d" using holds_trie_node[OF h m(2)] j(1) by (simp add: node_dedge_def e_def)
    have sl: "unat (re_strlen ?d) = length (e_cmp e)" "re_strlen ?d = of_nat (length (e_cmp e))"
      using c(2) by (simp_all add: edge_dedge_def RE_EDGE_MAX_def unsigned_of_nat take_bit_nat_eq_self)
    obtain x where x: "memcmp_at buf pos (re_str ?d) (length (e_cmp e)) = Inr x" "x = 0 \<longleftrightarrow> prefix (e_cmp e) s"
      "x < 0 \<Longrightarrow> hd s \<le> hd (e_cmp e)" "0 < x \<Longrightarrow> hd (e_cmp e) \<le> hd s"
      using in_buffer_memcmp[OF Suc.prems(4) c(2,3)] c(1) Suc.prems(5) by (auto simp: edge_dedge_def)
    consider (lt) "x < 0" | (gt) "0 < x" | (eq) "x = 0" by linarith
    then show ?thesis
    proof cases
      case lt
      have "trie_query fuel r i ?m buf pos (length s) = Inr (oid_of (trie_find (take ?m es) s))"
        using Suc.IH[OF left] Suc.prems(2,4-6) m edges_ok_sublists[OF ok] by simp
      moreover have "trie_find es s = trie_find (take ?m es) s"
        using narrow_left[OF ok x(3)[OF lt]] x(2) lt es by simp
      ultimately show ?thesis using False d x(1) sl lt by (simp add: Let_def)
    next
      case gt
      have "edges_ok (drop (?m + 1) es)" using edges_ok_sublists[of "take ?m es @ [e]" "drop (?m + 1) es"] ok by simp
      then have "trie_query fuel r (i + (?m + 1)) (n - (?m + 1)) buf pos (length s) = Inr (oid_of (trie_find (drop (?m + 1) es) s))"
        using Suc.IH[OF right] Suc.prems(2,4-6) m by simp
      moreover have "trie_find es s = trie_find (drop (?m + 1) es) s"
        using narrow_right[OF ok x(4)[OF gt]] x(2) gt es by simp
      ultimately show ?thesis using False d x(1) sl gt by (simp add: Let_def)
    next
      case eq
      let ?k = "length (e_cmp e)" let ?s = "drop ?k s"
      have p: "prefix (e_cmp e) s" "?k \<le> length s" using eq x(2) prefix_length_le by auto
      have suff: "unat (of_nat (length s) - ucast (re_strlen ?d) :: u64) = length ?s"
        using suffix_length[OF p(2)] Suc.prems(4) c(2) sl(2) by (simp add: in_buffer_def RE_EDGE_MAX_def)
      have find: "trie_find es s = (if ?s = [] then e_terminal e else trie_find (e_edges e) ?s)"
        using found_edge[OF ok p(1)] es by (simp add: Let_def)
      have oid: "re_oid ?d = oid_of (e_terminal e)" by (simp add: edge_dedge_def oid_of_def split: option.splits)
      have lt32: "length ?o < 2 ^ 32" "r_num_edges r = length ?o" using h by (auto simp: holds_trie_def trie_image_def)
      have jo: "j < length ?o" using first_child_less[OF j(1) j(2)[unfolded e_def]] m(2) by linarith
      have ne: "unat (re_edges_idx ?d) = j" "unat (re_num_edges ?d) = length (e_edges e)"
        using jo lt32(1) edges_ok_few[OF c(4)] by (simp_all add: edge_dedge_def unsigned_of_nat take_bit_nat_eq_self)
      have rec: "trie_query fuel r j (length (e_edges e)) buf (pos + ?k) (length ?s) = Inr (oid_of (trie_find (e_edges e) ?s))"
        if "?s \<noteq> []"
      proof (rule Suc.IH)
        show "e_edges e = take (length (e_edges e)) (drop j (map snd ?o))" using j(3) by simp
        show "j + length (e_edges e) \<le> length ?o" using j(2) jo by (cases "e_edges e = []") auto
        show "in_buffer buf (pos + ?k) ?s" by (rule in_buffer_drop[OF Suc.prems(4) p(2)])
        have "0 < ?k" using c(1) by simp
        then have "length ?s + 1 \<le> length s" using p(2) unfolding length_drop by linarith
        then show "length (e_edges e) + 256 * length ?s < fuel"
          using Suc.prems(6) edges_ok_few[OF c(4)] False by linarith
      qed (use c that in auto)
      show ?thesis
      proof (cases "?s = []")
        case True
        then have "length ?s = 0" by simp
        then show ?thesis using False d x(1) sl(1) eq suff find oid True by (simp add: Let_def)
      next
        case ns: False
        then have "length ?s \<noteq> 0" by simp
        then show ?thesis using False d x(1) sl(1) eq suff find ns rec[OF ns] ne jo lt32(2) by (simp add: Let_def)
      qed
    qed
  qed
qed simp

text \<open>From the root edge, which matches the empty string, with enough fuel.\<close>

lemma trie_query_root:
  assumes t: "trie_for ents t cs" and h: "holds_trie r t" and b: "in_buffer buf pos s" "s \<noteq> []"
    and fuel: "256 * (length s + 2) \<le> fuel"
  shows "trie_query fuel r 0 1 buf pos (length s) = Inr (oid_of (map_of (map (\<lambda>u. (t_str u, u)) ents) s))"
proof -
  let ?o = "r_bfs_order t" let ?root = "Edge [] None cs"
  have bo: "?o = do_layout_bfs [([], ?root)]" and cs: "edges_ok cs"
    and find: "trie_find cs s = map_of (map (\<lambda>u. (t_str u, u)) ents) s" using t b(2) by (auto simp: trie_for_def)
  have o0: "?o ! 0 = ([], ?root)" "0 < length ?o" using bfs_starts[of "[([], ?root)]"] unfolding bo by auto
  obtain j where j: "first_child ?o ([], ?root) = Inr j" "cs \<noteq> [] \<longrightarrow> j + length cs \<le> length ?o \<and> 0 < j"
    "take (length cs) (drop j (map snd ?o)) = cs"
    using first_child_spec[OF bo, of "([], ?root)"] o0 by (metis nth_mem snd_conv trie_edge.sel(3))
  let ?d = "edge_dedge ?root j"
  have d: "dedge_at r 0 = Inr ?d" using holds_trie_node[OF h o0(2)] o0(1) j(1) by (simp add: node_dedge_def)
  have lt32: "length ?o < 2 ^ 32" "r_num_edges r = length ?o" using h by (auto simp: holds_trie_def trie_image_def)
  have jo: "j < length ?o" using first_child_less[OF j(1)] j(2) o0(2) by simp
  have f: "unat (re_edges_idx ?d) = j" "unat (re_num_edges ?d) = length cs" "re_strlen ?d = 0"
    using jo lt32(1) edges_ok_few[OF cs] by (simp_all add: edge_dedge_def unsigned_of_nat take_bit_nat_eq_self)
  obtain k where k: "fuel = Suc k" using fuel by (cases fuel) auto
  have "pos \<le> length buf"
  proof -
    obtain z where "drop pos buf = s @ 0 # z" using b(1) by (auto simp: in_buffer_def)
    then have "drop pos buf \<noteq> []" by simp
    then show ?thesis by (metis drop_all linear)
  qed
  then have "memcmp_at buf pos (re_str ?d) 0 = Inr 0" by (simp add: memcmp_at_def)
  moreover have "unat (of_nat (length s) :: u64) = length s" "length s \<noteq> 0"
    using b by (simp_all add: in_buffer_def unsigned_of_nat take_bit_nat_eq_self)
  moreover have "trie_query k r j (length cs) buf pos (length s) = Inr (oid_of (trie_find cs s))"
    by (rule trie_query_edges[OF t h j(3)[symmetric] _ cs b]) (use j(2) jo fuel k edges_ok_few[OF cs] in \<open>cases "cs = []"; auto\<close>)+
  ultimately show ?thesis using d f jo lt32(2) find by (simp add: k Let_def)
qed

section \<open>Bounds of an opened web root\<close>

lemma map_at_entry:
  assumes "p + k * sz \<le> q" "q \<le> length (r_map r)" "i < k"
  shows "\<exists>bs. map_at r (p + sz * i) sz = Inr bs"
proof -
  have "sz * i + sz \<le> k * sz" using assms(3) by (metis Suc_leI add.commute mult.commute mult_Suc mult_le_mono1)
  then show ?thesis using assms(1,2) by (simp add: map_at_def)
qed

text \<open>What a successful \<open>webroot_open\<close> has checked.\<close>

definition webroot_ok :: "webroot \<Rightarrow> nat \<Rightarrow> nat \<Rightarrow> bool" where
  "webroot_ok r nf strsz \<longleftrightarrow> r_trie r = HDR_SZ \<and> r_redir r = r_trie r + r_num_edges r * DEDGE_SZ \<and>
     r_file r = r_redir r + r_num_redirect r * REDIRECT_SZ \<and> r_strtab r = r_file r + nf * FILE_SZ \<and>
     r_strtab r + strsz \<le> length (r_map r) \<and> r_num_oid r \<le> r_num_redirect r + nf"

lemma unat_plus_le: "unat (a + b :: u32) \<le> unat a + unat b"
  by (simp add: unat_word_ariths)

lemma webroot_open_ok:
  assumes "webroot_open c op s fs mm = Inr out"
  shows "o_root out = None \<Longrightarrow> out = open_failed"
    and "o_root out = Some r \<Longrightarrow> \<exists>nf strsz. webroot_ok r nf strsz \<and> r_ref r = 1"
proof -
  show "out = open_failed" if "o_root out = None"
    using assms that
    by (auto simp: webroot_open_def rbind_Inr_iff Let_def map_webroot_def split: if_splits option.splits)
  assume r: "o_root out = Some r"
  then obtain got m fd where "r = webroot_tables fd m (hdr_of got)"
    "\<not> length m < r_strtab r + unat (h_strtab_sz (hdr_of got))"
    using assms by (auto simp: webroot_open_def open_failed_def rbind_Inr_iff Let_def split: if_splits option.splits)
  then show "\<exists>nf strsz. webroot_ok r nf strsz \<and> r_ref r = 1"
    by (intro exI[of _ "unat (h_num_file (hdr_of got))"] exI[of _ "unat (h_strtab_sz (hdr_of got))"])
      (simp add: webroot_ok_def unat_plus_le webroot_tables_def Let_def)
qed

section \<open>Properties\<close>



end
