(* ===== verification/Sha1.thy ===== *)
theory Sha1
  imports Mem
begin

text \<open>
  The SHA-1 routine of \<^verbatim>\<open>sha1.c\<close>, which computes the entity tags of the files of a web
  root, with its sixteen-word ring buffer and its buffering of partial blocks, and the
  standard's definition (FIPS 180), to which it is proved equivalent.
\<close>

section \<open>The code\<close>

type_synonym regs = "u32 \<times> u32 \<times> u32 \<times> u32 \<times> u32"

record sha_ctx =
  s_size :: u64
  s_H :: regs
  s_W :: bytes          \<comment> \<open>\<open>unsigned int W[16]\<close>, used as an array of 64 bytes\<close>

definition get_be32 :: "bytes \<Rightarrow> nat \<Rightarrow> u32" where
  "get_be32 b p = word_cat (b ! p) (word_cat (b ! (p + 1)) (word_cat (b ! (p + 2)) (b ! (p + 3)) :: u16) :: 24 word)"

definition put_be32 :: "u32 \<Rightarrow> bytes" where
  "put_be32 v = [ucast (drop_bit 24 v), ucast (drop_bit 16 v), ucast (drop_bit 8 v), ucast v]"

definition SHA_ROL :: "u32 \<Rightarrow> nat \<Rightarrow> u32" where "SHA_ROL x n = word_rotl n x"

definition SHA_ROR :: "u32 \<Rightarrow> nat \<Rightarrow> u32" where "SHA_ROR x n = word_rotr n x"

text \<open>
  \<open>SHA_ROUND\<close> on the registers in the order in which round \<open>t\<close> names them: the round changes
  \<open>E\<close> and \<open>B\<close>, and the next one takes them in the order \<open>E, A, B, C, D\<close>.
\<close>

definition sha_round :: "u32 \<Rightarrow> (u32 \<Rightarrow> u32 \<Rightarrow> u32 \<Rightarrow> u32) \<Rightarrow> u32 \<Rightarrow> regs \<Rightarrow> regs" where
  "sha_round temp fn constant = (\<lambda>(A, B, C, D, E).
     (E + (temp + SHA_ROL A 5 + fn B C D + constant), A, SHA_ROR B 2, C, D))"

definition T_0_19 :: "u32 \<Rightarrow> regs \<Rightarrow> regs" where
  "T_0_19 temp = sha_round temp (\<lambda>B C D. ((C XOR D) AND B) XOR D) 0x5a827999"

definition T_20_39 :: "u32 \<Rightarrow> regs \<Rightarrow> regs" where
  "T_20_39 temp = sha_round temp (\<lambda>B C D. B XOR C XOR D) 0x6ed9eba1"

definition T_40_59 :: "u32 \<Rightarrow> regs \<Rightarrow> regs" where
  "T_40_59 temp = sha_round temp (\<lambda>B C D. (B AND C) + (D AND (B XOR C))) 0x8f1bbcdc"

definition T_60_79 :: "u32 \<Rightarrow> regs \<Rightarrow> regs" where
  "T_60_79 temp = sha_round temp (\<lambda>B C D. B XOR C XOR D) 0xca62c1d6"

definition SHA_MIX :: "u32 list \<Rightarrow> nat \<Rightarrow> u32" where
  "SHA_MIX a t = SHA_ROL (a ! ((t + 13) mod 16) XOR a ! ((t + 8) mod 16) XOR a ! ((t + 2) mod 16) XOR a ! (t mod 16)) 1"

definition sha_step :: "bytes \<Rightarrow> u32 list \<times> regs \<Rightarrow> nat \<Rightarrow> u32 list \<times> regs" where
  "sha_step block = (\<lambda>(a, r) t.
     let temp = (if t < 16 then get_be32 block (t * 4) else SHA_MIX a t) in
     (a[t mod 16 := temp],
      (if t < 20 then T_0_19 else if t < 40 then T_20_39 else if t < 60 then T_40_59 else T_60_79) temp r))"

definition regs_add :: "regs \<Rightarrow> regs \<Rightarrow> regs" where
  "regs_add = (\<lambda>(h0, h1, h2, h3, h4) (a, b, c, d, e). (h0 + a, h1 + b, h2 + c, h3 + d, h4 + e))"

text \<open>The array is written before it is read, its initial content does not matter.\<close>

definition blk_SHA1_Block :: "regs \<Rightarrow> bytes \<Rightarrow> regs" where
  "blk_SHA1_Block h block = regs_add h (snd (foldl (sha_step block) (replicate 16 0, h) [0..<80]))"

definition blk_SHA1_Init :: sha_ctx where
  "blk_SHA1_Init = \<lparr>s_size = 0, s_H = (0x67452301, 0xefcdab89, 0x98badcfe, 0x10325476, 0xc3d2e1f0),
     s_W = replicate 64 0\<rparr>"

definition blit :: "bytes \<Rightarrow> nat \<Rightarrow> bytes \<Rightarrow> bytes" where
  "blit dst p src = take p dst @ src @ drop (p + length src) dst"

fun sha_blocks :: "nat \<Rightarrow> regs \<Rightarrow> bytes \<Rightarrow> regs \<times> bytes" where
  "sha_blocks 0 h data = (h, data)"
| "sha_blocks (Suc n) h data =
    (if 64 \<le> length data then sha_blocks n (blk_SHA1_Block h (take 64 data)) (drop 64 data) else (h, data))"

text \<open>
  \<open>blk_SHA1_Update\<close>: fill a partial block, hash full blocks straight from the data, keep
  the rest.  The loop over full blocks runs at most as often as there are bytes.
\<close>

definition sha_whole :: "sha_ctx \<Rightarrow> bytes \<Rightarrow> sha_ctx" where
  "sha_whole ctx data =
    (case sha_blocks (length data) (s_H ctx) data of (h, rest) \<Rightarrow>
       ctx\<lparr>s_H := h, s_W := (if rest = [] then s_W ctx else blit (s_W ctx) 0 rest)\<rparr>)"

definition blk_SHA1_Update :: "sha_ctx \<Rightarrow> bytes \<Rightarrow> sha_ctx" where
  "blk_SHA1_Update ctx data =
    (let lenW = unat (s_size ctx AND 63); ctx = ctx\<lparr>s_size := s_size ctx + of_nat (length data)\<rparr> in
     if lenW \<noteq> 0
     then let left = (if length data < 64 - lenW then length data else 64 - lenW);
              ctx = ctx\<lparr>s_W := blit (s_W ctx) lenW (take left data)\<rparr> in
       if (lenW + left) mod 64 \<noteq> 0 then ctx
       else sha_whole (ctx\<lparr>s_H := blk_SHA1_Block (s_H ctx) (s_W ctx)\<rparr>) (drop left data)
     else sha_whole ctx data)"

definition sha_pad :: "nat \<Rightarrow> bytes" where
  "sha_pad n = take n (0x80 # replicate 63 0)"

definition blk_SHA1_Final :: "sha_ctx \<Rightarrow> bytes" where
  "blk_SHA1_Final ctx =
    (let padlen = put_be32 (ucast (drop_bit 29 (s_size ctx))) @ put_be32 (ucast (push_bit 3 (s_size ctx)));
         i = int (unat (s_size ctx AND 63));
         ctx = blk_SHA1_Update ctx (sha_pad (1 + nat ((55 - i) mod 64)));
         ctx = blk_SHA1_Update ctx padlen
     in case s_H ctx of (a, b, c, d, e) \<Rightarrow> put_be32 a @ put_be32 b @ put_be32 c @ put_be32 d @ put_be32 e)"

section \<open>The standard\<close>

definition fips_ch :: "u32 \<Rightarrow> u32 \<Rightarrow> u32 \<Rightarrow> u32" where "fips_ch x y z = (x AND y) XOR (NOT x AND z)"
definition fips_parity :: "u32 \<Rightarrow> u32 \<Rightarrow> u32 \<Rightarrow> u32" where "fips_parity x y z = x XOR y XOR z"
definition fips_maj :: "u32 \<Rightarrow> u32 \<Rightarrow> u32 \<Rightarrow> u32" where "fips_maj x y z = (x AND y) XOR (x AND z) XOR (y AND z)"

definition fips_f :: "nat \<Rightarrow> u32 \<Rightarrow> u32 \<Rightarrow> u32 \<Rightarrow> u32" where
  "fips_f t = (if t < 20 then fips_ch else if t < 40 then fips_parity else if t < 60 then fips_maj else fips_parity)"

definition fips_K :: "nat \<Rightarrow> u32" where
  "fips_K t = (if t < 20 then 0x5a827999 else if t < 40 then 0x6ed9eba1 else if t < 60 then 0x8f1bbcdc else 0xca62c1d6)"

fun fips_W :: "bytes \<Rightarrow> nat \<Rightarrow> u32" where
  "fips_W M t = (if t < 16 then get_be32 M (4 * t)
     else word_rotl 1 (fips_W M (t - 3) XOR fips_W M (t - 8) XOR fips_W M (t - 14) XOR fips_W M (t - 16)))"

declare fips_W.simps [simp del]

definition fips_round :: "bytes \<Rightarrow> regs \<Rightarrow> nat \<Rightarrow> regs" where
  "fips_round M = (\<lambda>(a, b, c, d, e) t.
     (word_rotl 5 a + fips_f t b c d + e + fips_K t + fips_W M t, a, word_rotl 30 b, c, d))"

definition fips_compress :: "regs \<Rightarrow> bytes \<Rightarrow> regs" where
  "fips_compress h M = regs_add h (foldl (fips_round M) h [0..<80])"

text \<open>Hashing the full blocks of a string; what is left over.\<close>

function fips_absorb :: "regs \<Rightarrow> bytes \<Rightarrow> regs \<times> bytes" where
  "fips_absorb h bs = (if length bs < 64 then (h, bs) else fips_absorb (fips_compress h (take 64 bs)) (drop 64 bs))"
  by pat_completeness auto
termination
  by (relation "measure (\<lambda>(h, bs). length bs)") auto

declare fips_absorb.simps [simp del]

definition be64 :: "u64 \<Rightarrow> bytes" where
  "be64 x = put_be32 (ucast (drop_bit 32 x)) @ put_be32 (ucast x)"

text \<open>A one bit, as few zeros as fill a block up to its last eight bytes, the length in bits.\<close>

definition fips_pad :: "bytes \<Rightarrow> bytes" where
  "fips_pad m = m @ 0x80 # replicate (nat ((55 - int (length m)) mod 64)) 0 @ be64 (of_nat (8 * length m))"

definition fips_sha1 :: "bytes \<Rightarrow> bytes" where
  "fips_sha1 m = (case fst (fips_absorb (s_H blk_SHA1_Init) (fips_pad m)) of (a, b, c, d, e) \<Rightarrow>
     put_be32 a @ put_be32 b @ put_be32 c @ put_be32 d @ put_be32 e)"

section \<open>Rounds\<close>

lemma ch_eq: "((C XOR D) AND B) XOR D = fips_ch B C (D :: u32)"
  unfolding fips_ch_def by (rule bit_word_eqI) (auto simp: bit_simps)

lemma maj_eq: "(B AND C) + (D AND (B XOR C)) = fips_maj B C (D :: u32)"
proof -
  have "(B AND C) AND (D AND (B XOR C)) = 0" by (rule bit_word_eqI) (auto simp: bit_simps)
  then have "(B AND C) + (D AND (B XOR C)) = (B AND C) OR (D AND (B XOR C))" by (rule disjunctive_add_eq_or)
  also have "\<dots> = fips_maj B C D" unfolding fips_maj_def by (rule bit_word_eqI) (auto simp: bit_simps)
  finally show ?thesis .
qed

lemma ror_eq: "SHA_ROR B 2 = word_rotl 30 (B :: u32)"
  unfolding SHA_ROR_def by (rule bit_word_eqI) (auto simp: bit_word_rotl_iff bit_word_rotr_iff)

lemma round_eq:
  "t < 80 \<Longrightarrow> (if t < 20 then T_0_19 else if t < 40 then T_20_39 else if t < 60 then T_40_59 else T_60_79) (fips_W M t) r = fips_round M r t"
  by (cases r) (simp add: T_0_19_def T_20_39_def T_40_59_def T_60_79_def sha_round_def fips_round_def fips_f_def
    fips_K_def fips_parity_def ch_eq maj_eq ror_eq SHA_ROL_def add_ac)

text \<open>The ring buffer holds the last sixteen words of the message schedule.\<close>

definition ring_ok :: "bytes \<Rightarrow> nat \<Rightarrow> u32 list \<Rightarrow> bool" where
  "ring_ok M n a \<longleftrightarrow> length a = 16 \<and> (\<forall>t. t < n \<and> n \<le> t + 16 \<longrightarrow> a ! (t mod 16) = fips_W M t)"

lemma ring_mod: "16 \<le> t \<Longrightarrow> (t + 13) mod 16 = (t - 3) mod 16 \<and> (t + 8) mod 16 = (t - 8) mod (16 :: nat) \<and>
    (t + 2) mod 16 = (t - 14) mod 16 \<and> t mod 16 = (t - 16) mod 16"
proof -
  assume "16 \<le> t"
  then obtain k where "t = k + 16" by (metis add.commute le_Suc_ex)
  moreover have "(j + 16) mod 16 = j mod 16" for j :: nat by simp
  from this[of "k + 13"] this[of "k + 8"] this[of "k + 2"] this[of k]
  have "(k + 29) mod 16 = (k + 13) mod 16 \<and> (k + 24) mod 16 = (k + 8) mod 16 \<and> (k + 18) mod 16 = (k + 2) mod 16 \<and> (k + 16) mod 16 = k mod 16"
    by (simp only: add.assoc) simp
  ultimately show ?thesis by (simp only: add.assoc) (simp add: add.commute)
qed

lemma ring_mix: "ring_ok M t a \<Longrightarrow> 16 \<le> t \<Longrightarrow> SHA_MIX a t = fips_W M t"
  using ring_mod[of t] by (simp add: SHA_MIX_def SHA_ROL_def ring_ok_def fips_W.simps[of M t])

lemma ring_update: "ring_ok M t a \<Longrightarrow> ring_ok M (Suc t) (a[t mod 16 := fips_W M t])"
proof -
  assume r: "ring_ok M t a"
  have "a[t mod 16 := fips_W M t] ! (u mod 16) = fips_W M u" if "u < Suc t" "Suc t \<le> u + 16" for u
  proof (cases "u = t")
    case True
    then show ?thesis using r by (simp add: ring_ok_def)
  next
    case False
    then have "t mod 16 \<noteq> u mod 16"
      using that mod_eq_dvd_iff_nat[of u t 16] by (auto dest: dvd_imp_le)
    then show ?thesis using r that False by (simp add: ring_ok_def)
  qed
  then show ?thesis using r by (simp add: ring_ok_def)
qed

lemma sha_step_eq:
  "ring_ok M t a \<Longrightarrow> t < 80 \<Longrightarrow> sha_step M (a, r) t = (a[t mod 16 := fips_W M t], fips_round M r t)"
proof -
  assume a: "ring_ok M t a" "t < 80"
  have "(if t < 16 then get_be32 M (t * 4) else SHA_MIX a t) = fips_W M t"
    using ring_mix[OF a(1)] by (simp add: fips_W.simps[of M t] mult.commute)
  then show ?thesis using round_eq[OF a(2), of M r] unfolding sha_step_def by (simp add: Let_def)
qed

lemma sha_steps_eq:
  "n \<le> 80 \<Longrightarrow> length a0 = 16 \<Longrightarrow> \<exists>a. foldl (sha_step M) (a0, h) [0..<n] = (a, foldl (fips_round M) h [0..<n]) \<and> ring_ok M n a"
proof (induction n)
  case 0
  then show ?case by (simp add: ring_ok_def)
next
  case (Suc n)
  then obtain a where a: "foldl (sha_step M) (a0, h) [0..<n] = (a, foldl (fips_round M) h [0..<n])" "ring_ok M n a" by auto
  then show ?case using sha_step_eq[OF a(2)] ring_update[OF a(2)] Suc.prems(1) by simp
qed

lemma block_eq: "blk_SHA1_Block h M = fips_compress h M"
  using sha_steps_eq[of 80 "replicate 16 0" M h] by (auto simp: blk_SHA1_Block_def fips_compress_def simp del: upt_Suc)

section \<open>Buffering\<close>

lemma absorb_short: "length bs < 64 \<Longrightarrow> fips_absorb h bs = (h, bs)"
  by (simp add: fips_absorb.simps)

lemma absorb_block: "length b = 64 \<Longrightarrow> fips_absorb h (b @ bs) = fips_absorb (fips_compress h b) bs"
  by (simp add: fips_absorb.simps[of h])

lemma absorb_append: "fips_absorb h (xs @ ys) = (case fips_absorb h xs of (h', r) \<Rightarrow> fips_absorb h' (r @ ys))"
proof (induction h xs rule: fips_absorb.induct)
  case (1 h bs)
  show ?case
  proof (cases "length bs < 64")
    case False
    then have "fips_absorb h (bs @ ys) = fips_absorb (fips_compress h (take 64 bs)) (drop 64 bs @ ys)"
      using absorb_block[of "take 64 bs" h "drop 64 bs @ ys"] by (simp flip: append.assoc)
    then show ?thesis using 1[OF False] False by (simp add: fips_absorb.simps[of h bs])
  qed (simp add: absorb_short)
qed

lemma absorb_rest: "fips_absorb h bs = (h', r) \<Longrightarrow> length r = length bs mod 64"
proof (induction h bs rule: fips_absorb.induct)
  case (1 h bs)
  show ?case
  proof (cases "length bs < 64")
    case True
    then show ?thesis using 1(2) by (simp add: absorb_short)
  next
    case False
    then have "length r = (length bs - 64) mod 64" using 1 by (simp add: fips_absorb.simps[of h bs])
    then show ?thesis using False by (simp add: le_mod_geq not_less)
  qed
qed

lemma sha_blocks_absorb: "length data \<le> n \<Longrightarrow> sha_blocks n h data = fips_absorb h data"
proof (induction n h data rule: sha_blocks.induct)
  case (2 n h data)
  then show ?case by (simp add: block_eq fips_absorb.simps[of h data])
qed (simp add: absorb_short)

text \<open>
  The state after the bytes of a message: the size, the hash of its full blocks, and the
  rest in the buffer.
\<close>

definition ctx_for :: "sha_ctx \<Rightarrow> bytes \<Rightarrow> bool" where
  "ctx_for ctx m \<longleftrightarrow> s_size ctx = of_nat (length m) \<and> length (s_W ctx) = 64 \<and>
     fips_absorb (s_H blk_SHA1_Init) m = (s_H ctx, take (length m mod 64) (s_W ctx))"

lemma size_mod: "unat (of_nat n AND 63 :: u64) = n mod 64"
proof -
  have "of_nat n AND 63 = take_bit 6 (of_nat n :: u64)" by (simp add: take_bit_eq_mask mask_eq_exp_minus_1)
  moreover have "unat (take_bit 6 x) = unat x mod 64" for x :: u64
    by (simp only: unsigned_take_bit_eq) (simp add: take_bit_eq_mod)
  ultimately have "unat (of_nat n AND 63 :: u64) = unat (of_nat n :: u64) mod 64" by simp
  also have "\<dots> = n mod 2 ^ 64 mod 64" by (simp add: unat_of_nat)
  also have "\<dots> = n mod 64" by (simp add: mod_mod_cancel)
  finally show ?thesis .
qed

lemma blit_length: "p + length src \<le> length dst \<Longrightarrow> length (blit dst p src) = length dst"
  by (simp add: blit_def)

lemma blit_take: "p + length src \<le> length dst \<Longrightarrow> take (p + length src) (blit dst p src) = take p dst @ src"
  by (simp add: blit_def)

lemma sha_whole_spec:
  assumes "length (s_W ctx) = 64" "fips_absorb (s_H ctx) data = (h, r)"
  shows "sha_whole ctx data = ctx\<lparr>s_H := h, s_W := s_W (sha_whole ctx data)\<rparr>"
    and "length (s_W (sha_whole ctx data)) = 64" and "take (length r) (s_W (sha_whole ctx data)) = r"
proof -
  have b: "sha_blocks (length data) (s_H ctx) data = (h, r)" using sha_blocks_absorb[of data "length data"] assms(2) by simp
  then show "sha_whole ctx data = ctx\<lparr>s_H := h, s_W := s_W (sha_whole ctx data)\<rparr>" by (simp add: sha_whole_def)
  have "length r < 64" using absorb_rest[OF assms(2)] by simp
  then show "length (s_W (sha_whole ctx data)) = 64" "take (length r) (s_W (sha_whole ctx data)) = r"
    using b assms(1) blit_length[of 0 r "s_W ctx"] blit_take[of 0 r "s_W ctx"] by (auto simp: sha_whole_def)
qed

lemma update_spec:
  assumes "ctx_for ctx m"
  shows "ctx_for (blk_SHA1_Update ctx data) (m @ data)"
proof -
  let ?w = "length m mod 64" let ?h0 = "s_H blk_SHA1_Init"
  let ?c = "ctx\<lparr>s_size := s_size ctx + of_nat (length data)\<rparr>"
  have c: "s_size ctx = of_nat (length m)" "length (s_W ctx) = 64" "fips_absorb ?h0 m = (s_H ctx, take ?w (s_W ctx))"
    using assms by (auto simp: ctx_for_def)
  have lw: "unat (s_size ctx AND 63) = ?w" using c(1) size_mod by simp
  have all: "fips_absorb ?h0 (m @ data) = fips_absorb (s_H ctx) (take ?w (s_W ctx) @ data)" using absorb_append[of ?h0 m data] c(3) by simp
  have whole: "ctx_for (sha_whole c' d) (m @ data)"
    if "length (s_W c') = 64" "s_size c' = of_nat (length (m @ data))" "fips_absorb ?h0 (m @ data) = fips_absorb (s_H c') d" for c' d
  proof -
    obtain h r where hr: "fips_absorb (s_H c') d = (h, r)" by (cases "fips_absorb (s_H c') d")
    have "length r = length (m @ data) mod 64" using absorb_rest[of ?h0 "m @ data"] that(3) hr by simp
    moreover have "s_size (sha_whole c' d) = s_size c'" "s_H (sha_whole c' d) = h"
      using arg_cong[OF sha_whole_spec(1)[OF that(1) hr], of s_size] arg_cong[OF sha_whole_spec(1)[OF that(1) hr], of s_H] by simp_all
    ultimately show ?thesis using sha_whole_spec(2,3)[OF that(1) hr] that(2,3) hr by (simp add: ctx_for_def)
  qed
  show ?thesis
  proof (cases "?w = 0")
    case True
    then have "blk_SHA1_Update ctx data = sha_whole ?c data" using lw by (simp add: blk_SHA1_Update_def Let_def)
    moreover have "ctx_for (sha_whole ?c data) (m @ data)" by (rule whole) (use c all True in simp_all)
    ultimately show ?thesis by simp
  next
    case False
    let ?l = "if length data < 64 - ?w then length data else 64 - ?w"
    let ?W = "blit (s_W ctx) ?w (take ?l data)"
    have "?w < 64" by simp
    then have len: "length (take ?l data) = ?l" "?w + ?l \<le> 64" by (auto split: if_splits)
    have W: "length ?W = 64" "take (?w + ?l) ?W = take ?w (s_W ctx) @ take ?l data"
      using blit_length[of ?w "take ?l data" "s_W ctx"] blit_take[of ?w "take ?l data" "s_W ctx"] unfolding len(1) c(2)
      using len(2) by blast+
    show ?thesis
    proof (cases "length data < 64 - ?w")
      case True
      then have "(?w + ?l) mod 64 \<noteq> 0" using False by simp
      then have u: "blk_SHA1_Update ctx data = ?c\<lparr>s_W := ?W\<rparr>" using lw False by (simp add: blk_SHA1_Update_def Let_def)
      have "length (take ?w (s_W ctx) @ data) < 64" using True c(2) by simp
      then have "fips_absorb ?h0 (m @ data) = (s_H ctx, take ?w (s_W ctx) @ data)" using all absorb_short by simp
      moreover have "length (m @ data) mod 64 = ?w + length data"
        using True mod_add_left_eq[of "length m" 64 "length data"] by simp
      ultimately show ?thesis using u W True c by (simp add: ctx_for_def)
    next
      case full: False
      then have l: "?w + ?l = 64" by simp
      then have "(?w + ?l) mod 64 = 0" by simp
      then have u: "blk_SHA1_Update ctx data =
          sha_whole (?c\<lparr>s_W := ?W, s_H := blk_SHA1_Block (s_H ctx) ?W\<rparr>) (drop ?l data)"
        using lw False full by (simp add: blk_SHA1_Update_def Let_def)
      have "?W = take ?w (s_W ctx) @ take ?l data" using W l by simp
      then have "take ?w (s_W ctx) @ data = ?W @ drop ?l data" by simp
      then have "fips_absorb ?h0 (m @ data) = fips_absorb (blk_SHA1_Block (s_H ctx) ?W) (drop ?l data)"
        using all absorb_block[OF W(1)] block_eq by metis
      then show ?thesis unfolding u using W(1) c(1) by (intro whole) simp_all
    qed
  qed
qed

lemma init_spec: "ctx_for blk_SHA1_Init []"
  by (simp add: ctx_for_def absorb_short) (simp add: blk_SHA1_Init_def)

lemma updates_spec: "ctx_for ctx m \<Longrightarrow> ctx_for (foldl blk_SHA1_Update ctx ds) (m @ concat ds)"
proof (induction ds arbitrary: ctx m)
  case (Cons d ds)
  then show ?case using Cons.IH[OF update_spec[OF Cons.prems, of d]] by simp
qed simp

text \<open>The padding of \<open>blk_SHA1_Final\<close> is that of the standard.\<close>

lemma padlen_eq: "put_be32 (ucast (drop_bit 29 x)) @ put_be32 (ucast (push_bit 3 x)) = be64 (8 * (x :: u64))"
proof -
  have "push_bit 3 x = 8 * x" by (simp add: push_bit_eq_mult)
  moreover have "ucast (drop_bit 29 x) = (ucast (drop_bit 32 (push_bit 3 x)) :: u32)"
    by (rule bit_word_eqI) (auto simp: bit_simps bit_push_bit_iff)
  ultimately show ?thesis by (simp add: be64_def)
qed

lemma sha_pad_eq: "n < 64 \<Longrightarrow> sha_pad (1 + n) = 0x80 # replicate n 0"
  by (simp add: sha_pad_def)

lemma final_spec:
  assumes "ctx_for ctx m"
  shows "blk_SHA1_Final ctx = fips_sha1 m"
proof -
  let ?n = "nat ((55 - int (length m)) mod 64)"
  let ?pad = "0x80 # replicate ?n 0" and ?len = "be64 (of_nat (8 * length m))"
  have sz: "s_size ctx = of_nat (length m)" using assms by (simp add: ctx_for_def)
  have "(55 - int (length m mod 64)) mod 64 = (55 - int (length m)) mod 64"
    by (simp add: zmod_int mod_diff_right_eq)
  then have "sha_pad (1 + nat ((55 - int (unat (s_size ctx AND 63))) mod 64)) = ?pad"
    using sz size_mod[of "length m"] by (subst sha_pad_eq) (auto simp: nat_less_iff)
  moreover have "put_be32 (ucast (drop_bit 29 (s_size ctx))) @ put_be32 (ucast (push_bit 3 (s_size ctx))) = ?len"
    unfolding padlen_eq sz by simp
  moreover have "ctx_for (blk_SHA1_Update (blk_SHA1_Update ctx ?pad) ?len) (fips_pad m)"
    using update_spec[OF update_spec[OF assms, of ?pad], of ?len] by (simp add: fips_pad_def)
  ultimately show ?thesis unfolding blk_SHA1_Final_def fips_sha1_def Let_def by (simp add: ctx_for_def)
qed

section \<open>Properties\<close>

text \<open>
  C23.  The optimised routine computes the hash of the standard: initialising a context,
  feeding it any sequence of pieces of any sizes and finishing it gives the SHA-1 digest of
  their concatenation, although the code keeps only sixteen words of the message schedule,
  uses other formulas for the round functions and hashes full blocks in place.
\<close>

theorem sha1_streaming:
  "blk_SHA1_Final (foldl blk_SHA1_Update blk_SHA1_Init pieces) = fips_sha1 (concat pieces)"
  using final_spec[OF updates_spec[OF init_spec, of pieces]] by simp

end
