(* ===== verification/Mkroot.thy ===== *)
theory Mkroot
  imports Webroot Sha1 "HOL-Library.List_Lexorder"
begin

text \<open>
  The web root builder (\<^verbatim>\<open>mkroot.c\<close>): the objects and URIs it collects, the preparation of
  the index and the writing of the file.  Objects are identified by their kind and position in
  the builder's lists, a MIME type by its name.  Strings are C strings, without their NUL.
\<close>

section \<open>The collected objects\<close>

datatype content = FILE_PATH bytes | FILE_TMPCHUNK nat

record file_obj =
  o_type :: bytes
  o_content :: content
  o_size :: nat
  o_off :: u64
  o_dev :: nat
  o_ino :: nat
  o_mtime :: nat
  o_digest :: bytes

record redir_obj =
  o_uri :: "bytes option"
  o_strtab_off :: u32
  o_code :: u32

datatype objref = Redir nat | File nat

record mkroot =
  k_uri :: "(bytes \<times> objref) list"
  k_redirect :: "redir_obj list"
  k_file :: "file_obj list"
  k_mime_type :: "(bytes \<times> u32) list"
  k_base :: bytes
  k_trie :: "trie option"
  k_files_sz :: nat
  k_tmpoff :: nat
  k_num_uri :: nat
  k_num_redirect :: nat
  k_num_file :: nat
  k_mimetab_sz :: nat
  k_redirtab_sz :: nat

text \<open>\<open>webroot_new\<close> without its allocations.\<close>

definition webroot_new :: "bytes \<Rightarrow> mkroot" where
  "webroot_new base = \<lparr>k_uri = [], k_redirect = [], k_file = [], k_mime_type = [], k_base = base, k_trie = None,
     k_files_sz = 0, k_tmpoff = 0, k_num_uri = 0, k_num_redirect = 0, k_num_file = 0, k_mimetab_sz = 0, k_redirtab_sz = 0\<rparr>"

text \<open>
  The allocations of \<open>webroot_new\<close> and its clean-up labels, on the list of what is held.
  \<open>ok\<close> tells which of them succeed, \<open>loaded\<close> whether \<open>magic_load\<close> does.
\<close>

datatype mk_res = Root | UriMem | ObjMem | MimeMem | StrMem | Magic | TmpFd | TmpChunks

definition out_free :: "mk_res list" where "out_free = [Root]"
definition out_free_uri :: "mk_res list" where "out_free_uri = UriMem # out_free"
definition out_free_obj :: "mk_res list" where "out_free_obj = ObjMem # out_free_uri"
definition out_free_mime :: "mk_res list" where "out_free_mime = MimeMem # out_free_obj"
definition out_free_str :: "mk_res list" where "out_free_str = StrMem # out_free_mime"
definition out_free_magic :: "mk_res list" where "out_free_magic = Magic # out_free_str"
definition out_close :: "mk_res list" where "out_close = TmpFd # out_free_magic"

definition release :: "mk_res list \<Rightarrow> mk_res list \<Rightarrow> mk_res list" where
  "release label held = fold remove1 label held"

definition webroot_new_held :: "(mk_res \<Rightarrow> bool) \<Rightarrow> bool \<Rightarrow> bool \<times> mk_res list" where
  "webroot_new_held ok loaded =
    (if \<not> ok Root then (False, [])
     else let h = [Root] in
     if \<not> ok UriMem then (False, release out_free h)
     else let h = UriMem # h in
     if \<not> ok ObjMem then (False, release out_free_uri h)
     else let h = ObjMem # h in
     if \<not> ok MimeMem then (False, release out_free_obj h)
     else let h = MimeMem # h in
     if \<not> ok StrMem then (False, release out_free_mime h)
     else let h = StrMem # h in
     if \<not> ok Magic then (False, release out_free_str h)
     else let h = Magic # h in
     if \<not> loaded then (False, release out_free_magic h)
     else if \<not> ok TmpFd then (False, release out_free_magic h)
     else let h = TmpFd # h in
     if \<not> ok TmpChunks then (False, release out_close h)
     else (True, TmpChunks # h))"

text \<open>A failed \<open>webroot_new\<close> keeps nothing.\<close>

lemma webroot_new_no_leak: "\<not> fst (webroot_new_held ok loaded) \<Longrightarrow> snd (webroot_new_held ok loaded) = []"
  by (simp add: webroot_new_held_def Let_def release_def out_free_def out_free_uri_def out_free_obj_def out_free_mime_def
      out_free_str_def out_free_magic_def out_close_def split: if_splits)

text \<open>
  \<open>webroot_free\<close> reads the descriptor of the file of temporary chunks, which is a null pointer
  after a failed \<open>tc_printf\<close>.
\<close>

definition webroot_free :: "'a option \<Rightarrow> unit res" where
  "webroot_free tmp = (case tmp of None \<Rightarrow> Inl Null_deref | Some t \<Rightarrow> Inr ())"

definition path_splice :: "bytes \<Rightarrow> bytes \<Rightarrow> bytes" where
  "path_splice dir path =
    (if (dir \<noteq> [] \<and> last dir = SLASH) \<or> (path \<noteq> [] \<and> hd path = SLASH) then dir @ path else dir @ SLASH # path)"

definition webroot_lookup :: "mkroot \<Rightarrow> bytes \<Rightarrow> bytes" where
  "webroot_lookup r path = path_splice (k_base r) path"

text \<open>The constructors below are for allocations that succeed.\<close>

definition webroot_link :: "mkroot \<Rightarrow> bytes \<Rightarrow> objref \<Rightarrow> mkroot" where
  "webroot_link r link target =
    (let link = (if length link = 0 then str ''/'' else link) in
     r\<lparr>k_uri := k_uri r @ [(link, target)], k_num_uri := k_num_uri r + 1\<rparr>)"

definition mime_add :: "mkroot \<Rightarrow> bytes \<Rightarrow> mkroot" where
  "mime_add r mime =
    (if mime \<in> set (map fst (k_mime_type r)) then r else r\<lparr>k_mime_type := (mime, 0) # k_mime_type r\<rparr>)"

definition obj_redirect :: "mkroot \<Rightarrow> bytes \<Rightarrow> mkroot \<times> objref" where
  "obj_redirect r path =
    (r\<lparr>k_redirect := k_redirect r @ [\<lparr>o_uri = Some path, o_strtab_off = 0, o_code = 0\<rparr>],
       k_num_redirect := k_num_redirect r + 1\<rparr>, Redir (length (k_redirect r)))"

definition obj_code :: "mkroot \<Rightarrow> nat \<Rightarrow> mkroot \<times> objref" where
  "obj_code r code =
    (r\<lparr>k_redirect := k_redirect r @ [\<lparr>o_uri = None, o_strtab_off = 0, o_code = of_nat code\<rparr>],
       k_num_redirect := k_num_redirect r + 1\<rparr>, Redir (length (k_redirect r)))"

fun file_index :: "nat \<Rightarrow> nat \<Rightarrow> file_obj list \<Rightarrow> nat option" where
  "file_index dev ino [] = None"
| "file_index dev ino (f # fs) =
    (if dev = o_dev f \<and> ino = o_ino f then Some 0 else map_option Suc (file_index dev ino fs))"

definition obj_file :: "mkroot \<Rightarrow> nat \<Rightarrow> nat \<Rightarrow> nat \<Rightarrow> nat \<Rightarrow> mkroot \<times> nat" where
  "obj_file r dev ino mtime sz =
    (case file_index dev ino (k_file r) of
       Some i \<Rightarrow> (r, i)
     | None \<Rightarrow>
       (r\<lparr>k_file := k_file r @ [\<lparr>o_type = [], o_content = FILE_PATH [], o_size = sz, o_off = 0, o_dev = dev, o_ino = ino,
            o_mtime = mtime, o_digest = replicate 20 0\<rparr>],
          k_num_file := k_num_file r + 1\<rparr>, length (k_file r)))"

text \<open>
  \<open>magic_file\<close> of libmagic names the type of a file, or returns a null pointer, which
  \<open>mime_add\<close> hands to \<open>strcmp\<close> or \<open>strlen\<close>.
\<close>

definition set_file :: "mkroot \<Rightarrow> nat \<Rightarrow> (file_obj \<Rightarrow> file_obj) \<Rightarrow> mkroot" where
  "set_file r i f = r\<lparr>k_file := (k_file r)[i := f (k_file r ! i)]\<rparr>"

definition obj_file_path ::
  "(bytes \<Rightarrow> bytes option) \<Rightarrow> mkroot \<Rightarrow> bytes \<Rightarrow> nat \<Rightarrow> nat \<Rightarrow> nat \<Rightarrow> nat \<Rightarrow> (mkroot \<times> objref) res" where
  "obj_file_path magic_file r path dev ino mtime sz =
    (let (r, i) = obj_file r dev ino mtime sz;
         r = set_file r i (\<lambda>f. f\<lparr>o_content := FILE_PATH path\<rparr>)
     in case magic_file path of
          None \<Rightarrow> Inl Null_deref
        | Some mime \<Rightarrow> Inr (set_file (mime_add r mime) i (\<lambda>f. f\<lparr>o_type := mime\<rparr>), File i))"

definition obj_file_tmpchunks :: "mkroot \<Rightarrow> bytes \<Rightarrow> nat \<Rightarrow> nat \<Rightarrow> nat \<Rightarrow> mkroot \<times> nat" where
  "obj_file_tmpchunks r mime dev ino mtime =
    (let (r, i) = obj_file r dev ino mtime 0;
         r = set_file r i (\<lambda>f. f\<lparr>o_content := FILE_TMPCHUNK (k_tmpoff r)\<rparr>)
     in (set_file (mime_add r mime) i (\<lambda>f. f\<lparr>o_type := mime\<rparr>), i))"

section \<open>Preparing the index\<close>

text \<open>
  \<open>qsort\<close> by \<open>strcmp\<close>, which orders C strings lexicographically by unsigned bytes; the order of
  equal URIs, which \<open>qsort\<close> leaves open, is here that of the list.
\<close>

definition sort_uris :: "bool \<Rightarrow> mkroot \<Rightarrow> (bool \<times> mkroot) res" where
  "sort_uris alloc_ok r =
    (if \<not> alloc_ok then Inr (False, r)
     else rassert (length (k_uri r) = k_num_uri r) (Inr (True, r\<lparr>k_uri := sort_key fst (k_uri r)\<rparr>)))"

text \<open>\<open>sort_objects\<close> numbers the redirects, then the files.\<close>

definition obj_oid :: "mkroot \<Rightarrow> objref \<Rightarrow> u32" where
  "obj_oid r ob = of_nat (case ob of Redir i \<Rightarrow> i | File i \<Rightarrow> length (k_redirect r) + i)"

definition trie_entries :: "mkroot \<Rightarrow> trie_entry list" where
  "trie_entries r = map (\<lambda>(u, ob). \<lparr>t_str = u, t_oid = obj_oid r ob\<rparr>) (k_uri r)"

fun layout_mime :: "nat \<Rightarrow> (bytes \<times> u32) list \<Rightarrow> (bytes \<times> u32) list \<times> nat" where
  "layout_mime off [] = ([], off)"
| "layout_mime off ((m, _) # ms) = (let (ms, off') = layout_mime (off + length m) ms in ((m, of_nat off) # ms, off'))"

fun layout_redirect :: "nat \<Rightarrow> redir_obj list \<Rightarrow> redir_obj list \<times> nat" where
  "layout_redirect off [] = ([], off)"
| "layout_redirect off (ob # obs) =
    (let (obs, off') = layout_redirect (off + (case o_uri ob of Some u \<Rightarrow> length u | None \<Rightarrow> 0)) obs
     in (ob\<lparr>o_strtab_off := of_nat off\<rparr> # obs, off'))"

fun layout_file :: "nat \<Rightarrow> file_obj list \<Rightarrow> file_obj list \<times> nat" where
  "layout_file off [] = ([], off)"
| "layout_file off (ob # obs) =
    (let (obs, off') = layout_file (off + o_size ob) obs in (ob\<lparr>o_off := of_nat off\<rparr> # obs, off'))"

definition index_sz :: "trie \<Rightarrow> mkroot \<Rightarrow> nat" where
  "index_sz t r = HDR_SZ + trie_trie_size t + REDIRECT_SZ * k_num_redirect r + FILE_SZ * k_num_file r"

definition webroot_prep :: "bool \<Rightarrow> bool \<Rightarrow> (trie_entry list \<Rightarrow> trie option res) \<Rightarrow> mkroot \<Rightarrow> (bool \<times> mkroot) res" where
  "webroot_prep sort_ok alloc_ok new_trie r =
    rbind (sort_uris sort_ok r) (\<lambda>(ok, r).
      if \<not> ok then Inr (False, r)
      else if \<not> alloc_ok then Inr (False, r)
      else rbind (new_trie (trie_entries r)) (\<lambda>t.
        case t of None \<Rightarrow> Inr (False, r)
        | Some t \<Rightarrow>
          let (mimes, off) = layout_mime (index_sz t r) (k_mime_type r);
              mimetab = off - index_sz t r;
              (redirs, off') = layout_redirect off (k_redirect r);
              (files, off'') = layout_file off' (k_file r)
          in Inr (True, r\<lparr>k_trie := Some t, k_mime_type := mimes, k_mimetab_sz := k_mimetab_sz r + mimetab,
                          k_redirect := redirs, k_redirtab_sz := off' - off,
                          k_file := files, k_files_sz := off'' - off'\<rparr>)))"

section \<open>Writing\<close>

text \<open>A loop that writes one record after the other and stops at the first failure.\<close>

fun write_each :: "sink \<Rightarrow> bytes list \<Rightarrow> (bool \<times> sink) res" where
  "write_each out [] = Inr (True, out)"
| "write_each out (b # bs) = rbind (fobuf_write out b) (\<lambda>(ok, out). if ok then write_each out bs else Inr (False, out))"

text \<open>The header; its last word is not initialised.\<close>

definition mk_header :: "u32 \<Rightarrow> trie \<Rightarrow> mkroot \<Rightarrow> webroot_hdr" where
  "mk_header pad t r = \<lparr>h_num_edges = of_nat (trie_num_edges t), h_num_redirect = of_nat (k_num_redirect r),
     h_num_file = of_nat (k_num_file r), h_strtab_sz = of_nat (k_mimetab_sz r + k_redirtab_sz r),
     h_magic = WEBROOT_MAGIC, h_vers = WEBROOT_CURRENT_VER,
     h_files_begin = of_nat (index_sz t r + k_mimetab_sz r + k_redirtab_sz r), h_pad = pad\<rparr>"

definition write_header :: "u32 \<Rightarrow> trie \<Rightarrow> mkroot \<Rightarrow> sink \<Rightarrow> (bool \<times> sink) res" where
  "write_header pad t r out = fobuf_write out (hdr_bytes (mk_header pad t r))"

definition redirect_rec :: "redir_obj \<Rightarrow> webroot_redirect" where
  "redirect_rec ob = (case o_uri ob of
     Some u \<Rightarrow> \<lparr>r_off = o_strtab_off ob, r_len = of_nat (length u)\<rparr>
   | None \<Rightarrow> \<lparr>r_off = WEBROOT_INVALID_REDIRECT, r_len = o_code ob\<rparr>)"

definition write_redirect_objs :: "mkroot \<Rightarrow> sink \<Rightarrow> (bool \<times> sink) res" where
  "write_redirect_objs r out = write_each out (map (redirect_bytes \<circ> redirect_rec) (k_redirect r))"

definition mime_off :: "mkroot \<Rightarrow> bytes \<Rightarrow> u32" where
  "mime_off r m = the (map_of (k_mime_type r) m)"

definition file_rec :: "mkroot \<Rightarrow> file_obj \<Rightarrow> webroot_file" where
  "file_rec r ob = \<lparr>f_off = o_off ob, f_len = of_nat (o_size ob), f_type = mime_off r (o_type ob),
     f_type_len = of_nat (length (o_type ob)), f_modified = of_nat (o_mtime ob), f_digest = o_digest ob\<rparr>"

definition write_file_objs :: "mkroot \<Rightarrow> sink \<Rightarrow> (bool \<times> sink) res" where
  "write_file_objs r out = write_each out (map (file_bytes \<circ> file_rec r) (k_file r))"

definition write_mimetab :: "mkroot \<Rightarrow> sink \<Rightarrow> (bool \<times> sink) res" where
  "write_mimetab r out = write_each out (map fst (k_mime_type r))"

definition redirtab :: "redir_obj list \<Rightarrow> bytes list" where
  "redirtab obs = concat (map (\<lambda>ob. case o_uri ob of None \<Rightarrow> [] | Some u \<Rightarrow> [u]) obs)"

definition write_redirtab :: "mkroot \<Rightarrow> sink \<Rightarrow> (bool \<times> sink) res" where
  "write_redirtab r out = write_each out (redirtab (k_redirect r))"

definition BUFFER_SIZE :: nat where "BUFFER_SIZE = 2 ^ 20"

text \<open>
  The loop of \<open>write_file\<close> over the answers of \<open>read(2)\<close>: the file being read with its offset,
  the bytes still expected, the hash.  An error or a failed write ends it without a digest.
\<close>

fun copy_loop :: "sysret list \<Rightarrow> ofile \<Rightarrow> nat \<Rightarrow> sha_ctx \<Rightarrow> sink \<Rightarrow> ((nat \<times> bytes) option \<times> sysret list \<times> sink) res" where
  "copy_loop [] f len ctx out = Inl Blocked"
| "copy_loop (Err e # s) f len ctx out = Inr (None, s, out)"
| "copy_loop (Ret n # s) f len ctx out =
    (let got = sys_pread f (f_pos f) (if BUFFER_SIZE < len then BUFFER_SIZE else len) n in
     if got = [] then Inr (Some (len, blk_SHA1_Final (blk_SHA1_Update ctx [])), s, out)
     else rbind (fobuf_write out got) (\<lambda>(ok, out).
       if \<not> ok then Inr (None, s, out)
       else copy_loop s (f\<lparr>f_pos := f_pos f + length got\<rparr>) (len - length got) (blk_SHA1_Update ctx got) out))"

text \<open>
  \<open>src\<close> gives the file behind a path (\<open>None\<close> if it cannot be opened) or the temporary file,
  positioned by \<open>lseek\<close> (\<open>None\<close> if that fails).  The result has the object with its digest.
\<close>

definition content_of :: "(bytes \<Rightarrow> ofile option) \<Rightarrow> bool \<Rightarrow> ofile \<Rightarrow> content \<Rightarrow> ofile option" where
  "content_of open_file lseek_ok tmp c =
    (case c of FILE_PATH p \<Rightarrow> open_file p | FILE_TMPCHUNK n \<Rightarrow> if lseek_ok then Some (tmp\<lparr>f_pos := n\<rparr>) else None)"

definition write_file ::
  "(content \<Rightarrow> ofile option) \<Rightarrow> sysret list \<Rightarrow> file_obj \<Rightarrow> sink \<Rightarrow> (bool \<times> file_obj \<times> sysret list \<times> sink) res" where
  "write_file src s ob out =
    (case src (o_content ob) of None \<Rightarrow> Inr (False, ob, s, out)
     | Some f \<Rightarrow>
       rbind (copy_loop s f (o_size ob) blk_SHA1_Init out) (\<lambda>(done, s, out).
         case done of None \<Rightarrow> Inr (False, ob, s, out)
         | Some (len, sha) \<Rightarrow>
           let ob = ob\<lparr>o_digest := sha\<rparr> in
           if len = 0 then Inr (True, ob, s, out)
           else rassert (case o_content ob of FILE_PATH p \<Rightarrow> True | FILE_TMPCHUNK n \<Rightarrow> False)
             (Inr (False, ob, s, out))))"

fun write_each_file ::
  "(content \<Rightarrow> ofile option) \<Rightarrow> sysret list \<Rightarrow> file_obj list \<Rightarrow> sink \<Rightarrow> (bool \<times> file_obj list \<times> sysret list \<times> sink) res" where
  "write_each_file src s [] out = Inr (True, [], s, out)"
| "write_each_file src s (ob # obs) out =
    rbind (write_file src s ob out) (\<lambda>(ok, ob, s, out).
      if \<not> ok then Inr (False, ob # obs, s, out)
      else rbind (write_each_file src s obs out) (\<lambda>(ok, obs, s, out). Inr (ok, ob # obs, s, out)))"

text \<open>\<open>write_files\<close> flushes \<open>r_tmpchunks\<close>, which is a null pointer after a failed \<open>tc_printf\<close>.\<close>

definition write_files ::
  "(bytes \<Rightarrow> ofile option) \<Rightarrow> bool \<Rightarrow> sink option \<Rightarrow> sysret list \<Rightarrow> mkroot \<Rightarrow> sink \<Rightarrow> (bool \<times> mkroot \<times> sink) res" where
  "write_files open_file lseek_ok tmp s r out =
    (case tmp of None \<Rightarrow> Inl Null_deref
     | Some t \<Rightarrow> rbind (fobuf_flush t) (\<lambda>(ok, ts, tf, tb).
         if \<not> ok then Inr (False, r, out)
         else rbind (write_each_file (content_of open_file lseek_ok tf) s (k_file r) out) (\<lambda>(ok, files, s, out).
           Inr (ok, r\<lparr>k_file := files\<rparr>, out))))"

definition write_etags :: "bool \<Rightarrow> trie \<Rightarrow> mkroot \<Rightarrow> sink \<Rightarrow> (bool \<times> sink) res" where
  "write_etags lseek_ok t r out =
    rbind (fobuf_flush out) (\<lambda>(ok, s, f, b).
      if \<not> ok then Inr (False, s, f, b)
      else if \<not> lseek_ok then Inr (False, s, f, b)
      else write_file_objs r
        (s, f\<lparr>f_pos := HDR_SZ + trie_trie_size t + REDIRECT_SZ * k_num_redirect r\<rparr>, b))"

text \<open>\<open>if ( !f(...) ) return 0;\<close>\<close>

definition or_fail :: "(bool \<times> sink) res \<Rightarrow> (sink \<Rightarrow> (bool \<times> 'a \<times> sink) res) \<Rightarrow> 'a \<Rightarrow> (bool \<times> 'a \<times> sink) res" where
  "or_fail m k x = rbind m (\<lambda>(ok, out). if \<not> ok then Inr (False, x, out) else k out)"

definition webroot_write ::
  "u32 \<Rightarrow> (bytes \<Rightarrow> ofile option) \<Rightarrow> bool \<Rightarrow> sink option \<Rightarrow> sysret list \<Rightarrow> mkroot \<Rightarrow> sink \<Rightarrow> (bool \<times> mkroot \<times> sink) res" where
  "webroot_write pad open_file lseek_ok tmp s r out =
    (case k_trie r of None \<Rightarrow> Inl Null_deref
     | Some t \<Rightarrow>
       or_fail (write_header pad t r out) (\<lambda>out.
       or_fail (trie_write_trie out t) (\<lambda>out.
       or_fail (write_redirect_objs r out) (\<lambda>out.
       or_fail (write_file_objs r out) (\<lambda>out.
       or_fail (write_mimetab r out) (\<lambda>out.
       or_fail (write_redirtab r out) (\<lambda>out.
       rbind (write_files open_file lseek_ok tmp s r out) (\<lambda>(ok, r, out).
         if \<not> ok then Inr (False, r, out)
         else or_fail (write_etags lseek_ok t r out) (\<lambda>out. Inr (True, r, out)) r)) r) r) r) r) r) r)"

definition webroot_output_size :: "trie \<Rightarrow> mkroot \<Rightarrow> nat" where
  "webroot_output_size t r = index_sz t r + k_mimetab_sz r + k_redirtab_sz r + k_files_sz r"

text \<open>\<open>rstrip_slashes\<close> on the directory argument.\<close>

definition rstrip_slashes :: "bytes \<Rightarrow> bytes" where
  "rstrip_slashes path = rev (dropWhile (\<lambda>c. c = SLASH) (rev path))"

end
