(* ===== verification/Scan.thy ===== *)
theory Scan
  imports Mkroot "HOL-Library.Sublist"
begin

text \<open>
  The directory scan of the web root builder (\<^verbatim>\<open>mkroot.c\<close>, from \<open>scan_dir\<close> to \<open>do_mkroot\<close>).
  The file system and libmagic are parameters: what \<open>lstat\<close>, \<open>stat\<close>, \<open>readdir\<close>, \<open>readlink\<close>
  and \<open>magic_file\<close> answer for a path, the same throughout a scan.  Nothing in them excludes an
  endless chain of directories, hence the fuel, which bounds their depth.
\<close>

section \<open>The file system\<close>

datatype ftype = S_ISREG | S_ISDIR | S_ISLNK | S_OTHER

record stat_t =
  st_mode :: ftype
  st_dev :: nat
  st_ino :: nat
  st_mtime :: nat
  st_size :: nat

text \<open>
  \<open>e_stat\<close> is \<open>Inl True\<close> for \<open>ENOENT\<close> and \<open>Inl False\<close> for another error; \<open>e_readdir\<close> is
  \<open>None\<close> when \<open>opendir\<close> fails; \<open>e_stack\<close> is what the buffer of \<open>readlink\<close> held before the call.
  \<open>dotfiles\<close> and \<open>indexdirs\<close> are the static variables of the program.
\<close>

record scan_env =
  e_lstat :: "bytes \<Rightarrow> stat_t option"
  e_stat :: "bytes \<Rightarrow> bool + stat_t"
  e_readdir :: "bytes \<Rightarrow> bytes list option"
  e_readlink :: "bytes \<Rightarrow> bytes option"
  e_stack :: bytes
  e_magic :: "bytes \<Rightarrow> bytes option"
  dotfiles :: bool
  indexdirs :: bool

text \<open>The builder with its file of temporary chunks, \<open>None\<close> once a write to it has failed.\<close>

record scan =
  sc_root :: mkroot
  sc_tmp :: "sink option"

section \<open>Directory indexes\<close>

definition DOT :: byte where "DOT = 46"
definition SYMBUF :: nat where "SYMBUF = 16 * 2 ^ 10"

definition skip_entry :: "scan_env \<Rightarrow> bytes \<Rightarrow> bool" where
  "skip_entry env name \<longleftrightarrow> name = [DOT] \<or> name = [DOT, DOT] \<or> (\<not> dotfiles env \<and> name \<noteq> [] \<and> hd name = DOT)"

definition index_pages :: "bytes list" where
  "index_pages = [str ''index.html'', str ''default.html'']"

definition try_index :: "scan_env \<Rightarrow> scan \<Rightarrow> bytes \<Rightarrow> bytes \<Rightarrow> (bool \<times> objref option \<times> scan) res" where
  "try_index env st u page =
    (let ipath = webroot_lookup (sc_root st) (path_splice u page) in
     case e_stat env ipath of
       Inl enoent \<Rightarrow> Inr (enoent, None, st)
     | Inr s \<Rightarrow>
       if st_mode s = S_ISREG
       then rbind (obj_file_path (e_magic env) (sc_root st) ipath (st_dev s) (st_ino s) (st_mtime s) (st_size s))
         (\<lambda>(r, ob). Inr (True, Some ob, st\<lparr>sc_root := r\<rparr>))
       else Inr (True, None, st))"

text \<open>\<open>tc_printf\<close> on the formatted text, for allocations that succeed.\<close>

definition tc_printf :: "scan \<Rightarrow> bytes \<Rightarrow> scan res" where
  "tc_printf st bs =
    (case sc_tmp st of None \<Rightarrow> Inr st
     | Some t \<Rightarrow> rbind (fobuf_write t bs) (\<lambda>(ok, t).
         if \<not> ok then Inr (st\<lparr>sc_tmp := None\<rparr>)
         else Inr (st\<lparr>sc_tmp := Some t, sc_root := (sc_root st)\<lparr>k_tmpoff := k_tmpoff (sc_root st) + length bs\<rparr>\<rparr>)))"

definition QUOTE :: bytes where "QUOTE = [34]"

definition index_head :: "bytes \<Rightarrow> bytes list" where
  "index_head u =
    [str ''<!DOCTYPE HTML PUBLIC '' @ QUOTE @ str ''-//W3C//DTD HTML 3.2 Final//EN'' @ QUOTE @ str ''>'',
     str ''<html>'' @ [10, 9] @ str ''<head><title>Index of '' @ u @ str ''</title>'' @ [9] @ str ''</head>'' @ [10],
     str ''<body><h1>Index of '' @ u @ str ''</h1>'' @ [10],
     str ''</body>'' @ [10] @ str ''</html>'']"

definition index_entry :: "bytes \<Rightarrow> bytes \<Rightarrow> bytes" where
  "index_entry u name = str ''<a href='' @ QUOTE @ path_splice u name @ QUOTE @ str ''>'' @ name @ str ''</a><br>'' @ [10]"

fun tc_prints :: "scan \<Rightarrow> bytes list \<Rightarrow> scan res" where
  "tc_prints st [] = Inr st"
| "tc_prints st (b # bs) = rbind (tc_printf st b) (\<lambda>st. tc_prints st bs)"

definition index_dir :: "scan_env \<Rightarrow> scan \<Rightarrow> stat_t \<Rightarrow> bytes \<Rightarrow> bytes \<Rightarrow> (objref option \<times> scan) res" where
  "index_dir env st s path u =
    (let (r, i) = obj_file_tmpchunks (sc_root st) (str ''text/html'') (st_dev s) (st_ino s) (st_mtime s);
         tmpoff = k_tmpoff (sc_root st)
     in rbind (tc_prints (st\<lparr>sc_root := r\<rparr>) (index_head u)) (\<lambda>st.
       case e_readdir env path of None \<Rightarrow> Inr (None, st)
       | Some names \<Rightarrow>
         rbind (tc_prints st (map (index_entry u) (filter (\<lambda>n. \<not> skip_entry env n) names))) (\<lambda>st.
           case sc_tmp st of None \<Rightarrow> Inr (None, st)
           | Some t \<Rightarrow> Inr (Some (File i), st\<lparr>sc_root := set_file (sc_root st) i
               (\<lambda>f. f\<lparr>o_size := k_tmpoff (sc_root st) - tmpoff\<rparr>)\<rparr>))))"

text \<open>The loop of \<open>add_index\<close> over the index pages.\<close>

fun try_pages :: "scan_env \<Rightarrow> scan \<Rightarrow> bytes \<Rightarrow> bytes list \<Rightarrow> (bool \<times> objref option \<times> scan) res" where
  "try_pages env st u [] = Inr (True, None, st)"
| "try_pages env st u (page # pages) =
    rbind (try_index env st u page) (\<lambda>(ok, ob, st).
      if \<not> ok then Inr (False, None, st)
      else case ob of None \<Rightarrow> try_pages env st u pages | Some ob \<Rightarrow> Inr (True, Some ob, st))"

definition link_obj :: "scan \<Rightarrow> bytes \<Rightarrow> objref option \<Rightarrow> scan" where
  "link_obj st u ob = (case ob of None \<Rightarrow> st | Some ob \<Rightarrow> st\<lparr>sc_root := webroot_link (sc_root st) u ob\<rparr>)"

definition add_index :: "scan_env \<Rightarrow> scan \<Rightarrow> stat_t \<Rightarrow> bytes \<Rightarrow> bytes \<Rightarrow> (bool \<times> scan) res" where
  "add_index env st s path u =
    rbind (try_pages env st u index_pages) (\<lambda>(ok, ob, st).
      if \<not> ok then Inr (False, st)
      else rbind
        (case ob of Some ob \<Rightarrow> Inr (Some ob, st)
         | None \<Rightarrow> if indexdirs env then index_dir env st s path u
                   else let (r, ob) = obj_code (sc_root st) 403 in Inr (Some ob, st\<lparr>sc_root := r\<rparr>))
        (\<lambda>(ob, st). Inr (ob \<noteq> None, link_obj st u ob)))"

section \<open>The scan\<close>

text \<open>
  \<open>readlink\<close> stores no terminator: \<open>scan_item\<close> uses what follows in the buffer up to the next
  NUL as part of the name.
\<close>

definition link_text :: "scan_env \<Rightarrow> bytes \<Rightarrow> bytes res" where
  "link_text env l =
    (let buf = take SYMBUF l @ drop (length l) (take SYMBUF (e_stack env)) in
     if 0 \<in> set buf then Inr (takeWhile (\<lambda>c. c \<noteq> 0) buf) else Inl Out_of_bounds)"

function (sequential) scan_item :: "nat \<Rightarrow> scan_env \<Rightarrow> scan \<Rightarrow> bytes \<Rightarrow> bytes \<Rightarrow> (bool \<times> scan) res"
  and scan_dir :: "nat \<Rightarrow> scan_env \<Rightarrow> scan \<Rightarrow> bytes \<Rightarrow> bytes \<Rightarrow> (bool \<times> scan) res"
  and scan_entries :: "nat \<Rightarrow> scan_env \<Rightarrow> scan \<Rightarrow> bytes \<Rightarrow> bytes list \<Rightarrow> (bool \<times> scan) res" where
  "scan_item 0 env st dir u = Inl Out_of_fuel"
| "scan_item (Suc fuel) env st dir u =
    (let path = webroot_lookup (sc_root st) u in
     case e_lstat env path of None \<Rightarrow> Inr (False, st)
     | Some s \<Rightarrow>
       (case st_mode s of
          S_ISDIR \<Rightarrow>
            let dpath = path_splice u [SLASH] in
            rbind (add_index env st s path dpath) (\<lambda>(ok, st).
              if \<not> ok then Inr (False, st)
              else let (r, ob) = (if u \<noteq> [] then apsnd Some (obj_redirect (sc_root st) dpath) else (sc_root st, None)) in
                rbind (scan_dir fuel env (st\<lparr>sc_root := r\<rparr>) u path) (\<lambda>(ok, st).
                  if \<not> ok then Inr (False, st) else Inr (True, link_obj st u ob)))
        | S_ISREG \<Rightarrow>
            rbind (obj_file_path (e_magic env) (sc_root st) path (st_dev s) (st_ino s) (st_mtime s) (st_size s))
              (\<lambda>(r, ob). Inr (True, link_obj (st\<lparr>sc_root := r\<rparr>) u (Some ob)))
        | S_ISLNK \<Rightarrow>
            (case e_readlink env path of None \<Rightarrow> Inr (False, st)
             | Some l \<Rightarrow> rbind (link_text env l) (\<lambda>buf.
                 let (r, ob) = obj_redirect (sc_root st) (path_splice dir buf) in
                 Inr (True, link_obj (st\<lparr>sc_root := r\<rparr>) u (Some ob))))
        | S_OTHER \<Rightarrow> Inr (True, st)))"
| "scan_dir fuel env st dir path =
    (case e_readdir env path of None \<Rightarrow> Inr (False, st)
     | Some names \<Rightarrow> scan_entries fuel env st dir names)"
| "scan_entries fuel env st dir [] = Inr (True, st)"
| "scan_entries fuel env st dir (name # names) =
    (if skip_entry env name then scan_entries fuel env st dir names
     else rbind (scan_item fuel env st dir (path_splice dir name)) (\<lambda>(ok, st).
       if \<not> ok then Inr (False, st) else scan_entries fuel env st dir names))"
  by pat_completeness auto
termination
  by (relation "measures [\<lambda>x. case x of Inl (n, _) \<Rightarrow> n | Inr (Inl (n, _)) \<Rightarrow> n | Inr (Inr (n, _)) \<Rightarrow> n,
      \<lambda>x. case x of Inl _ \<Rightarrow> 0 | Inr (Inl _) \<Rightarrow> 2 | Inr (Inr _) \<Rightarrow> 1,
      \<lambda>x. case x of Inr (Inr (_, _, _, _, names)) \<Rightarrow> length names | _ \<Rightarrow> 0]") auto

section \<open>The program\<close>

text \<open>
  What the rest of the system answers to \<open>do_mkroot\<close>: the file of temporary chunks that
  \<open>webroot_new\<close> made, the outcomes of allocations and calls, the files behind the paths, the
  answers to reads and writes.
\<close>

record mk_sys =
  m_tmp :: "sink option"
  m_sort :: bool
  m_ent :: bool
  m_trie :: "trie_entry list \<Rightarrow> trie option res"
  m_open :: "int option"
  m_fallocate :: bool
  m_fobuf :: "bool \<times> bool \<times> bytes"
  m_pad :: u32
  m_files :: "bytes \<Rightarrow> ofile option"
  m_lseek :: bool
  m_reads :: "sysret list"
  m_writes :: "sysret list"

text \<open>The result is whether the program succeeds, and the output file if it was opened.\<close>

definition do_mkroot :: "nat \<Rightarrow> scan_env \<Rightarrow> mk_sys \<Rightarrow> bytes \<Rightarrow> (bool \<times> ofile option) res" where
  "do_mkroot fuel env m dir =
    (case m_tmp m of None \<Rightarrow> Inr (False, None)
     | Some tmp \<Rightarrow>
       rbind (scan_item fuel env \<lparr>sc_root = webroot_new dir, sc_tmp = Some tmp\<rparr> [] []) (\<lambda>(ok, st).
       let out_free = (\<lambda>res. rbind (webroot_free (sc_tmp st)) (\<lambda>_. Inr res)) in
       if \<not> ok then out_free (False, None)
       else rbind (webroot_prep (m_sort m) (m_ent m) (m_trie m) (sc_root st)) (\<lambda>(ok, r).
       if \<not> ok then out_free (False, None)
       else case m_open m of None \<Rightarrow> out_free (False, None)
       | Some fd \<Rightarrow>
         if \<not> m_fallocate m then out_free (False, Some \<lparr>f_data = [], f_pos = 0\<rparr>)
         else case k_trie r of None \<Rightarrow> Inl Null_deref
         | Some t \<Rightarrow>
           let f = \<lparr>f_data = replicate (webroot_output_size t r) 0, f_pos = 0\<rparr>; (m1, m2, junk) = m_fobuf m in
           (case fobuf_new m1 m2 fd BUFFER_SIZE junk of None \<Rightarrow> out_free (False, Some f)
            | Some b \<Rightarrow>
              rbind (webroot_write (m_pad m) (m_files m) (m_lseek m) (sc_tmp st) (m_reads m) r (m_writes m, f, b))
                (\<lambda>(ok, r, s, f, b).
                  if \<not> ok then Inr (False, Some f)
                  else rbind (fobuf_close (s, f, b)) (\<lambda>(ok, s, f). out_free (ok, Some f)))))))"

definition mkroot_main :: "nat \<Rightarrow> scan_env \<Rightarrow> mk_sys \<Rightarrow> bytes list \<Rightarrow> (bool \<times> ofile option) res" where
  "mkroot_main fuel env m argv =
    (if length argv < 3 then Inr (False, None) else do_mkroot fuel env m (rstrip_slashes (argv ! 1)))"

end
