(* ===== verification/ScanProps.thy ===== *)
theory ScanProps
  imports Scan
begin

text \<open>
  What a scan leaves behind: the invariant of the collected objects, the URIs, and the fuel.
\<close>

section \<open>The invariant of the collected objects\<close>

definition ref_ok :: "mkroot \<Rightarrow> objref \<Rightarrow> bool" where
  "ref_ok r ob = (case ob of Redir i \<Rightarrow> i < length (k_redirect r) | File i \<Rightarrow> i < length (k_file r))"

definition mk_wf :: "mkroot \<Rightarrow> bool" where
  "mk_wf r \<longleftrightarrow> k_num_uri r = length (k_uri r) \<and> k_num_redirect r = length (k_redirect r) \<and>
     k_num_file r = length (k_file r) \<and> k_mimetab_sz r = 0 \<and>
     (\<forall>(u, ob) \<in> set (k_uri r). u \<noteq> [] \<and> ref_ok r ob) \<and>
     (\<forall>f \<in> set (k_file r). o_type f \<in> fst ` set (k_mime_type r) \<and> length (o_digest f) = 20)"

text \<open>An operation of the scan that adds objects but no URI.\<close>

definition grows :: "mkroot \<Rightarrow> mkroot \<Rightarrow> bool" where
  "grows r r' \<longleftrightarrow> (mk_wf r \<longrightarrow> mk_wf r') \<and> k_uri r' = k_uri r \<and> k_base r' = k_base r \<and>
     length (k_redirect r) \<le> length (k_redirect r') \<and> length (k_file r) \<le> length (k_file r')"

lemma grows_refl [simp]: "grows r r"
  by (simp add: grows_def)

lemma grows_trans: "grows r r' \<Longrightarrow> grows r' r'' \<Longrightarrow> grows r r''"
  by (auto simp: grows_def)

lemma ref_ok_mono: "grows r r' \<Longrightarrow> ref_ok r ob \<Longrightarrow> ref_ok r' ob"
  by (auto simp: grows_def ref_ok_def split: objref.splits)

lemma file_index_less: "file_index dev ino fs = Some i \<Longrightarrow> i < length fs"
  by (induction fs arbitrary: i) (auto split: if_splits)

lemma mime_add_simps [simp]:
  "k_file (mime_add r m) = k_file r" "k_redirect (mime_add r m) = k_redirect r" "k_uri (mime_add r m) = k_uri r"
  "k_num_uri (mime_add r m) = k_num_uri r" "k_num_redirect (mime_add r m) = k_num_redirect r"
  "k_num_file (mime_add r m) = k_num_file r" "k_mimetab_sz (mime_add r m) = k_mimetab_sz r"
  "fst ` set (k_mime_type (mime_add r m)) = insert m (fst ` set (k_mime_type r))" "k_base (mime_add r m) = k_base r"
  by (auto simp: mime_add_def)

lemma set_file_simps [simp]:
  "k_uri (set_file r i f) = k_uri r" "k_redirect (set_file r i f) = k_redirect r" "k_num_uri (set_file r i f) = k_num_uri r"
  "k_num_redirect (set_file r i f) = k_num_redirect r" "k_num_file (set_file r i f) = k_num_file r"
  "k_mimetab_sz (set_file r i f) = k_mimetab_sz r" "k_mime_type (set_file r i f) = k_mime_type r"
  "k_base (set_file r i f) = k_base r" "k_file (set_file r i f) = (k_file r)[i := f (k_file r ! i)]"
  by (simp_all add: set_file_def)

text \<open>What the two constructors of file objects share: the object found or appended, then filled in.\<close>

lemma file_object_grows:
  assumes o: "obj_file r dev ino mtime sz = (r1, i)"
    and r3: "r3 = set_file (mime_add (set_file r1 i (\<lambda>f. f\<lparr>o_content := c\<rparr>)) m) i (\<lambda>f. f\<lparr>o_type := m\<rparr>)"
  shows "grows r r3 \<and> ref_ok r3 (File i)"
proof -
  define fs where "fs = k_file r1"
  have i: "i < length fs" and r1: "k_uri r1 = k_uri r" "k_redirect r1 = k_redirect r" "k_mime_type r1 = k_mime_type r"
    "k_num_uri r1 = k_num_uri r" "k_num_redirect r1 = k_num_redirect r" "k_mimetab_sz r1 = k_mimetab_sz r" "k_base r1 = k_base r"
    "length (k_file r) \<le> length fs" "k_num_file r1 + length (k_file r) = k_num_file r + length fs"
    and t: "mk_wf r \<Longrightarrow> \<forall>j < length fs. length (o_digest (fs ! j)) = 20 \<and> (j \<noteq> i \<longrightarrow> o_type (fs ! j) \<in> fst ` set (k_mime_type r))"
    using o file_index_less[of dev ino "k_file r"]
    by (auto simp: obj_file_def mk_wf_def fs_def nth_append split: option.splits)
  have g: "k_file r3 = fs[i := (fs ! i)\<lparr>o_content := c, o_type := m\<rparr>]" using i by (simp add: r3 fs_def)
  have "mk_wf r3" if wf: "mk_wf r"
  proof -
    have "o_type f \<in> insert m (fst ` set (k_mime_type r)) \<and> length (o_digest f) = 20" if f: "f \<in> set (k_file r3)" for f
    proof -
      obtain j where j: "j < length fs" "f = k_file r3 ! j" using f by (auto simp: in_set_conv_nth g)
      then show ?thesis using t[OF wf] i by (cases "j = i") (auto simp: g)
    qed
    moreover have "ref_ok r ob \<Longrightarrow> ref_ok r3 ob" for ob using r1(2,8) g by (auto simp: ref_ok_def r3 split: objref.splits)
    ultimately show ?thesis using wf r1 g unfolding mk_wf_def by (auto simp: r3)
  qed
  then show ?thesis using r1 i g by (simp add: grows_def ref_ok_def r3)
qed

lemma obj_file_path_grows:
  assumes "obj_file_path magic r p dev ino mtime sz = Inr (r', ob)"
  shows "grows r r' \<and> ref_ok r' ob"
proof -
  obtain r1 i where o: "obj_file r dev ino mtime sz = (r1, i)" by (cases "obj_file r dev ino mtime sz")
  then obtain m where "ob = File i" "r' = set_file (mime_add (set_file r1 i (\<lambda>f. f\<lparr>o_content := FILE_PATH p\<rparr>)) m) i (\<lambda>f. f\<lparr>o_type := m\<rparr>)"
    using assms by (auto simp: obj_file_path_def Let_def split: option.splits)
  then show ?thesis using file_object_grows[OF o] by blast
qed

lemma obj_file_tmpchunks_grows:
  assumes "obj_file_tmpchunks r mime dev ino mtime = (r', i)"
  shows "grows r r' \<and> ref_ok r' (File i)"
proof -
  obtain r1 j where o: "obj_file r dev ino mtime 0 = (r1, j)" by (cases "obj_file r dev ino mtime 0")
  then have "j = i" "r' = set_file (mime_add (set_file r1 i (\<lambda>f. f\<lparr>o_content := FILE_TMPCHUNK (k_tmpoff r1)\<rparr>)) mime) i (\<lambda>f. f\<lparr>o_type := mime\<rparr>)"
    using assms by (auto simp: obj_file_tmpchunks_def Let_def)
  then show ?thesis using file_object_grows[OF o] by blast
qed

lemma add_redirect_grows:
  assumes "r' = r\<lparr>k_redirect := k_redirect r @ [x], k_num_redirect := k_num_redirect r + 1\<rparr>"
  shows "grows r r' \<and> ref_ok r' (Redir (length (k_redirect r)))"
proof -
  have "ref_ok r ob \<Longrightarrow> ref_ok r' ob" for ob using assms by (auto simp: ref_ok_def split: objref.splits)
  then show ?thesis using assms by (auto simp: grows_def mk_wf_def ref_ok_def[of _ "Redir _"])
qed

lemma obj_redirect_grows: "obj_redirect r p = (r', ob) \<Longrightarrow> grows r r' \<and> ref_ok r' ob"
  using add_redirect_grows by (auto simp: obj_redirect_def)

lemma obj_code_grows: "obj_code r c = (r', ob) \<Longrightarrow> grows r r' \<and> ref_ok r' ob"
  using add_redirect_grows by (auto simp: obj_code_def)

lemma grows_same:
  assumes "k_uri r' = k_uri r" "k_base r' = k_base r" "k_redirect r' = k_redirect r" "k_num_uri r' = k_num_uri r"
    "k_num_redirect r' = k_num_redirect r" "k_num_file r' = k_num_file r" "k_mimetab_sz r' = k_mimetab_sz r"
    "k_mime_type r' = k_mime_type r" "map (\<lambda>f. (o_type f, o_digest f)) (k_file r') = map (\<lambda>f. (o_type f, o_digest f)) (k_file r)"
  shows "grows r r'"
proof -
  have l: "length (k_file r') = length (k_file r)" using arg_cong[where f = length, OF assms(9)] unfolding length_map .
  have all: "\<forall>f \<in> set (k_file r'). P (o_type f) (o_digest f)" if "\<forall>f \<in> set (k_file r). P (o_type f) (o_digest f)" for P
  proof -
    have "\<forall>(a, b) \<in> set (map (\<lambda>f. (o_type f, o_digest f)) (k_file r)). P a b" using that by simp
    then have "\<forall>(a, b) \<in> set (map (\<lambda>f. (o_type f, o_digest f)) (k_file r')). P a b" unfolding assms(9) .
    then show ?thesis by simp
  qed
  have types: "\<forall>f \<in> set (k_file r'). o_type f \<in> fst ` set (k_mime_type r) \<and> length (o_digest f) = 20" if "mk_wf r"
    by (rule all[of "\<lambda>a b. a \<in> fst ` set (k_mime_type r) \<and> length b = 20"]) (use that in \<open>simp add: mk_wf_def\<close>)
  have ref: "ref_ok r' = ref_ok r" using l assms(3) by (auto simp: ref_ok_def fun_eq_iff split: objref.splits)
  have "mk_wf r'" if "mk_wf r" using that types[OF that] unfolding mk_wf_def assms(1-8) l ref by blast
  then show ?thesis using assms(1-3) l by (simp add: grows_def)
qed

lemma set_size_grows: "i < length (k_file r) \<Longrightarrow> grows r (set_file r i (\<lambda>f. f\<lparr>o_size := n\<rparr>))"
  by (rule grows_same) (simp_all add: map_update list_update_same_conv)

lemma tmpoff_grows [simp]: "grows r (r\<lparr>k_tmpoff := n\<rparr>)"
  by (rule grows_same) simp_all

lemma tc_printf_grows: "tc_printf st bs = Inr st' \<Longrightarrow> grows (sc_root st) (sc_root st')"
  by (auto simp: tc_printf_def rbind_Inr_iff split: option.splits if_splits)

lemma tc_prints_grows: "tc_prints st bs = Inr st' \<Longrightarrow> grows (sc_root st) (sc_root st')"
proof (induction bs arbitrary: st)
  case (Cons b bs)
  then show ?case using tc_printf_grows grows_trans by (fastforce simp: rbind_Inr_iff)
qed simp

lemma index_dir_grows:
  assumes "index_dir env st s path u = Inr (ob, st')"
  shows "grows (sc_root st) (sc_root st') \<and> (\<forall>x. ob = Some x \<longrightarrow> ref_ok (sc_root st') x)"
proof -
  obtain r i where r: "obj_file_tmpchunks (sc_root st) (str ''text/html'') (st_dev s) (st_ino s) (st_mtime s) = (r, i)"
    by (cases "obj_file_tmpchunks (sc_root st) (str ''text/html'') (st_dev s) (st_ino s) (st_mtime s)")
  note g = obj_file_tmpchunks_grows[OF r]
  obtain st1 where st1: "tc_prints (st\<lparr>sc_root := r\<rparr>) (index_head u) = Inr st1"
    and rest: "ob = None \<and> st' = st1 \<or> (\<exists>bs st2. tc_prints st1 bs = Inr st2 \<and> (ob = None \<and> st' = st2 \<or>
      ob = Some (File i) \<and> (\<exists>n. st' = st2\<lparr>sc_root := set_file (sc_root st2) i (\<lambda>f. f\<lparr>o_size := n\<rparr>)\<rparr>)))"
    using assms r by (auto simp: index_dir_def Let_def rbind_Inr_iff split: option.splits) blast+
  have g1: "grows r (sc_root st1)" using tc_prints_grows[OF st1] by simp
  note g01 = grows_trans[OF conjunct1[OF g] g1]
  from rest show ?thesis
  proof (elim disjE exE conjE)
    fix bs st2 n assume e: "tc_prints st1 bs = Inr st2" "ob = Some (File i)"
      "st' = st2\<lparr>sc_root := set_file (sc_root st2) i (\<lambda>f. f\<lparr>o_size := n\<rparr>)\<rparr>"
    have g2: "grows r (sc_root st2)" using grows_trans[OF g1 tc_prints_grows[OF e(1)]] .
    have rk: "ref_ok (sc_root st2) (File i)" using ref_ok_mono[OF g2] g by blast
    then have "grows (sc_root st2) (sc_root st')" using set_size_grows e(3) by (simp add: ref_ok_def)
    then show ?thesis using grows_trans[OF grows_trans[OF conjunct1[OF g] g2]] ref_ok_mono[of "sc_root st2" "sc_root st'" "File i"] rk e(2) by blast
  next
    fix bs st2 assume "tc_prints st1 bs = Inr st2" "ob = None" "st' = st2"
    then show ?thesis using grows_trans[OF g01 tc_prints_grows] by blast
  qed (use g01 in simp)
qed

lemma try_index_grows:
  assumes "try_index env st u page = Inr (ok, ob, st')"
  shows "grows (sc_root st) (sc_root st') \<and> (\<forall>x. ob = Some x \<longrightarrow> ref_ok (sc_root st') x)"
  using assms obj_file_path_grows by (auto simp: try_index_def Let_def rbind_Inr_iff split: sum.splits if_splits)

lemma try_pages_grows:
  "try_pages env st u pages = Inr (ok, ob, st') \<Longrightarrow> grows (sc_root st) (sc_root st') \<and> (\<forall>x. ob = Some x \<longrightarrow> ref_ok (sc_root st') x)"
proof (induction pages arbitrary: st)
  case (Cons page pages)
  then obtain ok1 ob1 st1 where t: "try_index env st u page = Inr (ok1, ob1, st1)" by (auto simp: rbind_Inr_iff)
  show ?case using Cons.prems Cons.IH[of st1] try_index_grows[OF t] t grows_trans by (auto split: if_splits option.splits)
qed simp

text \<open>Linking an object adds one URI.\<close>

definition linked_uri :: "bytes \<Rightarrow> bytes" where
  "linked_uri u = (if u = [] then [SLASH] else u)"

lemma webroot_link_spec:
  assumes "ref_ok r ob"
  shows "mk_wf r \<Longrightarrow> mk_wf (webroot_link r u ob)"
    and "k_uri (webroot_link r u ob) = k_uri r @ [(linked_uri u, ob)]" "k_base (webroot_link r u ob) = k_base r"
proof -
  have "str ''/'' = [SLASH]" by simp
  then show "k_uri (webroot_link r u ob) = k_uri r @ [(linked_uri u, ob)]" "k_base (webroot_link r u ob) = k_base r"
    by (simp_all add: webroot_link_def linked_uri_def Let_def)
  show "mk_wf r \<Longrightarrow> mk_wf (webroot_link r u ob)"
    using assms by (auto simp: mk_wf_def webroot_link_def Let_def ref_ok_def split: objref.splits)
qed

lemma add_index_obj:
  assumes "add_index env st s path u = Inr (ok, st')"
  shows "\<exists>ob st1. grows (sc_root st) (sc_root st1) \<and> (\<forall>x. ob = Some x \<longrightarrow> ref_ok (sc_root st1) x) \<and> st' = link_obj st1 u ob"
proof -
  obtain x where x: "try_pages env st u index_pages = Inr x"
    using rbind_Inr_iff[THEN iffD1, OF assms[unfolded add_index_def]] by blast
  obtain ok1 ob1 st1 where t: "try_pages env st u index_pages = Inr (ok1, ob1, st1)" using x by (cases x) blast
  note g = try_pages_grows[OF t]
  note a = assms[unfolded add_index_def t]
  show ?thesis
  proof (cases "ok1 \<and> ob1 = None")
    case False
    then have "st' = link_obj st1 u (if ok1 then ob1 else None)" using a by (auto simp: link_obj_def split: option.splits)
    then show ?thesis using g by (intro exI[of _ "if ok1 then ob1 else None"] exI[of _ st1]) simp
  next
    case none: True
    show ?thesis
    proof (cases "indexdirs env")
      case True
      then obtain ob2 st2 where "index_dir env st1 s path u = Inr (ob2, st2)" "st' = link_obj st2 u ob2"
        using a none by (auto simp: rbind_Inr_iff)
      then show ?thesis using g index_dir_grows grows_trans by blast
    next
      case False
      obtain r x where c: "obj_code (sc_root st1) 403 = (r, x)" by (cases "obj_code (sc_root st1) 403")
      then have "st' = link_obj (st1\<lparr>sc_root := r\<rparr>) u (Some x)" using a none False by simp
      moreover have "grows (sc_root st) r" "ref_ok r x" using g obj_code_grows[OF c] grows_trans by blast+
      ultimately show ?thesis by (intro exI[of _ "Some x"] exI[of _ "st1\<lparr>sc_root := r\<rparr>"]) simp
    qed
  qed
qed

text \<open>
  What a step of the scan does to the builder: it keeps the invariant and adds URIs, which
  are different and belong to \<open>R\<close>.
\<close>

definition adds :: "bytes set \<Rightarrow> mkroot \<Rightarrow> mkroot \<Rightarrow> bool" where
  "adds R r r' \<longleftrightarrow> (mk_wf r \<longrightarrow> mk_wf r') \<and> k_base r' = k_base r \<and>
     length (k_redirect r) \<le> length (k_redirect r') \<and> length (k_file r) \<le> length (k_file r') \<and>
     (\<exists>A. k_uri r' = k_uri r @ A \<and> distinct (map fst A) \<and> fst ` set A \<subseteq> R)"

lemma grows_adds: "grows r r' \<Longrightarrow> adds {} r r'"
  by (auto simp: adds_def grows_def)

lemma adds_trans: "adds R r r' \<Longrightarrow> adds S r' r'' \<Longrightarrow> R \<inter> S = {} \<Longrightarrow> adds (R \<union> S) r r''"
  unfolding adds_def
proof (elim conjE exE)
  fix A B assume "k_uri r' = k_uri r @ A" "distinct (map fst A)" "fst ` set A \<subseteq> R"
    "k_uri r'' = k_uri r' @ B" "distinct (map fst B)" "fst ` set B \<subseteq> S" "R \<inter> S = {}"
  then have "k_uri r'' = k_uri r @ (A @ B) \<and> distinct (map fst (A @ B)) \<and> fst ` set (A @ B) \<subseteq> R \<union> S" by auto
  then show "(mk_wf r \<longrightarrow> mk_wf r') \<Longrightarrow> k_base r' = k_base r \<Longrightarrow> length (k_redirect r) \<le> length (k_redirect r') \<Longrightarrow>
    length (k_file r) \<le> length (k_file r') \<Longrightarrow> (mk_wf r' \<longrightarrow> mk_wf r'') \<Longrightarrow> k_base r'' = k_base r' \<Longrightarrow>
    length (k_redirect r') \<le> length (k_redirect r'') \<Longrightarrow> length (k_file r') \<le> length (k_file r'') \<Longrightarrow>
    (mk_wf r \<longrightarrow> mk_wf r'') \<and> k_base r'' = k_base r \<and> length (k_redirect r) \<le> length (k_redirect r'') \<and>
    length (k_file r) \<le> length (k_file r'') \<and> (\<exists>A. k_uri r'' = k_uri r @ A \<and> distinct (map fst A) \<and> fst ` set A \<subseteq> R \<union> S)"
    using le_trans by auto
qed

lemma adds_mono: "adds R r r' \<Longrightarrow> R \<subseteq> S \<Longrightarrow> adds S r r'"
  unfolding adds_def by blast

lemma link_adds:
  assumes "\<forall>x. ob = Some x \<longrightarrow> ref_ok (sc_root st) x"
  shows "adds {linked_uri u} (sc_root st) (sc_root (link_obj st u ob))"
proof (cases ob)
  case (Some x)
  then have "ref_ok (sc_root st) x" using assms by simp
  note l = webroot_link_spec[OF this, of u]
  have "length (k_redirect (webroot_link r u x)) = length (k_redirect r)" "length (k_file (webroot_link r u x)) = length (k_file r)" for r
    by (simp_all add: webroot_link_def Let_def)
  then show ?thesis using l Some by (auto simp: adds_def link_obj_def)
qed (auto simp: adds_def link_obj_def)

lemma adds_after: "grows r r' \<Longrightarrow> adds R r' r'' \<Longrightarrow> adds R r r''"
  using adds_trans[OF grows_adds] by force

lemma add_index_adds:
  assumes "add_index env st s path u = Inr (ok, st')"
  shows "adds {linked_uri u} (sc_root st) (sc_root st')"
proof -
  obtain ob st1 where ob: "grows (sc_root st) (sc_root st1)" "\<forall>x. ob = Some x \<longrightarrow> ref_ok (sc_root st1) x" "st' = link_obj st1 u ob"
    using add_index_obj[OF assms] by blast
  show ?thesis unfolding ob(3) by (rule adds_after[OF ob(1) link_adds[OF ob(2)]])
qed

section \<open>The URIs of a scan\<close>

text \<open>The names in a directory: different, not empty, without a slash or a NUL.\<close>

definition name_ok :: "bytes \<Rightarrow> bool" where
  "name_ok n \<longleftrightarrow> n \<noteq> [] \<and> SLASH \<notin> set n \<and> 0 \<notin> set n"

definition names_ok :: "scan_env \<Rightarrow> bool" where
  "names_ok env \<longleftrightarrow> (\<forall>path names. e_readdir env path = Some names \<longrightarrow> distinct names \<and> (\<forall>n \<in> set names. name_ok n))"

definition uri_ok :: "bytes \<Rightarrow> bool" where
  "uri_ok u \<longleftrightarrow> (u = [] \<or> last u \<noteq> SLASH) \<and> 0 \<notin> set u"

text \<open>The URIs at and below \<open>u\<close>.\<close>

definition region :: "bytes \<Rightarrow> bytes set" where
  "region u = {v. (v = linked_uri u \<or> prefix (u @ [SLASH]) v) \<and> 0 \<notin> set v}"

definition entry_region :: "bytes \<Rightarrow> bytes set \<Rightarrow> bytes set" where
  "entry_region u names = (\<Union>n \<in> names. region (u @ SLASH # n))"

lemma path_splice_name: "uri_ok u \<Longrightarrow> name_ok n \<Longrightarrow> path_splice u n = u @ SLASH # n"
  by (cases n) (auto simp: path_splice_def uri_ok_def name_ok_def)

lemma path_splice_slash: "path_splice u [SLASH] = u @ [SLASH]"
  by (simp add: path_splice_def)

lemma uri_ok_name: "uri_ok u \<Longrightarrow> name_ok n \<Longrightarrow> uri_ok (u @ SLASH # n)"
proof -
  assume a: "uri_ok u" "name_ok n"
  then have "last n \<noteq> SLASH" by (metis last_in_set name_ok_def)
  then show ?thesis using a by (simp add: uri_ok_def name_ok_def)
qed

lemma takeWhile_slash: "name_ok n \<Longrightarrow> takeWhile (\<lambda>c. c \<noteq> SLASH) n = n"
  unfolding takeWhile_eq_all_conv by (metis name_ok_def)

lemma takeWhile_slash_append: "name_ok n \<Longrightarrow> takeWhile (\<lambda>c. c \<noteq> SLASH) (n @ SLASH # z) = n"
proof -
  assume "name_ok n"
  then have "\<And>x. x \<in> set n \<Longrightarrow> x \<noteq> SLASH" by (metis name_ok_def)
  then show ?thesis by (subst takeWhile_append2) simp_all
qed

text \<open>The component behind \<open>u\<close> tells to which entry of the directory a URI belongs.\<close>

lemma region_component:
  assumes "v \<in> region (u @ SLASH # n)" "name_ok n"
  shows "prefix (u @ [SLASH]) v \<and> takeWhile (\<lambda>c. c \<noteq> SLASH) (drop (length u + 1) v) = n"
proof -
  consider "v = u @ SLASH # n" | z where "v = u @ SLASH # n @ SLASH # z"
    using assms(1) by (auto simp: region_def linked_uri_def prefix_def)
  then show ?thesis by cases (use takeWhile_slash takeWhile_slash_append assms(2) in \<open>simp_all add: prefix_def\<close>)
qed

lemma regions_disjoint:
  assumes "name_ok n" "\<forall>m \<in> names. name_ok m" "n \<notin> names"
  shows "region (u @ SLASH # n) \<inter> entry_region u names = {}"
proof -
  have "False" if "v \<in> region (u @ SLASH # n)" "m \<in> names" "v \<in> region (u @ SLASH # m)" for v m
    using region_component[of v u n] region_component[of v u m] that assms by auto
  then show ?thesis by (auto simp: entry_region_def)
qed

lemma entry_region_below:
  assumes "\<forall>m \<in> names. name_ok m"
  shows "entry_region u names \<subseteq> region u" "u @ [SLASH] \<notin> entry_region u names" "u \<notin> entry_region u names"
proof -
  have c: "\<exists>m \<in> names. prefix (u @ [SLASH]) v \<and> takeWhile (\<lambda>c. c \<noteq> SLASH) (drop (length u + 1) v) = m \<and> m \<noteq> [] \<and> 0 \<notin> set v"
    if v: "v \<in> entry_region u names" for v
  proof -
    obtain m where m: "m \<in> names" "v \<in> region (u @ SLASH # m)" using v unfolding entry_region_def by blast
    then have "m \<noteq> []" "0 \<notin> set v" "name_ok m" using assms by (auto simp: name_ok_def region_def)
    then show ?thesis using region_component[OF m(2)] m(1) by blast
  qed
  show "entry_region u names \<subseteq> region u" using c by (auto simp: region_def)
  show "u @ [SLASH] \<notin> entry_region u names" using c[of "u @ [SLASH]"] by auto
  show "u \<notin> entry_region u names" using c[of u] by (auto simp: prefix_def)
qed

lemma region_self: "uri_ok u \<Longrightarrow> linked_uri u \<in> region u"
  by (auto simp: region_def uri_ok_def linked_uri_def)

text \<open>One step of the scan for an item that is not a directory.\<close>

lemma file_item_adds:
  assumes "grows (sc_root st) r" "ref_ok r ob" "uri_ok u"
  shows "adds (region u) (sc_root st) (sc_root (link_obj (st\<lparr>sc_root := r\<rparr>) u (Some ob)))"
proof -
  have "adds {linked_uri u} r (sc_root (link_obj (st\<lparr>sc_root := r\<rparr>) u (Some ob)))"
    using link_adds[of "Some ob" "st\<lparr>sc_root := r\<rparr>" u] assms(2) by simp
  then have "adds (region u) r (sc_root (link_obj (st\<lparr>sc_root := r\<rparr>) u (Some ob)))"
    using adds_mono region_self[OF assms(3)] by blast
  then show ?thesis by (rule adds_after[OF assms(1)])
qed

lemma adds_refl: "adds R r r"
  by (simp add: adds_def)

text \<open>One step for a directory: its index, its entries, and the redirect to it.\<close>

lemma dir_item_adds:
  assumes i: "adds {linked_uri (u @ [SLASH])} r0 r1" and g: "grows r1 r2" and e: "adds (entry_region u names) r2 (sc_root st)"
    and n: "\<forall>m \<in> names. name_ok m" and u: "uri_ok u"
    and ob: "ob = None \<and> u = [] \<or> (\<exists>x. ob = Some x \<and> ref_ok r2 x \<and> u \<noteq> [])"
  shows "adds (region u) r0 (sc_root (link_obj st u ob))" "adds (region u) r0 (sc_root st)"
proof -
  note b = entry_region_below[OF n, of u]
  have s: "u @ [SLASH] \<in> region u" using u by (auto simp: region_def uri_ok_def)
  have "adds ({u @ [SLASH]} \<union> entry_region u names) r0 (sc_root st)"
    by (rule adds_trans[OF _ adds_after[OF g e]]) (use i b(2) in \<open>simp_all add: linked_uri_def\<close>)
  note a = this
  show 1: "adds (region u) r0 (sc_root st)" using adds_mono[OF a] b(1) s by blast
  show "adds (region u) r0 (sc_root (link_obj st u ob))"
  proof (cases ob)
    case None
    then show ?thesis using 1 by (simp add: link_obj_def)
  next
    case (Some x)
    then have x: "ref_ok r2 x" "u \<noteq> []" using ob by auto
    then have "ref_ok (sc_root st) x" using e by (auto simp: adds_def ref_ok_def split: objref.splits)
    then have l: "adds {u} (sc_root st) (sc_root (link_obj st u ob))" using link_adds[of ob st u] Some x(2) by (simp add: linked_uri_def)
    have "adds (({u @ [SLASH]} \<union> entry_region u names) \<union> {u}) r0 (sc_root (link_obj st u ob))"
      by (rule adds_trans[OF a l]) (use b(3) in simp)
    moreover have "u \<in> region u" using region_self[OF u] x(2) by (simp add: linked_uri_def)
    ultimately show ?thesis using adds_mono b(1) s by blast
  qed
qed

lemma scan_entries_adds:
  assumes item: "\<And>st u ok st'. scan_item fuel env st dir u = Inr (ok, st') \<Longrightarrow> uri_ok u \<Longrightarrow> adds (region u) (sc_root st) (sc_root st')"
    and u: "uri_ok dir"
  shows "scan_entries fuel env st dir names = Inr (ok, st') \<Longrightarrow> distinct names \<Longrightarrow> \<forall>n \<in> set names. name_ok n \<Longrightarrow>
    adds (entry_region dir (set names)) (sc_root st) (sc_root st')"
proof (induction names arbitrary: st)
  case Nil
  then show ?case by (simp add: adds_refl)
next
  case (Cons name names)
  have ok: "name_ok name" "\<forall>n \<in> set names. name_ok n" "name \<notin> set names" using Cons.prems by auto
  have sub: "entry_region dir (set names) \<subseteq> entry_region dir (set (name # names))" by (auto simp: entry_region_def)
  show ?case
  proof (cases "skip_entry env name")
    case True
    then show ?thesis using Cons.IH[of st] Cons.prems adds_mono[OF _ sub] by simp
  next
    case False
    let ?r = "region (dir @ SLASH # name)"
    have e: "rbind (scan_item fuel env st dir (dir @ SLASH # name))
        (\<lambda>(ok, st). if \<not> ok then Inr (False, st) else scan_entries fuel env st dir names) = Inr (ok, st')"
      using Cons.prems(1) False path_splice_name[OF u ok(1)] by simp
    obtain x where x: "scan_item fuel env st dir (dir @ SLASH # name) = Inr x"
      "(case x of (ok, st) \<Rightarrow> if \<not> ok then Inr (False, st) else scan_entries fuel env st dir names) = Inr (ok, st')"
      using rbind_Inr_iff[THEN iffD1, OF e] by blast
    obtain ok1 st1 where x1: "x = (ok1, st1)" by (cases x)
    have a1: "adds ?r (sc_root st) (sc_root st1)" using item[OF x(1)[unfolded x1]] uri_ok_name[OF u ok(1)] by blast
    have un: "entry_region dir (set (name # names)) = ?r \<union> entry_region dir (set names)" by (simp add: entry_region_def)
    show ?thesis
    proof (cases ok1)
      case True
      then have "scan_entries fuel env st1 dir names = Inr (ok, st')" using x(2) x1 by simp
      then have "adds (entry_region dir (set names)) (sc_root st1) (sc_root st')" using Cons.IH Cons.prems(2) ok(2) by simp
      then show ?thesis unfolding un by (rule adds_trans[OF a1]) (rule regions_disjoint[OF ok])
    next
      case False
      then have "st' = st1" using x(2) x1 by simp
      then show ?thesis unfolding un using adds_mono[OF a1] by blast
    qed
  qed
qed

text \<open>The part of \<open>scan_item\<close> for a directory.\<close>

lemma scan_directory_adds:
  assumes names: "names_ok env" and u: "uri_ok u"
    and item: "\<And>st v ok st'. scan_item fuel env st u v = Inr (ok, st') \<Longrightarrow> uri_ok v \<Longrightarrow> adds (region v) (sc_root st) (sc_root st')"
    and e: "rbind (add_index env st s path (u @ [SLASH])) (\<lambda>(ok, st).
      if \<not> ok then Inr (False, st)
      else let (r, ob) = (if u \<noteq> [] then apsnd Some (obj_redirect (sc_root st) (u @ [SLASH])) else (sc_root st, None)) in
        rbind (scan_dir fuel env (st\<lparr>sc_root := r\<rparr>) u path) (\<lambda>(ok, st).
          if \<not> ok then Inr (False, st) else Inr (True, link_obj st u ob))) = Inr (ok, st')"
  shows "adds (region u) (sc_root st) (sc_root st')"
proof -
  obtain ok1 st1 where x: "add_index env st s path (u @ [SLASH]) = Inr (ok1, st1)"
    using rbind_Inr_iff[THEN iffD1, OF e] by (metis surj_pair)
  note a1 = add_index_adds[OF x]
  obtain r ob where ro: "(if u \<noteq> [] then apsnd Some (obj_redirect (sc_root st1) (u @ [SLASH])) else (sc_root st1, None)) = (r, ob)"
    by (metis surj_pair)
  have g: "grows (sc_root st1) r" and ob: "ob = None \<and> u = [] \<or> (\<exists>x. ob = Some x \<and> ref_ok r x \<and> u \<noteq> [])"
    using ro obj_redirect_grows[of "sc_root st1" "u @ [SLASH]"] by (cases "obj_redirect (sc_root st1) (u @ [SLASH])"; auto split: if_splits)+
  have fin: "adds (region u) (sc_root st) (sc_root st')"
    if "st' = link_obj st2 u ob \<or> st' = st2" "adds (entry_region u ns) r (sc_root st2)" "\<forall>m \<in> ns. name_ok m" for st2 ns
    using dir_item_adds[OF a1 g that(2,3) u ob] that(1) by blast
  show ?thesis
  proof (cases ok1)
    case False
    then have "st' = st1" using e x by simp
    then show ?thesis using adds_mono[OF a1] u by (auto simp: region_def linked_uri_def uri_ok_def)
  next
    case True
    then have d: "rbind (scan_dir fuel env (st1\<lparr>sc_root := r\<rparr>) u path) (\<lambda>(ok, st).
        if \<not> ok then Inr (False, st) else Inr (True, link_obj st u ob)) = Inr (ok, st')"
      using e x ro by (simp add: Let_def split: if_splits)
    show ?thesis
    proof (cases "e_readdir env path")
      case None
      then have "st' = st1\<lparr>sc_root := r\<rparr>" using d by simp
      then show ?thesis using fin[of "st1\<lparr>sc_root := r\<rparr>" "{}"] by (simp add: adds_refl)
    next
      case (Some ns)
      obtain ok2 st2 where x2: "scan_entries fuel env (st1\<lparr>sc_root := r\<rparr>) u ns = Inr (ok2, st2)"
        using rbind_Inr_iff[THEN iffD1, OF d] Some by (metis surj_pair scan_dir.simps option.simps(5))
      then have "st' = link_obj st2 u ob \<or> st' = st2" using d Some by (cases ok2) simp_all
      moreover have n: "distinct ns" "\<forall>n \<in> set ns. name_ok n" using names Some by (auto simp: names_ok_def)
      moreover have "adds (entry_region u (set ns)) r (sc_root st2)" using scan_entries_adds[OF item u x2 n] by simp
      ultimately show ?thesis using fin by blast
    qed
  qed
qed

lemma scan_item_adds:
  assumes "names_ok env"
  shows "scan_item fuel env st dir u = Inr (ok, st') \<Longrightarrow> uri_ok u \<Longrightarrow> adds (region u) (sc_root st) (sc_root st')"
proof (induction fuel arbitrary: st dir u ok st')
  case (Suc fuel)
  let ?path = "webroot_lookup (sc_root st) u"
  show ?case
  proof (cases "e_lstat env ?path")
    case None
    then show ?thesis using Suc.prems(1) by (simp add: adds_refl)
  next
    case (Some s)
    show ?thesis
    proof (cases "st_mode s")
      case S_ISREG
      then obtain r ob where "obj_file_path (e_magic env) (sc_root st) ?path (st_dev s) (st_ino s) (st_mtime s) (st_size s) = Inr (r, ob)"
        "st' = link_obj (st\<lparr>sc_root := r\<rparr>) u (Some ob)"
        using Suc.prems(1) Some by (auto simp: rbind_Inr_iff Let_def)
      then show ?thesis using obj_file_path_grows file_item_adds Suc.prems(2) by blast
    next
      case S_ISLNK
      show ?thesis
      proof (cases "e_readlink env ?path")
        case None
        then show ?thesis using Suc.prems(1) Some S_ISLNK by (simp add: adds_refl)
      next
        case (Some l)
        then obtain buf where "link_text env l = Inr buf"
          using Suc.prems(1) \<open>e_lstat env ?path = Some s\<close> S_ISLNK by (cases "link_text env l") simp_all
        moreover obtain r ob where ro: "obj_redirect (sc_root st) (path_splice dir buf) = (r, ob)" by (metis surj_pair)
        ultimately have "st' = link_obj (st\<lparr>sc_root := r\<rparr>) u (Some ob)"
          using Suc.prems(1) \<open>e_lstat env ?path = Some s\<close> S_ISLNK Some by simp
        then show ?thesis using obj_redirect_grows[OF ro] file_item_adds Suc.prems(2) by blast
      qed
    next
      case S_OTHER
      then show ?thesis using Suc.prems(1) Some by (simp add: adds_refl)
    next
      case S_ISDIR
      show ?thesis
        by (rule scan_directory_adds[OF assms Suc.prems(2) Suc.IH])
          (use Suc.prems(1) Some S_ISDIR in \<open>simp_all add: Let_def path_splice_slash\<close>)
    qed
  qed
qed simp

section \<open>Fuel\<close>

text \<open>The item \<open>u\<close> has less than \<open>n + 1\<close> levels of directories below it.\<close>

fun nests :: "scan_env \<Rightarrow> bytes \<Rightarrow> nat \<Rightarrow> bytes \<Rightarrow> bool" where
  "nests env base n u =
    (case e_lstat env (path_splice base u) of None \<Rightarrow> True
     | Some s \<Rightarrow> st_mode s = S_ISDIR \<longrightarrow>
       (case e_readdir env (path_splice base u) of None \<Rightarrow> True
        | Some names \<Rightarrow> \<forall>name \<in> set names. \<not> skip_entry env name \<longrightarrow>
            (case n of 0 \<Rightarrow> False | Suc m \<Rightarrow> nests env base m (path_splice u name))))"

declare nests.simps [simp del]

definition sc_ok :: "scan \<Rightarrow> bool" where
  "sc_ok st \<longleftrightarrow> (\<forall>t. sc_tmp st = Some t \<longrightarrow> sink_ok t)"

text \<open>A step that leaves the temporary file usable and, unless \<open>q\<close>, does not run out of fuel.\<close>

definition steps :: "bool \<Rightarrow> ('a \<Rightarrow> scan) \<Rightarrow> 'a res \<Rightarrow> bool" where
  "steps q sel m = (case m of Inl e \<Rightarrow> q \<or> e \<noteq> Out_of_fuel | Inr x \<Rightarrow> sc_ok (sel x))"

lemma steps_Inr [simp]: "steps q sel (Inr x) = sc_ok (sel x)"
  by (simp add: steps_def)

lemma steps_rbind:
  assumes "steps q sel m" "\<And>x. m = Inr x \<Longrightarrow> sc_ok (sel x) \<Longrightarrow> steps q sel' (f x)"
  shows "steps q sel' (rbind m f)"
  using assms by (cases m) (simp_all add: steps_def)

lemma sc_ok_root [simp]: "sc_ok (st\<lparr>sc_root := r\<rparr>) = sc_ok st"
  by (simp add: sc_ok_def)

lemma sc_ok_link [simp]: "sc_ok (link_obj st u ob) = sc_ok st"
  by (simp add: link_obj_def split: option.splits)

lemma tc_printf_steps: "sc_ok st \<Longrightarrow> steps q (\<lambda>x. x) (tc_printf st bs)"
proof (cases "sc_tmp st")
  case (Some t)
  assume "sc_ok st"
  then have t: "sink_ok t" using Some by (simp add: sc_ok_def)
  show ?thesis
  proof (cases "fobuf_write t bs")
    case (Inl e)
    then show ?thesis using fb.put_fault[OF t Inl] Some by (simp add: tc_printf_def steps_def)
  next
    case (Inr x)
    obtain ok t' where x: "x = (ok, t')" by (cases x)
    then show ?thesis using fb.put_good[OF t] Inr Some by (simp add: tc_printf_def sc_ok_def)
  qed
qed (simp add: tc_printf_def)

lemma tc_prints_steps: "sc_ok st \<Longrightarrow> steps q (\<lambda>x. x) (tc_prints st bs)"
proof (induction bs arbitrary: st)
  case (Cons b bs)
  have "steps q (\<lambda>x. x) (rbind (tc_printf st b) (\<lambda>st. tc_prints st bs))"
    by (rule steps_rbind[OF tc_printf_steps[OF Cons.prems]]) (simp add: Cons.IH)
  then show ?case by simp
qed simp

lemma index_dir_steps:
  assumes "sc_ok st"
  shows "steps q snd (index_dir env st s path u)"
proof -
  obtain r i where r: "obj_file_tmpchunks (sc_root st) (str ''text/html'') (st_dev s) (st_ino s) (st_mtime s) = (r, i)"
    by (metis surj_pair)
  show ?thesis unfolding index_dir_def r Let_def prod.case
  proof (rule steps_rbind)
    show "steps q (\<lambda>x. x) (tc_prints (st\<lparr>sc_root := r\<rparr>) (index_head u))" using tc_prints_steps assms by simp
    fix st1 assume "sc_ok st1"
    then have "steps q (\<lambda>x. x) (tc_prints st1 bs)" for bs using tc_prints_steps by simp
    then show "steps q snd (case e_readdir env path of None \<Rightarrow> Inr (None, st1)
       | Some names \<Rightarrow>
         rbind (tc_prints st1 (map (index_entry u) (filter (\<lambda>n. \<not> skip_entry env n) names))) (\<lambda>sta.
           case sc_tmp sta of None \<Rightarrow> Inr (None, sta)
           | Some t \<Rightarrow> Inr (Some (File i), sta\<lparr>sc_root := set_file (sc_root sta) i
               (\<lambda>f. f\<lparr>o_size := k_tmpoff (sc_root sta) - k_tmpoff (sc_root st)\<rparr>)\<rparr>)))"
      using \<open>sc_ok st1\<close> by (auto intro!: steps_rbind[where sel = "\<lambda>x. x"] split: option.splits)
  qed
qed

lemma obj_file_path_fuel: "obj_file_path magic r p dev ino mtime sz \<noteq> Inl Out_of_fuel"
  by (simp add: obj_file_path_def Let_def split: prod.splits option.splits)

lemma file_path_steps:
  "\<forall>r ob. sc_ok (sel (g r ob)) \<Longrightarrow> steps q sel (rbind (obj_file_path magic r p dev ino mtime sz) (\<lambda>(r, ob). Inr (g r ob)))"
  using obj_file_path_fuel[of magic r p dev ino mtime sz]
  by (cases "obj_file_path magic r p dev ino mtime sz") (auto simp: steps_def)

lemma try_index_steps: "sc_ok st \<Longrightarrow> steps q (\<lambda>x. snd (snd x)) (try_index env st u page)"
  unfolding try_index_def Let_def by (simp add: file_path_steps split: sum.splits)

lemma try_pages_steps: "sc_ok st \<Longrightarrow> steps q (\<lambda>x. snd (snd x)) (try_pages env st u pages)"
proof (induction pages arbitrary: st)
  case (Cons page pages)
  show ?case unfolding try_pages.simps
    by (rule steps_rbind[OF try_index_steps[OF Cons.prems]]) (auto simp: Cons.IH split: option.splits)
qed simp

lemma add_index_steps:
  assumes "sc_ok st"
  shows "steps q snd (add_index env st s path u)"
  unfolding add_index_def
proof (rule steps_rbind[OF try_pages_steps[OF assms]])
  fix x :: "bool \<times> objref option \<times> scan" assume x: "sc_ok (snd (snd x))"
  obtain ok ob st1 where p: "x = (ok, ob, st1)" by (cases x)
  have "steps q snd (case ob of None \<Rightarrow> if indexdirs env then index_dir env st1 s path u
       else let (r, ob) = obj_code (sc_root st1) 403 in Inr (Some ob, st1\<lparr>sc_root := r\<rparr>) | Some ob \<Rightarrow> Inr (Some ob, st1))"
    using x p index_dir_steps by (auto simp: obj_code_def split: option.splits)
  then have R: "steps q snd (rbind (case ob of None \<Rightarrow> if indexdirs env then index_dir env st1 s path u
       else let (r, ob) = obj_code (sc_root st1) 403 in Inr (Some ob, st1\<lparr>sc_root := r\<rparr>) | Some ob \<Rightarrow> Inr (Some ob, st1))
      (\<lambda>(ob, st). Inr (ob \<noteq> None, link_obj st u ob)))"
    by (rule steps_rbind) (simp add: case_prod_beta)
  show "steps q snd (case x of (ok, ob, st) \<Rightarrow> if \<not> ok then Inr (False, st)
      else rbind (case ob of None \<Rightarrow> if indexdirs env then index_dir env st s path u
            else let (r, ob) = obj_code (sc_root st) 403 in Inr (Some ob, st\<lparr>sc_root := r\<rparr>) | Some ob \<Rightarrow> Inr (Some ob, st))
        (\<lambda>(ob, st). Inr (ob \<noteq> None, link_obj st u ob)))"
    unfolding p prod.case using R x p by (auto simp only: steps_Inr snd_conv split: if_split)
qed

text \<open>A directory tree of depth \<open>n\<close> is scanned with fuel \<open>n + 1\<close>.\<close>

lemma scan_entries_steps:
  assumes item: "\<And>st u. sc_ok st \<Longrightarrow> k_base (sc_root st) = base \<Longrightarrow> uri_ok u \<Longrightarrow> P u \<Longrightarrow> steps q snd (scan_item fuel env st dir u)"
    and env: "names_ok env" and u: "uri_ok dir"
  shows "sc_ok st \<Longrightarrow> k_base (sc_root st) = base \<Longrightarrow> \<forall>name \<in> set names. name_ok name \<and> (\<not> skip_entry env name \<longrightarrow> P (path_splice dir name)) \<Longrightarrow>
    steps q snd (scan_entries fuel env st dir names)"
proof (induction names arbitrary: st)
  case (Cons name names)
  show ?case
  proof (cases "skip_entry env name")
    case True
    then show ?thesis using Cons by simp
  next
    case False
    let ?v = "path_splice dir name"
    have v: "uri_ok ?v" "P ?v" using Cons.prems(3) False path_splice_name[OF u] uri_ok_name[OF u] by auto
    have "steps q snd (rbind (scan_item fuel env st dir ?v) (\<lambda>(ok, st). if \<not> ok then Inr (False, st) else scan_entries fuel env st dir names))"
    proof (rule steps_rbind[OF item[OF Cons.prems(1,2) v]])
      fix x assume x: "scan_item fuel env st dir ?v = Inr x" "sc_ok (snd x)"
      obtain ok st1 where p: "x = (ok, st1)" by (cases x)
      have "k_base (sc_root st1) = base" using scan_item_adds[OF env x(1)[unfolded p] v(1)] Cons.prems(2) by (simp add: adds_def)
      then show "steps q snd (case x of (ok, st) \<Rightarrow> if \<not> ok then Inr (False, st) else scan_entries fuel env st dir names)"
        using Cons.IH[of st1] Cons.prems(3) x(2) p by simp
    qed
    then show ?thesis using False by simp
  qed
qed simp

lemma scan_directory_steps:
  assumes item: "\<And>st v. sc_ok st \<Longrightarrow> k_base (sc_root st) = base \<Longrightarrow> uri_ok v \<Longrightarrow> P v \<Longrightarrow> steps q snd (scan_item fuel env st u v)"
    and env: "names_ok env" and u: "uri_ok u" and st: "sc_ok st" "k_base (sc_root st) = base"
    and names: "\<forall>ns. e_readdir env path = Some ns \<longrightarrow> (\<forall>n \<in> set ns. \<not> skip_entry env n \<longrightarrow> P (path_splice u n))"
  shows "steps q snd (rbind (add_index env st s path (u @ [SLASH])) (\<lambda>(ok, st).
      if \<not> ok then Inr (False, st)
      else let (r, ob) = (if u \<noteq> [] then apsnd Some (obj_redirect (sc_root st) (u @ [SLASH])) else (sc_root st, None)) in
        rbind (scan_dir fuel env (st\<lparr>sc_root := r\<rparr>) u path) (\<lambda>(ok, st).
          if \<not> ok then Inr (False, st) else Inr (True, link_obj st u ob))))"
proof (rule steps_rbind[OF add_index_steps[OF st(1)]])
  fix x assume x: "add_index env st s path (u @ [SLASH]) = Inr x" "sc_ok (snd x)"
  obtain ok st1 where p: "x = (ok, st1)" by (cases x)
  have b: "k_base (sc_root st1) = base" using add_index_adds[OF x(1)[unfolded p]] st(2) by (simp add: adds_def)
  obtain r ob where ro: "(if u \<noteq> [] then apsnd Some (obj_redirect (sc_root st1) (u @ [SLASH])) else (sc_root st1, None)) = (r, ob)"
    by (metis surj_pair)
  then have "k_base r = base" using b by (auto simp: obj_redirect_def split: if_splits)
  have d: "steps q snd (scan_dir fuel env (st1\<lparr>sc_root := r\<rparr>) u path)"
  proof (cases "e_readdir env path")
    case (Some ns)
    have "steps q snd (scan_entries fuel env (st1\<lparr>sc_root := r\<rparr>) u ns)"
    proof (rule scan_entries_steps[OF item env u])
      show "\<forall>n \<in> set ns. name_ok n \<and> (\<not> skip_entry env n \<longrightarrow> P (path_splice u n))"
        using names Some env by (simp add: names_ok_def)
    qed (use x(2) p \<open>k_base r = base\<close> in simp_all)
    then show ?thesis using Some by simp
  qed (use x(2) p in simp)
  have "steps q snd (rbind (scan_dir fuel env (st1\<lparr>sc_root := r\<rparr>) u path) (\<lambda>(ok, st).
      if \<not> ok then Inr (False, st) else Inr (True, link_obj st u ob)))"
    by (rule steps_rbind[OF d]) (simp add: case_prod_beta)
  then show "steps q snd (case x of (ok, st) \<Rightarrow> if \<not> ok then Inr (False, st)
      else let (r, ob) = (if u \<noteq> [] then apsnd Some (obj_redirect (sc_root st) (u @ [SLASH])) else (sc_root st, None)) in
        rbind (scan_dir fuel env (st\<lparr>sc_root := r\<rparr>) u path) (\<lambda>(ok, st).
          if \<not> ok then Inr (False, st) else Inr (True, link_obj st u ob)))"
    using x(2) unfolding p prod.case ro Let_def by (auto simp only: steps_Inr snd_conv split: if_split)
qed

lemma scan_item_step:
  assumes item: "\<And>st v. sc_ok st \<Longrightarrow> k_base (sc_root st) = base \<Longrightarrow> uri_ok v \<Longrightarrow> P v \<Longrightarrow> steps q snd (scan_item fuel env st u v)"
    and env: "names_ok env" and u: "uri_ok u" and st: "sc_ok st" "k_base (sc_root st) = base"
    and names: "\<forall>s ns. e_lstat env (path_splice base u) = Some s \<and> st_mode s = S_ISDIR \<and> e_readdir env (path_splice base u) = Some ns \<longrightarrow>
      (\<forall>n \<in> set ns. \<not> skip_entry env n \<longrightarrow> P (path_splice u n))"
  shows "steps q snd (scan_item (Suc fuel) env st dir u)"
proof (cases "e_lstat env (path_splice base u)")
  case None
  then show ?thesis using st by (simp add: webroot_lookup_def)
next
  case (Some s)
  let ?p = "path_splice base u"
  show ?thesis
  proof (cases "st_mode s")
    case S_ISDIR
    then show ?thesis using scan_directory_steps[OF item env u st, where path = ?p and s = s] names Some st(2)
      by (simp add: webroot_lookup_def path_splice_slash Let_def)
  next
    case S_ISREG
    then show ?thesis using Some st by (simp add: webroot_lookup_def Let_def file_path_steps)
  next
    case S_ISLNK
    have "link_text env l \<noteq> Inl Out_of_fuel" for l by (simp add: link_text_def Let_def)
    then show ?thesis using Some st S_ISLNK
      by (auto simp: webroot_lookup_def Let_def steps_def obj_redirect_def split: option.splits sum.splits) (auto simp: rbind_Inl_iff rbind_Inr_iff)
  next
    case S_OTHER
    then show ?thesis using Some st by (simp add: webroot_lookup_def)
  qed
qed

lemma scan_item_steps:
  assumes env: "names_ok env"
  shows "sc_ok st \<Longrightarrow> uri_ok u \<Longrightarrow> k_base (sc_root st) = base \<Longrightarrow> nests env base n u \<Longrightarrow> steps False snd (scan_item (Suc n) env st dir u)"
proof (induction n arbitrary: st dir u)
  case 0
  then show ?case using scan_item_step[where base = base and P = "\<lambda>_. False" and fuel = 0 and env = env and u = u and st = st and dir = dir and q = False, OF _ env]
    by (simp add: nests.simps[of env base 0 u] split: option.splits)
next
  case (Suc n)
  show ?case
    by (rule scan_item_step[where base = base and P = "nests env base n", OF Suc.IH env])
      (use Suc.prems in \<open>auto simp: nests.simps[of env base "Suc n" u]\<close>)
qed

lemma scan_item_keeps:
  assumes env: "names_ok env"
  shows "sc_ok st \<Longrightarrow> uri_ok u \<Longrightarrow> k_base (sc_root st) = base \<Longrightarrow> steps True snd (scan_item fuel env st dir u)"
proof (induction fuel arbitrary: st dir u)
  case 0
  then show ?case by (simp add: steps_def)
next
  case (Suc fuel)
  show ?case by (rule scan_item_step[where base = base and P = "\<lambda>_. True", OF Suc.IH env]) (use Suc.prems in simp_all)
qed

section \<open>Properties\<close>

lemma scan_root:
  assumes "names_ok env" "scan_item fuel env \<lparr>sc_root = webroot_new base, sc_tmp = tmp\<rparr> [] [] = Inr (ok, st)"
  shows "mk_wf (sc_root st)" "distinct (map fst (k_uri (sc_root st)))"
    "\<forall>u \<in> fst ` set (k_uri (sc_root st)). hd u = SLASH \<and> 0 \<notin> set u"
proof -
  have "uri_ok []" by (simp add: uri_ok_def)
  note a = scan_item_adds[OF assms this]
  have "mk_wf (webroot_new base)" "k_uri (webroot_new base) = []" by (simp_all add: mk_wf_def webroot_new_def)
  moreover have "\<forall>v \<in> region []. hd v = SLASH \<and> 0 \<notin> set v" by (auto simp: region_def linked_uri_def prefix_def)
  ultimately show "mk_wf (sc_root st)" "distinct (map fst (k_uri (sc_root st)))"
    "\<forall>u \<in> fst ` set (k_uri (sc_root st)). hd u = SLASH \<and> 0 \<notin> set u"
    using a by (auto simp: adds_def)
qed

text \<open>
  C24.  The scan of a directory tree collects a consistent set of objects: when it returns,
  successfully or not, the counters are those of the lists, every URI is linked to an existing
  object, every file has a type of the type table, all URIs are different, begin with a slash
  and contain no NUL.  For a tree of directories of depth \<open>n\<close> fuel \<open>n + 1\<close> is enough.
\<close>

theorem scan_collects:
  assumes "names_ok env" "sink_ok tmp"
  shows "(\<forall>ok st. scan_item fuel env \<lparr>sc_root = webroot_new base, sc_tmp = Some tmp\<rparr> [] [] = Inr (ok, st) \<longrightarrow>
      mk_wf (sc_root st) \<and> distinct (map fst (k_uri (sc_root st))) \<and>
      (\<forall>u \<in> fst ` set (k_uri (sc_root st)). hd u = SLASH \<and> 0 \<notin> set u)) \<and>
    (nests env base n [] \<longrightarrow> scan_item (Suc n) env \<lparr>sc_root = webroot_new base, sc_tmp = Some tmp\<rparr> [] [] \<noteq> Inl Out_of_fuel)"
proof -
  let ?st = "\<lparr>sc_root = webroot_new base, sc_tmp = Some tmp\<rparr>"
  have u: "uri_ok []" by (simp add: uri_ok_def)
  have "mk_wf (sc_root st) \<and> distinct (map fst (k_uri (sc_root st))) \<and>
      (\<forall>u \<in> fst ` set (k_uri (sc_root st)). hd u = SLASH \<and> 0 \<notin> set u)"
    if "scan_item fuel env ?st [] [] = Inr (ok, st)" for ok st
    using scan_root[OF assms(1) that] by blast
  moreover have "sc_ok ?st" using assms(2) by (simp add: sc_ok_def)
  then have "nests env base n [] \<Longrightarrow> steps False snd (scan_item (Suc n) env ?st [] [])"
    using scan_item_steps[OF assms(1) _ u, of ?st base n "[]"] by (simp add: webroot_new_def)
  then have "nests env base n [] \<Longrightarrow> scan_item (Suc n) env ?st [] [] \<noteq> Inl Out_of_fuel"
    by (auto simp: steps_def)
  ultimately show ?thesis by blast
qed

text \<open>A directory with one file, which was modified at \<open>t\<close>.\<close>

definition sample_env_at :: "nat \<Rightarrow> scan_env" where
  "sample_env_at t = \<lparr>e_lstat = (\<lambda>p. if p = str ''w/'' then Some \<lparr>st_mode = S_ISDIR, st_dev = 1, st_ino = 1, st_mtime = 5, st_size = 0\<rparr>
       else if p = str ''w/a'' then Some \<lparr>st_mode = S_ISREG, st_dev = 1, st_ino = 2, st_mtime = t, st_size = 3\<rparr> else None),
     e_stat = (\<lambda>p. Inl True), e_readdir = (\<lambda>p. if p = str ''w/'' then Some [[DOT], str ''a''] else None), e_readlink = (\<lambda>p. None),
     e_stack = [], e_magic = (\<lambda>p. Some (str ''text'')), dotfiles = False, indexdirs = False\<rparr>"

definition sample_env :: scan_env where "sample_env = sample_env_at 7"

definition sample_tmp :: sink where
  "sample_tmp = ([], \<lparr>f_data = [], f_pos = 0\<rparr>, \<lparr>fb_fd = 3, fb_buf = replicate 64 0, fb_ptr = 0, fb_len = 64, fb_sz = 64\<rparr>)"

lemma sample_names_at: "names_ok (sample_env_at t)"
proof -
  have "name_ok [DOT]" "name_ok (str ''a'')" "distinct [[DOT], str ''a'']" by code_simp+
  then show ?thesis by (auto simp: names_ok_def sample_env_at_def split: if_splits)
qed

lemma sample_names: "names_ok sample_env"
  unfolding sample_env_def by (rule sample_names_at)

lemma sample_scan_result:
  "case scan_item 2 sample_env \<lparr>sc_root = webroot_new (str ''w''), sc_tmp = Some sample_tmp\<rparr> [] [] of
     Inl e \<Rightarrow> False | Inr (ok, st) \<Rightarrow> ok \<and> map fst (k_uri (sc_root st)) = [str ''/'', str ''/a'']"
  by code_simp

theorem scan_collects_witness:
  "(\<exists>st. scan_item 2 sample_env \<lparr>sc_root = webroot_new (str ''w''), sc_tmp = Some sample_tmp\<rparr> [] [] = Inr (True, st) \<and>
     map fst (k_uri (sc_root st)) = [str ''/'', str ''/a''] \<and> mk_wf (sc_root st)) \<and> nests sample_env (str ''w'') 1 []"
proof -
  have ok: "sink_ok sample_tmp" by (simp add: sample_tmp_def sink_ok_def fobuf_ok_def)
  have n: "nests sample_env (str ''w'') 1 []" by code_simp
  obtain st where st: "scan_item 2 sample_env \<lparr>sc_root = webroot_new (str ''w''), sc_tmp = Some sample_tmp\<rparr> [] [] = Inr (True, st)"
      "map fst (k_uri (sc_root st)) = [str ''/'', str ''/a'']"
    using sample_scan_result by (cases "scan_item 2 sample_env \<lparr>sc_root = webroot_new (str ''w''), sc_tmp = Some sample_tmp\<rparr> [] []") auto
  have "mk_wf (sc_root st)"
    using conjunct1[OF scan_collects[OF sample_names ok, of 2 "str ''w''" 1], rule_format, OF st(1)] by (rule conjunct1)
  then show ?thesis using st n by (intro conjI exI[of _ st])
qed

end
