(* ===== verification/WebrootImage.thy ===== *)
theory WebrootImage
  imports ScanProps
begin

text \<open>
  What the builder writes is what the server finds: the bytes of a written web root, and the
  result of opening it and looking a URI up.  This theory composes the builder (theories
  \<^verbatim>\<open>Trie\<close>, \<^verbatim>\<open>TrieDisk\<close>, \<^verbatim>\<open>Mkroot\<close>, \<^verbatim>\<open>Fobuf\<close>, \<^verbatim>\<open>Sha1\<close>) with the reader (\<^verbatim>\<open>Webroot\<close>).
\<close>

section \<open>Slices of a concatenation\<close>

definition offs :: "'a list list \<Rightarrow> nat \<Rightarrow> nat" where
  "offs xs i = sum_list (map length (take i xs))"

lemma concat_slice: "i < length xs \<Longrightarrow> take (length (xs ! i)) (drop (offs xs i) (concat xs)) = xs ! i"
proof (induction xs arbitrary: i)
  case (Cons x xs)
  then show ?case by (cases i) (auto simp: offs_def)
qed simp

lemma concat_slice_bound: "i < length xs \<Longrightarrow> offs xs i + length (xs ! i) \<le> length (concat xs)"
proof (induction xs arbitrary: i)
  case (Cons x xs)
  then show ?case by (cases i) (auto simp: offs_def)
qed simp

lemma offs_const: "\<forall>x \<in> set xs. length x = k \<Longrightarrow> i \<le> length xs \<Longrightarrow> offs xs i = k * i"
proof (induction xs arbitrary: i)
  case (Cons x xs)
  then show ?case by (cases i) (auto simp: offs_def)
qed (simp add: offs_def)

section \<open>Layout of the string tables and files\<close>

lemma layout_mime_spec:
  "layout_mime off ms = (ms', off') \<Longrightarrow> map fst ms' = map fst ms \<and> off' = off + length (concat (map fst ms)) \<and>
    (\<forall>m \<in> fst ` set ms. \<exists>i < length ms. map fst ms ! i = m \<and> map_of ms' m = Some (of_nat (off + offs (map fst ms) i)))"
proof (induction off ms arbitrary: ms' off' rule: layout_mime.induct)
  case (2 off m x ms)
  obtain ns where ns: "layout_mime (off + length m) ms = (ns, off')" "ms' = (m, of_nat off) # ns"
    using "2.prems" by (auto simp: Let_def split: prod.splits)
  note ih = 2(1)[OF ns(1)]
  have "\<exists>i < length ((m, x) # ms). map fst ((m, x) # ms) ! i = k \<and> map_of ms' k = Some (of_nat (off + offs (map fst ((m, x) # ms)) i))"
    if k: "k \<in> fst ` set ((m, x) # ms)" for k
  proof (cases "k = m")
    case True
    then show ?thesis using ns(2) by (intro exI[of _ 0]) (simp add: offs_def)
  next
    case False
    then have "k \<in> fst ` set ms" using k by auto
    then obtain i where "i < length ms" "map fst ms ! i = k" "map_of ns k = Some (of_nat (off + length m + offs (map fst ms) i))"
      using ih by blast
    then show ?thesis using False ns(2) by (intro exI[of _ "Suc i"]) (simp add: offs_def add.assoc)
  qed
  then show ?case using ih ns(2) by simp
qed simp

definition uri_bytes_of :: "redir_obj \<Rightarrow> bytes" where
  "uri_bytes_of ob = (case o_uri ob of Some u \<Rightarrow> u | None \<Rightarrow> [])"

lemma concat_redirtab: "concat (redirtab obs) = concat (map uri_bytes_of obs)"
  by (induction obs) (auto simp: redirtab_def uri_bytes_of_def split: option.splits)

lemma layout_redirect_spec:
  "layout_redirect off obs = (obs', off') \<Longrightarrow> length obs' = length obs \<and> off' = off + length (concat (map uri_bytes_of obs)) \<and>
    (\<forall>i < length obs. obs' ! i = (obs ! i)\<lparr>o_strtab_off := of_nat (off + offs (map uri_bytes_of obs) i)\<rparr>)"
proof (induction off obs arbitrary: obs' off' rule: layout_redirect.induct)
  case (2 off ob obs)
  have l: "(case o_uri ob of Some u \<Rightarrow> length u | None \<Rightarrow> 0) = length (uri_bytes_of ob)"
    by (simp add: uri_bytes_of_def split: option.splits)
  obtain ns where ns: "layout_redirect (off + length (uri_bytes_of ob)) obs = (ns, off')" "obs' = ob\<lparr>o_strtab_off := of_nat off\<rparr> # ns"
    using "2.prems" by (auto simp: Let_def l split: prod.splits)
  note ih = 2(1)[unfolded l, OF ns(1)]
  have "obs' ! i = ((ob # obs) ! i)\<lparr>o_strtab_off := of_nat (off + offs (map uri_bytes_of (ob # obs)) i)\<rparr>" if "i < length (ob # obs)" for i
    using ih ns(2) that by (cases i) (auto simp: offs_def add.assoc)
  then show ?case using ih ns(2) by simp
qed simp

lemma layout_file_spec:
  "layout_file off obs = (obs', off') \<Longrightarrow> length obs' = length obs \<and> off' = off + sum_list (map o_size obs) \<and>
    (\<forall>i < length obs. obs' ! i = (obs ! i)\<lparr>o_off := of_nat (off + sum_list (map o_size (take i obs)))\<rparr>)"
proof (induction off obs arbitrary: obs' off' rule: layout_file.induct)
  case (2 off ob obs)
  obtain ns where ns: "layout_file (off + o_size ob) obs = (ns, off')" "obs' = ob\<lparr>o_off := of_nat off\<rparr> # ns"
    using "2.prems" by (auto simp: Let_def split: prod.splits)
  note ih = 2(1)[OF ns(1)]
  have "obs' ! i = ((ob # obs) ! i)\<lparr>o_off := of_nat (off + sum_list (map o_size (take i (ob # obs))))\<rparr>" if "i < length (ob # obs)" for i
    using ih ns(2) that by (cases i) (auto simp: add.assoc)
  then show ?case using ih ns(2) by simp
qed simp

section \<open>The bytes written\<close>

lemma write_each_put_all: "write_each out bs = fb.put_all out bs"
  by (induction bs arbitrary: out) (auto intro!: arg_cong[of _ _ "rbind _"] ext split: prod.splits)

text \<open>A stage of the writer that succeeded has appended its bytes.\<close>

definition sink_fd :: "sink \<Rightarrow> int" where
  "sink_fd = (\<lambda>(s, f, b). fb_fd b)"

definition wrote :: "sink \<Rightarrow> bytes \<Rightarrow> sink \<Rightarrow> bool" where
  "wrote out bs out' \<longleftrightarrow> sink_ok out' \<and> sink_view out' = sys_write (sink_view out) bs \<and> sink_fd out' = sink_fd out"

lemma sink_put_fd: "fobuf_write out bs = Inr (ok, out') \<Longrightarrow> sink_fd out' = sink_fd out"
  using fobuf_write_fd by (cases out; cases out') (auto simp: sink_fd_def)

lemma sink_put_all_fd: "fb.put_all out bs = Inr (ok, out') \<Longrightarrow> sink_fd out' = sink_fd out"
proof (induction bs arbitrary: out)
  case (Cons b bs)
  then show ?case using sink_put_fd[of out b] by (auto simp: rbind_Inr_iff split: if_splits)
qed simp

lemma wrote_trans: "wrote a x b \<Longrightarrow> wrote b y c \<Longrightarrow> wrote a (x @ y) c"
  by (simp add: wrote_def sys_write_sys_write)

lemma write_each_wrote: "sink_ok out \<Longrightarrow> write_each out bs = Inr (True, out') \<Longrightarrow> wrote out (concat bs) out'"
  unfolding write_each_put_all wrote_def using fb.put_all_good fb.put_all_view sink_put_all_fd by blast

lemma wrote_ok: "wrote out bs out' \<Longrightarrow> sink_ok out'"
  by (simp add: wrote_def)

lemma fobuf_write_wrote: "sink_ok out \<Longrightarrow> fobuf_write out bs = Inr (True, out') \<Longrightarrow> wrote out bs out'"
  unfolding wrote_def using fb.put_good fb.put_view sink_put_fd by blast

lemma or_fail_True:
  "or_fail m k x = Inr (True, y, z) \<Longrightarrow> \<exists>out. m = Inr (True, out) \<and> k out = Inr (True, y, z)"
  by (auto simp: or_fail_def rbind_Inr_iff split: if_splits)

lemma copy_loop_spec:
  "copy_loop s f len ctx out = Inr (Some (k, sha), s', out') \<Longrightarrow> sink_ok out \<Longrightarrow> ctx_for ctx m \<Longrightarrow>
    \<exists>c. wrote out c out' \<and> length c + k = len \<and> c = take (length c) (drop (f_pos f) (f_data f)) \<and> sha = fips_sha1 (m @ c)"
proof (induction s f len ctx out arbitrary: m rule: copy_loop.induct)
  case (3 n s f len ctx out)
  let ?got = "sys_pread f (f_pos f) (if BUFFER_SIZE < len then BUFFER_SIZE else len) n"
  show ?case
  proof (cases "?got = []")
    case True
    then show ?thesis using "3.prems" final_spec[OF update_spec[OF "3.prems"(3), of "[]"]]
      by (intro exI[of _ "[]"]) (auto simp: Let_def wrote_def)
  next
    case False
    then obtain out1 where w: "fobuf_write out ?got = Inr (True, out1)"
      and c: "copy_loop s (f\<lparr>f_pos := f_pos f + length ?got\<rparr>) (len - length ?got) (blk_SHA1_Update ctx ?got) out1 = Inr (Some (k, sha), s', out')"
      using "3.prems"(1) by (auto simp: Let_def rbind_Inr_iff split: if_splits)
    have w1: "wrote out ?got out1" by (rule fobuf_write_wrote[OF "3.prems"(2) w])
    then have ok: "sink_ok out1" by (simp add: wrote_def)
    obtain d where d: "wrote out1 d out'" "length d + k = len - length ?got"
      "d = take (length d) (drop (f_pos f + length ?got) (f_data f))" "sha = fips_sha1 ((m @ ?got) @ d)"
      using "3.IH"[OF refl False w refl _ c ok update_spec[OF "3.prems"(3)]] by auto
    have g: "length ?got \<le> len" "?got = take (length ?got) (drop (f_pos f) (f_data f))"
      by (auto simp: sys_pread_def min_def)
    have "?got @ d = take (length (?got @ d)) (drop (f_pos f) (f_data f))"
      using g(2) d(3) unfolding take_add length_append by (metis add.commute drop_drop)
    moreover have "length (?got @ d) + k = len" using d(2) g(1) by simp
    ultimately show ?thesis using wrote_trans[OF w1 d(1)] d(4) unfolding append.assoc by blast
  qed
qed auto

text \<open>The object \<open>ob\<close> was copied with content \<open>c\<close>.\<close>

definition copied :: "(content \<Rightarrow> ofile option) \<Rightarrow> file_obj \<Rightarrow> bytes \<Rightarrow> bool" where
  "copied src ob c \<longleftrightarrow> (\<exists>f. src (o_content ob) = Some f \<and> c = take (o_size ob) (drop (f_pos f) (f_data f)) \<and> length c = o_size ob)"

lemma write_file_spec:
  assumes "write_file src s ob out = Inr (True, ob', s', out')" "sink_ok out"
  shows "\<exists>c. copied src ob c \<and> ob' = ob\<lparr>o_digest := fips_sha1 c\<rparr> \<and> wrote out c out'"
proof -
  obtain f sha where f: "src (o_content ob) = Some f" "copy_loop s f (o_size ob) blk_SHA1_Init out = Inr (Some (0, sha), s', out')"
    "ob' = ob\<lparr>o_digest := sha\<rparr>"
    using assms(1) by (auto simp: write_file_def rbind_Inr_iff rassert_Inr_iff Let_def split: option.splits if_splits)
  from copy_loop_spec[OF f(2) assms(2) init_spec] show ?thesis using f by (auto simp: copied_def)
qed

lemma write_each_file_spec:
  "write_each_file src s obs out = Inr (True, obs', s', out') \<Longrightarrow> sink_ok out \<Longrightarrow>
    \<exists>cs. length cs = length obs \<and> list_all2 (copied src) obs cs \<and>
      obs' = map2 (\<lambda>ob c. ob\<lparr>o_digest := fips_sha1 c\<rparr>) obs cs \<and> wrote out (concat cs) out'"
proof (induction src s obs out arbitrary: obs' rule: write_each_file.induct)
  case (1 src s out)
  then show ?case by (auto simp: wrote_def)
next
  case (2 src s ob obs out)
  obtain ob1 s1 out1 obs1 where w: "write_file src s ob out = Inr (True, ob1, s1, out1)"
    "write_each_file src s1 obs out1 = Inr (True, obs1, s', out')" "obs' = ob1 # obs1"
    using "2.prems"(1) by (auto simp: rbind_Inr_iff split: if_splits)
  obtain c where c: "copied src ob c" "ob1 = ob\<lparr>o_digest := fips_sha1 c\<rparr>" "wrote out c out1"
    using write_file_spec[OF w(1) "2.prems"(2)] by blast
  then have ok: "sink_ok out1" by (simp add: wrote_def)
  obtain cs where cs: "length cs = length obs" "list_all2 (copied src) obs cs"
    "obs1 = map2 (\<lambda>ob c. ob\<lparr>o_digest := fips_sha1 c\<rparr>) obs cs" "wrote out1 (concat cs) out'"
    using "2.IH"[OF w(1) refl refl refl _ w(2) ok] by auto
  then show ?case using c w(3) wrote_trans[OF c(3) cs(4)] by (intro exI[of _ "c # cs"]) simp
qed

lemma length_fips_sha1: "length (fips_sha1 m) = 20"
  by (simp add: fips_sha1_def put_be32_def split: prod.splits)

lemma length_concat_const: "\<forall>x \<in> set xs. length (f x) = k \<Longrightarrow> length (concat (map f xs)) = k * length xs"
  by (induction xs) auto

lemma put_at_fresh: "length d \<le> length bs \<Longrightarrow> bs \<noteq> [] \<Longrightarrow> put_at d 0 bs = bs"
  by (simp add: put_at_def)

lemma put_at_middle: "length ys = length ys' \<Longrightarrow> put_at (xs @ ys @ zs) (length xs) ys' = xs @ ys' @ zs"
  by (cases "ys' = []") (auto simp: put_at_def)

text \<open>The index and the content of a web root file.\<close>

definition index_image :: "u32 \<Rightarrow> trie \<Rightarrow> mkroot \<Rightarrow> bytes" where
  "index_image pad t r = hdr_bytes (mk_header pad t r) @ concat (map dedge_bytes (trie_image t)) @
     concat (map (redirect_bytes \<circ> redirect_rec) (k_redirect r)) @ concat (map (file_bytes \<circ> file_rec r) (k_file r)) @
     concat (map fst (k_mime_type r)) @ concat (redirtab (k_redirect r))"

definition with_digests :: "mkroot \<Rightarrow> bytes list \<Rightarrow> mkroot" where
  "with_digests r cs = r\<lparr>k_file := map2 (\<lambda>ob c. ob\<lparr>o_digest := fips_sha1 c\<rparr>) (k_file r) cs\<rparr>"

lemma with_digests_simps:
  "k_mime_type (with_digests r cs) = k_mime_type r" "k_redirect (with_digests r cs) = k_redirect r"
  "k_num_redirect (with_digests r cs) = k_num_redirect r" "k_num_file (with_digests r cs) = k_num_file r"
  "k_uri (with_digests r cs) = k_uri r" "mk_header pad t (with_digests r cs) = mk_header pad t r"
  "file_rec (with_digests r cs) = file_rec r" "index_sz t (with_digests r cs) = index_sz t r"
  by (auto simp: with_digests_def mk_header_def file_rec_def mime_off_def index_sz_def)

lemma write_etags_spec:
  assumes "write_etags lo t r out = Inr (True, out')" "sink_ok out"
  shows "sink_ok out' \<and> sink_fd out' = sink_fd out \<and>
    sink_view out' = sys_write ((sink_view out)\<lparr>f_pos := HDR_SZ + trie_trie_size t + REDIRECT_SZ * k_num_redirect r\<rparr>)
      (concat (map (file_bytes \<circ> file_rec r) (k_file r)))"
proof -
  let ?p = "HDR_SZ + trie_trie_size t + REDIRECT_SZ * k_num_redirect r"
  obtain s f b where out: "out = (s, f, b)" by (cases out) auto
  obtain s1 f1 b1 where fl: "flush_buf (s, f, b) = Inr (True, s1, f1, b1)"
    and w: "write_file_objs r (s1, f1\<lparr>f_pos := ?p\<rparr>, b1) = Inr (True, out')"
    using assms(1) out by (auto simp: write_etags_def fobuf_flush_def rbind_Inr_iff split: if_splits)
  have "fobuf_ok b" using assms(2) out by (simp add: sink_ok_def)
  from flush_buf_Inr[OF this fl] have b1: "fobuf_ok b1" "pending b1 = []" "f1 = sink_view out" "fb_fd b1 = fb_fd b"
    by (auto simp: out sink_view_def)
  have "wrote (s1, f1\<lparr>f_pos := ?p\<rparr>, b1) (concat (map (file_bytes \<circ> file_rec r) (k_file r))) out'"
    using write_each_wrote w b1(1) by (simp add: write_file_objs_def sink_ok_def)
  then show ?thesis using b1 out by (simp add: wrote_def sink_view_def sink_fd_def)
qed

lemma webroot_write_image:
  assumes w: "webroot_write pad files lo (Some tmp) s r out = Inr (True, r', out')" and ok: "sink_ok out" "sink_ok tmp"
    and view: "sink_view out = \<lparr>f_data = d, f_pos = 0\<rparr>"
    and t: "k_trie r = Some t" "trie_for es t edges"
    and counts: "k_num_redirect r = length (k_redirect r)" "\<forall>f \<in> set (k_file r). length (o_digest f) = 20"
    and len: "length d \<le> length (index_image pad t r) + sum_list (map o_size (k_file r))"
    and src: "src = content_of files lo (sink_view tmp)"
  shows "\<exists>cs. list_all2 (copied src) (k_file r) cs \<and> r' = with_digests r cs \<and> sink_ok out' \<and> sink_fd out' = sink_fd out \<and>
    f_data (sink_view out') = index_image pad t r' @ concat cs"
proof -
  let ?H = "hdr_bytes (mk_header pad t r)" let ?T = "concat (map dedge_bytes (trie_image t))"
  let ?R = "concat (map (redirect_bytes \<circ> redirect_rec) (k_redirect r))"
  let ?F = "\<lambda>r. concat (map (file_bytes \<circ> file_rec r) (k_file r))"
  let ?M = "concat (map fst (k_mime_type r))" let ?U = "concat (redirtab (k_redirect r))"
  obtain o1 o2 o3 o4 o5 o6 o7 where st: "write_header pad t r out = Inr (True, o1)" "trie_write_trie o1 t = Inr (True, o2)"
    "write_redirect_objs r o2 = Inr (True, o3)" "write_file_objs r o3 = Inr (True, o4)" "write_mimetab r o4 = Inr (True, o5)"
    "write_redirtab r o5 = Inr (True, o6)" "write_files files lo (Some tmp) s r o6 = Inr (True, r', o7)"
    "write_etags lo t r' o7 = Inr (True, out')"
    using w t(1) unfolding webroot_write_def
    by (auto dest!: or_fail_True simp: rbind_Inr_iff split: if_splits)
  have w1: "wrote out ?H o1" using fobuf_write_wrote[OF ok(1)] st(1) by (simp add: write_header_def)
  have w2: "wrote o1 ?T o2" using st(2)[unfolded trie_for_write[OF t(2)]] w1 write_each_wrote
    unfolding write_each_put_all using wrote_ok by blast
  have w3: "wrote o2 ?R o3" by (rule write_each_wrote[OF wrote_ok[OF w2] st(3)[unfolded write_redirect_objs_def]])
  have w4: "wrote o3 (?F r) o4" by (rule write_each_wrote[OF wrote_ok[OF w3] st(4)[unfolded write_file_objs_def]])
  have w5: "wrote o4 ?M o5" by (rule write_each_wrote[OF wrote_ok[OF w4] st(5)[unfolded write_mimetab_def]])
  have w6: "wrote o5 ?U o6" by (rule write_each_wrote[OF wrote_ok[OF w5] st(6)[unfolded write_redirtab_def]])
  obtain ts tf tb where tm: "tmp = (ts, tf, tb)" by (cases tmp)
  obtain ts' tf' tb' fs s' where f: "flush_buf (ts, tf, tb) = Inr (True, ts', tf', tb')"
    "write_each_file (content_of files lo tf') s (k_file r) o6 = Inr (True, fs, s', o7)" "r' = r\<lparr>k_file := fs\<rparr>"
    using st(7) tm by (auto simp: write_files_def fobuf_flush_def rbind_Inr_iff split: if_splits)
  have "tf' = sink_view tmp" using flush_buf_Inr[OF _ f(1)] ok(2) tm by (simp add: sink_ok_def sink_view_def)
  then have f2: "write_each_file src s (k_file r) o6 = Inr (True, fs, s', o7)" using f(2) src by simp
  obtain cs where cs: "length cs = length (k_file r)" "list_all2 (copied src) (k_file r) cs" "r' = with_digests r cs" "wrote o6 (concat cs) o7"
    using write_each_file_spec[OF f2] w6 f(3) by (auto simp: wrote_def with_digests_def)
  have all: "wrote out (?H @ ?T @ ?R @ ?F r @ ?M @ ?U @ concat cs) o7"
    using wrote_trans[OF w1 wrote_trans[OF w2 wrote_trans[OF w3 wrote_trans[OF w4 wrote_trans[OF w5 wrote_trans[OF w6 cs(4)]]]]]] .
  have csl: "length (concat cs) = sum_list (map o_size (k_file r))" using cs(2)
    by (induction rule: list_all2_induct) (auto simp: copied_def)
  have "?H \<noteq> []" using record_sizes(1)[of "mk_header pad t r"] by (auto simp: HDR_SZ_def)
  moreover have "length d \<le> length (?H @ ?T @ ?R @ ?F r @ ?M @ ?U @ concat cs)"
    using len csl by (simp add: index_image_def)
  ultimately have data: "f_data (sink_view o7) = ?H @ ?T @ ?R @ ?F r @ ?M @ ?U @ concat cs"
    using all view by (simp add: wrote_def sys_write_def put_at_fresh del: length_append)
  have "\<forall>f \<in> set (k_file r'). length (o_digest f) = 20"
    using cs(1,3) by (auto simp: with_digests_def length_fips_sha1 in_set_zip)
  then have "length (?F r') = length (?F r)"
    using length_concat_const[of "k_file r'" "file_bytes \<circ> file_rec r'" FILE_SZ] length_concat_const[of "k_file r" "file_bytes \<circ> file_rec r" FILE_SZ]
      counts(2) cs(1,3) record_sizes(2) by (simp add: file_rec_def with_digests_def)
  then have mid: "put_at ((?H @ ?T @ ?R) @ ?F r @ (?M @ ?U @ concat cs)) (length (?H @ ?T @ ?R)) (?F r') = (?H @ ?T @ ?R) @ ?F r' @ (?M @ ?U @ concat cs)"
    by (intro put_at_middle) simp
  have "length (?H @ ?T @ ?R) = HDR_SZ + trie_trie_size t + REDIRECT_SZ * k_num_redirect r'"
    using record_sizes(1,3) trie_for_size[OF t(2)] length_concat_const[of "k_redirect r" "redirect_bytes \<circ> redirect_rec" REDIRECT_SZ] counts(1) cs(3)
    by (simp add: with_digests_simps)
  then have "f_data (sink_view out') = (?H @ ?T @ ?R) @ ?F r' @ (?M @ ?U @ concat cs)"
    using write_etags_spec[OF st(8)] all data mid by (simp add: sys_write_def wrote_def)
  moreover have "sink_ok out'" "sink_fd out' = sink_fd out" using write_etags_spec[OF st(8)] all by (simp_all add: wrote_def)
  ultimately show ?thesis using cs(2,3) by (auto simp: index_image_def with_digests_simps)
qed

section \<open>The prepared index\<close>

text \<open>What \<open>webroot_prep\<close> promises to the writer about the tables of the index.\<close>

definition laid_out :: "trie \<Rightarrow> mkroot \<Rightarrow> mkroot \<Rightarrow> bool" where
  "laid_out t r r' \<longleftrightarrow> k_trie r' = Some t \<and> k_uri r' = sort_key fst (k_uri r) \<and>
     k_num_redirect r' = length (k_redirect r) \<and> k_num_file r' = length (k_file r) \<and>
     map fst (k_mime_type r') = map fst (k_mime_type r) \<and>
     k_mimetab_sz r' = length (concat (map fst (k_mime_type r))) \<and>
     k_redirtab_sz r' = length (concat (redirtab (k_redirect r))) \<and>
     (\<forall>m \<in> fst ` set (k_mime_type r). \<exists>i < length (k_mime_type r). map fst (k_mime_type r) ! i = m \<and>
        map_of (k_mime_type r') m = Some (of_nat (index_sz t r + offs (map fst (k_mime_type r)) i))) \<and>
     length (k_redirect r') = length (k_redirect r) \<and>
     (\<forall>i < length (k_redirect r). k_redirect r' ! i = (k_redirect r ! i)\<lparr>o_strtab_off :=
        of_nat (index_sz t r + k_mimetab_sz r' + offs (map uri_bytes_of (k_redirect r)) i)\<rparr>) \<and>
     length (k_file r') = length (k_file r) \<and>
     (\<forall>i < length (k_file r). k_file r' ! i = (k_file r ! i)\<lparr>o_off :=
        of_nat (index_sz t r + k_mimetab_sz r' + k_redirtab_sz r' + sum_list (map o_size (take i (k_file r))))\<rparr>) \<and>
     k_files_sz r' = sum_list (map o_size (k_file r))"

definition uris_ok :: "mkroot \<Rightarrow> bool" where
  "uris_ok r \<longleftrightarrow> k_uri r \<noteq> [] \<and> distinct (map fst (k_uri r)) \<and> (\<forall>u \<in> fst ` set (k_uri r). length u < 256 \<and> 0 \<notin> set u)"

lemma sorted_distinct_lexordp: "sorted xs \<Longrightarrow> distinct xs \<Longrightarrow> sorted_wrt ord_class.lexordp (xs :: bytes list)"
  unfolding lexordp_conv_lexord list_less_def[symmetric] strict_sorted_iff by simp

lemma trie_entries_sorted:
  assumes "uris_ok r" "mk_wf r" "k_uri r' = sort_key fst (k_uri r)"
  shows "sorted_entries 0 (trie_entries r')" "trie_entries r' \<noteq> []"
proof -
  have "map (sfx 0) (trie_entries r') = map fst (k_uri r')"
    by (simp add: trie_entries_def sfx_def comp_def case_prod_beta')
  moreover have "sorted (map fst (k_uri r'))" "distinct (map fst (k_uri r'))"
    using assms by (simp_all add: uris_ok_def distinct_map)
  ultimately have "sorted_wrt ord_class.lexordp (map (sfx 0) (trie_entries r'))" using sorted_distinct_lexordp by metis
  moreover have "\<forall>v \<in> set (trie_entries r'). t_str v \<in> fst ` set (k_uri r)"
    using assms(3) by (force simp: trie_entries_def)
  moreover have "\<forall>u \<in> fst ` set (k_uri r). u \<noteq> [] \<and> length u < 256 \<and> 0 \<notin> set u"
    using assms(1,2) by (auto simp: uris_ok_def mk_wf_def)
  ultimately show "sorted_entries 0 (trie_entries r')" unfolding sorted_entries_def by (metis add_0 length_greater_0_conv)
  show "trie_entries r' \<noteq> []" using assms(1,3) by (metis (no_types) trie_entries_def uris_ok_def map_is_Nil_conv length_0_conv length_sort)
qed

lemma trie_entries_cong:
  "k_uri r' = k_uri r \<Longrightarrow> length (k_redirect r') = length (k_redirect r) \<Longrightarrow> trie_entries r' = trie_entries r"
  unfolding trie_entries_def by (intro map_cong) (auto simp: obj_oid_def split: objref.splits)

text \<open>\<open>trie_new\<close> when no allocation fails.\<close>

definition new_trie :: "trie_entry list \<Rightarrow> trie option res" where
  "new_trie es = trie_new True True (\<lambda>_. True) (Some es)"

lemma webroot_prep_spec:
  assumes "mk_wf r" "uris_ok r"
  shows "\<exists>r' t cs. webroot_prep True True new_trie r = Inr (True, r') \<and> trie_for (trie_entries r') t cs \<and> laid_out t r r'"
proof -
  let ?r = "r\<lparr>k_uri := sort_key fst (k_uri r)\<rparr>"
  obtain t cs where t: "new_trie (trie_entries ?r) = Inr (Some t)" "trie_for (trie_entries ?r) t cs"
    using trie_new_correct[OF trie_entries_sorted[OF assms(2,1), of ?r]] by (auto simp: new_trie_def)
  have sz: "index_sz t ?r = index_sz t r" by (simp add: index_sz_def)
  obtain ms a where ms: "layout_mime (index_sz t r) (k_mime_type r) = (ms, a)" by (cases "layout_mime (index_sz t r) (k_mime_type r)")
  obtain rs b where rs: "layout_redirect a (k_redirect r) = (rs, b)" by (cases "layout_redirect a (k_redirect r)")
  obtain fs c where fs: "layout_file b (k_file r) = (fs, c)" by (cases "layout_file b (k_file r)")
  let ?r' = "?r\<lparr>k_trie := Some t, k_mime_type := ms, k_mimetab_sz := k_mimetab_sz r + (a - index_sz t r),
    k_redirect := rs, k_redirtab_sz := b - a, k_file := fs, k_files_sz := c - b\<rparr>"
  note spec = layout_mime_spec[OF ms] layout_redirect_spec[OF rs] layout_file_spec[OF fs]
  have "webroot_prep True True new_trie r = Inr (True, ?r')"
    using assms(1) t(1) ms rs fs by (simp add: webroot_prep_def sort_uris_def mk_wf_def sz Let_def)
  moreover have "trie_entries ?r' = trie_entries ?r" by (rule trie_entries_cong) (use spec in simp_all)
  moreover have "laid_out t r ?r'" using assms(1) spec unfolding laid_out_def mk_wf_def concat_redirtab by simp
  ultimately show ?thesis using t(2) by metis
qed

section \<open>Opening what was written\<close>

lemma slice_of_concat:
  "i < length xs \<Longrightarrow> take (length (xs ! i)) (drop (length pre + offs xs i) (pre @ concat xs @ post)) = xs ! i"
  using concat_slice[of i xs] concat_slice_bound[of i xs] by simp

lemma map_at_concat:
  assumes "r_map w = pre @ concat xs @ post" "\<forall>x \<in> set xs. length x = sz" "i < length xs" "p = length pre"
  shows "map_at w (p + sz * i) sz = Inr (xs ! i)"
proof -
  have l: "length (xs ! i) = sz" using assms(2,3) by simp
  have o: "offs xs i = sz * i" using offs_const[OF assms(2), of i] assms(3) by simp
  have "p + sz * i + sz \<le> length (r_map w)" using concat_slice_bound[OF assms(3)] assms(1,4) l o by simp
  then show ?thesis using slice_of_concat[OF assms(3), of pre post] assms(1,4) l o by (simp add: map_at_def)
qed

text \<open>An index whose counts and sizes are those of its tables.\<close>

definition index_ok :: "trie_entry list \<Rightarrow> trie \<Rightarrow> mkroot \<Rightarrow> bool" where
  "index_ok es t r \<longleftrightarrow> k_num_redirect r = length (k_redirect r) \<and> k_num_file r = length (k_file r) \<and>
     k_mimetab_sz r = length (concat (map fst (k_mime_type r))) \<and>
     k_redirtab_sz r = length (concat (redirtab (k_redirect r))) \<and>
     (\<forall>f \<in> set (k_file r). length (o_digest f) = 20) \<and> (\<exists>cs. trie_for es t cs)"

lemma trie_image_length: "trie_for es t cs \<Longrightarrow> length (trie_image t) = trie_num_edges t"
  by (simp add: trie_for_def trie_image_def trie_num_edges_def)

lemma table_sizes:
  assumes "index_ok es t r"
  shows "length (concat (map dedge_bytes (trie_image t))) = trie_num_edges t * DEDGE_SZ"
    "length (concat (map (redirect_bytes \<circ> redirect_rec) (k_redirect r))) = k_num_redirect r * REDIRECT_SZ"
    "length (concat (map (file_bytes \<circ> file_rec r) (k_file r))) = k_num_file r * FILE_SZ"
    "trie_trie_size t = trie_num_edges t * DEDGE_SZ"
proof -
  obtain cs where t: "trie_for es t cs" using assms by (auto simp: index_ok_def)
  have "\<forall>d \<in> set (trie_image t). length (re_str d) = 8" using trie_for_dedge[OF t] by blast
  from length_concat_dedges[OF this] trie_image_length[OF t]
  show "length (concat (map dedge_bytes (trie_image t))) = trie_num_edges t * DEDGE_SZ" by (simp add: mult.commute)
  then show "trie_trie_size t = trie_num_edges t * DEDGE_SZ" using trie_for_size[OF t] by simp
  show "length (concat (map (redirect_bytes \<circ> redirect_rec) (k_redirect r))) = k_num_redirect r * REDIRECT_SZ"
    using length_concat_const[of "k_redirect r" "redirect_bytes \<circ> redirect_rec" REDIRECT_SZ] record_sizes(3) assms
    by (simp add: index_ok_def mult.commute)
  show "length (concat (map (file_bytes \<circ> file_rec r) (k_file r))) = k_num_file r * FILE_SZ"
    using length_concat_const[of "k_file r" "file_bytes \<circ> file_rec r" FILE_SZ] record_sizes(2) assms
    by (simp add: index_ok_def mult.commute file_rec_def)
qed

lemma length_index_image:
  assumes "index_ok es t r"
  shows "length (index_image pad t r) = index_sz t r + k_mimetab_sz r + k_redirtab_sz r"
    "index_sz t r = HDR_SZ + trie_num_edges t * DEDGE_SZ + k_num_redirect r * REDIRECT_SZ + k_num_file r * FILE_SZ"
  using table_sizes[OF assms] assms record_sizes(1)
  by (simp_all add: index_image_def index_sz_def index_ok_def mult.commute)

lemma unat_of_nat32: "n < 2 ^ 32 \<Longrightarrow> unat (of_nat n :: u32) = n"
  by (simp add: unsigned_of_nat take_bit_nat_eq_self)

lemma mk_header_values:
  assumes "index_ok es t r" "length (index_image pad t r) < 2 ^ 32 - 1"
  shows "unat (h_num_edges (mk_header pad t r)) = trie_num_edges t" "unat (h_num_redirect (mk_header pad t r)) = k_num_redirect r"
    "unat (h_num_file (mk_header pad t r)) = k_num_file r" "unat (h_strtab_sz (mk_header pad t r)) = k_mimetab_sz r + k_redirtab_sz r"
    "unat (h_files_begin (mk_header pad t r)) = length (index_image pad t r)"
    "unat (h_num_redirect (mk_header pad t r) + h_num_file (mk_header pad t r)) = k_num_redirect r + k_num_file r"
proof -
  note l = length_index_image(1)[OF assms(1), of pad] length_index_image(2)[OF assms(1)]
  have b: "trie_num_edges t < 2 ^ 32 \<and> k_num_redirect r < 2 ^ 32 \<and> k_num_file r < 2 ^ 32 \<and> k_mimetab_sz r + k_redirtab_sz r < 2 ^ 32 \<and>
    k_num_redirect r + k_num_file r < 2 ^ 32"
    using assms(2) l by (simp add: DEDGE_SZ_def REDIRECT_SZ_def FILE_SZ_def)
  show "unat (h_num_edges (mk_header pad t r)) = trie_num_edges t" "unat (h_num_redirect (mk_header pad t r)) = k_num_redirect r"
    "unat (h_num_file (mk_header pad t r)) = k_num_file r" "unat (h_strtab_sz (mk_header pad t r)) = k_mimetab_sz r + k_redirtab_sz r"
    using b by (auto simp: mk_header_def unat_of_nat32 simp del: of_nat_add)
  have "h_num_redirect (mk_header pad t r) + h_num_file (mk_header pad t r) = of_nat (k_num_redirect r + k_num_file r)"
    by (simp add: mk_header_def)
  then show "unat (h_num_redirect (mk_header pad t r) + h_num_file (mk_header pad t r)) = k_num_redirect r + k_num_file r"
    using b unat_of_nat32 by metis
  have "h_files_begin (mk_header pad t r) = of_nat (length (index_image pad t r))" using l(1) by (simp add: mk_header_def)
  moreover have "length (index_image pad t r) < 2 ^ 32" using assms(2) by simp
  ultimately show "unat (h_files_begin (mk_header pad t r)) = length (index_image pad t r)" using unat_of_nat32 by metis
qed

lemma hdr_of_image: "hdr_of (take HDR_SZ (index_image pad t r @ rest)) = mk_header pad t r"
  using hdr_of_bytes[of "mk_header pad t r" "[]"] record_sizes(1)[of "mk_header pad t r"] by (simp add: index_image_def)

definition image_root :: "int \<Rightarrow> u32 \<Rightarrow> trie \<Rightarrow> mkroot \<Rightarrow> webroot" where
  "image_root fd pad t r = webroot_tables fd (index_image pad t r) (mk_header pad t r)"

lemma image_root_simps:
  assumes "index_ok es t r" "length (index_image pad t r) < 2 ^ 32 - 1"
  shows "r_map (image_root fd pad t r) = index_image pad t r" "r_num_edges (image_root fd pad t r) = trie_num_edges t"
    "r_num_redirect (image_root fd pad t r) = k_num_redirect r" "r_num_oid (image_root fd pad t r) = k_num_redirect r + k_num_file r"
    "r_trie (image_root fd pad t r) = HDR_SZ" "r_redir (image_root fd pad t r) = HDR_SZ + trie_num_edges t * DEDGE_SZ"
    "r_file (image_root fd pad t r) = HDR_SZ + trie_num_edges t * DEDGE_SZ + k_num_redirect r * REDIRECT_SZ"
    "r_strtab (image_root fd pad t r) = index_sz t r"
  using mk_header_values[OF assms] length_index_image(2)[OF assms(1)]
  by (simp_all add: image_root_def webroot_tables_def Let_def)

lemma open_image:
  assumes ok: "index_ok es t r" "length (index_image pad t r) < 2 ^ 32 - 1"
    and s: "generous s" "HDR_SZ < length s"
  shows "webroot_open True (Some (fd, \<lparr>f_data = index_image pad t r @ rest, f_pos = 0\<rparr>)) s True True =
    Inr \<lparr>o_root = Some (image_root fd pad t r), o_fd = True, o_map = True\<rparr>"
proof -
  let ?f = "\<lparr>f_data = index_image pad t r @ rest, f_pos = 0\<rparr>" let ?h = "mk_header pad t r"
  obtain got eof s' f' where rd: "fd_read s ?f HDR_SZ = Inr (True, got, eof, s', f')"
    using fd_read_returns[OF s] by blast
  have len: "HDR_SZ \<le> length (index_image pad t r)" using record_sizes(1)[of ?h] by (simp add: index_image_def)
  have g: "got = take HDR_SZ (index_image pad t r @ rest)" "\<not> eof" "length got = HDR_SZ" "f_data f' = f_data ?f"
    using fd_read_spec[OF rd] len by (auto simp: HDR_SZ_def)
  have h: "hdr_of got = ?h" using g(1) hdr_of_image by simp
  have m: "map_webroot True True f' (unat (h_files_begin ?h)) = Some (index_image pad t r)"
    using g(4) mk_header_values(5)[OF ok] by (simp add: map_webroot_def)
  have "\<not> length (index_image pad t r) < r_strtab (image_root fd pad t r) + unat (h_strtab_sz ?h)"
    using image_root_simps(8)[OF ok] mk_header_values(4)[OF ok] length_index_image(1)[OF ok(1), of pad] by simp
  then show ?thesis using rd g(2,3) h m
    by (simp add: webroot_open_def Let_def image_root_def) (simp add: mk_header_def)
qed

section \<open>Finding what was written\<close>

lemma holds_image:
  assumes ok: "index_ok es t r" "length (index_image pad t r) < 2 ^ 32 - 1"
  shows "holds_trie (image_root fd pad t r) t"
proof -
  obtain cs where t: "trie_for es t cs" using ok(1) by (auto simp: index_ok_def)
  have re: "length (re_str d) = 8" if "d \<in> set (trie_image t)" for d using trie_for_dedge[OF t that] .
  have "dedge_at (image_root fd pad t r) k = Inr (trie_image t ! k)" if k: "k < length (trie_image t)" for k
  proof -
    let ?d = "trie_image t ! k"
    have l8: "length (re_str ?d) = 8" using re k by simp
    have "map_at (image_root fd pad t r) (HDR_SZ + DEDGE_SZ * k) DEDGE_SZ = Inr (map dedge_bytes (trie_image t) ! k)"
      by (rule map_at_concat[where pre = "hdr_bytes (mk_header pad t r)"])
        (use k re length_dedge_bytes record_sizes(1) image_root_simps(1)[OF ok] in \<open>auto simp: index_image_def\<close>)
    then show ?thesis using k dedge_of_bytes[OF l8, of "[]"] image_root_simps(5)[OF ok] by (simp add: dedge_at_def)
  qed
  moreover have "trie_num_edges t < 2 ^ 32"
    using ok(2) length_index_image(1)[OF ok(1), of pad] length_index_image(2)[OF ok(1)] by (simp add: DEDGE_SZ_def)
  ultimately show ?thesis using image_root_simps(2)[OF ok] trie_image_length[OF t] by (simp add: holds_trie_def)
qed

lemma redirect_at_image:
  assumes ok: "index_ok es t r" "length (index_image pad t r) < 2 ^ 32 - 1" and i: "i < length (k_redirect r)"
    and w: "w = image_root fd pad t r"
  shows "map_at w (r_redir w + REDIRECT_SZ * i) REDIRECT_SZ = Inr (redirect_bytes (redirect_rec (k_redirect r ! i)))"
proof -
  have "map_at w (r_redir w + REDIRECT_SZ * i) REDIRECT_SZ = Inr (map (redirect_bytes \<circ> redirect_rec) (k_redirect r) ! i)"
    by (rule map_at_concat[where pre = "hdr_bytes (mk_header pad t r) @ concat (map dedge_bytes (trie_image t))"])
      (use i table_sizes(1)[OF ok(1)] record_sizes(1,3) image_root_simps(1,6)[OF ok] in \<open>auto simp: w index_image_def\<close>)
  then show ?thesis using i by simp
qed

lemma file_at_image:
  assumes ok: "index_ok es t r" "length (index_image pad t r) < 2 ^ 32 - 1" and i: "i < length (k_file r)"
    and w: "w = image_root fd pad t r"
  shows "map_at w (r_file w + FILE_SZ * i) FILE_SZ = Inr (file_bytes (file_rec r (k_file r ! i)))"
proof -
  have d: "\<forall>f \<in> set (k_file r). length (o_digest f) = 20" using ok(1) by (simp add: index_ok_def)
  have "map_at w (r_file w + FILE_SZ * i) FILE_SZ = Inr (map (file_bytes \<circ> file_rec r) (k_file r) ! i)"
    by (rule map_at_concat[where pre = "hdr_bytes (mk_header pad t r) @ concat (map dedge_bytes (trie_image t)) @
        concat (map (redirect_bytes \<circ> redirect_rec) (k_redirect r))"])
      (use i d table_sizes(1,2)[OF ok(1)] record_sizes(1,2) image_root_simps(1,7)[OF ok] in
        \<open>auto simp: w index_image_def file_rec_def\<close>)
  then show ?thesis using i by simp
qed

lemma map_of_sort_key: "distinct (map fst xs) \<Longrightarrow> map_of (sort_key fst xs) = map_of xs"
  by (subst map_of_inject_set) (auto simp: distinct_map)

lemma map_of_trie_entries:
  "map_of (map (\<lambda>e. (t_str e, e)) (trie_entries r)) u = map_option (\<lambda>ob. \<lparr>t_str = u, t_oid = obj_oid r ob\<rparr>) (map_of (k_uri r) u)"
proof -
  have "map_of (map (\<lambda>e. (t_str e, e)) (map (\<lambda>(u, ob). \<lparr>t_str = u, t_oid = f ob\<rparr>) us)) u =
      map_option (\<lambda>ob. \<lparr>t_str = u, t_oid = f ob\<rparr>) (map_of us u)" for us f
    by (induction us) auto
  then show ?thesis unfolding trie_entries_def .
qed

text \<open>
  What the server must answer for the URI \<open>u\<close>, given the collected objects \<open>r\<close>, the contents
  \<open>cs\<close> of its files and the bytes \<open>data\<close> of the web root file.
\<close>

definition served :: "mkroot \<Rightarrow> bytes list \<Rightarrow> bytes \<Rightarrow> bytes \<Rightarrow> webroot_name \<Rightarrow> bool \<times> webroot_name \<Rightarrow> bool" where
  "served r cs data u out res =
    (case map_of (k_uri r) u of
       None \<Rightarrow> res = (False, out)
     | Some (Redir i) \<Rightarrow>
        (case o_uri (k_redirect r ! i) of
           Some v \<Rightarrow> \<exists>off. res = (True, out\<lparr>nm_code := HTTP_MOVED_PERMANENTLY, nm_u := Moved (Some off) (length v)\<rparr>) \<and>
             take (length v) (drop off data) = v
         | None \<Rightarrow> let code = unat (o_code (k_redirect r ! i)) in res = (True, out\<lparr>nm_code := code, nm_u := Moved None code\<rparr>))
     | Some (File i) \<Rightarrow> let f = k_file r ! i in
         \<exists>ty off. res = (True, out\<lparr>nm_code := HTTP_FOUND, mime_type := Some (ty, length (o_type f)),
             nm_u := Data off (of_nat (o_size f)) (of_nat (o_mtime f)) (fips_sha1 (cs ! i))\<rparr>) \<and>
           take (length (o_type f)) (drop ty data) = o_type f \<and> take (o_size f) (drop (unat off) data) = cs ! i)"

text \<open>The tables \<open>r1\<close> laid out for \<open>r\<close>, with the contents \<open>cs\<close> of its files, make a web root of a size its header can express.\<close>

definition written_root :: "mkroot \<Rightarrow> trie \<Rightarrow> mkroot \<Rightarrow> bytes list \<Rightarrow> u32 \<Rightarrow> bool" where
  "written_root r t r1 cs pad \<longleftrightarrow> mk_wf r \<and> uris_ok r \<and> laid_out t r r1 \<and> (\<exists>edges. trie_for (trie_entries r1) t edges) \<and>
     list_all2 (\<lambda>f c. length c = o_size f) (k_file r) cs \<and>
     length (index_image pad t (with_digests r1 cs)) < 2 ^ 32 - 1 \<and>
     length (index_image pad t (with_digests r1 cs) @ concat cs) < 2 ^ 64"

lemma laid_outD:
  assumes "laid_out t r r1"
  shows "k_uri r1 = sort_key fst (k_uri r)" "k_num_redirect r1 = length (k_redirect r)" "k_num_file r1 = length (k_file r)"
    "map fst (k_mime_type r1) = map fst (k_mime_type r)" "k_mimetab_sz r1 = length (concat (map fst (k_mime_type r)))"
    "k_redirtab_sz r1 = length (concat (redirtab (k_redirect r)))"
    "length (k_redirect r1) = length (k_redirect r)" "length (k_file r1) = length (k_file r)"
    "i < length (k_redirect r) \<Longrightarrow> k_redirect r1 ! i = (k_redirect r ! i)\<lparr>o_strtab_off :=
        of_nat (index_sz t r + k_mimetab_sz r1 + offs (map uri_bytes_of (k_redirect r)) i)\<rparr>"
    "i < length (k_file r) \<Longrightarrow> k_file r1 ! i = (k_file r ! i)\<lparr>o_off :=
        of_nat (index_sz t r + k_mimetab_sz r1 + k_redirtab_sz r1 + sum_list (map o_size (take i (k_file r))))\<rparr>"
    "m \<in> fst ` set (k_mime_type r) \<Longrightarrow> \<exists>i < length (k_mime_type r). map fst (k_mime_type r) ! i = m \<and>
        map_of (k_mime_type r1) m = Some (of_nat (index_sz t r + offs (map fst (k_mime_type r)) i))"
    "k_trie r1 = Some t" "k_files_sz r1 = sum_list (map o_size (k_file r))"
  using assms unfolding laid_out_def by blast+

lemma laid_out_redirtab: "laid_out t r r1 \<Longrightarrow> map uri_bytes_of (k_redirect r1) = map uri_bytes_of (k_redirect r)"
  by (rule nth_equalityI) (simp_all add: laid_outD(7,9) uri_bytes_of_def)

lemma laid_index_ok:
  assumes l: "laid_out t r r1" and wf: "mk_wf r" and t: "trie_for es t edges"
  shows "index_ok es t r1"
proof -
  have "length (o_digest f) = 20" if f: "f \<in> set (k_file r1)" for f
  proof -
    obtain i where i: "i < length (k_file r)" "f = k_file r1 ! i" using f laid_outD(8)[OF l] by (auto simp: in_set_conv_nth)
    then have "length (o_digest (k_file r ! i)) = 20" using wf by (simp add: mk_wf_def)
    then show ?thesis using i laid_outD(10)[OF l] by simp
  qed
  moreover have "concat (redirtab (k_redirect r1)) = concat (redirtab (k_redirect r))"
    unfolding concat_redirtab laid_out_redirtab[OF l] ..
  ultimately show ?thesis using laid_outD(2-8)[OF l] t by (auto simp: index_ok_def)
qed

lemma written_index_ok:
  assumes "written_root r t r1 cs pad"
  shows "index_ok (trie_entries r1) t (with_digests r1 cs)"
proof -
  have l: "laid_out t r r1" and c: "length cs = length (k_file r)" and t: "\<exists>edges. trie_for (trie_entries r1) t edges"
    using assms by (auto simp: written_root_def dest: list_all2_lengthD)
  have "concat (redirtab (k_redirect r1)) = concat (redirtab (k_redirect r))"
    unfolding concat_redirtab laid_out_redirtab[OF l] ..
  then show ?thesis using laid_outD(2-8)[OF l] c t
    by (auto simp: index_ok_def with_digests_def length_fips_sha1 in_set_zip)
qed

lemma written_index_sz:
  assumes "laid_out t r r1" "mk_wf r"
  shows "index_sz t (with_digests r1 cs) = index_sz t r"
  using laid_outD(2,3)[OF assms(1)] assms(2) by (simp add: with_digests_simps index_sz_def mk_wf_def)

lemma slice_append: "k + n \<le> length xs \<Longrightarrow> take n (drop k (xs @ ys)) = take n (drop k xs)"
  by simp

lemma written_redirect:
  assumes w: "written_root r t r1 cs pad" and i: "i < length (k_redirect r)" and u: "o_uri (k_redirect r ! i) = Some v"
  defines "r2 \<equiv> with_digests r1 cs"
  defines "off \<equiv> index_sz t r + k_mimetab_sz r1 + offs (map uri_bytes_of (k_redirect r)) i"
  shows "redirect_rec (k_redirect r2 ! i) = \<lparr>r_off = of_nat off, r_len = of_nat (length v)\<rparr>" "off + length v < 2 ^ 32 - 1"
    "take (length v) (drop off (index_image pad t r2)) = v" "off + length v \<le> length (index_image pad t r2)"
proof -
  have l: "laid_out t r r1" and wf: "mk_wf r" and sz: "length (index_image pad t r2) < 2 ^ 32 - 1"
    using w by (auto simp: written_root_def r2_def)
  have ok: "index_ok (trie_entries r1) t r2" using written_index_ok[OF w] by (simp add: r2_def)
  show "redirect_rec (k_redirect r2 ! i) = \<lparr>r_off = of_nat off, r_len = of_nat (length v)\<rparr>"
    using laid_outD(9)[OF l i] u by (simp add: r2_def with_digests_simps redirect_rec_def off_def)
  let ?us = "map uri_bytes_of (k_redirect r)"
  have v: "?us ! i = v" "i < length ?us" using i u by (simp_all add: uri_bytes_of_def)
  define pre where "pre = hdr_bytes (mk_header pad t r2) @ concat (map dedge_bytes (trie_image t)) @
     concat (map (redirect_bytes \<circ> redirect_rec) (k_redirect r2)) @ concat (map (file_bytes \<circ> file_rec r2) (k_file r2)) @
     concat (map fst (k_mime_type r2))"
  have img: "index_image pad t r2 = pre @ concat ?us @ []"
    using laid_out_redirtab[OF l] by (simp add: index_image_def pre_def concat_redirtab r2_def with_digests_simps)
  moreover have "length pre = index_sz t r + k_mimetab_sz r1"
  proof -
    have "length (concat ?us) = k_redirtab_sz r1" using laid_outD(6)[OF l] by (simp add: concat_redirtab)
    moreover have "length (index_image pad t r2) = index_sz t r + k_mimetab_sz r1 + k_redirtab_sz r1"
      using length_index_image(1)[OF ok, of pad] written_index_sz[OF l wf] by (simp add: r2_def with_digests_def)
    ultimately show ?thesis using img by simp
  qed
  ultimately show "take (length v) (drop off (index_image pad t r2)) = v" "off + length v < 2 ^ 32 - 1"
    "off + length v \<le> length (index_image pad t r2)"
    using slice_of_concat[OF v(2), of pre "[]"] concat_slice_bound[OF v(2)] v(1) sz by (simp_all add: off_def)
qed

lemma written_mime:
  assumes w: "written_root r t r1 cs pad" and m: "m \<in> fst ` set (k_mime_type r)"
  defines "r2 \<equiv> with_digests r1 cs"
  shows "\<exists>off. mime_off r2 m = of_nat off \<and> off + length m < 2 ^ 32 \<and> take (length m) (drop off (index_image pad t r2)) = m \<and>
    off + length m \<le> length (index_image pad t r2)"
proof -
  have l: "laid_out t r r1" and wf: "mk_wf r" and sz: "length (index_image pad t r2) < 2 ^ 32 - 1"
    using w by (auto simp: written_root_def r2_def)
  have ok: "index_ok (trie_entries r1) t r2" using written_index_ok[OF w] by (simp add: r2_def)
  let ?ms = "map fst (k_mime_type r)"
  obtain i where i: "i < length ?ms" "?ms ! i = m" "map_of (k_mime_type r1) m = Some (of_nat (index_sz t r + offs ?ms i))"
    using laid_outD(11)[OF l m] by auto
  define pre where "pre = hdr_bytes (mk_header pad t r2) @ concat (map dedge_bytes (trie_image t)) @
     concat (map (redirect_bytes \<circ> redirect_rec) (k_redirect r2)) @ concat (map (file_bytes \<circ> file_rec r2) (k_file r2))"
  let ?post = "concat (redirtab (k_redirect r2))"
  have img: "index_image pad t r2 = pre @ concat ?ms @ ?post"
    using laid_outD(4)[OF l] by (simp add: index_image_def pre_def r2_def with_digests_simps)
  have pre: "length pre = index_sz t r"
    using length_index_image(2)[OF ok] table_sizes[OF ok] written_index_sz[OF l wf] record_sizes(1)
    by (simp add: pre_def r2_def)
  show ?thesis
    using i img pre slice_of_concat[OF i(1), of pre ?post] concat_slice_bound[OF i(1)] sz
    by (intro exI[of _ "index_sz t r + offs ?ms i"]) (simp add: mime_off_def r2_def with_digests_simps)
qed

lemma sum_sizes: "list_all2 (\<lambda>f c. length c = o_size f) fs cs \<Longrightarrow> sum_list (map o_size (take i fs)) = offs cs i"
  by (induction arbitrary: i rule: list_all2_induct) (auto simp: offs_def take_Cons split: nat.splits)

lemma written_content:
  assumes w: "written_root r t r1 cs pad" and i: "i < length (k_file r)"
  defines "r2 \<equiv> with_digests r1 cs"
  shows "\<exists>off. o_off (k_file r1 ! i) = of_nat off \<and> off + o_size (k_file r ! i) < 2 ^ 64 \<and>
    take (o_size (k_file r ! i)) (drop off (index_image pad t r2 @ concat cs)) = cs ! i"
proof -
  have l: "laid_out t r r1" and wf: "mk_wf r" and a2: "list_all2 (\<lambda>f c. length c = o_size f) (k_file r) cs"
    and sz: "length (index_image pad t r2 @ concat cs) < 2 ^ 64"
    using w by (auto simp: written_root_def r2_def)
  have ok: "index_ok (trie_entries r1) t r2" using written_index_ok[OF w] by (simp add: r2_def)
  have c: "i < length cs" "length (cs ! i) = o_size (k_file r ! i)" using i a2 by (auto simp: list_all2_conv_all_nth)
  have img: "length (index_image pad t r2) = index_sz t r + k_mimetab_sz r1 + k_redirtab_sz r1"
    using length_index_image(1)[OF ok, of pad] written_index_sz[OF l wf] by (simp add: r2_def with_digests_def)
  show ?thesis using slice_of_concat[OF c(1), of "index_image pad t r2" "[]"] concat_slice_bound[OF c(1)] c(2) sz img
      laid_outD(10)[OF l i] sum_sizes[OF a2, of i]
    by (intro exI[of _ "length (index_image pad t r2) + offs cs i"]) simp
qed

lemma unat_of_nat64: "n < 2 ^ 64 \<Longrightarrow> unat (of_nat n :: u64) = n"
  by (simp add: unsigned_of_nat take_bit_nat_eq_self)

lemma written_file_rec:
  assumes w: "written_root r t r1 cs pad" and i: "i < length (k_file r)"
  defines "r2 \<equiv> with_digests r1 cs"
  defines "f \<equiv> k_file r ! i"
  shows "file_rec r2 (k_file r2 ! i) = \<lparr>f_off = o_off (k_file r1 ! i), f_len = of_nat (o_size f), f_type = mime_off r2 (o_type f),
     f_type_len = of_nat (length (o_type f)), f_modified = of_nat (o_mtime f), f_digest = fips_sha1 (cs ! i)\<rparr>"
proof -
  have l: "laid_out t r r1" and c: "length cs = length (k_file r)"
    using w by (auto simp: written_root_def dest: list_all2_lengthD)
  then have "k_file r2 ! i = (k_file r1 ! i)\<lparr>o_digest := fips_sha1 (cs ! i)\<rparr>"
    using i laid_outD(8)[OF l] by (simp add: r2_def with_digests_def)
  then show ?thesis using laid_outD(10)[OF l i] by (simp add: file_rec_def f_def)
qed

lemma webroot_find_oid:
  assumes "trie_query fuel w 0 1 buf pos len = Inr oid" "oid \<noteq> GIDX_INVALID_OID" "unat oid < r_num_oid w"
  shows "unat oid < r_num_redirect w \<Longrightarrow> map_at w (r_redir w + REDIRECT_SZ * unat oid) REDIRECT_SZ = Inr (redirect_bytes wrd) \<Longrightarrow>
      webroot_find fuel w buf pos len out = Inr (True,
        if r_off wrd = WEBROOT_INVALID_REDIRECT
        then out\<lparr>nm_code := unat (r_len wrd), nm_u := Moved None (unat (r_len wrd))\<rparr>
        else out\<lparr>nm_code := HTTP_MOVED_PERMANENTLY, nm_u := Moved (Some (unat (r_off wrd))) (unat (r_len wrd))\<rparr>)"
    and "unat oid = r_num_redirect w + i \<Longrightarrow> map_at w (r_file w + FILE_SZ * i) FILE_SZ = Inr (file_bytes f) \<Longrightarrow>
      length (f_digest f) = 20 \<Longrightarrow>
      webroot_find fuel w buf pos len out = Inr (True, out\<lparr>nm_code := HTTP_FOUND,
        mime_type := Some (unat (f_type f), unat (f_type_len f)), nm_u := Data (f_off f) (f_len f) (f_modified f) (f_digest f)\<rparr>)"
  using assms redirect_of_bytes[of wrd "[]"] file_of_bytes[of f "[]"] by (simp_all add: webroot_find_def ETAG_SZ_def)

text \<open>The number an object has in the index.\<close>

lemma written_oid:
  assumes w: "written_root r t r1 cs pad" and b: "in_buffer buf pos u" "u \<noteq> []" and fuel: "256 * (length u + 2) \<le> fuel"
    and r2: "r2 = with_digests r1 cs" and im: "im = image_root fd pad t r2"
  shows "map_of (k_uri r) u = None \<Longrightarrow> trie_query fuel im 0 1 buf pos (length u) = Inr GIDX_INVALID_OID"
    and "map_of (k_uri r) u = Some ob \<Longrightarrow> ref_ok r ob \<and> obj_oid r ob \<noteq> GIDX_INVALID_OID \<and>
      unat (obj_oid r ob) = (case ob of Redir i \<Rightarrow> i | File i \<Rightarrow> length (k_redirect r) + i) \<and>
      trie_query fuel im 0 1 buf pos (length u) = Inr (obj_oid r ob)"
    and "r_num_redirect im = length (k_redirect r)" "r_num_oid im = length (k_redirect r) + length (k_file r)"
proof -
  have l: "laid_out t r r1" and wf: "mk_wf r" and dist: "distinct (map fst (k_uri r))"
    and sz: "length (index_image pad t r2) < 2 ^ 32 - 1" and cl: "length cs = length (k_file r)"
    using w by (auto simp: written_root_def uris_ok_def r2 dest: list_all2_lengthD)
  have ok: "index_ok (trie_entries r1) t r2" using written_index_ok[OF w] by (simp add: r2)
  obtain edges where t: "trie_for (trie_entries r1) t edges" using w by (auto simp: written_root_def)
  have n: "k_num_redirect r2 = length (k_redirect r)" "k_num_file r2 = length (k_file r)"
    using laid_outD(2,3)[OF l] by (simp_all add: r2 with_digests_def)
  then show "r_num_redirect im = length (k_redirect r)" "r_num_oid im = length (k_redirect r) + length (k_file r)"
    using image_root_simps[OF ok sz, of fd] im by simp_all
  have small: "length (k_redirect r) + length (k_file r) < 2 ^ 32 - 1"
    using sz length_index_image(1)[OF ok, of pad] length_index_image(2)[OF ok] n by (simp add: REDIRECT_SZ_def FILE_SZ_def)
  have "obj_oid r1 = obj_oid r" using laid_outD(7)[OF l] by (auto simp: obj_oid_def fun_eq_iff split: objref.splits)
  then have q: "trie_query fuel im 0 1 buf pos (length u) =
      Inr (oid_of (map_option (\<lambda>ob. \<lparr>t_str = u, t_oid = obj_oid r ob\<rparr>) (map_of (k_uri r) u)))"
    using trie_query_root[OF t holds_image[OF ok sz] b fuel] map_of_sort_key[OF dist] laid_outD(1)[OF l]
    by (simp add: map_of_trie_entries im)
  then show "map_of (k_uri r) u = None \<Longrightarrow> trie_query fuel im 0 1 buf pos (length u) = Inr GIDX_INVALID_OID"
    by (simp add: oid_of_def)
  assume ob: "map_of (k_uri r) u = Some ob"
  define k where "k = (case ob of Redir i \<Rightarrow> i | File i \<Rightarrow> length (k_redirect r) + i)"
  have rk: "ref_ok r ob" using wf map_of_SomeD[OF ob] by (auto simp: mk_wf_def)
  then have k: "k < length (k_redirect r) + length (k_file r)" by (auto simp: k_def ref_ok_def split: objref.splits)
  have "obj_oid r ob = of_nat k" by (simp add: obj_oid_def k_def)
  then have uk: "unat (obj_oid r ob) = k" using k small unat_of_nat32[of k] by simp
  then have "obj_oid r ob \<noteq> GIDX_INVALID_OID" using k small by (auto simp: GIDX_INVALID_OID_def)
  then show "ref_ok r ob \<and> obj_oid r ob \<noteq> GIDX_INVALID_OID \<and>
      unat (obj_oid r ob) = (case ob of Redir i \<Rightarrow> i | File i \<Rightarrow> length (k_redirect r) + i) \<and>
      trie_query fuel im 0 1 buf pos (length u) = Inr (obj_oid r ob)"
    using rk uk q ob by (simp add: oid_of_def k_def)
qed

text \<open>The entry of a file.\<close>

lemma find_image_file:
  assumes w: "written_root r t r1 cs pad" and b: "in_buffer buf pos u" "u \<noteq> []" and fuel: "256 * (length u + 2) \<le> fuel"
    and r2: "r2 = with_digests r1 cs" and ob: "map_of (k_uri r) u = Some (File i)"
  shows "\<exists>ty off. webroot_find fuel (image_root fd pad t r2) buf pos (length u) out = Inr (True, out\<lparr>nm_code := HTTP_FOUND,
      mime_type := Some (ty, length (o_type (k_file r ! i))),
      nm_u := Data off (of_nat (o_size (k_file r ! i))) (of_nat (o_mtime (k_file r ! i))) (fips_sha1 (cs ! i))\<rparr>) \<and>
    map_at (image_root fd pad t r2) ty (length (o_type (k_file r ! i))) = Inr (o_type (k_file r ! i)) \<and>
    take (o_size (k_file r ! i)) (drop (unat off) (index_image pad t r2 @ concat cs)) = cs ! i \<and>
    take (length (o_type (k_file r ! i))) (drop ty (index_image pad t r2 @ concat cs)) = o_type (k_file r ! i) \<and>
    i < length (k_file r) \<and> o_size (k_file r ! i) < 2 ^ 64"
proof -
  let ?w = "image_root fd pad t r2" let ?data = "index_image pad t r2 @ concat cs"
  have l: "laid_out t r r1" and wf: "mk_wf r" and sz: "length (index_image pad t r2) < 2 ^ 32 - 1"
    and cl: "length cs = length (k_file r)"
    using w by (auto simp: written_root_def r2 dest: list_all2_lengthD)
  have ok: "index_ok (trie_entries r1) t r2" using written_index_ok[OF w] by (simp add: r2)
  note oid = written_oid[OF w b fuel r2 refl, where fd = fd]
  note q = oid(2)[OF ob]
  have i: "i < length (k_file r)" "unat (obj_oid r (File i)) = length (k_redirect r) + i" using q by (simp_all add: ref_ok_def)
  let ?f = "k_file r ! i" let ?rec = "file_rec r2 (k_file r2 ! i)"
  note fr = written_file_rec[OF w i(1), folded r2]
  have m: "map_at ?w (r_file ?w + FILE_SZ * i) FILE_SZ = Inr (file_bytes ?rec)"
    using file_at_image[OF ok sz _ refl] i(1) laid_outD(8)[OF l] cl by (simp add: r2 with_digests_def)
  have found: "webroot_find fuel ?w buf pos (length u) out = Inr (True, out\<lparr>nm_code := HTTP_FOUND,
      mime_type := Some (unat (f_type ?rec), unat (f_type_len ?rec)), nm_u := Data (f_off ?rec) (f_len ?rec) (f_modified ?rec) (f_digest ?rec)\<rparr>)"
    using webroot_find_oid(2)[OF _ _ _ _ m] q i oid(3,4) fr by (simp add: length_fips_sha1)
  have "o_type ?f \<in> fst ` set (k_mime_type r)" using wf i(1) by (simp add: mk_wf_def)
  then obtain ty where ty: "mime_off r2 (o_type ?f) = of_nat ty" "ty + length (o_type ?f) < 2 ^ 32"
    "take (length (o_type ?f)) (drop ty (index_image pad t r2)) = o_type ?f" "ty + length (o_type ?f) \<le> length (index_image pad t r2)"
    using written_mime[OF w, folded r2] by blast
  have ut: "unat (of_nat ty :: u32) = ty" "unat (of_nat (length (o_type ?f)) :: u32) = length (o_type ?f)"
    by (rule unat_of_nat32, use ty(2) in linarith)+
  obtain off where off: "o_off (k_file r1 ! i) = of_nat off" "off + o_size ?f < 2 ^ 64" "take (o_size ?f) (drop off ?data) = cs ! i"
    using written_content[OF w i(1), folded r2] by blast
  have "unat (of_nat off :: u64) = off" by (rule unat_of_nat64, use off(2) in linarith)
  then have "take (o_size ?f) (drop (unat (o_off (k_file r1 ! i))) ?data) = cs ! i" using off(1,3) by simp
  moreover have "take (length (o_type ?f)) (drop ty ?data) = o_type ?f" using ty(3) slice_append[OF ty(4)] by simp
  moreover have "map_at ?w ty (length (o_type ?f)) = Inr (o_type ?f)" using ty(3,4) by (simp add: map_at_def image_root_simps[OF ok sz])
  moreover have "webroot_find fuel ?w buf pos (length u) out = Inr (True, out\<lparr>nm_code := HTTP_FOUND,
      mime_type := Some (ty, length (o_type ?f)),
      nm_u := Data (o_off (k_file r1 ! i)) (of_nat (o_size ?f)) (of_nat (o_mtime ?f)) (fips_sha1 (cs ! i))\<rparr>)"
    using found fr ty(1) ut by simp
  moreover have "o_size ?f < 2 ^ 64" using off(2) by linarith
  ultimately show ?thesis using i(1) by blast
qed

lemma find_image:
  assumes w: "written_root r t r1 cs pad" and b: "in_buffer buf pos u" "u \<noteq> []" and fuel: "256 * (length u + 2) \<le> fuel"
    and r2: "r2 = with_digests r1 cs"
  shows "\<exists>res. webroot_find fuel (image_root fd pad t r2) buf pos (length u) out = Inr res \<and>
    served r cs (index_image pad t r2 @ concat cs) u out res"
proof -
  let ?w = "image_root fd pad t r2" let ?data = "index_image pad t r2 @ concat cs"
  have l: "laid_out t r r1" and wf: "mk_wf r" and sz: "length (index_image pad t r2) < 2 ^ 32 - 1"
    and cl: "length cs = length (k_file r)"
    using w by (auto simp: written_root_def r2 dest: list_all2_lengthD)
  have ok: "index_ok (trie_entries r1) t r2" using written_index_ok[OF w] by (simp add: r2)
  note oid = written_oid[OF w b fuel r2 refl, where fd = fd]
  show ?thesis
  proof (cases "map_of (k_uri r) u")
    case None
    then show ?thesis using oid(1) by (simp add: webroot_find_def served_def)
  next
    case (Some ob)
    note q = oid(2)[OF Some]
    show ?thesis
    proof (cases ob)
      case (Redir i)
      have i: "i < length (k_redirect r)" "unat (obj_oid r ob) = i" using q Redir by (simp_all add: ref_ok_def)
      have m: "map_at ?w (r_redir ?w + REDIRECT_SZ * i) REDIRECT_SZ = Inr (redirect_bytes (redirect_rec (k_redirect r2 ! i)))"
        using redirect_at_image[OF ok sz _ refl] i(1) laid_outD(7)[OF l] by (simp add: r2 with_digests_simps)
      note f = webroot_find_oid(1)[of fuel ?w buf pos "length u" "obj_oid r ob" "redirect_rec (k_redirect r2 ! i)" out]
      show ?thesis
      proof (cases "o_uri (k_redirect r ! i)")
        case None
        then have "redirect_rec (k_redirect r2 ! i) = \<lparr>r_off = WEBROOT_INVALID_REDIRECT, r_len = o_code (k_redirect r ! i)\<rparr>"
          using laid_outD(9)[OF l i(1)] by (simp add: r2 with_digests_simps redirect_rec_def)
        then show ?thesis using f q i m oid(3,4) None Some Redir by (simp add: served_def Let_def)
      next
        case uri: (Some v)
        note wrd = written_redirect[OF w i(1) uri, folded r2]
        let ?off = "index_sz t r + k_mimetab_sz r1 + offs (map uri_bytes_of (k_redirect r)) i"
        have uo: "unat (of_nat ?off :: u32) = ?off" "unat (of_nat (length v) :: u32) = length v"
          by (rule unat_of_nat32, use wrd(2) in linarith)+
        then have "of_nat ?off \<noteq> WEBROOT_INVALID_REDIRECT" using wrd(2) by (auto simp: WEBROOT_INVALID_REDIRECT_def)
        moreover have "take (length v) (drop ?off ?data) = v" using wrd(3) slice_append[OF wrd(4)] by simp
        ultimately show ?thesis using f q i m oid(3,4) wrd(1) uo Some Redir uri
          by (auto simp: served_def Let_def simp del: of_nat_add)
      qed
    next
      case (File i)
      then obtain ty off where "webroot_find fuel ?w buf pos (length u) out = Inr (True, out\<lparr>nm_code := HTTP_FOUND,
          mime_type := Some (ty, length (o_type (k_file r ! i))),
          nm_u := Data off (of_nat (o_size (k_file r ! i))) (of_nat (o_mtime (k_file r ! i))) (fips_sha1 (cs ! i))\<rparr>)"
        "map_at ?w ty (length (o_type (k_file r ! i))) = Inr (o_type (k_file r ! i))"
        "take (o_size (k_file r ! i)) (drop (unat off) ?data) = cs ! i"
        "take (length (o_type (k_file r ! i))) (drop ty ?data) = o_type (k_file r ! i)"
        using find_image_file[OF w b fuel r2, of i] Some by blast
      then show ?thesis unfolding served_def Let_def Some File option.case objref.case by blast
    qed
  qed
qed

text \<open>The reference count does not matter for a search.\<close>

lemma map_at_ref: "map_at (w\<lparr>r_ref := k\<rparr>) p n = map_at w p n" "dedge_at (w\<lparr>r_ref := k\<rparr>) j = dedge_at w j"
  by (simp_all add: map_at_def dedge_at_def)

lemma trie_query_ref: "trie_query fuel (w\<lparr>r_ref := k\<rparr>) re n buf pos len = trie_query fuel w re n buf pos len"
  by (induction fuel arbitrary: re n pos len) (simp_all add: map_at_ref Let_def cong: if_cong)

lemma webroot_find_ref: "webroot_find fuel (w\<lparr>r_ref := k\<rparr>) buf pos len out = webroot_find fuel w buf pos len out"
  by (simp add: webroot_find_def trie_query_ref map_at_ref Let_def cong: if_cong)

end
