(* ===== verification/MkrootProps.thy ===== *)
theory MkrootProps
  imports WebrootImage
begin

text \<open>
  The program \<^verbatim>\<open>mkroot\<close> as a whole: what a successful run leaves in the output file, that it
  succeeds when the system lets it, and that the server finds in the file what the scan found
  in the directory.
\<close>

section \<open>A run of the program\<close>

lemma new_trie_nonempty: "new_trie [] \<noteq> Inr x"
  by (simp add: new_trie_def trie_new_def construct_radix_def)

text \<open>A successful run of the builder, taken apart.\<close>

lemma do_mkroot_stages:
  assumes "do_mkroot fuel env m dir = Inr (True, Some f)" "m_tmp m = Some tmp"
    and scan: "scan_item fuel env \<lparr>sc_root = webroot_new dir, sc_tmp = Some tmp\<rparr> [] [] = Inr (True, st)"
    and fb: "m_fobuf m = (m1, m2, junk)"
  shows "\<exists>r1 r2 t fd b s f' b'. webroot_prep (m_sort m) (m_ent m) (m_trie m) (sc_root st) = Inr (True, r1) \<and> k_trie r1 = Some t \<and>
    m_open m = Some fd \<and> fobuf_new m1 m2 fd BUFFER_SIZE junk = Some b \<and>
    webroot_write (m_pad m) (m_files m) (m_lseek m) (sc_tmp st) (m_reads m) r1
      (m_writes m, \<lparr>f_data = replicate (webroot_output_size t r1) 0, f_pos = 0\<rparr>, b) = Inr (True, r2, s, f', b') \<and>
    (\<exists>s'. fobuf_close (s, f', b') = Inr (True, s', f))"
proof -
  let ?free = "\<lambda>res :: bool \<times> ofile option. rbind (webroot_free (sc_tmp st)) (\<lambda>_. Inr res)"
  have free: "?free res = Inr res' \<Longrightarrow> res = res'" for res res' by (simp add: webroot_free_def split: option.splits)
  note d = assms(1)[unfolded do_mkroot_def assms(2) option.case scan rbind_simps prod.case Let_def, simplified]
  obtain x where x: "webroot_prep (m_sort m) (m_ent m) (m_trie m) (sc_root st) = Inr x"
    using rbind_Inr_iff[THEN iffD1, OF d] by blast
  obtain ok r1 where p: "webroot_prep (m_sort m) (m_ent m) (m_trie m) (sc_root st) = Inr (ok, r1)" using x by (cases x) blast
  note d = d[unfolded p rbind_simps prod.case]
  have ok: "ok" using d free by (cases ok) auto
  obtain fd where o: "m_open m = Some fd" using d ok free by (cases "m_open m") auto
  obtain t where t: "k_trie r1 = Some t" using d ok o free by (cases "k_trie r1") (auto split: if_splits)
  have al: "m_fallocate m" using d ok o free by (cases "m_fallocate m") auto
  obtain b where b: "fobuf_new m1 m2 fd BUFFER_SIZE junk = Some b"
    using d ok o t al fb free by (cases "fobuf_new m1 m2 fd BUFFER_SIZE junk") auto
  have e: "rbind (webroot_write (m_pad m) (m_files m) (m_lseek m) (sc_tmp st) (m_reads m) r1
      (m_writes m, \<lparr>f_data = replicate (webroot_output_size t r1) 0, f_pos = 0\<rparr>, b))
      (\<lambda>(ok, r, s, f, b). if \<not> ok then Inr (False, Some f) else rbind (fobuf_close (s, f, b)) (\<lambda>(ok, s, f). ?free (ok, Some f))) = Inr (True, Some f)"
    using d ok o t b al fb by simp
  obtain y where y: "webroot_write (m_pad m) (m_files m) (m_lseek m) (sc_tmp st) (m_reads m) r1
      (m_writes m, \<lparr>f_data = replicate (webroot_output_size t r1) 0, f_pos = 0\<rparr>, b) = Inr y"
    using rbind_Inr_iff[THEN iffD1, OF e] by blast
  obtain okw r2 s f' b' where w: "y = (okw, r2, s, f', b')" by (cases y)
  have okw: "okw" using e[unfolded y w] by (cases okw) simp_all
  have c: "rbind (fobuf_close (s, f', b')) (\<lambda>(ok, s, f). ?free (ok, Some f)) = Inr (True, Some f)" using e[unfolded y w] okw by simp
  then obtain okc s' g where cl: "fobuf_close (s, f', b') = Inr (okc, s', g)" by (cases "fobuf_close (s, f', b')") auto
  then have "(okc, Some g) = (True, Some f)" using c by (intro free) simp
  then have "fobuf_close (s, f', b') = Inr (True, s', f)" using cl by simp
  moreover have "webroot_prep (m_sort m) (m_ent m) (m_trie m) (sc_root st) = Inr (True, r1)" using p ok by simp
  moreover have "webroot_write (m_pad m) (m_files m) (m_lseek m) (sc_tmp st) (m_reads m) r1
      (m_writes m, \<lparr>f_data = replicate (webroot_output_size t r1) 0, f_pos = 0\<rparr>, b) = Inr (True, r2, s, f', b')"
    using y w okw by simp
  ultimately show ?thesis using o t b by blast
qed

lemma fobuf_close_view:
  assumes "fobuf_close out = Inr (True, s', f)" "sink_ok out" "sink_fd out \<noteq> -1"
  shows "f = sink_view out"
proof -
  obtain s g b where out: "out = (s, g, b)" by (cases out)
  then obtain s1 b1 where "flush_buf (s, g, b) = Inr (True, s1, f, b1)"
    using assms(1,3) by (auto simp: fobuf_close_def sink_fd_def rbind_Inr_iff)
  then show ?thesis using flush_buf_Inr[of b s g True s1 f b1] assms(2) out by (simp add: sink_ok_def sink_view_def)
qed

lemma copied_layout:
  assumes "list_all2 (copied src) (k_file r1) cs" "laid_out t r r1"
  shows "list_all2 (copied src) (k_file r) cs"
proof -
  have "copied src (k_file r ! i) (cs ! i)" if "i < length (k_file r)" for i
    using assms(1) laid_outD(8,10)[OF assms(2)] that by (simp add: list_all2_conv_all_nth copied_def)
  then show ?thesis using assms(1) laid_outD(8)[OF assms(2)] by (simp add: list_all2_conv_all_nth)
qed


lemma prep_True:
  assumes "webroot_prep so al new_trie r = Inr (True, r1)"
  shows "so" "al" "k_uri r \<noteq> []"
proof -
  show so: "so" using assms by (cases so) (simp_all add: webroot_prep_def sort_uris_def)
  show al: "al" using assms so
    by (cases al) (auto simp: webroot_prep_def sort_uris_def rbind_Inr_iff rassert_Inr_iff)
  show "k_uri r \<noteq> []"
  proof
    assume u: "k_uri r = []"
    have "trie_entries (r\<lparr>k_uri := []\<rparr>) = []" by (simp add: trie_entries_def)
    then show False using assms so al u new_trie_nonempty
      by (auto simp: webroot_prep_def sort_uris_def rbind_Inr_iff rassert_Inr_iff)
  qed
qed

lemma write_needs_tmp: "webroot_write pad files lo None s r out \<noteq> Inr (True, r', out')"
  unfolding webroot_write_def
  by (auto dest!: or_fail_True simp: rbind_Inr_iff write_files_def split: option.splits)

text \<open>The file of a successful run.\<close>

lemma do_mkroot_file:
  assumes run: "do_mkroot fuel env m dir = Inr (True, Some f)"
    and env: "names_ok env" and tmp: "m_tmp m = Some tmp" "sink_ok tmp" and sys: "m_trie m = new_trie" "m_open m \<noteq> Some (-1)"
    and scan: "scan_item fuel env \<lparr>sc_root = webroot_new dir, sc_tmp = Some tmp\<rparr> [] [] = Inr (True, st)"
    and short: "\<forall>u \<in> fst ` set (k_uri (sc_root st)). length u < 256"
    and r: "r = sc_root st"
  shows "\<exists>cs tmp' t r1 edges. sc_tmp st = Some tmp' \<and> list_all2 (copied (content_of (m_files m) (m_lseek m) (sink_view tmp'))) (k_file r) cs \<and>
    mk_wf r \<and> uris_ok r \<and> laid_out t r r1 \<and> trie_for (trie_entries r1) t edges \<and>
    f_data f = index_image (m_pad m) t (with_digests r1 cs) @ concat cs \<and>
    webroot_prep (m_sort m) (m_ent m) new_trie r = Inr (True, r1)"
proof -
  let ?st = "\<lparr>sc_root = webroot_new dir, sc_tmp = Some tmp\<rparr>"
  obtain m1 m2 junk where fbm: "m_fobuf m = (m1, m2, junk)" by (cases "m_fobuf m")
  obtain r1 r2 t fd b s f' b' s' where st: "webroot_prep (m_sort m) (m_ent m) new_trie r = Inr (True, r1)" "k_trie r1 = Some t"
    "m_open m = Some fd" "fobuf_new m1 m2 fd BUFFER_SIZE junk = Some b"
    and w: "webroot_write (m_pad m) (m_files m) (m_lseek m) (sc_tmp st) (m_reads m) r1
      (m_writes m, \<lparr>f_data = replicate (webroot_output_size t r1) 0, f_pos = 0\<rparr>, b) = Inr (True, r2, s, f', b')"
    and close: "fobuf_close (s, f', b') = Inr (True, s', f)"
    using do_mkroot_stages[OF run tmp(1) scan fbm] sys(1) r by auto
  have u: "uri_ok []" by (simp add: uri_ok_def)
  have wf: "mk_wf r" and adds: "distinct (map fst (k_uri r))" "\<forall>v \<in> fst ` set (k_uri r). 0 \<notin> set v"
    using scan_root[OF env scan] r by simp_all
  have uris: "uris_ok r" using prep_True(3)[OF st(1)] adds short r by (auto simp: uris_ok_def)
  obtain t' edges where prep: "trie_for (trie_entries r1) t' edges" "laid_out t' r r1"
    using webroot_prep_spec[OF wf uris] st(1) prep_True(1,2)[OF st(1)] by auto
  then have t': "t' = t" using st(2) laid_outD(12) by fastforce
  have "sc_ok ?st" using tmp(2) by (simp add: sc_ok_def)
  then have "sc_ok st" using scan_item_keeps[OF env _ u, of ?st dir fuel "[]"] scan by (simp add: webroot_new_def steps_def)
  moreover obtain tmp' where tmp': "sc_tmp st = Some tmp'" using w write_needs_tmp by (cases "sc_tmp st") auto
  ultimately have tok: "sink_ok tmp'" by (simp add: sc_ok_def)
  have b: "fobuf_ok b" "pending b = []" "fb_fd b = fd"
    using fobuf_new_ok[of fd BUFFER_SIZE junk b] st(4) by (auto simp: fobuf_new_def split: if_splits)
  let ?out = "(m_writes m, \<lparr>f_data = replicate (webroot_output_size t r1) 0, f_pos = 0\<rparr>, b)"
  have out: "sink_ok ?out" "sink_view ?out = \<lparr>f_data = replicate (webroot_output_size t r1) 0, f_pos = 0\<rparr>"
    using b by (simp_all add: sink_ok_def sink_view_def)
  have ix: "index_ok (trie_entries r1) t r1" using laid_index_ok[OF prep(2) wf prep(1)] t' by simp
  have sizes: "map o_size (k_file r1) = map o_size (k_file r)"
    using laid_outD(8,10)[OF prep(2)] by (auto intro!: nth_equalityI)
  have "length (replicate (webroot_output_size t r1) (0 :: byte)) \<le> length (index_image (m_pad m) t r1) + sum_list (map o_size (k_file r1))"
    using length_index_image(1)[OF ix] laid_outD(13)[OF prep(2)] sizes by (simp add: webroot_output_size_def)
  then obtain cs where cs: "list_all2 (copied (content_of (m_files m) (m_lseek m) (sink_view tmp'))) (k_file r1) cs"
    "r2 = with_digests r1 cs" "sink_ok (s, f', b')" "sink_fd (s, f', b') = fd" "f_data (sink_view (s, f', b')) = index_image (m_pad m) t r2 @ concat cs"
    using webroot_write_image[OF w[unfolded tmp'] out(1) tok out(2) st(2) prep(1)[unfolded t'] _ _ _ refl] ix b(3)
    by (auto simp: index_ok_def sink_fd_def)
  have "f = sink_view (s, f', b')" using fobuf_close_view[OF close cs(3)] cs(4) st(3) sys(2) by auto
  then show ?thesis using tmp' copied_layout[OF cs(1)] prep wf uris cs(2,5) t' st(1) by blast
qed

section \<open>Success\<close>

text \<open>A sink whose kernel transfers something at every call and has answers for \<open>n\<close> more bytes.\<close>

definition ready :: "nat \<Rightarrow> sink \<Rightarrow> bool" where
  "ready n = (\<lambda>(s, f, b). fobuf_ok b \<and> generous s \<and> length (pending b) + n \<le> length s)"

lemma ready_mono: "ready n out \<Longrightarrow> m \<le> n \<Longrightarrow> ready m out"
  by (cases out) (simp add: ready_def)

lemma ready_ok: "ready n out \<Longrightarrow> sink_ok out"
  by (cases out) (simp add: ready_def sink_ok_def)

lemma put_all_ready:
  assumes "ready (length (concat ds) + k) out"
  shows "\<exists>out'. fb.put_all out ds = Inr (True, out') \<and> ready k out'"
proof -
  obtain s f b where out: "out = (s, f, b)" by (cases out)
  obtain s' f' b' where "fb.put_all (s, f, b) ds = Inr (True, s', f', b')" "fobuf_ok b'" "generous s'"
      "length (pending b') + length s \<le> length s' + length (pending b) + length (concat ds)"
    using put_all_returns[of b s ds f] assms out by (auto simp: ready_def)
  then show ?thesis using assms out by (intro exI[of _ "(s', f', b')"]) (simp add: ready_def)
qed

lemma put_ready:
  assumes "ready (length bs + k) out"
  shows "\<exists>out'. fobuf_write out bs = Inr (True, out') \<and> ready k out'"
proof -
  obtain out' where out': "fb.put_all out [bs] = Inr (True, out')" "ready k out'" using put_all_ready[of "[bs]" k out] assms by auto
  then have "fobuf_write out bs = Inr (True, out')" by (cases "fobuf_write out bs") (auto split: if_splits)
  then show ?thesis using out'(2) by blast
qed

lemma flush_ready:
  assumes "ready n out"
  shows "\<exists>s f b. fobuf_flush out = Inr (True, s, f, b) \<and> ready n (s, f, b) \<and> f = sink_view out"
proof -
  obtain s f b where out: "out = (s, f, b)" by (cases out)
  have ok: "fobuf_ok b" using assms out by (simp add: ready_def)
  obtain k f' b' where "k \<le> length (pending b)" and fl: "flush_buf (s, f, b) = Inr (True, drop k s, f', b')"
    using flush_buf_returns[OF ok, of s f] assms out by (auto simp: ready_def)
  then show ?thesis using flush_buf_Inr[OF ok fl] assms out
    by (auto simp: fobuf_flush_def ready_def sink_view_def generous_drop)
qed

lemma ready_seek: "ready n (s, f, b) \<Longrightarrow> ready n (s, f', b)"
  by (simp add: ready_def)

text \<open>A file that holds at least the bytes the scan counted.\<close>

definition has_bytes :: "ofile \<Rightarrow> nat \<Rightarrow> bool" where
  "has_bytes f n \<longleftrightarrow> f_pos f + n \<le> length (f_data f)"

lemma copy_loop_succeeds:
  "generous rs \<Longrightarrow> len < length rs \<Longrightarrow> has_bytes f len \<Longrightarrow> ready (len + k) out \<Longrightarrow>
    \<exists>sha rs' out'. copy_loop rs f len ctx out = Inr (Some (0, sha), rs', out') \<and> generous rs' \<and>
      length rs \<le> length rs' + len + 1 \<and> ready k out'"
proof (induction rs f len ctx out rule: copy_loop.induct)
  case (3 n s f len ctx out)
  let ?m = "if BUFFER_SIZE < len then BUFFER_SIZE else len" let ?got = "sys_pread f (f_pos f) ?m n"
  have n: "0 < n" "generous s" using "3.prems"(1) by (auto simp: generous_def)
  show ?case
  proof (cases "len = 0")
    case True
    then show ?thesis using n "3.prems"(4) by (simp add: sys_pread_def Let_def)
  next
    case False
    have g: "0 < length ?got" "length ?got \<le> len" using False n(1) "3.prems"(3) by (auto simp: sys_pread_def has_bytes_def BUFFER_SIZE_def)
    obtain out1 where w: "fobuf_write out ?got = Inr (True, out1)" "ready (len - length ?got + k) out1"
      using put_ready[of ?got "len - length ?got + k" out] g(2) "3.prems"(4) by auto
    have "len - length ?got < length s" using g "3.prems"(2)[unfolded list.size] by linarith
    moreover have "has_bytes (f\<lparr>f_pos := f_pos f + length ?got\<rparr>) (len - length ?got)" using g(2) "3.prems"(3) by (simp add: has_bytes_def)
    ultimately obtain sha rs' out' where c: "copy_loop s (f\<lparr>f_pos := f_pos f + length ?got\<rparr>) (len - length ?got) (blk_SHA1_Update ctx ?got) out1 =
        Inr (Some (0, sha), rs', out')" "generous rs'" "length s \<le> length rs' + (len - length ?got) + 1" "ready k out'"
      using "3.IH"[OF refl _ w(1) refl _ n(2) _ _ w(2)] g(1) by auto
    have "?got \<noteq> []" using g(1) by auto
    moreover have "length s \<le> length rs' + len" using c(3) g by linarith
    ultimately show ?thesis using w(1) c by (simp add: Let_def)
  qed
qed (auto simp: generous_def)

lemma write_each_file_succeeds:
  "generous rs \<Longrightarrow> sum_list (map (\<lambda>ob. o_size ob + 1) obs) \<le> length rs \<Longrightarrow>
    \<forall>ob \<in> set obs. \<exists>f. src (o_content ob) = Some f \<and> has_bytes f (o_size ob) \<Longrightarrow>
    ready (sum_list (map o_size obs) + k) out \<Longrightarrow>
    \<exists>obs' rs' out'. write_each_file src rs obs out = Inr (True, obs', rs', out') \<and> ready k out'"
proof (induction obs arbitrary: rs out)
  case (Cons ob obs)
  obtain f where f: "src (o_content ob) = Some f" "has_bytes f (o_size ob)" using Cons.prems(3) by auto
  have l: "o_size ob < length rs" using Cons.prems(2) by simp
  obtain sha rs1 out1 where c: "copy_loop rs f (o_size ob) blk_SHA1_Init out = Inr (Some (0, sha), rs1, out1)" "generous rs1"
      "length rs \<le> length rs1 + o_size ob + 1" "ready (sum_list (map o_size obs) + k) out1"
    using copy_loop_succeeds[OF Cons.prems(1) l f(2), of "sum_list (map o_size obs) + k" out blk_SHA1_Init] Cons.prems(4)
    by (auto simp: add.assoc)
  obtain obs' rs' out' where "write_each_file src rs1 obs out1 = Inr (True, obs', rs', out')" "ready k out'"
    using Cons.IH[OF c(2) _ _ c(4)] Cons.prems(2,3) c(3) by auto
  then show ?case using f(1) c(1) by (simp add: write_file_def Let_def)
qed simp

lemma or_fail_continues: "m = Inr (True, out) \<Longrightarrow> or_fail m k x = k out"
  by (simp add: or_fail_def)

lemma webroot_write_succeeds:
  assumes t: "k_trie r = Some t" "index_ok es t r"
    and tmp: "ready 0 tmp" and rs: "generous rs" "sum_list (map (\<lambda>ob. o_size ob + 1) (k_file r)) \<le> length rs"
    and files: "\<forall>ob \<in> set (k_file r). \<exists>f. content_of files True (sink_view tmp) (o_content ob) = Some f \<and> has_bytes f (o_size ob)"
    and out: "ready (length (index_image pad t r) + sum_list (map o_size (k_file r)) + FILE_SZ * length (k_file r) + k) out"
  shows "\<exists>r' out'. webroot_write pad files True (Some tmp) rs r out = Inr (True, r', out') \<and> ready k out'"
proof -
  obtain edges where tf: "trie_for es t edges" using t(2) by (auto simp: index_ok_def)
  let ?H = "hdr_bytes (mk_header pad t r)" let ?T = "map dedge_bytes (trie_image t)"
  let ?R = "map (redirect_bytes \<circ> redirect_rec) (k_redirect r)" let ?F = "map (file_bytes \<circ> file_rec r) (k_file r)"
  let ?M = "map fst (k_mime_type r)" let ?U = "redirtab (k_redirect r)"
  define k6 where "k6 = FILE_SZ * length (k_file r) + k"
  define k5 where "k5 = sum_list (map o_size (k_file r)) + k6"
  have o0: "ready (length ?H + (length (concat ?T) + (length (concat ?R) + (length (concat ?F) + (length (concat ?M) + (length (concat ?U) + k5)))))) out"
    using out by (simp add: index_image_def k5_def k6_def add.assoc)
  obtain o1 where o1: "write_header pad t r out = Inr (True, o1)"
    "ready (length (concat ?T) + (length (concat ?R) + (length (concat ?F) + (length (concat ?M) + (length (concat ?U) + k5))))) o1"
    using put_ready[OF o0] by (auto simp: write_header_def)
  obtain o2 where o2: "trie_write_trie o1 t = Inr (True, o2)" "ready (length (concat ?R) + (length (concat ?F) + (length (concat ?M) + (length (concat ?U) + k5)))) o2"
    using put_all_ready[OF o1(2)] trie_for_write[OF tf] by auto
  obtain o3 where o3: "write_redirect_objs r o2 = Inr (True, o3)" "ready (length (concat ?F) + (length (concat ?M) + (length (concat ?U) + k5))) o3"
    using put_all_ready[OF o2(2)] by (auto simp: write_redirect_objs_def write_each_put_all)
  obtain o4 where o4: "write_file_objs r o3 = Inr (True, o4)" "ready (length (concat ?M) + (length (concat ?U) + k5)) o4"
    using put_all_ready[OF o3(2)] by (auto simp: write_file_objs_def write_each_put_all)
  obtain o5 where o5: "write_mimetab r o4 = Inr (True, o5)" "ready (length (concat ?U) + k5) o5"
    using put_all_ready[OF o4(2)] by (auto simp: write_mimetab_def write_each_put_all)
  obtain o6 where o6: "write_redirtab r o5 = Inr (True, o6)" "ready k5 o6"
    using put_all_ready[OF o5(2)] by (auto simp: write_redirtab_def write_each_put_all)
  obtain ts tfile tb where fl: "fobuf_flush tmp = Inr (True, ts, tfile, tb)" "tfile = sink_view tmp" using flush_ready[OF tmp] by blast
  obtain fs rs' o7 where f: "write_each_file (content_of files True (sink_view tmp)) rs (k_file r) o6 = Inr (True, fs, rs', o7)" "ready k6 o7"
    using write_each_file_succeeds[OF rs files o6(2)[unfolded k5_def]] by blast
  let ?r' = "r\<lparr>k_file := fs\<rparr>"
  have wf: "write_files files True (Some tmp) rs r o6 = Inr (True, ?r', o7)" using fl f(1) by (simp add: write_files_def)
  obtain cs where cs: "length cs = length (k_file r)" "fs = map2 (\<lambda>ob c. ob\<lparr>o_digest := fips_sha1 c\<rparr>) (k_file r) cs"
    using write_each_file_spec[OF f(1) ready_ok[OF o6(2)]] by auto
  obtain s8 f8 b8 where fl8: "fobuf_flush o7 = Inr (True, s8, f8, b8)" "ready k6 (s8, f8, b8)" using flush_ready[OF f(2)] by blast
  have "\<forall>x \<in> set fs. length ((file_bytes \<circ> file_rec ?r') x) = FILE_SZ"
    using cs record_sizes(2) by (auto simp: file_rec_def length_fips_sha1 in_set_zip)
  moreover have "length fs = length (k_file r)" using cs by simp
  ultimately have "length (concat (map (file_bytes \<circ> file_rec ?r') fs)) + k = k6"
    unfolding k6_def using length_concat_const by metis
  moreover have "ready k6 (s8, f8\<lparr>f_pos := HDR_SZ + trie_trie_size t + REDIRECT_SZ * k_num_redirect ?r'\<rparr>, b8)"
    by (rule ready_seek[OF fl8(2)])
  ultimately obtain o9 where o9: "write_file_objs ?r' (s8, f8\<lparr>f_pos := HDR_SZ + trie_trie_size t + REDIRECT_SZ * k_num_redirect ?r'\<rparr>, b8) = Inr (True, o9)"
    "ready k o9"
    using put_all_ready[of "map (file_bytes \<circ> file_rec ?r') fs" k] unfolding write_file_objs_def write_each_put_all by fastforce
  then have et: "write_etags True t ?r' o7 = Inr (True, o9)" using fl8(1) by (simp add: write_etags_def)
  show ?thesis using o9(2) unfolding webroot_write_def t(1) option.case
    by (simp add: or_fail_continues[OF o1(1)] or_fail_continues[OF o2(1)] or_fail_continues[OF o3(1)] or_fail_continues[OF o4(1)]
      or_fail_continues[OF o5(1)] or_fail_continues[OF o6(1)] wf or_fail_continues[OF et])
qed

lemma do_mkroot_succeeds:
  assumes env: "names_ok env" and tmp: "m_tmp m = Some tmp"
    and scan: "scan_item fuel env \<lparr>sc_root = webroot_new dir, sc_tmp = Some tmp\<rparr> [] [] = Inr (True, st)"
    and uris: "k_uri (sc_root st) \<noteq> []" "\<forall>u \<in> fst ` set (k_uri (sc_root st)). length u < 256"
    and sys: "m_sort m" "m_ent m" "m_trie m = new_trie" "m_open m = Some fd" "m_fallocate m" "m_fobuf m = (True, True, junk)" "m_lseek m"
    and tmp': "sc_tmp st = Some tmp'" "ready 0 tmp'"
    and rs: "generous (m_reads m)" "sum_list (map (\<lambda>ob. o_size ob + 1) (k_file (sc_root st))) \<le> length (m_reads m)"
    and files: "\<forall>ob \<in> set (k_file (sc_root st)). \<exists>f. content_of (m_files m) True (sink_view tmp') (o_content ob) = Some f \<and> has_bytes f (o_size ob)"
  shows "\<exists>n. \<forall>ws. generous ws \<and> n \<le> length ws \<longrightarrow> (\<exists>f. do_mkroot fuel env (m\<lparr>m_writes := ws\<rparr>) dir = Inr (True, Some f))"
proof -
  let ?r = "sc_root st"
  have wf: "mk_wf ?r" and uok: "uris_ok ?r" using scan_root[OF env scan] uris by (auto simp: uris_ok_def)
  obtain r1 t cs where prep: "webroot_prep True True new_trie ?r = Inr (True, r1)" "trie_for (trie_entries r1) t cs" "laid_out t ?r r1"
    using webroot_prep_spec[OF wf uok] by blast
  have ix: "index_ok (trie_entries r1) t r1" and t: "k_trie r1 = Some t" using laid_index_ok[OF prep(3) wf prep(2)] laid_outD(12)[OF prep(3)] .
  have sums: "map g (k_file r1) = map g (k_file ?r)" if "g = (\<lambda>ob. h (o_size ob))" for g h :: "_ \<Rightarrow> nat"
    by (rule nth_equalityI) (simp_all add: laid_outD(8,10)[OF prep(3)] that)
  have avail: "\<forall>ob \<in> set (k_file r1). \<exists>f. content_of (m_files m) True (sink_view tmp') (o_content ob) = Some f \<and> has_bytes f (o_size ob)"
  proof
    fix ob assume "ob \<in> set (k_file r1)"
    then obtain i where i: "i < length (k_file ?r)" "ob = k_file r1 ! i" by (auto simp: in_set_conv_nth laid_outD(8)[OF prep(3)])
    then have "o_content ob = o_content (k_file ?r ! i)" "o_size ob = o_size (k_file ?r ! i)" by (simp_all add: laid_outD(10)[OF prep(3)])
    then show "\<exists>f. content_of (m_files m) True (sink_view tmp') (o_content ob) = Some f \<and> has_bytes f (o_size ob)"
      using files i(1) by simp
  qed
  let ?n = "length (index_image (m_pad m) t r1) + sum_list (map o_size (k_file r1)) + FILE_SZ * length (k_file r1) + 2"
  have "\<exists>f. do_mkroot fuel env (m\<lparr>m_writes := ws\<rparr>) dir = Inr (True, Some f)" if ws: "generous ws" "?n \<le> length ws" for ws
  proof -
    obtain b where b: "fobuf_new True True fd BUFFER_SIZE junk = Some b" by (simp add: fobuf_new_def Let_def)
    let ?out = "(ws, \<lparr>f_data = replicate (webroot_output_size t r1) 0, f_pos = 0\<rparr>, b)"
    have "ready ?n ?out" using fobuf_new_ok[OF b] ws by (simp add: ready_def)
    then obtain r2 s f' b' where w: "webroot_write (m_pad m) (m_files m) True (Some tmp') (m_reads m) r1 ?out = Inr (True, r2, s, f', b')" "ready 2 (s, f', b')"
      using webroot_write_succeeds[OF t ix tmp'(2) rs(1) _ avail, of "m_pad m" 2 ?out] rs(2) sums[of _ Suc] by auto
    then obtain s' f where c: "fobuf_close (s, f', b') = Inr (True, s', f)" using fobuf_close_returns[of b' s f'] by (auto simp: ready_def)
    show ?thesis unfolding do_mkroot_def using tmp scan prep(1) sys t b tmp'(1) w(1) c by (simp add: Let_def webroot_free_def)
  qed
  then show ?thesis by blast
qed

section \<open>Properties\<close>

text \<open>
  C25.  The builder succeeds: if the scan succeeded, the URIs are shorter than 256 bytes, the
  system has memory and files that still hold the bytes the scan counted, and the kernel
  transfers something at every call, then with enough answers to \<open>write\<close> the program
  ends successfully; it does not stop at an assertion or outside a buffer.
\<close>

theorem mkroot_succeeds:
  assumes "names_ok env" "m_tmp m = Some tmp"
    and "scan_item fuel env \<lparr>sc_root = webroot_new dir, sc_tmp = Some tmp\<rparr> [] [] = Inr (True, st)"
    and "k_uri (sc_root st) \<noteq> []" "\<forall>u \<in> fst ` set (k_uri (sc_root st)). length u < 256"
    and "m_sort m" "m_ent m" "m_trie m = new_trie" "m_open m = Some fd" "m_fallocate m" "m_fobuf m = (True, True, junk)" "m_lseek m"
    and "sc_tmp st = Some tmp'" "ready 0 tmp'"
    and "generous (m_reads m)" "sum_list (map (\<lambda>ob. o_size ob + 1) (k_file (sc_root st))) \<le> length (m_reads m)"
    and "\<forall>ob \<in> set (k_file (sc_root st)). \<exists>f. content_of (m_files m) True (sink_view tmp') (o_content ob) = Some f \<and> has_bytes f (o_size ob)"
  shows "\<exists>n. \<forall>ws. generous ws \<and> n \<le> length ws \<longrightarrow> (\<exists>f. do_mkroot fuel env (m\<lparr>m_writes := ws\<rparr>) dir = Inr (True, Some f))"
  by (rule do_mkroot_succeeds[OF assms])

definition sample_sys :: mk_sys where
  "sample_sys = \<lparr>m_tmp = Some sample_tmp, m_sort = True, m_ent = True, m_trie = new_trie, m_open = Some 4, m_fallocate = True,
     m_fobuf = (True, True, []), m_pad = 0, m_files = (\<lambda>p. Some \<lparr>f_data = str ''abc'', f_pos = 0\<rparr>), m_lseek = True,
     m_reads = replicate 4 (Ret 1), m_writes = []\<rparr>"

lemma sample_root:
  "case scan_item 2 (sample_env_at t) \<lparr>sc_root = webroot_new (str ''w''), sc_tmp = Some sample_tmp\<rparr> [] [] of
     Inl e \<Rightarrow> False | Inr x \<Rightarrow> fst x \<and> k_uri (sc_root (snd x)) = [(str ''/'', Redir 0), (str ''/a'', File 0)] \<and> sc_tmp (snd x) = Some sample_tmp \<and>
       map (\<lambda>ob. (o_content ob, o_size ob, o_type ob, o_mtime ob)) (k_file (sc_root (snd x))) = [(FILE_PATH (str ''w/a''), 3, str ''text'', t)] \<and>
       (case webroot_prep True True new_trie (sc_root (snd x)) of Inl e \<Rightarrow> False
        | Inr y \<Rightarrow> (case k_trie (snd y) of None \<Rightarrow> False | Some t \<Rightarrow> webroot_output_size t (snd y) < 1000))"
  by code_simp

lemma sample_done:
  "\<exists>st. scan_item 2 (sample_env_at t) \<lparr>sc_root = webroot_new (str ''w''), sc_tmp = Some sample_tmp\<rparr> [] [] = Inr (True, st) \<and>
    k_uri (sc_root st) = [(str ''/'', Redir 0), (str ''/a'', File 0)] \<and> sc_tmp st = Some sample_tmp \<and>
    map (\<lambda>ob. (o_content ob, o_size ob, o_type ob, o_mtime ob)) (k_file (sc_root st)) = [(FILE_PATH (str ''w/a''), 3, str ''text'', t)] \<and>
    (\<forall>y t. webroot_prep True True new_trie (sc_root st) = Inr y \<and> k_trie (snd y) = Some t \<longrightarrow> webroot_output_size t (snd y) < 1000)"
proof (cases "scan_item 2 (sample_env_at t) \<lparr>sc_root = webroot_new (str ''w''), sc_tmp = Some sample_tmp\<rparr> [] []")
  case (Inl e)
  then show ?thesis using sample_root[of t] by simp
next
  case (Inr x)
  note r = sample_root[of t, unfolded Inr sum.case]
  show ?thesis
  proof (intro exI[of _ "snd x"] conjI allI impI)
    show "scan_item 2 (sample_env_at t) \<lparr>sc_root = webroot_new (str ''w''), sc_tmp = Some sample_tmp\<rparr> [] [] = Inr (True, snd x)"
      using Inr r by (cases x) simp
    show "k_uri (sc_root (snd x)) = [(str ''/'', Redir 0), (str ''/a'', File 0)]" "sc_tmp (snd x) = Some sample_tmp"
      "map (\<lambda>ob. (o_content ob, o_size ob, o_type ob, o_mtime ob)) (k_file (sc_root (snd x))) = [(FILE_PATH (str ''w/a''), 3, str ''text'', t)]" using r by blast+
    fix y t assume "webroot_prep True True new_trie (sc_root (snd x)) = Inr y \<and> k_trie (snd y) = Some t"
    then show "webroot_output_size t (snd y) < 1000" using r by simp
  qed
qed

lemma sample_objects:
  assumes "map (\<lambda>ob. (o_content ob, o_size ob, o_type ob, o_mtime ob)) fs = [(FILE_PATH (str ''w/a''), 3, str ''text'', t)]"
  shows "sum_list (map (\<lambda>ob. o_size ob + 1) fs) \<le> length (m_reads sample_sys)" "sum_list (map o_size fs) = 3"
    "\<forall>ob \<in> set fs. \<exists>f. content_of (m_files sample_sys) True (sink_view tmp) (o_content ob) = Some f \<and> has_bytes f (o_size ob)"
proof -
  obtain ob where ob: "fs = [ob]" "o_content ob = FILE_PATH (str ''w/a'')" "o_size ob = 3" using assms by (auto simp: map_eq_Cons_conv)
  show "sum_list (map (\<lambda>ob. o_size ob + 1) fs) \<le> length (m_reads sample_sys)" "sum_list (map o_size fs) = 3" using ob by (simp_all add: sample_sys_def)
  show "\<forall>ob \<in> set fs. \<exists>f. content_of (m_files sample_sys) True (sink_view tmp) (o_content ob) = Some f \<and> has_bytes f (o_size ob)"
    using ob by (simp add: content_of_def has_bytes_def sample_sys_def)
qed

lemma sample_facts:
  "ready 0 sample_tmp" "sink_ok sample_tmp" "generous (m_reads sample_sys)" "m_tmp sample_sys = Some sample_tmp" "m_sort sample_sys" "m_ent sample_sys"
  "m_trie sample_sys = new_trie" "m_open sample_sys = Some 4" "m_fallocate sample_sys" "m_fobuf sample_sys = (True, True, [])" "m_lseek sample_sys"
  by (simp_all add: sample_sys_def sample_tmp_def ready_def sink_ok_def fobuf_ok_def pending_def generous_def list_all_iff)

lemma sample_uris:
  assumes "us = [(str ''/'', Redir 0), (str ''/a'', File 0)]"
  shows "us \<noteq> []" "\<forall>u \<in> fst ` set us. length u < 256"
proof -
  show "\<forall>u \<in> fst ` set us. length u < 256" "us \<noteq> []" using assms by simp_all
qed

theorem mkroot_succeeds_witness:
  "\<exists>n. \<forall>ws. generous ws \<and> n \<le> length ws \<longrightarrow> (\<exists>f. do_mkroot 2 (sample_env_at 7) (sample_sys\<lparr>m_writes := ws\<rparr>) (str ''w'') = Inr (True, Some f))"
proof -
  obtain st where st: "scan_item 2 (sample_env_at 7) \<lparr>sc_root = webroot_new (str ''w''), sc_tmp = Some sample_tmp\<rparr> [] [] = Inr (True, st)"
    "k_uri (sc_root st) = [(str ''/'', Redir 0), (str ''/a'', File 0)]" "sc_tmp st = Some sample_tmp"
    "map (\<lambda>ob. (o_content ob, o_size ob, o_type ob, o_mtime ob)) (k_file (sc_root st)) = [(FILE_PATH (str ''w/a''), 3, str ''text'', 7)]"
    using sample_done[of 7] by (elim exE conjE) (rule that)
  show ?thesis
    by (rule mkroot_succeeds[OF sample_names_at sample_facts(4) st(1) sample_uris[OF st(2)] sample_facts(5-11) st(3) sample_facts(1,3)
        sample_objects(1,3)[OF st(4)]])
qed

text \<open>The tables in the file a run has written, and what the server opens.\<close>

lemma mkroot_written:
  assumes run: "do_mkroot fuel env m dir = Inr (True, Some f)"
    and env: "names_ok env" and tmp: "m_tmp m = Some tmp" "sink_ok tmp" and sys: "m_trie m = new_trie" "m_open m \<noteq> Some (-1)"
    and scan: "scan_item fuel env \<lparr>sc_root = webroot_new dir, sc_tmp = Some tmp\<rparr> [] [] = Inr (True, st)"
    and short: "\<forall>u \<in> fst ` set (k_uri (sc_root st)). length u < 256"
    and size: "length (f_data f) < 2 ^ 32 - 1 + sum_list (map o_size (k_file (sc_root st)))" "length (f_data f) < 2 ^ 64"
  obtains cs tmp' t r1 where "sc_tmp st = Some tmp'"
    "list_all2 (copied (content_of (m_files m) (m_lseek m) (sink_view tmp'))) (k_file (sc_root st)) cs"
    "written_root (sc_root st) t r1 cs (m_pad m)" "f_data f = index_image (m_pad m) t (with_digests r1 cs) @ concat cs"
    "\<forall>s fd. generous s \<and> HDR_SZ < length s \<longrightarrow> webroot_open True (Some (fd, f\<lparr>f_pos := 0\<rparr>)) s True True =
       Inr \<lparr>o_root = Some (image_root fd (m_pad m) t (with_digests r1 cs)), o_fd = True, o_map = True\<rparr>"
proof -
  let ?r = "sc_root st"
  obtain cs tmp' t r1 edges where w: "sc_tmp st = Some tmp'"
    "list_all2 (copied (content_of (m_files m) (m_lseek m) (sink_view tmp'))) (k_file ?r) cs" "mk_wf ?r" "uris_ok ?r" "laid_out t ?r r1"
    "trie_for (trie_entries r1) t edges" "f_data f = index_image (m_pad m) t (with_digests r1 cs) @ concat cs"
    using do_mkroot_file[OF run env tmp sys scan short refl] by blast
  let ?r2 = "with_digests r1 cs"
  have a2: "list_all2 (\<lambda>f c. length c = o_size f) (k_file ?r) cs"
    using w(2) by (rule list_all2_mono) (auto simp: copied_def)
  then have "length (concat cs) = sum_list (map o_size (k_file ?r))" by (induction rule: list_all2_induct) auto
  then have sz: "length (index_image (m_pad m) t ?r2) < 2 ^ 32 - 1" using size(1) w(7) by simp
  have wr: "written_root ?r t r1 cs (m_pad m)" using w a2 sz size(2) unfolding written_root_def by auto
  have ok: "index_ok (trie_entries r1) t ?r2" using written_index_ok[OF wr] .
  have "webroot_open True (Some (fd, f\<lparr>f_pos := 0\<rparr>)) s True True =
      Inr \<lparr>o_root = Some (image_root fd (m_pad m) t ?r2), o_fd = True, o_map = True\<rparr>" if "generous s" "HDR_SZ < length s" for s fd
    using open_image[OF ok sz that, of fd "concat cs"] w(7) by (cases f) simp
  then show thesis using that w(1,2,7) wr by blast
qed

text \<open>
  C2.  What the builder writes is what the server finds.  Let a run of \<^verbatim>\<open>mkroot\<close> succeed, with
  URIs shorter than 256 bytes and an index and a file of a size the format can express.
  Then the server opens the output file successfully, with any kernel that transfers
  something at every call, and for every string in a request buffer \<open>webroot_find\<close>
  returns: nothing for a string that is no URI of the scan; for a redirect the code 301 and
  where the target stands in the file, or the stored code; for a file the code 200, where its
  type stands, its modification time, the offset and length at which the file holds the
  bytes copied at build time, and their SHA-1 digest.
\<close>

theorem mkroot_serves:
  assumes run: "do_mkroot fuel env m dir = Inr (True, Some f)"
    and env: "names_ok env" and tmp: "m_tmp m = Some tmp" "sink_ok tmp" and sys: "m_trie m = new_trie" "m_open m \<noteq> Some (-1)"
    and scan: "scan_item fuel env \<lparr>sc_root = webroot_new dir, sc_tmp = Some tmp\<rparr> [] [] = Inr (True, st)"
    and short: "\<forall>u \<in> fst ` set (k_uri (sc_root st)). length u < 256"
    and size: "length (f_data f) < 2 ^ 32 - 1 + sum_list (map o_size (k_file (sc_root st)))" "length (f_data f) < 2 ^ 64"
  shows "\<exists>cs tmp'. sc_tmp st = Some tmp' \<and> list_all2 (copied (content_of (m_files m) (m_lseek m) (sink_view tmp'))) (k_file (sc_root st)) cs \<and>
    (\<forall>s fd. generous s \<and> HDR_SZ < length s \<longrightarrow>
      (\<exists>w. webroot_open True (Some (fd, f\<lparr>f_pos := 0\<rparr>)) s True True = Inr \<lparr>o_root = Some w, o_fd = True, o_map = True\<rparr> \<and>
        (\<forall>u buf pos out. in_buffer buf pos u \<and> u \<noteq> [] \<longrightarrow>
          (\<exists>res. webroot_find (256 * (length u + 2)) w buf pos (length u) out = Inr res \<and>
            served (sc_root st) cs (f_data f) u out res))))"
proof -
  obtain cs tmp' t r1 where w: "sc_tmp st = Some tmp'"
    "list_all2 (copied (content_of (m_files m) (m_lseek m) (sink_view tmp'))) (k_file (sc_root st)) cs"
    "written_root (sc_root st) t r1 cs (m_pad m)" "f_data f = index_image (m_pad m) t (with_digests r1 cs) @ concat cs"
    "\<forall>s fd. generous s \<and> HDR_SZ < length s \<longrightarrow> webroot_open True (Some (fd, f\<lparr>f_pos := 0\<rparr>)) s True True =
       Inr \<lparr>o_root = Some (image_root fd (m_pad m) t (with_digests r1 cs)), o_fd = True, o_map = True\<rparr>"
    by (rule mkroot_written[OF assms])
  have "\<exists>res. webroot_find (256 * (length u + 2)) (image_root fd (m_pad m) t (with_digests r1 cs)) buf pos (length u) out = Inr res \<and>
      served (sc_root st) cs (f_data f) u out res" if "in_buffer buf pos u" "u \<noteq> []" for u buf pos out fd
    using find_image[OF w(3) that le_refl refl] w(4) by simp
  then show ?thesis using w(1,2,5) by blast
qed

lemma served_found: "served r cs data u out res \<Longrightarrow> map_of (k_uri r) u \<noteq> None \<Longrightarrow> fst res"
  by (auto simp: served_def Let_def split: option.splits objref.splits)

lemma written_size:
  assumes l: "laid_out t r r1" and wf: "mk_wf r" and t: "trie_for es t edges" and c: "list_all2 (copied src) (k_file r) cs"
  shows "length (index_image pad t (with_digests r1 cs) @ concat cs) = webroot_output_size t r1"
proof -
  have cl: "length cs = length (k_file r)" "length (concat cs) = sum_list (map o_size (k_file r))"
    using c list_all2_lengthD[OF c] by (simp, induction rule: list_all2_induct) (auto simp: copied_def)
  have "index_ok es t (with_digests r1 cs)" 
    using laid_index_ok[OF l wf t] cl(1) laid_outD(8)[OF l] by (auto simp: index_ok_def with_digests_def length_fips_sha1 in_set_zip)
  from length_index_image(1)[OF this, of pad] show ?thesis
    using cl(2) laid_outD(13)[OF l] by (simp add: webroot_output_size_def index_sz_def with_digests_def)
qed

text \<open>A run over a directory with one file.\<close>

lemma sample_built:
  obtains ws f st where "do_mkroot 2 (sample_env_at t) (sample_sys\<lparr>m_writes := ws\<rparr>) (str ''w'') = Inr (True, Some f)"
    "scan_item 2 (sample_env_at t) \<lparr>sc_root = webroot_new (str ''w''), sc_tmp = Some sample_tmp\<rparr> [] [] = Inr (True, st)"
    "k_uri (sc_root st) = [(str ''/'', Redir 0), (str ''/a'', File 0)]"
    "map (\<lambda>ob. (o_content ob, o_size ob, o_type ob, o_mtime ob)) (k_file (sc_root st)) = [(FILE_PATH (str ''w/a''), 3, str ''text'', t)]"
    "length (f_data f) < 2 ^ 32 - 1 + sum_list (map o_size (k_file (sc_root st)))" "length (f_data f) < 2 ^ 64" "length (f_data f) < 1000"
proof -
  note result = that
  obtain st where st: "scan_item 2 (sample_env_at t) \<lparr>sc_root = webroot_new (str ''w''), sc_tmp = Some sample_tmp\<rparr> [] [] = Inr (True, st)"
    "k_uri (sc_root st) = [(str ''/'', Redir 0), (str ''/a'', File 0)]" "sc_tmp st = Some sample_tmp"
    "map (\<lambda>ob. (o_content ob, o_size ob, o_type ob, o_mtime ob)) (k_file (sc_root st)) = [(FILE_PATH (str ''w/a''), 3, str ''text'', t)]"
    and small: "\<forall>y t. webroot_prep True True new_trie (sc_root st) = Inr y \<and> k_trie (snd y) = Some t \<longrightarrow> webroot_output_size t (snd y) < 1000"
    using sample_done[of t] by (elim exE conjE) (rule that)
  obtain n where n: "\<forall>ws. generous ws \<and> n \<le> length ws \<longrightarrow>
      (\<exists>f. do_mkroot 2 (sample_env_at t) (sample_sys\<lparr>m_writes := ws\<rparr>) (str ''w'') = Inr (True, Some f))"
    using do_mkroot_succeeds[OF sample_names_at sample_facts(4) st(1) sample_uris[OF st(2)] sample_facts(5-11) st(3) sample_facts(1,3)
        sample_objects(1,3)[OF st(4)]] by blast
  define m where "m = sample_sys\<lparr>m_writes := replicate n (Ret 1)\<rparr>"
  have "generous (replicate n (Ret 1)) \<and> n \<le> length (replicate n (Ret 1))" by (simp add: generous_def list_all_iff)
  then obtain f where f: "do_mkroot 2 (sample_env_at t) m (str ''w'') = Inr (True, Some f)" using n unfolding m_def by blast
  have m: "m_tmp m = Some sample_tmp" "m_trie m = new_trie" "m_open m \<noteq> Some (-1)" "m_sort m" "m_ent m"
    by (simp_all add: m_def sample_sys_def)
  obtain cs tmp' t r1 edges where w: "list_all2 (copied (content_of (m_files m) (m_lseek m) (sink_view tmp'))) (k_file (sc_root st)) cs"
    "mk_wf (sc_root st)" "laid_out t (sc_root st) r1" "trie_for (trie_entries r1) t edges"
    "f_data f = index_image (m_pad m) t (with_digests r1 cs) @ concat cs" "webroot_prep (m_sort m) (m_ent m) new_trie (sc_root st) = Inr (True, r1)"
    using do_mkroot_file[OF f sample_names_at m(1) sample_facts(2) m(2,3) st(1) sample_uris(2)[OF st(2)] refl] by blast
  have le: "length (f_data f) < 1000"
    using written_size[OF w(3,2,4,1)] w(5,6) m(4,5) laid_outD(12)[OF w(3)] small by (metis snd_conv)
  then have "length (f_data f) < 2 ^ 32 - 1 + sum_list (map o_size (k_file (sc_root st)))" "length (f_data f) < 2 ^ 64" by simp_all
  then show thesis using le by (intro result[OF f[unfolded m_def] st(1,2,4)])
qed

lemma sample_sys_facts:
  "m_tmp (sample_sys\<lparr>m_writes := ws\<rparr>) = Some sample_tmp" "m_trie (sample_sys\<lparr>m_writes := ws\<rparr>) = new_trie"
  "m_open (sample_sys\<lparr>m_writes := ws\<rparr>) \<noteq> Some (-1)"
  by (simp_all add: sample_sys_def)

theorem mkroot_serves_witness:
  "\<exists>ws f w res. do_mkroot 2 (sample_env_at 7) (sample_sys\<lparr>m_writes := ws\<rparr>) (str ''w'') = Inr (True, Some f) \<and>
    webroot_open True (Some (5, f\<lparr>f_pos := 0\<rparr>)) (replicate 40 (Ret 1)) True True = Inr \<lparr>o_root = Some w, o_fd = True, o_map = True\<rparr> \<and>
    webroot_find 1024 w (str ''/a'' @ replicate 10 0) 0 2 \<lparr>mime_type = None, nm_u = Unset, nm_code = 0\<rparr> = Inr res \<and> fst res"
proof -
  obtain ws f st where f: "do_mkroot 2 (sample_env_at 7) (sample_sys\<lparr>m_writes := ws\<rparr>) (str ''w'') = Inr (True, Some f)"
    and st: "scan_item 2 (sample_env_at 7) \<lparr>sc_root = webroot_new (str ''w''), sc_tmp = Some sample_tmp\<rparr> [] [] = Inr (True, st)"
    "k_uri (sc_root st) = [(str ''/'', Redir 0), (str ''/a'', File 0)]"
    and size: "length (f_data f) < 2 ^ 32 - 1 + sum_list (map o_size (k_file (sc_root st)))" "length (f_data f) < 2 ^ 64"
    by (rule sample_built)
  note serves = mkroot_serves[OF f sample_names_at sample_sys_facts(1) sample_facts(2) sample_sys_facts(2,3) st(1) sample_uris(2)[OF st(2)] size]
  have g: "generous (replicate 40 (Ret 1)) \<and> HDR_SZ < length (replicate 40 (Ret 1))" by (simp add: generous_def list_all_iff HDR_SZ_def)
  let ?buf = "str ''/a'' @ replicate 10 0 :: bytes"
  have b: "in_buffer ?buf 0 (str ''/a'') \<and> str ''/a'' \<noteq> []"
  proof -
    have "drop 0 ?buf = str ''/a'' @ 0 # replicate 9 0" by (simp add: numeral_eq_Suc)
    then show ?thesis unfolding in_buffer_def by (auto simp: RE_EDGE_MAX_def)
  qed
  obtain ds w where wo: "webroot_open True (Some (5, f\<lparr>f_pos := 0\<rparr>)) (replicate 40 (Ret 1)) True True = Inr \<lparr>o_root = Some w, o_fd = True, o_map = True\<rparr>"
    "\<forall>u buf pos out. in_buffer buf pos u \<and> u \<noteq> [] \<longrightarrow> (\<exists>res. webroot_find (256 * (length u + 2)) w buf pos (length u) out = Inr res \<and>
            served (sc_root st) ds (f_data f) u out res)"
    using serves g by blast
  have "map_of (k_uri (sc_root st)) (str ''/a'') \<noteq> None" using st(2) by simp
  moreover obtain res where "webroot_find (256 * (length (str ''/a'') + 2)) w ?buf 0 (length (str ''/a'')) \<lparr>mime_type = None, nm_u = Unset, nm_code = 0\<rparr> = Inr res"
    "served (sc_root st) ds (f_data f) (str ''/a'') \<lparr>mime_type = None, nm_u = Unset, nm_code = 0\<rparr> res"
    using wo(2) b by blast
  ultimately have "webroot_find 1024 w ?buf 0 2 \<lparr>mime_type = None, nm_u = Unset, nm_code = 0\<rparr> = Inr res \<and> fst res"
    using served_found[of "sc_root st" ds "f_data f" "str ''/a''" _ res] by (simp add: numeral_2_eq_2)
  then show ?thesis using f wo(1) by blast
qed

end
