(* ===== verification/Vhosts.thy ===== *)
theory Vhosts
  imports Critbit Webroot
begin

text \<open>
  Virtual hosts (\<^verbatim>\<open>vhosts.c\<close>): the tree of host names with a web root for each, kept up to date
  by the callbacks of a directory watch.  A web root is a handle, an address, and the open web
  roots are a map from handles to their state with its reference count.  \<open>openf\<close> stands for
  \<open>webroot_open\<close> on a path: a new handle and its state, or nothing.
\<close>

type_synonym roots = "nat \<rightharpoonup> webroot"

record vhosts =
  v_tree :: "nat cb_tree"
  v_dirname :: bytes
  v_default :: "nat option"

section \<open>Operations\<close>

text \<open>\<open>webroot_unref\<close> through a handle: a null pointer is ignored, another must be live.\<close>

definition unref :: "roots \<Rightarrow> nat option \<Rightarrow> roots res" where
  "unref roots h = (case h of None \<Rightarrow> Inr roots
     | Some h \<Rightarrow> (case roots h of None \<Rightarrow> Inl Out_of_bounds
        | Some w \<Rightarrow> Inr (roots(h := webroot_unref (Some w)))))"

definition DEFAULT_NAME :: bytes where "DEFAULT_NAME = str ''__default__''"

definition vhost_add ::
  "(bytes \<Rightarrow> (nat \<times> webroot) option) \<Rightarrow> bool \<Rightarrow> vhosts \<times> roots \<Rightarrow> bytes \<Rightarrow> bool \<Rightarrow> (vhosts \<times> roots) res" where
  "vhost_add openf mem_ok = (\<lambda>(v, roots) name isdir.
     if isdir then Inr (v, roots)
     else case openf (v_dirname v @ str ''/'' @ name) of None \<Rightarrow> Inr (v, roots)
     | Some (w, root) \<Rightarrow>
       let roots = roots(w \<mapsto> root) in
       if name = DEFAULT_NAME
       then rbind (unref roots (v_default v)) (\<lambda>roots. Inr (v\<lparr>v_default := Some w\<rparr>, roots))
       else rbind (cb_insert mem_ok (v_tree v) name) (\<lambda>(c, t, pptr).
         if c = 0 then Inr (v, roots)
         else case t of None \<Rightarrow> Inl Null_deref
         | Some n \<Rightarrow> rbind (unref roots (slot_get n pptr)) (\<lambda>roots.
             Inr (v\<lparr>v_tree := Some (slot_set n pptr (Some w))\<rparr>, roots))))"

text \<open>\<open>w\<close> is not initialised when \<open>cb_delete\<close> finds nothing: \<open>junk\<close> is what it holds.\<close>

definition vhost_del :: "nat option \<Rightarrow> vhosts \<times> roots \<Rightarrow> bytes \<Rightarrow> bool \<Rightarrow> (vhosts \<times> roots) res" where
  "vhost_del junk = (\<lambda>(v, roots) name isdir.
     if isdir then Inr (v, roots)
     else if name = DEFAULT_NAME
     then rbind (unref roots (v_default v)) (\<lambda>roots. Inr (v\<lparr>v_default := None\<rparr>, roots))
     else case cb_delete (v_tree v) name of
       None \<Rightarrow> rbind (unref roots junk) (\<lambda>roots. Inr (v, roots))
     | Some (w, t) \<Rightarrow> rbind (unref roots w) (\<lambda>roots. Inr (v\<lparr>v_tree := t\<rparr>, roots)))"

definition vhosts_lookup :: "vhosts \<Rightarrow> bytes option \<Rightarrow> nat option" where
  "vhosts_lookup v host =
    (case host of None \<Rightarrow> v_default v
     | Some host \<Rightarrow> (case cb_contains (v_tree v) host of Some w \<Rightarrow> w | None \<Rightarrow> v_default v))"

text \<open>The callbacks \<open>dtor\<close> of \<open>cb_free\<close>.\<close>

fun unref_all :: "roots \<Rightarrow> nat option list \<Rightarrow> roots res" where
  "unref_all roots [] = Inr roots"
| "unref_all roots (w # ws) = rbind (unref roots w) (\<lambda>roots. unref_all roots ws)"

text \<open>The loop of \<open>vhosts_new\<close> over the entries of the directory, with their types.\<close>

fun add_entries ::
  "(bytes \<Rightarrow> (nat \<times> webroot) option) \<Rightarrow> bool \<Rightarrow> vhosts \<times> roots \<Rightarrow> (bytes \<times> bool) list \<Rightarrow> (vhosts \<times> roots) res" where
  "add_entries openf mem_ok vr [] = Inr vr"
| "add_entries openf mem_ok vr ((name, isdir) # es) =
    (if isdir then add_entries openf mem_ok vr es
     else rbind (vhost_add openf mem_ok vr name False) (\<lambda>vr. add_entries openf mem_ok vr es))"

definition vhosts_new ::
  "(bytes \<Rightarrow> (nat \<times> webroot) option) \<Rightarrow> bool \<Rightarrow> (bytes \<times> bool) list option \<Rightarrow> bool \<Rightarrow> bool \<Rightarrow> roots \<Rightarrow> bytes \<Rightarrow>
   (vhosts option \<times> roots) res" where
  "vhosts_new openf mem_ok dir notify_ok watch_ok roots dirname =
    (if \<not> mem_ok then Inr (None, roots)
     else case dir of None \<Rightarrow> Inr (None, roots)
     | Some es \<Rightarrow>
       rbind (add_entries openf mem_ok (\<lparr>v_tree = None, v_dirname = dirname, v_default = None\<rparr>, roots) es) (\<lambda>(v, roots).
         if notify_ok \<and> watch_ok then Inr (Some v, roots)
         else rbind (unref_all roots (fst (cb_free (v_tree v)))) (\<lambda>roots. Inr (None, roots))))"

section \<open>The contract\<close>

text \<open>What a host name leads to, and the handles the record keeps.\<close>

definition hosts :: "vhosts \<Rightarrow> bytes \<rightharpoonup> nat" where
  "hosts v u = (case tree_map (v_tree v) u of Some (Some h) \<Rightarrow> Some h | _ \<Rightarrow> None)"

definition handles :: "vhosts \<Rightarrow> nat set" where
  "handles v = ran (hosts v) \<union> set_option (v_default v)"

text \<open>
  \<open>ext h\<close> is the number of references to \<open>h\<close> that connections hold.  Every open web root is
  counted, once if the record keeps it and once for each connection.
\<close>

definition counted :: "(nat \<Rightarrow> nat) \<Rightarrow> nat set \<Rightarrow> roots \<Rightarrow> bool" where
  "counted ext S roots \<longleftrightarrow> (\<forall>h. case roots h of None \<Rightarrow> h \<notin> S \<and> ext h = 0
     | Some w \<Rightarrow> unat (r_ref w) = (if h \<in> S then 1 else 0) + ext h \<and> 0 < unat (r_ref w))"

definition vhosts_ok :: "(nat \<Rightarrow> nat) \<Rightarrow> vhosts \<times> roots \<Rightarrow> bool" where
  "vhosts_ok ext = (\<lambda>(v, roots).
     tree_wf (v_tree v) \<and> Some None \<notin> range (tree_map (v_tree v)) \<and>
     inj_on (hosts v) (dom (hosts v)) \<and> ran (hosts v) \<inter> set_option (v_default v) = {} \<and>
     counted ext (handles v) roots)"

text \<open>The table the record stands for: the hosts and the default, and its updates.\<close>

type_synonym table = "(bytes \<rightharpoonup> nat) \<times> nat option"

definition table_of :: "vhosts \<Rightarrow> table" where "table_of v = (hosts v, v_default v)"

fun table_add :: "table \<Rightarrow> bytes \<Rightarrow> nat \<Rightarrow> table" where
  "table_add (H, d) name w = (if name = DEFAULT_NAME then (H, Some w) else (H(name \<mapsto> w), d))"

fun table_del :: "table \<Rightarrow> bytes \<Rightarrow> table" where
  "table_del (H, d) name = (if name = DEFAULT_NAME then (H, None) else (H(name := None), d))"

fun table_get :: "table \<Rightarrow> bytes option \<Rightarrow> nat option" where
  "table_get (H, d) host = (case Option.bind host H of Some w \<Rightarrow> Some w | None \<Rightarrow> d)"

section \<open>Reference counts\<close>

lemma counted_upd:
  assumes "counted ext S roots" "\<And>h'. h' \<noteq> h \<Longrightarrow> (h' \<in> S') = (h' \<in> S)"
    "case r of None \<Rightarrow> h \<notin> S' \<and> ext h = 0
     | Some w \<Rightarrow> unat (r_ref w) = (if h \<in> S' then 1 else 0) + ext h \<and> 0 < unat (r_ref w)"
  shows "counted ext S' (roots(h := r))"
  unfolding counted_def
proof
  fix h'
  show "case (roots(h := r)) h' of None \<Rightarrow> h' \<notin> S' \<and> ext h' = 0
    | Some w \<Rightarrow> unat (r_ref w) = (if h' \<in> S' then 1 else 0) + ext h' \<and> 0 < unat (r_ref w)"
  proof (cases "h' = h")
    case True
    then show ?thesis using assms(3) by (simp only: fun_upd_same)
  next
    case False
    then show ?thesis using spec[OF assms(1)[unfolded counted_def], of h'] by (simp only: fun_upd_other[OF False] assms(2)[OF False])
  qed
qed

lemma counted_unref:
  assumes "counted ext S roots" "h \<in> S"
  shows "\<exists>roots'. unref roots (Some h) = Inr roots' \<and> counted ext (S - {h}) roots' \<and> dom roots' \<subseteq> dom roots"
proof -
  obtain w where w: "roots h = Some w" "unat (r_ref w) = 1 + ext h"
    using assms by (auto simp: counted_def split: option.splits dest: spec[of _ h])
  have u: "unat (r_ref w - 1) = ext h" using w(2) by (subst unat_minus_one) auto
  then have "r_ref w - 1 = 0 \<longleftrightarrow> ext h = 0" using unat_eq_zero[of "r_ref w - 1"] by simp
  with u have "counted ext (S - {h}) (roots(h := webroot_unref (Some w)))"
    by (intro counted_upd[OF assms(1)]) (auto simp: webroot_unref_def)
  moreover have "dom (roots(h := webroot_unref (Some w))) \<subseteq> dom roots" using w(1) by (auto split: if_splits)
  ultimately show ?thesis using w(1) by (auto simp: unref_def)
qed

lemma counted_fresh:
  assumes "counted ext S roots" "roots w = None" "r_ref root = 1"
  shows "counted ext (insert w S) (roots(w \<mapsto> root))" "w \<notin> S"
proof -
  have w: "w \<notin> S" "ext w = 0" using spec[OF assms(1)[unfolded counted_def], of w] assms(2) by simp_all
  then show "w \<notin> S" by simp
  show "counted ext (insert w S) (roots(w \<mapsto> root))"
    using w assms(3) by (intro counted_upd[OF assms(1)]) auto
qed

text \<open>The handle that a slot held, if any, is released.\<close>

lemma counted_replace:
  assumes "counted ext S roots" "set_option old \<subseteq> S"
  shows "\<exists>roots'. unref roots old = Inr roots' \<and> counted ext (S - set_option old) roots' \<and> dom roots' \<subseteq> dom roots"
  using counted_unref[OF assms(1)] assms by (cases old) (auto simp: unref_def)

section \<open>Updates\<close>

lemma inj_on_upd:
  assumes "inj_on H (dom H)" "w \<notin> ran H"
  shows "inj_on (H(u \<mapsto> w)) (dom (H(u \<mapsto> w)))"
  using assms by (auto simp: inj_on_def ran_def dom_def)

lemma inj_on_del: "inj_on H (dom H) \<Longrightarrow> inj_on (H(u := None)) (dom (H(u := None)))"
  by (auto simp: inj_on_def dom_def)

lemma ran_upd_inj: "inj_on H (dom H) \<Longrightarrow> ran (H(u := x)) = (ran H - set_option (H u)) \<union> set_option x"
  by (auto simp: inj_on_def ran_def dom_def split: if_splits)

lemma hosts_upd: "tree_map t = (tree_map (v_tree v))(u := map_option Some x) \<Longrightarrow> hosts (v\<lparr>v_tree := t\<rparr>) = (hosts v)(u := x)"
  by (rule ext) (auto simp: hosts_def split: option.splits)

lemma no_null_upd: "Some None \<notin> range m \<Longrightarrow> Some None \<notin> range (m(u := map_option Some x))"
  by (cases x) auto

lemma hosts_slot: "Some None \<notin> range (tree_map (v_tree v)) \<Longrightarrow> tree_map (v_tree v) u = map_option Some (hosts v u)"
  by (auto simp: hosts_def split: option.splits) (metis rangeI)

text \<open>Replacing what a host name, or the default, leads to.\<close>

lemma handles_upd:
  assumes "inj_on (hosts v) (dom (hosts v))" "ran (hosts v) \<inter> set_option (v_default v) = {}"
    "hosts v' = (hosts v)(u := x)" "v_default v' = v_default v" "set_option x \<inter> handles v = {}"
  shows "handles v' = handles v \<union> set_option x - set_option (hosts v u)"
  using assms ranI[of "hosts v" u] unfolding handles_def assms(3,4) ran_upd_inj[OF assms(1)] by auto

lemma vhosts_ok_upd:
  assumes ok: "vhosts_ok ext (v, roots)" and tw: "tree_wf (v_tree v')"
    and tm: "tree_map (v_tree v') = (tree_map (v_tree v))(u := map_option Some x)"
    and d: "v_default v' = v_default v" and fresh: "set_option x \<inter> handles v = {}"
    and c: "counted ext (handles v \<union> set_option x - set_option (hosts v u)) roots'"
  shows "vhosts_ok ext (v', roots') \<and> hosts v' = (hosts v)(u := x)"
proof -
  have o: "Some None \<notin> range (tree_map (v_tree v))" "inj_on (hosts v) (dom (hosts v))"
    "ran (hosts v) \<inter> set_option (v_default v) = {}" using ok by (simp_all add: vhosts_ok_def)
  have h: "hosts v' = (hosts v)(u := x)" using hosts_upd[OF tm] by (simp add: hosts_def fun_eq_iff)
  have "inj_on (hosts v') (dom (hosts v'))"
    using fresh inj_on_upd[OF o(2)] inj_on_del[OF o(2)] unfolding h handles_def by (cases x) auto
  moreover have "ran (hosts v') \<inter> set_option (v_default v') = {}"
    using fresh o(3) unfolding h d ran_upd_inj[OF o(2)] handles_def by auto
  ultimately show ?thesis
    using h tw no_null_upd[OF o(1), of u x, folded tm] c handles_upd[OF o(2,3) h d fresh] by (simp add: vhosts_ok_def)
qed

lemma vhosts_ok_default:
  assumes ok: "vhosts_ok ext (v, roots)" and fresh: "set_option x \<inter> handles v = {}"
    and c: "counted ext (handles v \<union> set_option x - set_option (v_default v)) roots'"
  shows "vhosts_ok ext (v\<lparr>v_default := x\<rparr>, roots') \<and> hosts (v\<lparr>v_default := x\<rparr>) = hosts v"
proof -
  have h: "hosts (v\<lparr>v_default := x\<rparr>) = hosts v" by (simp add: hosts_def fun_eq_iff)
  have "handles v \<union> set_option x - set_option (v_default v) = handles (v\<lparr>v_default := x\<rparr>)"
    using ok fresh unfolding handles_def h by (auto simp: vhosts_ok_def)
  then show ?thesis using ok c fresh h by (auto simp: vhosts_ok_def handles_def)
qed

section \<open>The callbacks\<close>

lemma vhost_add_ok:
  assumes ok: "vhosts_ok ext (v, roots)" and name: "ascii_key name"
    and opn: "openf (v_dirname v @ str ''/'' @ name) = Some (w, root)" and w: "roots w = None" "r_ref root = 1"
  shows "\<exists>v' roots'. vhost_add openf True (v, roots) name False = Inr (v', roots') \<and> vhosts_ok ext (v', roots') \<and>
    table_of v' = table_add (table_of v) name w \<and> v_dirname v' = v_dirname v \<and> dom roots' \<subseteq> insert w (dom roots)"
proof -
  have tw: "tree_wf (v_tree v)" "Some None \<notin> range (tree_map (v_tree v))" "counted ext (handles v) roots"
    using ok by (simp_all add: vhosts_ok_def)
  note c = counted_fresh[OF tw(3) w]
  have fresh: "set_option (Some w) \<inter> handles v = {}" using c(2) by simp
  let ?roots = "roots(w \<mapsto> root)"
  show ?thesis
  proof (cases "name = DEFAULT_NAME")
    case True
    obtain roots' where r: "unref ?roots (v_default v) = Inr roots'" "dom roots' \<subseteq> dom ?roots"
      "counted ext (handles v \<union> set_option (Some w) - set_option (v_default v)) roots'"
      using counted_replace[OF c(1), of "v_default v"] by (auto simp: handles_def)
    then show ?thesis
      using vhosts_ok_default[OF ok fresh r(3)] opn True by (simp add: vhost_add_def table_of_def)
  next
    case False
    obtain n p where n: "cb_insert True (v_tree v) name = Inr (if tree_map (v_tree v) name = None then 2 else 1, Some n, p)"
      "cb_wf n" "cb_map n = (if tree_map (v_tree v) name = None then (tree_map (v_tree v))(name \<mapsto> None) else tree_map (v_tree v))"
      "p = walk_path name n"
      using cb_insert_spec[OF tw(1) name] by blast
    have nk: "name \<in> cb_keys n" using n(3) dom_cb_map[of n] by (auto split: if_splits)
    have "slot_get n p = hosts v name"
      using cb_walk_map[OF n(2) nk] n(3) hosts_slot[OF tw(2), of name] unfolding n(4) slot_walk_path
      by (auto split: if_splits)
    then obtain roots' where r: "unref ?roots (slot_get n p) = Inr roots'" "dom roots' \<subseteq> dom ?roots"
      "counted ext (handles v \<union> set_option (Some w) - set_option (hosts v name)) roots'"
      using counted_replace[OF c(1), of "hosts v name"] ranI[of "hosts v" name] by (auto simp: handles_def)
    have "tree_map (Some (slot_set n p (Some w))) = (tree_map (v_tree v))(name := map_option Some (Some w))"
      using slot_set_map[OF n(2) nk, of "Some w"] n(3,4) by (auto simp: tree_map_def split: if_splits)
    then have "vhosts_ok ext (v\<lparr>v_tree := Some (slot_set n p (Some w))\<rparr>, roots') \<and>
        hosts (v\<lparr>v_tree := Some (slot_set n p (Some w))\<rparr>) = (hosts v)(name := Some w)"
      using fresh r(3) slot_set_wf[OF n(2)] by (intro vhosts_ok_upd[OF ok]) (simp_all add: tree_wf_def)
    then show ?thesis using r False n(1) opn by (simp add: vhost_add_def table_of_def)
  qed
qed

lemma vhost_del_ok:
  assumes ok: "vhosts_ok ext (v, roots)" and name: "name = DEFAULT_NAME \<or> hosts v name \<noteq> None"
  shows "\<exists>v' roots'. vhost_del junk (v, roots) name False = Inr (v', roots') \<and> vhosts_ok ext (v', roots') \<and>
    table_of v' = table_del (table_of v) name"
proof -
  have tw: "tree_wf (v_tree v)" "Some None \<notin> range (tree_map (v_tree v))" "counted ext (handles v) roots"
    using ok by (simp_all add: vhosts_ok_def)
  have none: "set_option None \<inter> handles v = {}" by simp
  show ?thesis
  proof (cases "name = DEFAULT_NAME")
    case True
    obtain roots' where r: "unref roots (v_default v) = Inr roots'"
      "counted ext (handles v \<union> set_option None - set_option (v_default v)) roots'"
      using counted_replace[OF tw(3), of "v_default v"] by (auto simp: handles_def)
    then show ?thesis using vhosts_ok_default[OF ok none r(2)] True by (simp add: vhost_del_def table_of_def)
  next
    case False
    then obtain h where h: "hosts v name = Some h" using name by auto
    then have "tree_map (v_tree v) name = Some (Some h)" using hosts_slot[OF tw(2), of name] by simp
    then obtain t where t: "cb_delete (v_tree v) name = Some (Some h, t)"
      using cb_delete_spec[OF tw(1), of name] by (cases "cb_delete (v_tree v) name") auto
    obtain roots' where r: "unref roots (Some h) = Inr roots'"
      "counted ext (handles v \<union> set_option None - set_option (hosts v name)) roots'"
      using counted_replace[OF tw(3), of "Some h"] ranI[of "hosts v" name, OF h] h by (auto simp: handles_def)
    have "vhosts_ok ext (v\<lparr>v_tree := t\<rparr>, roots') \<and> hosts (v\<lparr>v_tree := t\<rparr>) = (hosts v)(name := None)"
      using cb_delete_spec(2)[OF tw(1) t] r(2) by (intro vhosts_ok_upd[OF ok]) simp_all
    then show ?thesis using r(1) t False by (simp add: vhost_del_def table_of_def)
  qed
qed

lemma vhosts_lookup_table: "vhosts_ok ext (v, roots) \<Longrightarrow> vhosts_lookup v host = table_get (table_of v) host"
proof (cases host)
  case (Some u)
  assume "vhosts_ok ext (v, roots)"
  then have "cb_contains (v_tree v) u = map_option Some (hosts v u)"
    using cb_contains_map[of "v_tree v" u] hosts_slot[of v u] by (simp add: vhosts_ok_def)
  then show ?thesis by (cases "hosts v u") (simp_all add: Some vhosts_lookup_def table_of_def)
qed (simp add: vhosts_lookup_def table_of_def)

section \<open>Reading the directory\<close>

definition table_load :: "(bytes \<Rightarrow> (nat \<times> webroot) option) \<Rightarrow> bytes \<Rightarrow> (bytes \<times> bool) list \<Rightarrow> table \<Rightarrow> table" where
  "table_load openf dirname = fold (\<lambda>(name, isdir) T.
     if isdir then T else case openf (dirname @ str ''/'' @ name) of None \<Rightarrow> T | Some (w, _) \<Rightarrow> table_add T name w)"

text \<open>Entries whose web roots are opened at new handles, one each.\<close>

fun entries_ok :: "(bytes \<Rightarrow> (nat \<times> webroot) option) \<Rightarrow> bytes \<Rightarrow> nat set \<Rightarrow> (bytes \<times> bool) list \<Rightarrow> bool" where
  "entries_ok openf dirname used [] = True"
| "entries_ok openf dirname used ((name, isdir) # es) =
    (if isdir then entries_ok openf dirname used es
     else ascii_key name \<and> (case openf (dirname @ str ''/'' @ name) of None \<Rightarrow> entries_ok openf dirname used es
       | Some (w, root) \<Rightarrow> w \<notin> used \<and> r_ref root = 1 \<and> entries_ok openf dirname (insert w used) es))"

lemma add_entries_ok:
  assumes "vhosts_ok ext (v, roots)" "entries_ok openf (v_dirname v) used es" "dom roots \<subseteq> used"
  shows "\<exists>v' roots'. add_entries openf True (v, roots) es = Inr (v', roots') \<and> vhosts_ok ext (v', roots') \<and>
    table_of v' = table_load openf (v_dirname v) es (table_of v)"
  using assms
proof (induction es arbitrary: v roots used)
  case (Cons e es)
  obtain name isdir where e: "e = (name, isdir)" by (cases e)
  show ?case
  proof (cases "isdir \<or> openf (v_dirname v @ str ''/'' @ name) = None")
    case True
    then have "entries_ok openf (v_dirname v) used es" using Cons.prems(2) e by (auto split: if_splits)
    then show ?thesis using Cons.IH[OF Cons.prems(1) _ Cons.prems(3)] True e
      by (cases isdir) (auto simp: table_load_def vhost_add_def)
  next
    case False
    then obtain w root where o: "openf (v_dirname v @ str ''/'' @ name) = Some (w, root)" "\<not> isdir" by auto
    then have p: "ascii_key name" "w \<notin> used" "r_ref root = 1" "entries_ok openf (v_dirname v) (insert w used) es"
      using Cons.prems(2) e by simp_all
    have "roots w = None" using p(2) Cons.prems(3) by auto
    then obtain v' roots' where v': "vhost_add openf True (v, roots) name False = Inr (v', roots')"
      "vhosts_ok ext (v', roots')" "table_of v' = table_add (table_of v) name w" "v_dirname v' = v_dirname v"
      "dom roots' \<subseteq> insert w (dom roots)"
      using vhost_add_ok[of ext v roots name openf w root, OF Cons.prems(1) p(1) o(1) _ p(3)] by blast
    have "dom roots' \<subseteq> insert w used" using v'(5) Cons.prems(3) by blast
    from Cons.IH[OF v'(2) p(4)[folded v'(4)] this] show ?thesis using v' o e by (simp add: table_load_def)
  qed
qed (simp add: table_load_def)

lemma vhosts_new_ok:
  assumes "counted ext {} roots" "entries_ok openf dirname (dom roots) es"
  shows "\<exists>v roots'. vhosts_new openf True (Some es) True True roots dirname = Inr (Some v, roots') \<and>
    vhosts_ok ext (v, roots') \<and> table_of v = table_load openf dirname es (Map.empty, None)"
proof -
  let ?v = "\<lparr>v_tree = None, v_dirname = dirname, v_default = None\<rparr>"
  have h: "hosts ?v = Map.empty" by (simp add: hosts_def tree_map_def fun_eq_iff)
  then have "vhosts_ok ext (?v, roots)" using assms(1) by (simp add: vhosts_ok_def handles_def tree_wf_def tree_map_def)
  from add_entries_ok[OF this, of openf "dom roots" es] show ?thesis
    using assms(2) h by (auto simp: vhosts_new_def table_of_def)
qed

section \<open>Properties\<close>

text \<open>
  C12.  The virtual hosts implement a table from host names to web roots with a default, and
  count the references exactly: reading the directory builds the table of its entries that
  open; a file that appears replaces what its name led to and releases the old web root
  unless a connection still holds it; removing a known name forgets it likewise; and a
  lookup answers with the host's web root or the default.
\<close>

theorem vhosts_refine_table:
  assumes "counted ext {} roots0" "entries_ok openf dirname (dom roots0) es" "vhosts_ok ext (v, roots)"
    "ascii_key name" "openf (v_dirname v @ str ''/'' @ name) = Some (w, root)" "roots w = None" "r_ref root = 1"
    "gone = DEFAULT_NAME \<or> hosts v gone \<noteq> None"
  shows "(\<exists>v' roots'. vhosts_new openf True (Some es) True True roots0 dirname = Inr (Some v', roots') \<and>
      vhosts_ok ext (v', roots') \<and> table_of v' = table_load openf dirname es (Map.empty, None)) \<and>
    (\<exists>v' roots'. vhost_add openf True (v, roots) name False = Inr (v', roots') \<and> vhosts_ok ext (v', roots') \<and>
      table_of v' = table_add (table_of v) name w) \<and>
    (\<exists>v' roots'. vhost_del junk (v, roots) gone False = Inr (v', roots') \<and> vhosts_ok ext (v', roots') \<and>
      table_of v' = table_del (table_of v) gone) \<and>
    vhosts_lookup v host = table_get (table_of v) host"
  using vhosts_new_ok[OF assms(1,2)] vhost_add_ok[of ext v roots name openf w root, OF assms(3-7)] vhost_del_ok[OF assms(3,8), of junk]
    vhosts_lookup_table[OF assms(3), of host] by blast

definition sample_root :: webroot where
  "sample_root = \<lparr>r_fd = 5, r_ref = 1, r_map = [], r_num_edges = 0, r_num_redirect = 0, r_num_oid = 0,
     r_trie = 0, r_redir = 0, r_file = 0, r_strtab = 0\<rparr>"

definition sample_open :: "bytes \<Rightarrow> (nat \<times> webroot) option" where
  "sample_open path = (if path = str ''/d/a.org'' then Some (1, sample_root)
     else if path = str ''/d/b.org'' then Some (2, sample_root) else None)"

definition sample_vhosts :: vhosts where
  "sample_vhosts = \<lparr>v_tree = Some (Leaf (str ''a.org'') (Some 1)), v_dirname = str ''/d'', v_default = None\<rparr>"

lemma sample_vhosts_ok: "vhosts_ok (\<lambda>_. 0) (sample_vhosts, [1 \<mapsto> sample_root])" "hosts sample_vhosts = [str ''a.org'' \<mapsto> 1]"
proof -
  show h: "hosts sample_vhosts = [str ''a.org'' \<mapsto> 1]"
    by (auto simp: hosts_def sample_vhosts_def tree_map_def fun_eq_iff)
  show "vhosts_ok (\<lambda>_. 0) (sample_vhosts, [1 \<mapsto> sample_root])"
    using h unfolding vhosts_ok_def handles_def counted_def
    by (auto simp: sample_vhosts_def tree_wf_def ascii_key_def tree_map_def sample_root_def)
qed

theorem vhosts_refine_table_witness:
  "(\<exists>v' roots'. vhosts_new sample_open True (Some [(str ''..'', True), (str ''a.org'', False)]) True True Map.empty (str ''/d'') =
     Inr (Some v', roots') \<and> table_of v' = ([str ''a.org'' \<mapsto> 1], None)) \<and>
   (\<exists>v' roots'. vhost_add sample_open True (sample_vhosts, [1 \<mapsto> sample_root]) (str ''b.org'') False = Inr (v', roots') \<and>
     hosts v' (str ''b.org'') = Some 2) \<and>
   vhosts_lookup sample_vhosts (Some (str ''a.org'')) = Some 1"
proof -
  have c: "counted (\<lambda>_. 0) {} Map.empty" by (simp add: counted_def)
  have e: "entries_ok sample_open (str ''/d'') (dom Map.empty) [(str ''..'', True), (str ''a.org'', False)]"
    by (simp add: sample_open_def ascii_key_def sample_root_def)
  have a: "ascii_key (str ''b.org'')" by (simp add: ascii_key_def)
  have o: "sample_open (v_dirname sample_vhosts @ str ''/'' @ str ''b.org'') = Some (2, sample_root)"
    by (simp add: sample_open_def sample_vhosts_def)
  have r: "[(1 :: nat) \<mapsto> sample_root] 2 = None" "r_ref sample_root = 1" by (simp_all add: sample_root_def)
  have g: "str ''a.org'' = DEFAULT_NAME \<or> hosts sample_vhosts (str ''a.org'') \<noteq> None" by (simp add: sample_vhosts_ok(2))
  have l: "table_load sample_open (str ''/d'') [(str ''..'', True), (str ''a.org'', False)] (Map.empty, None) = ([str ''a.org'' \<mapsto> 1], None)"
    by (simp add: table_load_def sample_open_def DEFAULT_NAME_def)
  have ad: "fst (table_add (table_of sample_vhosts) (str ''b.org'') 2) (str ''b.org'') = Some 2"
    by (simp add: table_of_def DEFAULT_NAME_def)
  have gt: "table_get (table_of sample_vhosts) (Some (str ''a.org'')) = Some 1"
    by (simp add: table_of_def sample_vhosts_ok(2))
  have tf: "hosts x = fst (table_of x)" for x by (simp add: table_of_def)
  from vhosts_refine_table[where openf = sample_open and w = 2 and root = sample_root,
    OF c e sample_vhosts_ok(1) a o r g, of None "Some (str ''a.org'')"]
  show ?thesis using l ad gt tf by metis
qed

text \<open>
  C38.  Removing a name that is not in the tree releases a web root all the same: the result
  of the failed \<open>cb_delete\<close> is ignored and the uninitialised pointer is passed to
  \<open>webroot_unref\<close>.  Unless it happens to be null the server either follows a pointer to
  no web root, or drops a reference that belongs to someone else: a web root that the table
  still leads to is closed.
\<close>

theorem vhost_del_unknown_releases_junk:
  assumes "vhosts_ok ext (v, roots)" "name \<noteq> DEFAULT_NAME" "hosts v name = None"
  shows "(roots j = None \<longrightarrow> vhost_del (Some j) (v, roots) name False = Inl Out_of_bounds) \<and>
    (hosts v u = Some j \<and> ext j = 0 \<longrightarrow> vhost_del (Some j) (v, roots) name False = Inr (v, roots(j := None)) \<and>
       vhosts_lookup v (Some u) = Some j \<and> \<not> vhosts_ok ext (v, roots(j := None)))"
proof -
  have tw: "tree_wf (v_tree v)" "Some None \<notin> range (tree_map (v_tree v))" "counted ext (handles v) roots"
    using assms(1) by (simp_all add: vhosts_ok_def)
  have d: "cb_delete (v_tree v) name = None"
    using cb_delete_spec(1)[OF tw(1), of name] hosts_slot[OF tw(2), of name] assms(3) by simp
  have "vhost_del (Some j) (v, roots) name False = Inr (v, roots(j := None)) \<and>
      vhosts_lookup v (Some u) = Some j \<and> \<not> vhosts_ok ext (v, roots(j := None))" if u: "hosts v u = Some j" "ext j = 0"
  proof -
    have j: "j \<in> handles v" using u(1) by (auto simp: handles_def intro: ranI)
    then obtain w where w: "roots j = Some w" "unat (r_ref w) = 1"
      using spec[OF tw(3)[unfolded counted_def], of j] u(2) by (cases "roots j") auto
    then have "r_ref w = 1" using unat_1 word_unat_eq_iff by metis
    moreover have "\<not> counted ext (handles v) (roots(j := None))" using j by (auto simp: counted_def intro!: exI[of _ j])
    ultimately show ?thesis
      using d w assms(2) u vhosts_lookup_table[OF assms(1), of "Some u"]
      by (simp add: vhost_del_def unref_def webroot_unref_def vhosts_ok_def table_of_def)
  qed
  then show ?thesis using d assms(2) by (simp add: vhost_del_def unref_def)
qed

theorem vhost_del_unknown_releases_junk_witness:
  "vhost_del (Some 9) (sample_vhosts, [1 \<mapsto> sample_root]) (str ''x'') False = Inl Out_of_bounds \<and>
   vhost_del (Some 1) (sample_vhosts, [1 \<mapsto> sample_root]) (str ''x'') False = Inr (sample_vhosts, Map.empty)"
proof -
  have n: "str ''x'' \<noteq> DEFAULT_NAME" "hosts sample_vhosts (str ''x'') = None" "hosts sample_vhosts (str ''a.org'') = Some 1"
    by (simp_all add: DEFAULT_NAME_def sample_vhosts_ok(2))
  have r: "[(1 :: nat) \<mapsto> sample_root] 9 = None" "[(1 :: nat) \<mapsto> sample_root](1 := None) = Map.empty" by simp_all
  show ?thesis
    using vhost_del_unknown_releases_junk[OF sample_vhosts_ok(1) n(1,2), of 9 "str ''a.org''"]
      vhost_del_unknown_releases_junk[OF sample_vhosts_ok(1) n(1,2), of 1 "str ''a.org''"] n(3) r by simp
qed

end
