(* ===== verification/Nbio.thy ===== *)
theory Nbio
  imports Prelude
begin

text \<open>
  The event loop (\<^verbatim>\<open>nbio.c\<close>) and its back ends (\<^verbatim>\<open>nbio-epoll.c\<close>, \<^verbatim>\<open>nbio-poll.c\<close>).  An I/O
  object is known by its address and is linked into one queue: the active, the inactive and
  the deleted list of the thread, or a wait queue of some component.  The intrusive lists
  of \<^verbatim>\<open>list.h\<close> are kept as the lists of the addresses they link.  What the kernel knows of a
  descriptor is part of the state: the interest list of \<open>epoll\<close>, the array passed to \<open>poll\<close>.
\<close>

section \<open>State\<close>

definition NBIO_READ :: byte where "NBIO_READ = 1"
definition NBIO_WRITE :: byte where "NBIO_WRITE = 2"
definition NBIO_ERROR :: byte where "NBIO_ERROR = 4"
definition NBIO_WAIT :: byte where "NBIO_WAIT = 7"
definition NBIO_DELETED :: byte where "NBIO_DELETED = 0x80"

record nbio =
  n_fd :: int
  n_mask :: byte
  n_flags :: byte
  n_poll :: int          \<comment> \<open>\<open>ev_priv.poll\<close>\<close>

datatype queue = Active | Inactive | Deleted | Waitq nat

record pollfd =
  p_fd :: int
  p_events :: u32

record iothread =
  t_queue :: "queue \<Rightarrow> nat list"
  t_io :: "nat \<rightharpoonup> nbio"
  t_epoll :: "int \<rightharpoonup> nat \<times> u32"   \<comment> \<open>descriptor to \<open>data.ptr\<close> and \<open>events\<close>\<close>
  t_pfd :: "pollfd list"           \<comment> \<open>the array, \<open>max_pfd\<close> long\<close>
  t_num_pfd :: nat
  t_efd :: "int \<Rightarrow> u64"             \<comment> \<open>the counters of event descriptors\<close>

text \<open>The answers of \<open>epoll_wait\<close> (pointer and events) and \<open>poll\<close> (index and events).\<close>

datatype wait_answer = Ready "(nat \<times> u32) list" | Interrupted | Failed

record eventloop =
  ev_name :: bytes
  ev_init :: "iothread \<Rightarrow> bool \<times> iothread"
  ev_fini :: "iothread \<Rightarrow> iothread"
  ev_pump :: "iothread \<Rightarrow> wait_answer list \<Rightarrow> iothread res"
  ev_inactive :: "iothread \<Rightarrow> nat \<Rightarrow> iothread res"
  ev_active :: "iothread \<Rightarrow> nat \<Rightarrow> iothread res"

text \<open>The callbacks of an object.\<close>

record nbio_ops =
  op_read :: "iothread \<Rightarrow> nat \<Rightarrow> iothread res"
  op_write :: "iothread \<Rightarrow> nat \<Rightarrow> iothread res"
  op_dtor :: "iothread \<Rightarrow> nat \<Rightarrow> iothread res"

text \<open>Access through a pointer to an object, which must not have been freed.\<close>

definition io_at :: "iothread \<Rightarrow> nat \<Rightarrow> nbio res" where
  "io_at t n = (case t_io t n of None \<Rightarrow> Inl Out_of_bounds | Some io \<Rightarrow> Inr io)"

definition io_upd :: "iothread \<Rightarrow> nat \<Rightarrow> (nbio \<Rightarrow> nbio) \<Rightarrow> iothread res" where
  "io_upd t n f = rbind (io_at t n) (\<lambda>io. Inr (t\<lparr>t_io := (t_io t)(n \<mapsto> f io)\<rparr>))"

section \<open>Lists\<close>

definition unlink :: "nat \<Rightarrow> iothread \<Rightarrow> iothread" where
  "unlink n t = t\<lparr>t_queue := \<lambda>q. removeAll n (t_queue t q)\<rparr>"

definition list_move_tail :: "nat \<Rightarrow> queue \<Rightarrow> iothread \<Rightarrow> iothread" where
  "list_move_tail n q t = (let t = unlink n t in t\<lparr>t_queue := (t_queue t)(q := t_queue t q @ [n])\<rparr>)"

text \<open>Where an iteration over a linked list stands: at the head of a list or at an object.\<close>

datatype pos = Head queue | Elem nat

definition first_of :: "nat list \<Rightarrow> queue \<Rightarrow> pos" where
  "first_of xs q = (case xs of [] \<Rightarrow> Head q | x # _ \<Rightarrow> Elem x)"

text \<open>The \<open>next\<close> pointer of an object on the given queue.\<close>

definition next_on :: "iothread \<Rightarrow> queue \<Rightarrow> nat \<Rightarrow> pos" where
  "next_on t q n = first_of (tl (dropWhile (\<lambda>x. x \<noteq> n) (t_queue t q))) q"

section \<open>The epoll back end\<close>

definition EPOLLIN :: u32 where "EPOLLIN = 1"
definition EPOLLOUT :: u32 where "EPOLLOUT = 4"
definition EPOLLERR :: u32 where "EPOLLERR = 8"
definition EPOLLHUP :: u32 where "EPOLLHUP = 16"
definition EPOLLET :: u32 where "EPOLLET = 0x80000000"

definition epoll_active :: "iothread \<Rightarrow> nat \<Rightarrow> iothread res" where
  "epoll_active t n = rbind (io_at t n) (\<lambda>io.
     if n_poll io = 0 then Inr t
     else if n_fd io < 0 then Inr t
     else rbind (io_upd t n (n_poll_update (\<lambda>_. 0))) (\<lambda>t. Inr (t\<lparr>t_epoll := (t_epoll t)(n_fd io := None)\<rparr>)))"

definition epoll_flags :: "u32 \<Rightarrow> byte" where
  "epoll_flags ev = (if ev AND (EPOLLIN OR EPOLLHUP) \<noteq> 0 then NBIO_READ else 0) OR
     (if ev AND EPOLLOUT \<noteq> 0 then NBIO_WRITE else 0) OR (if ev AND EPOLLERR \<noteq> 0 then NBIO_ERROR else 0)"

fun epoll_report :: "iothread \<Rightarrow> (nat \<times> u32) list \<Rightarrow> iothread res" where
  "epoll_report t [] = Inr t"
| "epoll_report t ((n, ev) # evs) =
    rbind (io_upd t n (n_flags_update (\<lambda>_. epoll_flags ev))) (\<lambda>t. epoll_report (list_move_tail n Active t) evs)"

fun epoll_pump :: "iothread \<Rightarrow> wait_answer list \<Rightarrow> iothread res" where
  "epoll_pump t [] = Inl Blocked"
| "epoll_pump t (Interrupted # as) = epoll_pump t as"
| "epoll_pump t (Failed # as) = Inr t"
| "epoll_pump t (Ready evs # as) = epoll_report t evs"

definition epoll_events :: "byte \<Rightarrow> u32" where
  "epoll_events m = EPOLLERR OR EPOLLHUP OR EPOLLET OR
     (if m AND NBIO_READ \<noteq> 0 then EPOLLIN else 0) OR (if m AND NBIO_WRITE \<noteq> 0 then EPOLLOUT else 0)"

text \<open>\<open>EPOLL_CTL_ADD\<close> fails on a descriptor that is there already, or when the kernel is out of memory.\<close>

definition epoll_inactive :: "bool \<Rightarrow> iothread \<Rightarrow> nat \<Rightarrow> iothread res" where
  "epoll_inactive ctl_ok t n = rbind (io_at t n) (\<lambda>io.
     if n_poll io = 1 then Inr t
     else if \<not> ctl_ok \<or> t_epoll t (n_fd io) \<noteq> None then Inr t
     else io_upd (t\<lparr>t_epoll := (t_epoll t)(n_fd io \<mapsto> (n, epoll_events (n_mask io)))\<rparr>) n (n_poll_update (\<lambda>_. 1)))"

definition epoll_init :: "bool \<Rightarrow> iothread \<Rightarrow> bool \<times> iothread" where
  "epoll_init ok t = (if ok then (True, t\<lparr>t_epoll := Map.empty\<rparr>) else (False, t))"

definition epoll_fini :: "iothread \<Rightarrow> iothread" where
  "epoll_fini t = t\<lparr>t_epoll := Map.empty\<rparr>"

definition eventloop_epoll :: "bool \<Rightarrow> eventloop" where
  "eventloop_epoll ok = \<lparr>ev_name = str ''epoll'', ev_init = epoll_init ok, ev_fini = epoll_fini, ev_pump = epoll_pump,
     ev_inactive = epoll_inactive ok, ev_active = epoll_active\<rparr>"

section \<open>The poll back end\<close>

definition upsize_pfdset :: "bool \<Rightarrow> iothread \<Rightarrow> bool \<times> iothread" where
  "upsize_pfdset mem_ok t =
    (if mem_ok then (True, t\<lparr>t_pfd := t_pfd t @ replicate 8 \<lparr>p_fd = 0, p_events = 0\<rparr>\<rparr>) else (False, t))"

definition poll_init :: "bool \<Rightarrow> iothread \<Rightarrow> bool \<times> iothread" where
  "poll_init mem_ok t = (if \<not> mem_ok then (False, t) else upsize_pfdset mem_ok (t\<lparr>t_pfd := [], t_num_pfd := 0\<rparr>))"

text \<open>
  The scan of the inactive list after \<open>poll\<close>.  The objects that are not ready are moved up
  in the array; those that are go to the end of the active list, so that the rest of the
  inactive list is what is left to scan.  \<open>revents\<close> holds the answers by index.
\<close>

fun poll_scan :: "(nat \<Rightarrow> u32) \<Rightarrow> iothread \<Rightarrow> nat list \<Rightarrow> iothread res" where
  "poll_scan revents t [] = Inr t"
| "poll_scan revents t (n # ns) = rbind (io_at t n) (\<lambda>io.
     if n_poll io < 0 then poll_scan revents t ns
     else let i = nat (n_poll io) in
       if length (t_pfd t) \<le> i then Inl Out_of_bounds
       else if revents i = 0
       then poll_scan revents (t\<lparr>t_pfd := (t_pfd t)[t_num_pfd t := t_pfd t ! i], t_num_pfd := t_num_pfd t + 1\<rparr>) ns
       else rbind (io_upd t n (\<lambda>io. io\<lparr>n_flags := epoll_flags (revents i), n_poll := -1\<rparr>)) (\<lambda>t.
         poll_scan revents (list_move_tail n Active t) ns))"

definition revents_of :: "nat \<Rightarrow> (nat \<times> u32) list \<Rightarrow> nat \<Rightarrow> u32" where
  "revents_of num evs i = (case map_of evs i of Some ev \<Rightarrow> if i < num then ev else 0 | None \<Rightarrow> 0)"

fun poll_pump :: "iothread \<Rightarrow> wait_answer list \<Rightarrow> iothread res" where
  "poll_pump t [] = Inl Blocked"
| "poll_pump t (Interrupted # as) = poll_pump t as"
| "poll_pump t (Failed # as) = Inr t"
| "poll_pump t (Ready evs # as) =
    poll_scan (revents_of (t_num_pfd t) evs) (t\<lparr>t_num_pfd := 0\<rparr>) (t_queue t Inactive)"

definition poll_events :: "byte \<Rightarrow> u32" where
  "poll_events m = EPOLLERR OR EPOLLHUP OR
     (if m AND NBIO_READ \<noteq> 0 then EPOLLIN else 0) OR (if m AND NBIO_WRITE \<noteq> 0 then EPOLLOUT else 0)"

definition poll_inactive :: "bool \<Rightarrow> iothread \<Rightarrow> nat \<Rightarrow> iothread res" where
  "poll_inactive mem_ok t n =
    (let (ok, t) = (if length (t_pfd t) \<le> t_num_pfd t then upsize_pfdset mem_ok t else (True, t)) in
     if \<not> ok then Inr t
     else rbind (io_at t n) (\<lambda>io.
       io_upd (t\<lparr>t_pfd := (t_pfd t)[t_num_pfd t := \<lparr>p_fd = n_fd io, p_events = poll_events (n_mask io)\<rparr>],
                 t_num_pfd := t_num_pfd t + 1\<rparr>) n (n_poll_update (\<lambda>_. int (t_num_pfd t)))))"

definition poll_active :: "iothread \<Rightarrow> nat \<Rightarrow> iothread res" where
  "poll_active t n = io_upd t n (n_poll_update (\<lambda>_. -1))"

definition poll_fini :: "iothread \<Rightarrow> iothread" where
  "poll_fini t = t\<lparr>t_pfd := [], t_num_pfd := 0\<rparr>"

definition eventloop_poll :: "bool \<Rightarrow> eventloop" where
  "eventloop_poll ok = \<lparr>ev_name = str ''poll'', ev_init = poll_init ok, ev_fini = poll_fini, ev_pump = poll_pump,
     ev_inactive = poll_inactive ok, ev_active = poll_active\<rparr>"

section \<open>Choosing a back end\<close>

text \<open>The rest of the list from the back end of that name on, so that \<open>next\<close> can be followed.\<close>

fun eventloop_find :: "eventloop list \<Rightarrow> bytes \<Rightarrow> eventloop list" where
  "eventloop_find [] name = []"
| "eventloop_find (e # es) name = (if ev_name e = name then e # es else eventloop_find es name)"

definition eventloop_add :: "eventloop list \<Rightarrow> eventloop \<Rightarrow> eventloop list" where
  "eventloop_add es e = (if eventloop_find es (ev_name e) \<noteq> [] then es else e # es)"

fun init_first :: "bool \<Rightarrow> eventloop list \<Rightarrow> iothread \<Rightarrow> eventloop option \<times> iothread" where
  "init_first named [] t = (None, t)"
| "init_first named (e # es) t =
    (case ev_init e t of (True, t) \<Rightarrow> (Some e, t)
     | (False, t) \<Rightarrow> if named \<or> es = [] then (None, t) else init_first named es t)"

definition nbio_init :: "eventloop list \<Rightarrow> iothread \<Rightarrow> bytes option \<Rightarrow> eventloop option \<times> iothread" where
  "nbio_init ev_list t plugin =
    (let es = (case plugin of None \<Rightarrow> ev_list | Some name \<Rightarrow> eventloop_find ev_list name) in
     case init_first (plugin \<noteq> None) es t of
       (None, t) \<Rightarrow> (None, t)
     | (Some e, t) \<Rightarrow> (Some e, t\<lparr>t_queue := (t_queue t)(Active := [], Inactive := [], Deleted := [])\<rparr>))"

section \<open>Operations\<close>

definition nbio_del :: "eventloop \<Rightarrow> iothread \<Rightarrow> nat \<Rightarrow> iothread res" where
  "nbio_del pl t n = rbind (ev_active pl t n) (\<lambda>t.
     rbind (io_upd t n (\<lambda>io. io\<lparr>n_mask := NBIO_DELETED, n_flags := 0\<rparr>)) (\<lambda>t.
       Inr (list_move_tail n Deleted t)))"

definition nbio_inactive :: "eventloop \<Rightarrow> iothread \<Rightarrow> nat \<Rightarrow> byte \<Rightarrow> iothread res" where
  "nbio_inactive pl t n m =
    rbind (io_upd t n (\<lambda>io. io\<lparr>n_flags := n_flags io AND NOT m\<rparr>)) (\<lambda>t.
      rbind (io_at t n) (\<lambda>io.
        if n_mask io AND n_flags io = 0 then ev_inactive pl (list_move_tail n Inactive t) n else Inr t))"

definition do_set_wait :: "eventloop \<Rightarrow> iothread \<Rightarrow> nat \<Rightarrow> byte \<Rightarrow> queue option \<Rightarrow> iothread res" where
  "do_set_wait pl t n wait q = rbind (io_at t n) (\<lambda>io. rassert (n_mask io \<noteq> NBIO_DELETED)
     (let wait = wait AND NBIO_WAIT in
      rbind (io_upd t n (\<lambda>io. io\<lparr>n_mask := wait, n_flags := wait\<rparr>)) (\<lambda>t.
        rbind (ev_active pl t n) (\<lambda>t.
          if wait = 0 then Inr (list_move_tail n (case q of None \<Rightarrow> Inactive | Some q \<Rightarrow> q) t)
          else Inr (list_move_tail n Active t)))))"

definition nbio_set_wait :: "eventloop \<Rightarrow> iothread \<Rightarrow> nat \<Rightarrow> byte \<Rightarrow> iothread res" where
  "nbio_set_wait pl t n wait = do_set_wait pl t n wait None"

definition nbio_to_waitq :: "eventloop \<Rightarrow> iothread \<Rightarrow> nat \<Rightarrow> nat \<Rightarrow> iothread res" where
  "nbio_to_waitq pl t n q = do_set_wait pl t n 0 (Some (Waitq q))"

definition nbio_wake :: "eventloop \<Rightarrow> iothread \<Rightarrow> nat \<Rightarrow> byte \<Rightarrow> iothread res" where
  "nbio_wake pl t n wait = do_set_wait pl t n wait None"

definition nbio_wait_on :: "eventloop \<Rightarrow> iothread \<Rightarrow> nat \<Rightarrow> byte \<Rightarrow> iothread res" where
  "nbio_wait_on pl t n wait = rbind (io_at t n) (\<lambda>io. rassert (n_mask io \<noteq> NBIO_DELETED)
     (let wait = wait AND NBIO_WAIT in
      rbind (io_upd t n (\<lambda>io. io\<lparr>n_mask := wait, n_flags := wait\<rparr>)) (\<lambda>t.
        ev_inactive pl (list_move_tail n Inactive t) n)))"

definition nbio_get_wait :: "nbio \<Rightarrow> byte" where
  "nbio_get_wait io = n_mask io AND NBIO_WAIT"

text \<open>\<open>io\<close> is the object as its owner has filled it in; it was on no list before.\<close>

definition nbio_add :: "eventloop \<Rightarrow> iothread \<Rightarrow> nat \<Rightarrow> nbio \<Rightarrow> byte \<Rightarrow> iothread res" where
  "nbio_add pl t n io wait = do_set_wait pl (t\<lparr>t_io := (t_io t)(n \<mapsto> io)\<rparr>) n wait None"

section \<open>Pumping events\<close>

text \<open>The body of the inner loop, after the test for a deleted object.\<close>

definition pump_flag :: "(iothread \<Rightarrow> nat \<Rightarrow> iothread res) \<Rightarrow> byte \<Rightarrow> iothread \<Rightarrow> nat \<Rightarrow> iothread res" where
  "pump_flag h flag t n = rbind (io_at t n) (\<lambda>io. if (n_flags io AND n_mask io) AND flag \<noteq> 0 then h t n else Inr t)"

definition pump_one :: "nbio_ops \<Rightarrow> iothread \<Rightarrow> nat \<Rightarrow> iothread res" where
  "pump_one ops t n = rbind (pump_flag (op_write ops) NBIO_WRITE t n) (\<lambda>t.
     rbind (pump_flag (op_read ops) NBIO_READ t n) (\<lambda>t.
       rbind (io_at t n) (\<lambda>io.
         if n_flags io AND NBIO_ERROR \<noteq> 0
         then rbind (io_upd t n (\<lambda>io. io\<lparr>n_mask := NBIO_DELETED, n_flags := 0\<rparr>)) (\<lambda>t. Inr (list_move_tail n Deleted t))
         else Inr t)))"

text \<open>
  Both loops in one: \<open>None\<close> is the head of the outer one, \<open>Some\<close> the position of the
  inner one.  The successor is read before the body, as \<open>list_for_each_entry_safe\<close> does.  An
  object that is neither deleted nor on the active list any more would lead the iteration
  along another list, whose head is then taken for an object: a fault.
\<close>

fun pump_active :: "nat \<Rightarrow> nbio_ops \<Rightarrow> iothread \<Rightarrow> pos option \<Rightarrow> iothread res" where
  "pump_active 0 ops t p = Inl Out_of_fuel"
| "pump_active (Suc k) ops t None =
    (if t_queue t Active = [] then Inr t else pump_active k ops t (Some (first_of (t_queue t Active) Active)))"
| "pump_active (Suc k) ops t (Some (Head q)) = (if q = Active then pump_active k ops t None else Inl Out_of_bounds)"
| "pump_active (Suc k) ops t (Some (Elem n)) = rbind (io_at t n) (\<lambda>io.
     if n_mask io = NBIO_DELETED then pump_active k ops t None
     else if n \<notin> set (t_queue t Active) then Inl Out_of_bounds
     else let tmp = next_on t Active n in
       rbind (pump_one ops t n) (\<lambda>t. pump_active k ops t (Some tmp)))"

text \<open>The loops that unlink and destroy every object of a list.\<close>

fun reap :: "nat \<Rightarrow> nbio_ops \<Rightarrow> queue \<Rightarrow> iothread \<Rightarrow> pos \<Rightarrow> iothread res" where
  "reap 0 ops q t p = Inl Out_of_fuel"
| "reap (Suc k) ops q t (Head q') = (if q' = q then Inr t else Inl Out_of_bounds)"
| "reap (Suc k) ops q t (Elem n) =
    (if n \<notin> set (t_queue t q) then Inl Out_of_bounds
     else let tmp = next_on t q n in
       rbind (op_dtor ops (unlink n t) n) (\<lambda>t. reap k ops q t tmp))"

definition nbio_pump :: "nat \<Rightarrow> eventloop \<Rightarrow> nbio_ops \<Rightarrow> iothread \<Rightarrow> wait_answer list \<Rightarrow> iothread res" where
  "nbio_pump k pl ops t mto =
    rbind (pump_active k ops t None) (\<lambda>t.
      rbind (reap k ops Deleted t (first_of (t_queue t Deleted) Deleted)) (\<lambda>t.
        if t_queue t Inactive \<noteq> [] then ev_pump pl t mto else Inr t))"

text \<open>
  \<open>nbio_fini\<close>: the first two loops move nothing but the object they are at, so they are
  loops over the list as it was.
\<close>

fun fini_inactive :: "eventloop \<Rightarrow> iothread \<Rightarrow> nat list \<Rightarrow> iothread res" where
  "fini_inactive pl t [] = Inr t"
| "fini_inactive pl t (n # ns) = rbind (ev_active pl (list_move_tail n Active t) n) (\<lambda>t. fini_inactive pl t ns)"

definition nbio_fini :: "nat \<Rightarrow> eventloop \<Rightarrow> nbio_ops \<Rightarrow> iothread \<Rightarrow> iothread res" where
  "nbio_fini k pl ops t =
    rbind (fini_inactive pl t (t_queue t Inactive)) (\<lambda>t.
      let t = fold (\<lambda>n. list_move_tail n Active) (t_queue t Deleted) t in
      rbind (reap k ops Active t (first_of (t_queue t Active) Active)) (\<lambda>t. Inr (ev_fini pl t)))"

section \<open>Event descriptors\<close>

text \<open>
  The object of \<^verbatim>\<open>nbio-eventfd.c\<close>.  \<open>eventfd_read\<close> takes the counter and resets it, and fails with
  \<open>EAGAIN\<close> when it is zero; \<open>err\<close> is a failure for any other reason.
\<close>

definition efd_read :: "eventloop \<Rightarrow> (iothread \<Rightarrow> u64 \<Rightarrow> iothread res) \<Rightarrow> bool \<Rightarrow> iothread \<Rightarrow> nat \<Rightarrow> iothread res" where
  "efd_read pl cb err t n = rbind (io_at t n) (\<lambda>io.
     if err then Inr t
     else let val = t_efd t (n_fd io) in
       if val = 0 then nbio_inactive pl t n NBIO_READ
       else cb (t\<lparr>t_efd := (t_efd t)(n_fd io := 0)\<rparr>) val)"

definition efd_dtor :: "iothread \<Rightarrow> nat \<Rightarrow> iothread res" where
  "efd_dtor t n = rbind (io_at t n) (\<lambda>io.
     Inr (t\<lparr>t_io := (t_io t)(n := None), t_epoll := (t_epoll t)(n_fd io := None)\<rparr>))"

definition efd_ops :: "eventloop \<Rightarrow> (iothread \<Rightarrow> u64 \<Rightarrow> iothread res) \<Rightarrow> bool \<Rightarrow> nbio_ops" where
  "efd_ops pl cb err = \<lparr>op_read = efd_read pl cb err, op_write = \<lambda>_ _. Inl Null_deref, op_dtor = efd_dtor\<rparr>"

definition nbio_eventfd_new :: "bool \<Rightarrow> int option \<Rightarrow> iothread \<Rightarrow> u64 \<Rightarrow> nbio option \<times> iothread" where
  "nbio_eventfd_new mem_ok fd t initval =
    (if \<not> mem_ok then (None, t)
     else case fd of None \<Rightarrow> (None, t)
     | Some fd \<Rightarrow> (Some \<lparr>n_fd = fd, n_mask = 0, n_flags = 0, n_poll = 0\<rparr>, t\<lparr>t_efd := (t_efd t)(fd := initval)\<rparr>))"

definition nbio_eventfd_add :: "eventloop \<Rightarrow> iothread \<Rightarrow> nat \<Rightarrow> nbio \<Rightarrow> iothread res" where
  "nbio_eventfd_add pl t n io = nbio_add pl t n io NBIO_READ"

end
