(* ===== verification/NbioProps.thy ===== *)
theory NbioProps
  imports Nbio
begin

text \<open>
  Correctness of the event loop: the contract of a back end as a locale, the invariant of
  the queues proved once from it, the interpretation for \<open>epoll\<close>, and what the \<open>poll\<close> back end
  fails to keep.
\<close>

section \<open>The invariant\<close>

text \<open>Every object is on exactly one queue.\<close>

definition linked :: "iothread \<Rightarrow> bool" where
  "linked t \<longleftrightarrow> (\<forall>q. distinct (t_queue t q)) \<and> (\<forall>q q' n. n \<in> set (t_queue t q) \<and> n \<in> set (t_queue t q') \<longrightarrow> q = q') \<and>
     dom (t_io t) \<subseteq> (\<Union>q. set (t_queue t q))"

text \<open>
  What the queue says of an object.  The second argument is what the kernel watches its
  descriptor for, if anything, as the two bits for reading and writing.
\<close>

definition RW :: byte where "RW = 3"

fun place_ok :: "queue \<Rightarrow> byte option \<Rightarrow> byte \<Rightarrow> bool" where
  "place_ok Deleted r m \<longleftrightarrow> m = NBIO_DELETED"
| "place_ok (Waitq _) r m \<longleftrightarrow> m = 0 \<and> r = None"
| "place_ok Inactive r m \<longleftrightarrow> m AND NBIO_WAIT = m \<and> (if m = 0 then r = None \<or> r = Some 0 else r = Some (m AND RW))"
| "place_ok Active r m \<longleftrightarrow> m AND NBIO_WAIT = m \<and> (r = None \<or> r = Some (m AND RW))"

definition nbio_inv :: "(nat \<rightharpoonup> byte) \<Rightarrow> iothread \<Rightarrow> bool" where
  "nbio_inv r t \<longleftrightarrow> linked t \<and> (\<forall>q. \<forall>n \<in> set (t_queue t q). \<exists>io. t_io t n = Some io \<and> place_ok q (r n) (n_mask io))"

lemma deleted_not_wait: "NBIO_DELETED AND NBIO_WAIT \<noteq> NBIO_DELETED" "NBIO_DELETED \<noteq> 0"
  by (simp_all add: NBIO_DELETED_def NBIO_WAIT_def)

lemma list_move_tail_queue [simp]:
  "t_queue (list_move_tail n q t) q' = (if q' = q then removeAll n (t_queue t q) @ [n] else removeAll n (t_queue t q'))"
  "t_io (list_move_tail n q t) = t_io t" "t_epoll (list_move_tail n q t) = t_epoll t"
  "t_pfd (list_move_tail n q t) = t_pfd t" "t_num_pfd (list_move_tail n q t) = t_num_pfd t"
  by (simp_all add: list_move_tail_def unlink_def Let_def)

lemma linked_move:
  assumes "linked t" "\<And>q'. t_queue t' q' = t_queue (list_move_tail n q t) q'" "dom (t_io t') \<subseteq> insert n (dom (t_io t))"
  shows "linked t'"
proof -
  have d: "distinct (t_queue t q')" "dom (t_io t) \<subseteq> (\<Union>q. set (t_queue t q))"
    and u: "x \<in> set (t_queue t q') \<Longrightarrow> x \<in> set (t_queue t q'') \<Longrightarrow> q' = q''" for q' q'' x
    using assms(1) by (auto simp: linked_def)
  have "distinct (t_queue t' q')" for q' using d by (auto simp: assms(2) distinct_removeAll)
  moreover have "q' = q''" if "x \<in> set (t_queue t' q')" "x \<in> set (t_queue t' q'')" for x q' q''
    using that u by (auto simp: assms(2) split: if_splits)
  moreover have "dom (t_io t') \<subseteq> (\<Union>q. set (t_queue t' q))"
  proof
    fix x assume x: "x \<in> dom (t_io t')"
    show "x \<in> (\<Union>q. set (t_queue t' q))"
    proof (cases "x = n")
      case True
      then show ?thesis by (auto simp: assms(2) intro!: exI[of _ q])
    next
      case False
      then obtain q' where "x \<in> set (t_queue t q')" using x assms(3) d(2) by auto
      then show ?thesis using False by (auto simp: assms(2) intro!: exI[of _ q'])
    qed
  qed
  ultimately show ?thesis unfolding linked_def by blast
qed

text \<open>Moving one object, with whatever happens to it on the way.\<close>

lemma nbio_inv_move:
  assumes inv: "nbio_inv r t" and tq: "t_queue t' = t_queue (list_move_tail n q t)"
    and oth: "\<And>m. m \<noteq> n \<Longrightarrow> map_option n_mask (t_io t' m) = map_option n_mask (t_io t m) \<and> r' m = r m"
    and io: "t_io t' n = Some io" "place_ok q (r' n) (n_mask io)"
  shows "nbio_inv r' t'"
proof -
  have "dom (t_io t') \<subseteq> insert n (dom (t_io t))"
  proof
    fix x assume "x \<in> dom (t_io t')"
    then show "x \<in> insert n (dom (t_io t))" using oth[of x] by (cases "x = n"; cases "t_io t x") auto
  qed
  then have l: "linked t'" using linked_move[of t t' n q] inv tq by (simp add: nbio_inv_def)
  have "\<exists>io. t_io t' m = Some io \<and> place_ok q' (r' m) (n_mask io)" if m: "m \<in> set (t_queue t' q')" for m q'
  proof (cases "m = n")
    case True
    then have "q' = q" using m by (auto simp: tq split: if_splits)
    then show ?thesis using io True by auto
  next
    case False
    then have "m \<in> set (t_queue t q')" using m by (auto simp: tq split: if_splits)
    then obtain io' where "t_io t m = Some io'" "place_ok q' (r m) (n_mask io')" using inv unfolding nbio_inv_def by blast
    then show ?thesis using oth[OF False] by auto
  qed
  then show ?thesis using l by (simp add: nbio_inv_def)
qed

lemma nbio_inv_same:
  assumes "nbio_inv r t" "t_queue t' = t_queue t" "\<And>m. map_option n_mask (t_io t' m) = map_option n_mask (t_io t m)"
  shows "nbio_inv r t'"
proof -
  have "dom (t_io t') = dom (t_io t)"
    using assms(3) by (auto simp: dom_def) (metis map_option_is_None option.exhaust)+
  then have "linked t'" using assms(1,2) by (simp add: nbio_inv_def linked_def)
  moreover have "\<exists>io. t_io t' m = Some io \<and> place_ok q (r m) (n_mask io)" if m: "m \<in> set (t_queue t' q)" for m q
  proof -
    obtain io' where "t_io t m = Some io'" "place_ok q (r m) (n_mask io')" using assms(1,2) m unfolding nbio_inv_def by metis
    then show ?thesis using assms(3)[of m] by auto
  qed
  ultimately show ?thesis by (simp add: nbio_inv_def)
qed

lemma nbio_inv_unlink:
  assumes "nbio_inv r t"
  shows "nbio_inv (r(n := None)) ((unlink n t)\<lparr>t_io := (t_io t)(n := None), t_epoll := e\<rparr>)"
proof -
  have i: "\<exists>io. t_io t m = Some io \<and> place_ok q (r m) (n_mask io)" if "m \<in> set (t_queue t q)" for m q
    using assms that unfolding nbio_inv_def by blast
  have l: "linked t" using assms by (simp add: nbio_inv_def)
  have "linked ((unlink n t)\<lparr>t_io := (t_io t)(n := None), t_epoll := e\<rparr>)"
    using l unfolding linked_def by (auto simp: unlink_def distinct_removeAll)
  then show ?thesis using i by (auto simp: nbio_inv_def unlink_def)
qed

lemma nbio_inv_place:
  assumes "nbio_inv r t" "t_io t n = Some io"
  shows "\<exists>q. n \<in> set (t_queue t q) \<and> place_ok q (r n) (n_mask io)"
proof -
  obtain q where "n \<in> set (t_queue t q)" using assms by (auto simp: nbio_inv_def linked_def)
  then show ?thesis using assms by (force simp: nbio_inv_def)
qed

section \<open>The contract of a back end\<close>

text \<open>An operation of the back end leaves the queues, the masks and the descriptors alone.\<close>

definition io_core :: "nbio \<Rightarrow> int \<times> byte \<times> byte" where "io_core io = (n_fd io, n_mask io, n_flags io)"

definition same_core :: "iothread \<Rightarrow> iothread \<Rightarrow> bool" where
  "same_core t t' \<longleftrightarrow> t_queue t' = t_queue t \<and> t_efd t' = t_efd t \<and> (\<forall>n. map_option io_core (t_io t' n) = map_option io_core (t_io t n))"

lemma same_coreD:
  assumes "same_core t t'"
  shows "t_queue t' = t_queue t" "map_option n_mask (t_io t' n) = map_option n_mask (t_io t n)"
    "t_io t n = Some io \<Longrightarrow> \<exists>io'. t_io t' n = Some io' \<and> io_core io' = io_core io"
proof -
  have e: "map_option io_core (t_io t' n) = map_option io_core (t_io t n)" using assms by (simp add: same_core_def)
  show "t_queue t' = t_queue t" using assms by (simp add: same_core_def)
  show "map_option n_mask (t_io t' n) = map_option n_mask (t_io t n)"
    using arg_cong[OF e, of "map_option (\<lambda>(f, m, x). m)"] by (simp add: option.map_comp o_def io_core_def)
  show "t_io t n = Some io \<Longrightarrow> \<exists>io'. t_io t' n = Some io' \<and> io_core io' = io_core io" using e by auto
qed

text \<open>The state after \<open>mask\<close> and \<open>flags\<close> of an object are set.\<close>

definition set_mf :: "iothread \<Rightarrow> nat \<Rightarrow> nbio \<Rightarrow> byte \<Rightarrow> byte \<Rightarrow> iothread" where
  "set_mf t n io m f = t\<lparr>t_io := (t_io t)(n \<mapsto> io\<lparr>n_mask := m, n_flags := f\<rparr>)\<rparr>"

locale registry =
  fixes pl :: eventloop and good :: "iothread \<Rightarrow> bool" and reg :: "iothread \<Rightarrow> nat \<rightharpoonup> byte"
    and fresh :: "iothread \<Rightarrow> nbio \<Rightarrow> bool"
  assumes active_law: "good t \<Longrightarrow> t_io t n = Some io \<Longrightarrow>
      \<exists>t'. ev_active pl t n = Inr t' \<and> good t' \<and> same_core t t' \<and> reg t' = (reg t)(n := None)"
    and inactive_law: "good t \<Longrightarrow> t_io t n = Some io \<Longrightarrow> reg t n = None \<or> reg t n = Some (n_mask io AND RW) \<Longrightarrow>
      \<exists>t'. ev_inactive pl t n = Inr t' \<and> good t' \<and> same_core t t' \<and> reg t' = (reg t)(n \<mapsto> n_mask io AND RW)"
    and add_law: "good t \<Longrightarrow> t_io t n = None \<Longrightarrow> fresh t io \<Longrightarrow>
      \<exists>t'. ev_active pl (set_mf t n io m f) n = Inr t' \<and> good t' \<and> same_core (set_mf t n io m f) t' \<and> reg t' = (reg t)(n := None)"
    and queue_frame: "good t \<Longrightarrow> good (t\<lparr>t_queue := qs\<rparr>) \<and> reg (t\<lparr>t_queue := qs\<rparr>) = reg t"
    and mask_frame: "good t \<Longrightarrow> t_io t n = Some io \<Longrightarrow> good (set_mf t n io m f) \<and> reg (set_mf t n io m f) = reg t"
begin

lemma move_frame: "good t \<Longrightarrow> good (list_move_tail n q t) \<and> reg (list_move_tail n q t) = reg t"
  using queue_frame by (simp add: list_move_tail_def unlink_def)

lemma io_upd_mf: "t_io t n = Some io \<Longrightarrow> io_upd t n (\<lambda>io. io\<lparr>n_mask := m, n_flags := f\<rparr>) = Inr (set_mf t n io m f)"
  by (simp add: io_upd_def io_at_def set_mf_def)

lemma nbio_del_ok:
  assumes g: "good t" and inv: "nbio_inv (reg t) t" and io: "t_io t n = Some io"
  shows "\<exists>t'. nbio_del pl t n = Inr t' \<and> good t' \<and> nbio_inv (reg t') t' \<and> n \<in> set (t_queue t' Deleted) \<and> reg t' n = None"
proof -
  obtain t1 where t1: "ev_active pl t n = Inr t1" "good t1" "same_core t t1" "reg t1 = (reg t)(n := None)"
    using active_law[OF g io] by blast
  obtain io1 where io1: "t_io t1 n = Some io1" using same_coreD(3)[OF t1(3) io] by blast
  let ?t2 = "set_mf t1 n io1 NBIO_DELETED 0"
  have g2: "good ?t2" "reg ?t2 = reg t1" using mask_frame[OF t1(2) io1] by auto
  let ?t3 = "list_move_tail n Deleted ?t2"
  have g3: "good ?t3" "reg ?t3 = (reg t)(n := None)" using move_frame[OF g2(1)] g2(2) t1(4) by auto
  have "nbio_inv ((reg t)(n := None)) ?t3"
    using same_coreD(1,2)[OF t1(3)] by (intro nbio_inv_move[OF inv]) (auto simp: set_mf_def fun_eq_iff)
  moreover have "nbio_del pl t n = Inr ?t3" using t1(1) io_upd_mf[OF io1] by (simp add: nbio_del_def)
  ultimately show ?thesis using g3 by simp
qed

lemma do_set_wait_common:
  assumes inv: "nbio_inv (reg t) t" and q: "\<And>q'. q = Some q' \<Longrightarrow> \<exists>h. q' = Waitq h"
    and io: "t_io t0 n = Some io" "n_mask io \<noteq> NBIO_DELETED" and oth: "\<And>m. m \<noteq> n \<Longrightarrow> t_io t0 m = t_io t m" "t_queue t0 = t_queue t"
    and act: "\<exists>t'. ev_active pl (set_mf t0 n io (wait AND NBIO_WAIT) (wait AND NBIO_WAIT)) n = Inr t' \<and> good t' \<and>
      same_core (set_mf t0 n io (wait AND NBIO_WAIT) (wait AND NBIO_WAIT)) t' \<and> reg t' = (reg t)(n := None)"
  shows "\<exists>t'. do_set_wait pl t0 n wait q = Inr t' \<and> good t' \<and> nbio_inv (reg t') t'"
proof -
  let ?w = "wait AND NBIO_WAIT"
  obtain t1 where t1: "ev_active pl (set_mf t0 n io ?w ?w) n = Inr t1" "good t1" "same_core (set_mf t0 n io ?w ?w) t1"
    "reg t1 = (reg t)(n := None)" using act by blast
  have mf: "t_io (set_mf t0 n io ?w ?w) n = Some (io\<lparr>n_mask := ?w, n_flags := ?w\<rparr>)" by (simp add: set_mf_def)
  obtain io1 where io1: "t_io t1 n = Some io1" "n_mask io1 = ?w" using same_coreD(3)[OF t1(3) mf] by (auto simp: io_core_def)
  define q' where "q' = (if ?w = 0 then case q of None \<Rightarrow> Inactive | Some q \<Rightarrow> q else Active)"
  have g: "good (list_move_tail n q' t1)" "reg (list_move_tail n q' t1) = (reg t)(n := None)"
    using move_frame[OF t1(2)] t1(4) by auto
  have w: "?w AND NBIO_WAIT = ?w" by (simp add: and.assoc)
  have "nbio_inv ((reg t)(n := None)) (list_move_tail n q' t1)"
  proof (rule nbio_inv_move[OF inv, of _ n q'])
    show "t_queue (list_move_tail n q' t1) = t_queue (list_move_tail n q' t)"
      using same_coreD(1)[OF t1(3)] oth(2) by (simp add: fun_eq_iff set_mf_def)
    show "map_option n_mask (t_io (list_move_tail n q' t1) m) = map_option n_mask (t_io t m) \<and> ((reg t)(n := None)) m = reg t m"
      if "m \<noteq> n" for m using same_coreD(2)[OF t1(3), of m] oth(1)[OF that] that by (simp add: set_mf_def)
    show "t_io (list_move_tail n q' t1) n = Some io1" using io1 by simp
    show "place_ok q' (((reg t)(n := None)) n) (n_mask io1)"
      using q w io1(2) unfolding q'_def by (cases q) auto
  qed
  moreover have "do_set_wait pl t0 n wait q = Inr (list_move_tail n q' t1)"
    using io t1(1) io_upd_mf[OF io(1)] by (simp add: do_set_wait_def io_at_def q'_def)
  ultimately show ?thesis using g by simp
qed

lemma do_set_wait_ok:
  assumes "good t" "nbio_inv (reg t) t" "t_io t n = Some io" "n_mask io \<noteq> NBIO_DELETED"
    "\<And>q'. q = Some q' \<Longrightarrow> \<exists>h. q' = Waitq h"
  shows "\<exists>t'. do_set_wait pl t n wait q = Inr t' \<and> good t' \<and> nbio_inv (reg t') t'"
proof -
  let ?w = "wait AND NBIO_WAIT"
  have f: "good (set_mf t n io ?w ?w)" "reg (set_mf t n io ?w ?w) = reg t" using mask_frame[OF assms(1,3)] by auto
  have "t_io (set_mf t n io ?w ?w) n = Some (io\<lparr>n_mask := ?w, n_flags := ?w\<rparr>)" by (simp add: set_mf_def)
  from active_law[OF f(1) this] show ?thesis
    by (intro do_set_wait_common[OF assms(2,5,3,4)]) (simp_all add: f(2))
qed

lemma nbio_add_ok:
  assumes "good t" "nbio_inv (reg t) t" "t_io t n = None" "fresh t io" "n_mask io \<noteq> NBIO_DELETED"
  shows "\<exists>t'. nbio_add pl t n io wait = Inr t' \<and> good t' \<and> nbio_inv (reg t') t'"
  unfolding nbio_add_def
proof (rule do_set_wait_common[OF assms(2), of None _ n io])
  show "\<exists>t'. ev_active pl (set_mf (t\<lparr>t_io := (t_io t)(n \<mapsto> io)\<rparr>) n io (wait AND NBIO_WAIT) (wait AND NBIO_WAIT)) n = Inr t' \<and> good t' \<and>
      same_core (set_mf (t\<lparr>t_io := (t_io t)(n \<mapsto> io)\<rparr>) n io (wait AND NBIO_WAIT) (wait AND NBIO_WAIT)) t' \<and> reg t' = (reg t)(n := None)"
    using add_law[OF assms(1,3,4), of "wait AND NBIO_WAIT" "wait AND NBIO_WAIT"] by (simp add: set_mf_def)
qed (use assms(5) in auto)

text \<open>Going to the inactive list, with the kernel told.\<close>

lemma move_inactive_ok:
  assumes g: "good t" and inv: "nbio_inv (reg t) t" and io: "t_io t n = Some io" and m: "m AND NBIO_WAIT = m"
    and r: "reg t n = None \<or> reg t n = Some (m AND RW)"
  shows "\<exists>t'. ev_inactive pl (list_move_tail n Inactive (set_mf t n io m f)) n = Inr t' \<and> good t' \<and> nbio_inv (reg t') t' \<and>
    same_core (list_move_tail n Inactive (set_mf t n io m f)) t' \<and> reg t' n = Some (m AND RW)"
proof -
  let ?t1 = "list_move_tail n Inactive (set_mf t n io m f)"
  have g1: "good ?t1" "reg ?t1 = reg t" using mask_frame[OF g io, of m f] move_frame by auto
  have io1: "t_io ?t1 n = Some (io\<lparr>n_mask := m, n_flags := f\<rparr>)" by (simp add: set_mf_def)
  obtain t' where t': "ev_inactive pl ?t1 n = Inr t'" "good t'" "same_core ?t1 t'" "reg t' = (reg t)(n \<mapsto> m AND RW)"
    using inactive_law[OF g1(1) io1] r by (auto simp: g1(2))
  obtain io' where io': "t_io t' n = Some io'" "n_mask io' = m" using same_coreD(3)[OF t'(3) io1] by (auto simp: io_core_def)
  have "nbio_inv ((reg t)(n \<mapsto> m AND RW)) t'"
  proof (rule nbio_inv_move[OF inv, of _ n Inactive])
    show "t_queue t' = t_queue (list_move_tail n Inactive t)" using same_coreD(1)[OF t'(3)] by (simp add: fun_eq_iff set_mf_def)
    show "map_option n_mask (t_io t' k) = map_option n_mask (t_io t k) \<and> ((reg t)(n \<mapsto> m AND RW)) k = reg t k" if "k \<noteq> n" for k
      using same_coreD(2)[OF t'(3), of k] that by (simp add: set_mf_def)
  qed (use io' m in auto)
  then show ?thesis using t' by simp
qed

lemma nbio_inactive_ok:
  assumes g: "good t" and inv: "nbio_inv (reg t) t" and io: "t_io t n = Some io" "n_mask io \<noteq> NBIO_DELETED"
  shows "\<exists>t'. nbio_inactive pl t n m = Inr t' \<and> good t' \<and> nbio_inv (reg t') t' \<and>
    (n_mask io AND n_flags io AND NOT m = 0 \<longrightarrow>
       same_core (list_move_tail n Inactive (set_mf t n io (n_mask io) (n_flags io AND NOT m))) t' \<and>
       reg t' n = Some (n_mask io AND RW))"
proof -
  let ?f = "n_flags io AND NOT m"
  have u: "io_upd t n (\<lambda>io. io\<lparr>n_flags := n_flags io AND NOT m\<rparr>) = Inr (set_mf t n io (n_mask io) ?f)"
    using io(1) by (simp add: io_upd_def io_at_def set_mf_def)
  have io1: "t_io (set_mf t n io (n_mask io) ?f) n = Some (io\<lparr>n_flags := ?f\<rparr>)" by (simp add: set_mf_def)
  have f: "good (set_mf t n io (n_mask io) ?f)" "reg (set_mf t n io (n_mask io) ?f) = reg t" using mask_frame[OF g io(1)] by auto
  show ?thesis
  proof (cases "n_mask io AND ?f = 0")
    case True
    obtain q where "place_ok q (reg t n) (n_mask io)" using nbio_inv_place[OF inv io(1)] by blast
    then have "n_mask io AND NBIO_WAIT = n_mask io" "reg t n = None \<or> reg t n = Some (n_mask io AND RW)"
      using io(2) by (cases q; auto split: if_splits)+
    from move_inactive_ok[OF g inv io(1) this, of ?f] show ?thesis
      using True u io1 by (simp add: nbio_inactive_def io_at_def)
  next
    case False
    have "nbio_inv (reg t) (set_mf t n io (n_mask io) ?f)"
      using io(1) by (intro nbio_inv_same[OF inv]) (auto simp: set_mf_def)
    then show ?thesis using False u io1 f by (auto simp: nbio_inactive_def io_at_def and.assoc)
  qed
qed

lemma nbio_wait_on_ok:
  assumes g: "good t" and inv: "nbio_inv (reg t) t" and io: "t_io t n = Some io" "n \<in> set (t_queue t (Waitq h))"
  shows "\<exists>t'. nbio_wait_on pl t n wait = Inr t' \<and> good t' \<and> nbio_inv (reg t') t'"
proof -
  have "n_mask io = 0" "reg t n = None" using inv io by (force simp: nbio_inv_def)+
  then show ?thesis
    using move_inactive_ok[OF g inv io(1), of "wait AND NBIO_WAIT" "wait AND NBIO_WAIT"] io_upd_mf[OF io(1)] deleted_not_wait(2) io(1)
    by (auto simp: nbio_wait_on_def io_at_def and.assoc)
qed

end

section \<open>Reachable states\<close>

text \<open>
  The steps of a thread.  \<open>Dtor\<close> is the destructor of an object, which closes its descriptor
  (so that the kernel forgets it) and frees it; \<open>Fail\<close> is what \<open>nbio_pump\<close> does to an object with an
  error.  \<open>fresh\<close> says which objects may be added and \<open>answers\<close> what the kernel may answer.
\<close>

inductive nbio_step ::
  "eventloop \<Rightarrow> (iothread \<Rightarrow> nbio \<Rightarrow> bool) \<Rightarrow> (iothread \<Rightarrow> wait_answer list \<Rightarrow> bool) \<Rightarrow> iothread \<Rightarrow> iothread \<Rightarrow> bool"
  for pl fresh answers where
  Add: "t_io t n = None \<Longrightarrow> fresh t io \<Longrightarrow> n_mask io \<noteq> NBIO_DELETED \<Longrightarrow> nbio_add pl t n io w = Inr t' \<Longrightarrow>
    nbio_step pl fresh answers t t'"
| Del: "t_io t n = Some io \<Longrightarrow> nbio_del pl t n = Inr t' \<Longrightarrow> nbio_step pl fresh answers t t'"
| Idle: "t_io t n = Some io \<Longrightarrow> n_mask io \<noteq> NBIO_DELETED \<Longrightarrow> nbio_inactive pl t n m = Inr t' \<Longrightarrow> nbio_step pl fresh answers t t'"
| Set_wait: "t_io t n = Some io \<Longrightarrow> n_mask io \<noteq> NBIO_DELETED \<Longrightarrow> nbio_set_wait pl t n w = Inr t' \<Longrightarrow> nbio_step pl fresh answers t t'"
| To_waitq: "t_io t n = Some io \<Longrightarrow> n_mask io \<noteq> NBIO_DELETED \<Longrightarrow> nbio_to_waitq pl t n h = Inr t' \<Longrightarrow> nbio_step pl fresh answers t t'"
| Wake: "t_io t n = Some io \<Longrightarrow> n_mask io \<noteq> NBIO_DELETED \<Longrightarrow> nbio_wake pl t n w = Inr t' \<Longrightarrow> nbio_step pl fresh answers t t'"
| Wait_on: "t_io t n = Some io \<Longrightarrow> n \<in> set (t_queue t (Waitq h)) \<Longrightarrow> nbio_wait_on pl t n w = Inr t' \<Longrightarrow> nbio_step pl fresh answers t t'"
| Pump: "answers t as \<Longrightarrow> ev_pump pl t as = Inr t' \<Longrightarrow> nbio_step pl fresh answers t t'"
| Fail: "t_io t n = Some io \<Longrightarrow> n \<in> set (t_queue t Active) \<Longrightarrow>
    nbio_step pl fresh answers t (list_move_tail n Deleted (set_mf t n io NBIO_DELETED 0))"
| Dtor: "t_io t n = Some io \<Longrightarrow> n \<in> set (t_queue t Deleted) \<Longrightarrow>
    nbio_step pl fresh answers t ((unlink n t)\<lparr>t_io := (t_io t)(n := None), t_epoll := (t_epoll t)(n_fd io := None)\<rparr>)"

locale event_loop = registry +
  fixes answers :: "iothread \<Rightarrow> wait_answer list \<Rightarrow> bool"
  assumes pump_law: "good t \<Longrightarrow> nbio_inv (reg t) t \<Longrightarrow> answers t as \<Longrightarrow> ev_pump pl t as = Inr t' \<Longrightarrow> good t' \<and> nbio_inv (reg t') t'"
    and dtor_law: "good t \<Longrightarrow> t_io t n = Some io \<Longrightarrow> t' = (unlink n t)\<lparr>t_io := (t_io t)(n := None), t_epoll := (t_epoll t)(n_fd io := None)\<rparr> \<Longrightarrow>
      good t' \<and> reg t' = (reg t)(n := None)"
begin

lemma step_ok:
  assumes "nbio_step pl fresh answers t t'" "good t" "nbio_inv (reg t) t"
  shows "good t' \<and> nbio_inv (reg t') t'"
  using assms
proof (induction rule: nbio_step.induct)
  case (Add t n io w t')
  then show ?case using nbio_add_ok[of t n io w] by auto
next
  case (Del t n io t')
  then show ?case using nbio_del_ok[of t n io] by auto
next
  case (Idle t n io m t')
  then show ?case using nbio_inactive_ok[of t n io m] by auto
next
  case (Set_wait t n io w t')
  then show ?case using do_set_wait_ok[of t n io None w] by (auto simp: nbio_set_wait_def)
next
  case (To_waitq t n io h t')
  then show ?case using do_set_wait_ok[of t n io "Some (Waitq h)" 0] by (auto simp: nbio_to_waitq_def)
next
  case (Wake t n io w t')
  then show ?case using do_set_wait_ok[of t n io None w] by (auto simp: nbio_wake_def)
next
  case (Wait_on t n io h w t')
  then show ?case using nbio_wait_on_ok[of t n io h w] by auto
next
  case (Pump t as t')
  then show ?case using pump_law by blast
next
  case (Fail t n io)
  have g: "good (list_move_tail n Deleted (set_mf t n io NBIO_DELETED 0))"
    "reg (list_move_tail n Deleted (set_mf t n io NBIO_DELETED 0)) = reg t"
    using mask_frame[OF Fail(3,1)] move_frame by auto
  have "nbio_inv (reg t) (list_move_tail n Deleted (set_mf t n io NBIO_DELETED 0))"
    by (intro nbio_inv_move[OF Fail(4), of _ n Deleted]) (auto simp: set_mf_def fun_eq_iff)
  then show ?case using g by simp
next
  case (Dtor t n io)
  then show ?case using dtor_law[OF Dtor(3,1)] nbio_inv_unlink[OF Dtor(4)] by metis
qed

lemma reachable_ok:
  assumes "rtranclp (nbio_step pl fresh answers) t0 t" "good t0" "nbio_inv (reg t0) t0"
  shows "good t \<and> nbio_inv (reg t) t"
  using assms by (induction rule: rtranclp_induct) (use step_ok in blast)+

end

section \<open>The epoll back end\<close>

definition rw_of :: "u32 \<Rightarrow> byte" where
  "rw_of ev = (if ev AND EPOLLIN \<noteq> 0 then NBIO_READ else 0) OR (if ev AND EPOLLOUT \<noteq> 0 then NBIO_WRITE else 0)"

definition epoll_reg :: "iothread \<Rightarrow> nat \<rightharpoonup> byte" where
  "epoll_reg t n = (case t_io t n of None \<Rightarrow> None
     | Some io \<Rightarrow> (case t_epoll t (n_fd io) of None \<Rightarrow> None | Some (_, ev) \<Rightarrow> Some (rw_of ev)))"

text \<open>The interest list and the marks in the objects agree, and descriptors are not shared.\<close>

definition epoll_good :: "iothread \<Rightarrow> bool" where
  "epoll_good t \<longleftrightarrow>
     (\<forall>n io. t_io t n = Some io \<longrightarrow> 0 \<le> n_fd io \<and> n_poll io = (if t_epoll t (n_fd io) = None then 0 else 1)) \<and>
     (\<forall>fd p ev. t_epoll t fd = Some (p, ev) \<longrightarrow> (\<exists>io. t_io t p = Some io \<and> n_fd io = fd)) \<and>
     (\<forall>n n' io io'. t_io t n = Some io \<and> t_io t n' = Some io' \<and> n_fd io = n_fd io' \<longrightarrow> n = n')"

definition epoll_fresh :: "iothread \<Rightarrow> nbio \<Rightarrow> bool" where
  "epoll_fresh t io \<longleftrightarrow> 0 \<le> n_fd io \<and> n_poll io = 0 \<and> (\<forall>n io'. t_io t n = Some io' \<longrightarrow> n_fd io' \<noteq> n_fd io)"

definition epoll_answers :: "iothread \<Rightarrow> wait_answer list \<Rightarrow> bool" where
  "epoll_answers t as \<longleftrightarrow> (\<forall>p \<in> set (t_queue t Deleted). epoll_reg t p = None) \<and>
     (\<forall>evs p ev. Ready evs \<in> set as \<and> (p, ev) \<in> set evs \<longrightarrow> (\<exists>fd ev'. t_epoll t fd = Some (p, ev')))"

lemma and_flag: "(m :: byte) AND 2 ^ k = (if bit m k then 2 ^ k else 0)"
  by (rule bit_eqI) (auto simp: bit_simps)

lemma rw_of_events: "rw_of (epoll_events m) = m AND RW"
proof -
  have "m AND RW = (m AND 2 ^ 0) OR (m AND 2 ^ 1)"
    using bit.conj_disj_distrib[of m "2 ^ 0" "2 ^ 1"] by (simp add: RW_def)
  then have *: "m AND RW = (if bit m 0 then 1 else 0) OR (if bit m 1 then 2 else 0)" unfolding and_flag by simp
  have "m AND NBIO_READ \<noteq> 0 \<longleftrightarrow> bit m 0" "m AND NBIO_WRITE \<noteq> 0 \<longleftrightarrow> bit m 1"
    using and_flag[of m 0] and_flag[of m 1] by (simp_all add: NBIO_READ_def NBIO_WRITE_def del: bit_0)
  then show ?thesis unfolding * rw_of_def epoll_events_def
    by (cases "bit m 0"; cases "bit m 1")
      (simp_all add: EPOLLIN_def EPOLLOUT_def EPOLLERR_def EPOLLHUP_def EPOLLET_def NBIO_READ_def NBIO_WRITE_def del: bit_0)
qed

lemma epoll_reg_None: "t_io t n = Some io \<Longrightarrow> epoll_reg t n = None \<longleftrightarrow> t_epoll t (n_fd io) = None"
  by (auto simp: epoll_reg_def split: option.splits)

lemma epoll_goodD:
  assumes "epoll_good t"
  shows "t_io t n = Some io \<Longrightarrow> 0 \<le> n_fd io \<and> n_poll io = (if t_epoll t (n_fd io) = None then 0 else 1)"
    "t_epoll t fd = Some (p, ev) \<Longrightarrow> \<exists>io. t_io t p = Some io \<and> n_fd io = fd"
    "t_io t n = Some io \<Longrightarrow> t_io t n' = Some io' \<Longrightarrow> n_fd io = n_fd io' \<Longrightarrow> n = n'"
  using assms unfolding epoll_good_def by blast+

text \<open>Changing what the kernel knows of one descriptor, with the mark of its owner.\<close>

lemma epoll_change:
  assumes g: "epoll_good t" and io: "t_io t n = Some io" and e: "\<And>p ev. e = Some (p, ev) \<Longrightarrow> p = n"
    and t': "t' = t\<lparr>t_io := (t_io t)(n \<mapsto> io\<lparr>n_poll := if e = None then 0 else 1\<rparr>), t_epoll := (t_epoll t)(n_fd io := e)\<rparr>"
  shows "epoll_good t' \<and> same_core t t' \<and> epoll_reg t' = (epoll_reg t)(n := map_option (\<lambda>(p, ev). rw_of ev) e)"
proof (intro conjI)
  note gd = epoll_goodD[OF g]
  have fd: "n_fd io' \<noteq> n_fd io" if "t_io t m = Some io'" "m \<noteq> n" for m io' using gd(3)[OF that(1) io] that(2) by blast
  show "epoll_good t'"
    unfolding epoll_good_def
  proof (intro conjI allI impI)
    fix m io' assume m: "t_io t' m = Some io'"
    show "0 \<le> n_fd io'" using m gd(1) io by (auto simp: t' split: if_splits)
    show "n_poll io' = (if t_epoll t' (n_fd io') = None then 0 else 1)"
      using m gd(1)[of m io'] fd[of m io'] by (auto simp: t' split: if_splits)
  next
    fix f p ev assume f: "t_epoll t' f = Some (p, ev)"
    show "\<exists>io'. t_io t' p = Some io' \<and> n_fd io' = f"
    proof (cases "f = n_fd io")
      case True
      then show ?thesis using f e by (auto simp: t')
    next
      case False
      then have "t_epoll t f = Some (p, ev)" using f by (simp add: t')
      then show ?thesis using gd(2)[of f p ev] False io by (auto simp: t')
    qed
  next
    fix m m' io1 io2 assume "t_io t' m = Some io1 \<and> t_io t' m' = Some io2 \<and> n_fd io1 = n_fd io2"
    then show "m = m'" using gd(3) io by (auto simp: t' split: if_splits)
  qed
  show "same_core t t'" using io by (auto simp: same_core_def t' io_core_def)
  show "epoll_reg t' = (epoll_reg t)(n := map_option (\<lambda>(p, ev). rw_of ev) e)"
  proof
    fix m
    show "epoll_reg t' m = ((epoll_reg t)(n := map_option (\<lambda>(p, ev). rw_of ev) e)) m"
      using fd[of m] by (cases "m = n") (auto simp: epoll_reg_def t' split: option.splits)
  qed
qed

lemma same_core_refl: "same_core t t"
  by (simp add: same_core_def)

lemma epoll_active_law:
  assumes g: "epoll_good t" and io: "t_io t n = Some io"
  shows "\<exists>t'. epoll_active t n = Inr t' \<and> epoll_good t' \<and> same_core t t' \<and> epoll_reg t' = (epoll_reg t)(n := None)"
proof (cases "t_epoll t (n_fd io) = None")
  case True
  then show ?thesis using epoll_goodD(1)[OF g io] epoll_reg_None[OF io] g io same_core_refl
    by (auto simp: epoll_active_def io_at_def fun_upd_idem)
next
  case False
  let ?t' = "t\<lparr>t_io := (t_io t)(n \<mapsto> io\<lparr>n_poll := 0\<rparr>), t_epoll := (t_epoll t)(n_fd io := None)\<rparr>"
  have "epoll_active t n = Inr ?t'"
    using False epoll_goodD(1)[OF g io] io by (auto simp: epoll_active_def io_at_def io_upd_def)
  then show ?thesis using epoll_change[OF g io, of None ?t'] by simp
qed

lemma epoll_inactive_law:
  assumes g: "epoll_good t" and io: "t_io t n = Some io" and r: "epoll_reg t n = None \<or> epoll_reg t n = Some (n_mask io AND RW)"
  shows "\<exists>t'. epoll_inactive True t n = Inr t' \<and> epoll_good t' \<and> same_core t t' \<and> epoll_reg t' = (epoll_reg t)(n \<mapsto> n_mask io AND RW)"
proof (cases "t_epoll t (n_fd io) = None")
  case False
  then show ?thesis using epoll_goodD(1)[OF g io] epoll_reg_None[OF io] g io r same_core_refl
    by (auto simp: epoll_inactive_def io_at_def fun_upd_idem)
next
  case True
  let ?e = "Some (n, epoll_events (n_mask io))"
  let ?t' = "t\<lparr>t_io := (t_io t)(n \<mapsto> io\<lparr>n_poll := 1\<rparr>), t_epoll := (t_epoll t)(n_fd io := ?e)\<rparr>"
  have "epoll_inactive True t n = Inr ?t'"
    using True epoll_goodD(1)[OF g io] io by (auto simp: epoll_inactive_def io_at_def io_upd_def)
  then show ?thesis using epoll_change[OF g io, of ?e ?t'] by (simp add: rw_of_events)
qed

lemma epoll_io_frame:
  assumes g: "epoll_good t" and io: "t_io t n = Some io" and io': "n_fd io' = n_fd io" "n_poll io' = n_poll io"
  shows "epoll_good (t\<lparr>t_io := (t_io t)(n \<mapsto> io')\<rparr>) \<and> epoll_reg (t\<lparr>t_io := (t_io t)(n \<mapsto> io')\<rparr>) = epoll_reg t"
proof -
  have "epoll_good (t\<lparr>t_io := (t_io t)(n \<mapsto> io')\<rparr>)"
    unfolding epoll_good_def
  proof (intro conjI allI impI)
    fix f p ev assume "t_epoll (t\<lparr>t_io := (t_io t)(n \<mapsto> io')\<rparr>) f = Some (p, ev)"
    then show "\<exists>i. t_io (t\<lparr>t_io := (t_io t)(n \<mapsto> io')\<rparr>) p = Some i \<and> n_fd i = f"
      using epoll_goodD(2)[OF g, of f p ev] io io' by auto
  qed (use epoll_goodD(1,3)[OF g] io io' in \<open>auto split: if_splits\<close>)
  then show ?thesis using io io' by (auto simp: epoll_reg_def fun_eq_iff split: option.splits)
qed

lemma epoll_queue_frame: "epoll_good (t\<lparr>t_queue := qs\<rparr>) = epoll_good t" "epoll_reg (t\<lparr>t_queue := qs\<rparr>) = epoll_reg t"
  by (simp_all add: epoll_good_def epoll_reg_def fun_eq_iff split: option.splits)

lemma epoll_add_law:
  assumes g: "epoll_good t" and n: "t_io t n = None" and f: "epoll_fresh t io"
  shows "\<exists>t'. epoll_active (set_mf t n io m fl) n = Inr t' \<and> epoll_good t' \<and> same_core (set_mf t n io m fl) t' \<and>
    epoll_reg t' = (epoll_reg t)(n := None)"
proof -
  let ?t = "set_mf t n io m fl"
  have e: "t_epoll t (n_fd io) = None"
    using epoll_goodD(2)[OF g, of "n_fd io"] f by (cases "t_epoll t (n_fd io)") (auto simp: epoll_fresh_def)
  have "epoll_good ?t"
    unfolding epoll_good_def
  proof (intro conjI allI impI)
    fix fd p ev assume "t_epoll ?t fd = Some (p, ev)"
    then show "\<exists>io'. t_io ?t p = Some io' \<and> n_fd io' = fd" using epoll_goodD(2)[OF g, of fd p ev] n by (auto simp: set_mf_def)
  qed (use epoll_goodD(1,3)[OF g] f e in \<open>auto simp: set_mf_def epoll_fresh_def split: if_splits\<close>)
  moreover have "epoll_active ?t n = Inr ?t" using f by (simp add: epoll_active_def io_at_def set_mf_def epoll_fresh_def)
  moreover have "epoll_reg ?t = (epoll_reg t)(n := None)" using n e by (auto simp: epoll_reg_def set_mf_def fun_eq_iff split: option.splits)
  ultimately show ?thesis using same_core_refl by blast
qed

interpretation ep: registry "eventloop_epoll True" epoll_good epoll_reg epoll_fresh
  by unfold_locales
    (use epoll_active_law epoll_inactive_law epoll_add_law epoll_queue_frame epoll_io_frame in
      \<open>simp_all add: eventloop_epoll_def set_mf_def\<close>)

text \<open>An answer of \<open>epoll_wait\<close> moves watched objects to the active list.\<close>

lemma epoll_report_ok:
  assumes "epoll_good t" "nbio_inv (epoll_reg t) t"
    "\<And>p ev. (p, ev) \<in> set evs \<Longrightarrow> epoll_reg t p \<noteq> None \<and> p \<notin> set (t_queue t Deleted)"
    "epoll_report t evs = Inr t'"
  shows "epoll_good t' \<and> nbio_inv (epoll_reg t') t'"
  using assms
proof (induction evs arbitrary: t)
  case (Cons e evs)
  obtain n ev where e: "e = (n, ev)" by (cases e)
  have r: "epoll_reg t n \<noteq> None" "n \<notin> set (t_queue t Deleted)" using Cons.prems(3)[of n ev] e by simp_all
  then obtain io where io: "t_io t n = Some io" by (auto simp: epoll_reg_def split: option.splits)
  obtain q where q: "n \<in> set (t_queue t q)" "place_ok q (epoll_reg t n) (n_mask io)"
    using nbio_inv_place[OF Cons.prems(2) io] by blast
  then have pl: "place_ok Active (epoll_reg t n) (n_mask io)" using r by (cases q) (auto split: if_splits)
  let ?io = "io\<lparr>n_flags := epoll_flags ev\<rparr>"
  let ?t1 = "t\<lparr>t_io := (t_io t)(n \<mapsto> ?io)\<rparr>"
  let ?t2 = "list_move_tail n Active ?t1"
  have g1: "epoll_good ?t1" "epoll_reg ?t1 = epoll_reg t" using epoll_io_frame[OF Cons.prems(1) io, of ?io] by auto
  have g2: "epoll_good ?t2" "epoll_reg ?t2 = epoll_reg t" using ep.move_frame[OF g1(1), of n Active] g1(2) by auto
  have i2: "nbio_inv (epoll_reg t) ?t2"
    by (rule nbio_inv_move[OF Cons.prems(2), where n = n and q = Active and io = ?io]) (use pl in \<open>auto simp: fun_eq_iff\<close>)
  have "epoll_report ?t2 evs = Inr t'" using Cons.prems(4) io by (simp add: e io_upd_def io_at_def)
  moreover have "epoll_reg ?t2 p \<noteq> None \<and> p \<notin> set (t_queue ?t2 Deleted)" if "(p, ev) \<in> set evs" for p ev
    using Cons.prems(3)[of p ev] that g2(2) by simp
  ultimately show ?case using Cons.IH[OF g2(1)] i2 g2(2) by simp
qed simp

lemma epoll_pump_ok:
  assumes "epoll_good t" "nbio_inv (epoll_reg t) t" "epoll_answers t as" "epoll_pump t as = Inr t'"
  shows "epoll_good t' \<and> nbio_inv (epoll_reg t') t'"
  using assms
proof (induction t as rule: epoll_pump.induct)
  case (2 t as)
  then have "epoll_answers t as" by (auto simp: epoll_answers_def)
  then show ?case using 2 by simp
next
  case (4 t evs as)
  have a: "\<exists>fd ev'. t_epoll t fd = Some (p, ev')" if "(p, ev) \<in> set evs" for p ev
    using 4(3)[unfolded epoll_answers_def, THEN conjunct2, rule_format, of evs p ev] that by simp
  have "epoll_reg t p \<noteq> None \<and> p \<notin> set (t_queue t Deleted)" if pe: "(p, ev) \<in> set evs" for p ev
  proof -
    obtain fd ev' where f: "t_epoll t fd = Some (p, ev')" using a[OF pe] by blast
    then obtain io where "t_io t p = Some io" "n_fd io = fd" using epoll_goodD(2)[OF 4(1)] by blast
    then have "epoll_reg t p \<noteq> None" using f by (simp add: epoll_reg_def)
    then show ?thesis using 4(3)[unfolded epoll_answers_def, THEN conjunct1] by auto
  qed
  then show ?case using epoll_report_ok[OF 4(1,2), of evs t'] 4(4) by simp
qed simp_all

lemma epoll_dtor_law:
  assumes g: "epoll_good t" and io: "t_io t n = Some io"
  shows "epoll_good (t\<lparr>t_queue := qs, t_io := (t_io t)(n := None), t_epoll := (t_epoll t)(n_fd io := None)\<rparr>) \<and>
    epoll_reg (t\<lparr>t_queue := qs, t_io := (t_io t)(n := None), t_epoll := (t_epoll t)(n_fd io := None)\<rparr>) = (epoll_reg t)(n := None)"
    (is "epoll_good ?t \<and> _")
proof -
  note gd = epoll_goodD[OF g]
  have fd: "n_fd io' \<noteq> n_fd io" if "t_io t m = Some io'" "m \<noteq> n" for m io' using gd(3)[OF that(1) io] that(2) by blast
  have "epoll_good ?t"
    unfolding epoll_good_def
  proof (intro conjI allI impI)
    fix f p ev assume f: "t_epoll ?t f = Some (p, ev)"
    then have "f \<noteq> n_fd io" "t_epoll t f = Some (p, ev)" by (simp_all split: if_splits)
    then show "\<exists>i. t_io ?t p = Some i \<and> n_fd i = f" using gd(2)[of f p ev] io by auto
  qed (use gd(1,3) fd in \<open>auto split: if_splits\<close>)
  moreover have "epoll_reg ?t = (epoll_reg t)(n := None)"
    using fd by (auto simp: epoll_reg_def fun_eq_iff split: option.splits)
  ultimately show ?thesis by blast
qed

interpretation ep: event_loop "eventloop_epoll True" epoll_good epoll_reg epoll_fresh epoll_answers
proof (unfold_locales)
  fix t as t'
  show "epoll_good t \<Longrightarrow> nbio_inv (epoll_reg t) t \<Longrightarrow> epoll_answers t as \<Longrightarrow> ev_pump (eventloop_epoll True) t as = Inr t' \<Longrightarrow>
      epoll_good t' \<and> nbio_inv (epoll_reg t') t'"
    by (rule epoll_pump_ok[of t as t']) (simp_all add: eventloop_epoll_def)
next
  fix t n io t'
  assume g: "epoll_good t" "t_io t n = Some io"
    and t': "t' = (unlink n t)\<lparr>t_io := (t_io t)(n := None), t_epoll := (t_epoll t)(n_fd io := None)\<rparr>"
  show "epoll_good t' \<and> epoll_reg t' = (epoll_reg t)(n := None)"
    unfolding t' unlink_def by (rule epoll_dtor_law[OF g])
qed

section \<open>Draining the active list\<close>

text \<open>
  What the callbacks have to do for the loop to come to an end: serving an active object
  takes it off the active list, or leaves it there (where it was, or at the end) and makes
  progress, and it does not touch the other active objects.
\<close>

definition serves :: "nbio_ops \<Rightarrow> (iothread \<Rightarrow> bool) \<Rightarrow> (iothread \<Rightarrow> nat) \<Rightarrow> bool" where
  "serves ops I M \<longleftrightarrow> (\<forall>t n. I t \<and> n \<in> set (t_queue t Active) \<longrightarrow>
     distinct (t_queue t Active) \<and> (\<exists>io. t_io t n = Some io \<and> n_mask io \<noteq> NBIO_DELETED) \<and>
     (\<exists>t'. pump_one ops t n = Inr t' \<and> I t' \<and>
       (t_queue t' Active = removeAll n (t_queue t Active) \<and> M t' \<le> M t \<or>
        (t_queue t' Active = t_queue t Active \<or> t_queue t' Active = removeAll n (t_queue t Active) @ [n]) \<and> M t' < M t)))"

definition work :: "(iothread \<Rightarrow> nat) \<Rightarrow> iothread \<Rightarrow> nat" where
  "work M t = M t + length (t_queue t Active)"

lemma next_on_other:
  assumes "distinct (t_queue t q)" "n \<in> set (t_queue t q)"
  shows "next_on t q n = Head q \<or> (\<exists>m. next_on t q n = Elem m \<and> m \<in> set (t_queue t q) \<and> m \<noteq> n)"
proof -
  obtain xs ys where s: "t_queue t q = xs @ n # ys" "n \<notin> set xs" using split_list_first[OF assms(2)] by blast
  then have "dropWhile (\<lambda>x. x \<noteq> n) (t_queue t q) = n # ys"
    unfolding s(1) by (subst dropWhile_append2) (use s(2) in auto)
  then show ?thesis using assms(1) s by (cases ys) (auto simp: next_on_def first_of_def)
qed

lemma length_removeAll_in: "distinct xs \<Longrightarrow> n \<in> set xs \<Longrightarrow> length xs = Suc (length (removeAll n xs))"
  by (induction xs) auto

lemma pump_active_drains:
  "serves ops I M \<Longrightarrow> I t \<Longrightarrow> (case p of None \<Rightarrow> 3 * work M t + 1 \<le> k
      | Some (Head q) \<Rightarrow> q = Active \<and> 3 * work M t + 2 \<le> k
      | Some (Elem n) \<Rightarrow> n \<in> set (t_queue t Active) \<and> 3 * work M t \<le> k) \<Longrightarrow>
    \<exists>t'. pump_active k ops t p = Inr t' \<and> I t' \<and> t_queue t' Active = [] \<and> M t' \<le> M t"
proof (induction k ops t p rule: pump_active.induct)
  case (1 ops t p)
  then show ?case by (auto simp: work_def split: option.splits pos.splits)
next
  case (2 k ops t)
  show ?case
  proof (cases "t_queue t Active")
    case (Cons n ns)
    then show ?thesis using 2 by (auto simp: first_of_def work_def)
  qed (use 2 in simp)
next
  case (3 k ops t q)
  then show ?case by auto
next
  case (4 k ops t n)
  have n: "n \<in> set (t_queue t Active)" "3 * work M t \<le> Suc k" using 4(5) by simp_all
  have "distinct (t_queue t Active) \<and> (\<exists>io. t_io t n = Some io \<and> n_mask io \<noteq> NBIO_DELETED) \<and>
     (\<exists>t'. pump_one ops t n = Inr t' \<and> I t' \<and>
       (t_queue t' Active = removeAll n (t_queue t Active) \<and> M t' \<le> M t \<or>
        (t_queue t' Active = t_queue t Active \<or> t_queue t' Active = removeAll n (t_queue t Active) @ [n]) \<and> M t' < M t))"
    using 4(3,4) n(1) unfolding serves_def by blast
  then obtain io t1 where d: "distinct (t_queue t Active)" and io: "t_io t n = Some io" "n_mask io \<noteq> NBIO_DELETED"
    and t1: "pump_one ops t n = Inr t1" "I t1"
    and q: "t_queue t1 Active = removeAll n (t_queue t Active) \<and> M t1 \<le> M t \<or>
        (t_queue t1 Active = t_queue t Active \<or> t_queue t1 Active = removeAll n (t_queue t Active) @ [n]) \<and> M t1 < M t" by blast
  have w: "work M t1 < work M t" "M t1 \<le> M t" using q length_removeAll_in[OF d n(1)] by (auto simp: work_def)
  have sub: "m \<in> set (t_queue t Active) \<Longrightarrow> m \<noteq> n \<Longrightarrow> m \<in> set (t_queue t1 Active)" for m using q by auto
  let ?p = "Some (next_on t Active n)"
  have "case ?p of None \<Rightarrow> 3 * work M t1 + 1 \<le> k | Some (Head q) \<Rightarrow> q = Active \<and> 3 * work M t1 + 2 \<le> k
      | Some (Elem n) \<Rightarrow> n \<in> set (t_queue t1 Active) \<and> 3 * work M t1 \<le> k"
    using next_on_other[OF d n(1)] sub w(1) n(2) by auto
  moreover have "pump_active (Suc k) ops t (Some (Elem n)) = pump_active k ops t1 ?p"
    using io t1(1) n(1) by (simp add: io_at_def)
  ultimately show ?case using 4(2)[of io "next_on t Active n" t1] 4(3) io t1 n(1) w(2) by (force simp: io_at_def)
qed

definition destroys :: "nbio_ops \<Rightarrow> (iothread \<Rightarrow> bool) \<Rightarrow> bool" where
  "destroys ops I \<longleftrightarrow> (\<forall>t n. I t \<and> n \<in> set (t_queue t Deleted) \<longrightarrow> distinct (t_queue t Deleted) \<and>
     (\<exists>t'. op_dtor ops (unlink n t) n = Inr t' \<and> I t' \<and> (\<forall>q. t_queue t' q = removeAll n (t_queue t q))))"

lemma reap_all:
  assumes d: "destroys ops I"
  shows "I t \<Longrightarrow> t_queue t Active = [] \<Longrightarrow> t_queue t Deleted = ns \<Longrightarrow> length ns < k \<Longrightarrow>
    \<exists>t'. reap k ops Deleted t (first_of ns Deleted) = Inr t' \<and> I t' \<and> t_queue t' Active = [] \<and> t_queue t' Deleted = []"
proof (induction ns arbitrary: t k)
  case Nil
  then show ?case by (cases k) (auto simp: first_of_def)
next
  case (Cons n ns)
  obtain k' where k: "k = Suc k'" using Cons.prems(4) by (cases k) auto
  have "distinct (t_queue t Deleted) \<and>
     (\<exists>t'. op_dtor ops (unlink n t) n = Inr t' \<and> I t' \<and> (\<forall>q. t_queue t' q = removeAll n (t_queue t q)))"
    using d Cons.prems(1,3) unfolding destroys_def by force
  then obtain t' where dd: "n \<notin> set ns" and t': "op_dtor ops (unlink n t) n = Inr t'" "I t'" "\<And>q. t_queue t' q = removeAll n (t_queue t q)"
    using Cons.prems(3) by auto
  have n: "next_on t Deleted n = first_of ns Deleted" by (simp add: next_on_def Cons.prems(3))
  have "t_queue t' Active = []" "t_queue t' Deleted = ns" using t'(3) Cons.prems(2,3) dd by simp_all
  from Cons.IH[OF t'(2) this, of k'] show ?case using Cons.prems(3,4) k n t'(1) by (simp add: first_of_def[of "n # ns"])
qed

lemma pump_active_mono: "pump_active k ops t p = Inr t' \<Longrightarrow> k \<le> k' \<Longrightarrow> pump_active k' ops t p = Inr t'"
proof (induction k ops t p arbitrary: k' rule: pump_active.induct)
  case (2 k ops t)
  then show ?case by (cases k') (simp_all split: if_splits)
next
  case (3 k ops t q)
  then show ?case by (cases k') (simp_all split: if_splits)
next
  case (4 k ops t n)
  then obtain j where j: "k' = Suc j" "k \<le> j" by (cases k') auto
  obtain io where io: "io_at t n = Inr io" using 4(3) by (cases "io_at t n") auto
  show ?case
  proof (cases "n_mask io = NBIO_DELETED")
    case True
    then show ?thesis using 4(1)[of io j] 4(3) io j by simp
  next
    case False
    then have n: "n \<in> set (t_queue t Active)" using 4(3) io by (simp split: if_splits)
    obtain t1 where t1: "pump_one ops t n = Inr t1" using 4(3) io False n by (cases "pump_one ops t n") simp_all
    then show ?thesis using 4(2)[of io "next_on t Active n" t1 j] 4(3) io j n False by simp
  qed
qed simp

lemma reap_mono: "reap k ops q t p = Inr t' \<Longrightarrow> k \<le> k' \<Longrightarrow> reap k' ops q t p = Inr t'"
proof (induction k ops q t p arbitrary: k' rule: reap.induct)
  case (2 k ops q t q')
  then show ?case by (cases k') (simp_all split: if_splits)
next
  case (3 k ops q t n)
  then obtain j where j: "k' = Suc j" "k \<le> j" by (cases k') auto
  show ?case using 3 j by (cases "op_dtor ops (unlink n t) n") (auto simp: Let_def split: if_splits)
qed simp

lemma nbio_pump_returns:
  assumes s: "serves ops I M" and d: "destroys ops I" and t: "I t"
  shows "\<exists>K t1. I t1 \<and> t_queue t1 Active = [] \<and> t_queue t1 Deleted = [] \<and>
    (\<forall>k\<ge>K. nbio_pump k pl ops t as = (if t_queue t1 Inactive \<noteq> [] then ev_pump pl t1 as else Inr t1))"
proof -
  obtain t0 where t0: "pump_active (3 * work M t + 1) ops t None = Inr t0" "I t0" "t_queue t0 Active = []"
    using pump_active_drains[OF s t, where p = None and k = "3 * work M t + 1"] by auto
  define n where "n = Suc (length (t_queue t0 Deleted))"
  obtain t1 where t1: "reap n ops Deleted t0 (first_of (t_queue t0 Deleted) Deleted) = Inr t1" "I t1"
    "t_queue t1 Active = []" "t_queue t1 Deleted = []"
    using reap_all[OF d t0(2,3) refl, of n] by (auto simp: n_def)
  have "nbio_pump k pl ops t as = (if t_queue t1 Inactive \<noteq> [] then ev_pump pl t1 as else Inr t1)"
    if k: "max (3 * work M t + 1) n \<le> k" for k
    using pump_active_mono[OF t0(1), of k] reap_mono[OF t1(1), of k] k by (simp add: nbio_pump_def)
  then show ?thesis using t1(2-4) by (intro exI[of _ "max (3 * work M t + 1) n"] exI[of _ t1]) simp
qed

section \<open>Event descriptors are served\<close>

definition efd_idle :: "iothread \<Rightarrow> bool" where
  "efd_idle t \<longleftrightarrow> epoll_good t \<and> nbio_inv (epoll_reg t) t \<and>
     (\<forall>n \<in> set (t_queue t Active). \<exists>io. t_io t n = Some io \<and> n_mask io = NBIO_READ \<and> n_flags io = NBIO_READ)"

definition efd_pending :: "iothread \<Rightarrow> nat" where
  "efd_pending t = card {n \<in> set (t_queue t Active). \<exists>io. t_io t n = Some io \<and> t_efd t (n_fd io) \<noteq> 0}"

lemma flag_simps:
  "NBIO_READ AND NBIO_READ AND NBIO_WRITE = 0" "NBIO_READ AND NBIO_READ AND NBIO_READ \<noteq> 0"
  "NBIO_READ AND NBIO_ERROR = 0" "NBIO_READ AND NBIO_READ AND NOT NBIO_READ = 0" "NBIO_READ \<noteq> NBIO_DELETED"
  "NBIO_READ AND NOT NBIO_READ = 0"
  by (simp_all add: NBIO_READ_def NBIO_WRITE_def NBIO_ERROR_def NBIO_DELETED_def)

lemma efd_serves: "serves (efd_ops (eventloop_epoll True) (\<lambda>t v. Inr t) False) efd_idle efd_pending"
  unfolding serves_def
proof (intro allI impI conjI)
  fix t n assume a: "efd_idle t \<and> n \<in> set (t_queue t Active)"
  have g: "epoll_good t" "nbio_inv (epoll_reg t) t" and n: "n \<in> set (t_queue t Active)" using a by (auto simp: efd_idle_def)
  obtain io where io: "t_io t n = Some io" "n_mask io = NBIO_READ" "n_flags io = NBIO_READ"
    using a by (auto simp: efd_idle_def)
  show d: "distinct (t_queue t Active)" using g(2) by (auto simp: nbio_inv_def linked_def)
  show "\<exists>io. t_io t n = Some io \<and> n_mask io \<noteq> NBIO_DELETED" using io flag_simps by auto
  let ?ops = "efd_ops (eventloop_epoll True) (\<lambda>t v. Inr t) False"
  let ?P = "\<lambda>t. {n \<in> set (t_queue t Active). \<exists>io. t_io t n = Some io \<and> t_efd t (n_fd io) \<noteq> 0}"
  show "\<exists>t'. pump_one ?ops t n = Inr t' \<and> efd_idle t' \<and>
      (t_queue t' Active = removeAll n (t_queue t Active) \<and> efd_pending t' \<le> efd_pending t \<or>
       (t_queue t' Active = t_queue t Active \<or> t_queue t' Active = removeAll n (t_queue t Active) @ [n]) \<and> efd_pending t' < efd_pending t)"
  proof (cases "t_efd t (n_fd io) = 0")
    case True
    obtain t' where t': "nbio_inactive (eventloop_epoll True) t n NBIO_READ = Inr t'" "epoll_good t'" "nbio_inv (epoll_reg t') t'"
      "same_core (list_move_tail n Inactive (set_mf t n io NBIO_READ 0)) t'"
      using ep.nbio_inactive_ok[OF g io(1), of NBIO_READ] io(2,3) flag_simps by auto
    have tq: "t_queue t' Active = removeAll n (t_queue t Active)" "t_efd t' = t_efd t"
      using t'(4) by (simp_all add: same_core_def set_mf_def list_move_tail_def unlink_def)
    have h: "t_io (list_move_tail n Inactive (set_mf t n io NBIO_READ 0)) n = Some (io\<lparr>n_mask := NBIO_READ, n_flags := 0\<rparr>)"
      by (simp add: set_mf_def)
    obtain io' where io': "t_io t' n = Some io'" "n_flags io' = 0" using same_coreD(3)[OF t'(4) h] by (auto simp: io_core_def)
    have oth: "map_option io_core (t_io t' m) = map_option io_core (t_io t m)" if "m \<noteq> n" for m
      using t'(4) that by (simp add: same_core_def set_mf_def)
    have idle: "efd_idle t'"
      unfolding efd_idle_def
    proof (intro conjI t'(2,3) ballI)
      fix m assume "m \<in> set (t_queue t' Active)"
      then have m: "m \<noteq> n" "m \<in> set (t_queue t Active)" using tq(1) by auto
      then obtain im where "t_io t m = Some im" "n_mask im = NBIO_READ" "n_flags im = NBIO_READ" using a by (auto simp: efd_idle_def)
      then show "\<exists>im. t_io t' m = Some im \<and> n_mask im = NBIO_READ \<and> n_flags im = NBIO_READ" using oth[OF m(1)] by (auto simp: io_core_def)
    qed
    have "?P t' \<subseteq> ?P t"
    proof
      fix m assume "m \<in> ?P t'"
      then obtain im where m: "m \<noteq> n" "m \<in> set (t_queue t Active)" "t_io t' m = Some im" "t_efd t (n_fd im) \<noteq> 0" using tq by auto
      then show "m \<in> ?P t" using oth[OF m(1)] by (cases "t_io t m") (auto simp: io_core_def)
    qed
    then have "efd_pending t' \<le> efd_pending t" unfolding efd_pending_def by (intro card_mono) simp_all
    moreover have "pump_one ?ops t n = Inr t'"
      using io True t'(1) io' flag_simps
      by (simp add: pump_one_def pump_flag_def io_at_def efd_ops_def efd_read_def and.assoc)
    ultimately show ?thesis using idle tq(1) by blast
  next
    case False
    let ?t' = "t\<lparr>t_efd := (t_efd t)(n_fd io := 0)\<rparr>"
    have "epoll_good ?t'" "epoll_reg ?t' = epoll_reg t"
      using g(1) by (simp_all add: epoll_good_def epoll_reg_def fun_eq_iff split: option.splits)
    moreover have "nbio_inv (epoll_reg t) ?t'" by (rule nbio_inv_same[OF g(2)]) simp_all
    ultimately have idle: "efd_idle ?t'" using a by (simp add: efd_idle_def)
    have "n \<in> ?P t" "n \<notin> ?P ?t'" "?P ?t' \<subseteq> ?P t" using False n io(1) by (auto split: if_splits)
    then have "?P ?t' \<subset> ?P t" by blast
    then have "efd_pending ?t' < efd_pending t" unfolding efd_pending_def by (intro psubset_card_mono) simp_all
    moreover have "pump_one ?ops t n = Inr ?t'"
      using io False flag_simps by (simp add: pump_one_def pump_flag_def io_at_def efd_ops_def efd_read_def and.assoc)
    ultimately show ?thesis using idle by auto
  qed
qed

lemma efd_destroys: "destroys (efd_ops (eventloop_epoll True) (\<lambda>t v. Inr t) False) efd_idle"
  unfolding destroys_def
proof (intro allI impI conjI)
  fix t n assume a: "efd_idle t \<and> n \<in> set (t_queue t Deleted)"
  then have g: "epoll_good t" "nbio_inv (epoll_reg t) t" and n: "n \<in> set (t_queue t Deleted)" by (auto simp: efd_idle_def)
  show "distinct (t_queue t Deleted)" using g(2) by (auto simp: nbio_inv_def linked_def)
  obtain io where io: "t_io t n = Some io" using g(2) n by (force simp: nbio_inv_def)
  let ?t' = "(unlink n t)\<lparr>t_io := (t_io t)(n := None), t_epoll := (t_epoll t)(n_fd io := None)\<rparr>"
  have "epoll_good ?t' \<and> epoll_reg ?t' = (epoll_reg t)(n := None)"
    using epoll_dtor_law[OF g(1) io, of "\<lambda>q. removeAll n (t_queue t q)"] unfolding unlink_def .
  then have "efd_idle ?t'" using nbio_inv_unlink[OF g(2), of n] a unfolding efd_idle_def by (auto simp: unlink_def)
  moreover have "op_dtor (efd_ops (eventloop_epoll True) (\<lambda>t v. Inr t) False) (unlink n t) n = Inr ?t'"
    using io by (simp add: efd_ops_def efd_dtor_def io_at_def unlink_def)
  ultimately show "\<exists>t'. op_dtor (efd_ops (eventloop_epoll True) (\<lambda>t v. Inr t) False) (unlink n t) n = Inr t' \<and> efd_idle t' \<and>
      (\<forall>q. t_queue t' q = removeAll n (t_queue t q))" by (intro exI[of _ ?t']) (simp add: unlink_def)
qed

section \<open>The poll back end\<close>

text \<open>The operations keep the contract: every object has an entry of its own in the array.\<close>

definition poll_good :: "iothread \<Rightarrow> bool" where
  "poll_good t \<longleftrightarrow> t_num_pfd t \<le> length (t_pfd t) \<and>
     (\<forall>n io. t_io t n = Some io \<and> 0 \<le> n_poll io \<longrightarrow> nat (n_poll io) < t_num_pfd t \<and> p_fd (t_pfd t ! nat (n_poll io)) = n_fd io) \<and>
     (\<forall>n n' io io'. t_io t n = Some io \<and> t_io t n' = Some io' \<and> 0 \<le> n_poll io \<and> n_poll io = n_poll io' \<longrightarrow> n = n')"

definition poll_reg :: "iothread \<Rightarrow> nat \<rightharpoonup> byte" where
  "poll_reg t n = (case t_io t n of None \<Rightarrow> None
     | Some io \<Rightarrow> if n_poll io < 0 then None else Some (rw_of (p_events (t_pfd t ! nat (n_poll io)))))"

lemma rw_of_poll_events: "rw_of (poll_events m) = m AND RW"
proof -
  have "rw_of (poll_events m) = rw_of (epoll_events m)"
    unfolding rw_of_def epoll_events_def poll_events_def EPOLLIN_def EPOLLOUT_def EPOLLERR_def EPOLLHUP_def EPOLLET_def
    by (cases "m AND NBIO_READ \<noteq> 0"; cases "m AND NBIO_WRITE \<noteq> 0") simp_all
  then show ?thesis by (simp add: rw_of_events)
qed

lemma poll_goodD:
  assumes "poll_good t"
  shows "t_num_pfd t \<le> length (t_pfd t)"
    "t_io t n = Some io \<Longrightarrow> 0 \<le> n_poll io \<Longrightarrow> nat (n_poll io) < t_num_pfd t \<and> p_fd (t_pfd t ! nat (n_poll io)) = n_fd io"
    "t_io t n = Some io \<Longrightarrow> t_io t n' = Some io' \<Longrightarrow> 0 \<le> n_poll io \<Longrightarrow> n_poll io = n_poll io' \<Longrightarrow> n = n'"
  using assms unfolding poll_good_def by blast+

lemma poll_clear:
  assumes g: "poll_good t" and io': "n_poll io' < 0" and n: "t_io t n = None \<or> t_io t n = Some io"
  shows "poll_good (t\<lparr>t_io := (t_io t)(n \<mapsto> io')\<rparr>) \<and> poll_reg (t\<lparr>t_io := (t_io t)(n \<mapsto> io')\<rparr>) = (poll_reg t)(n := None)"
proof -
  have "poll_good (t\<lparr>t_io := (t_io t)(n \<mapsto> io')\<rparr>)"
    unfolding poll_good_def using poll_goodD[OF g] io' by (auto split: if_splits)
  then show ?thesis using io' by (auto simp: poll_reg_def fun_eq_iff split: option.splits)
qed

lemma poll_active_law:
  assumes g: "poll_good t" and io: "t_io t n = Some io"
  shows "\<exists>t'. poll_active t n = Inr t' \<and> poll_good t' \<and> same_core t t' \<and> poll_reg t' = (poll_reg t)(n := None)"
  using poll_clear[OF g, of "io\<lparr>n_poll := -1\<rparr>" n] io
  by (auto simp: poll_active_def io_upd_def io_at_def same_core_def io_core_def)

lemma poll_append:
  assumes g: "poll_good t" and io: "t_io t n = Some io" and room: "t_num_pfd t < length (t_pfd t)"
    and t': "t' = t\<lparr>t_pfd := (t_pfd t)[t_num_pfd t := \<lparr>p_fd = n_fd io, p_events = poll_events (n_mask io)\<rparr>],
      t_num_pfd := t_num_pfd t + 1, t_io := (t_io t)(n \<mapsto> io\<lparr>n_poll := int (t_num_pfd t)\<rparr>)\<rparr>"
  shows "poll_good t' \<and> same_core t t' \<and> poll_reg t' = (poll_reg t)(n \<mapsto> n_mask io AND RW)"
proof (intro conjI)
  note gd = poll_goodD[OF g]
  have lt: "nat (n_poll io') < t_num_pfd t" if "t_io t m = Some io'" "0 \<le> n_poll io'" for m io' using gd(2)[OF that] by simp
  have ne: "n_poll io' \<noteq> int (t_num_pfd t)" if "t_io t m = Some io'" for m io' using lt[OF that] by auto
  show "poll_good t'"
    unfolding poll_good_def
  proof (intro conjI allI impI)
    show "t_num_pfd t' \<le> length (t_pfd t')" using room by (simp add: t')
  next
    fix m io' assume m: "t_io t' m = Some io' \<and> 0 \<le> n_poll io'"
    show "nat (n_poll io') < t_num_pfd t'" using m lt[of m io'] by (auto simp: t' split: if_splits)
    show "p_fd (t_pfd t' ! nat (n_poll io')) = n_fd io'" using m gd(2)[of m io'] room by (auto simp: t' split: if_splits)
  next
    fix m m' io1 io2 assume "t_io t' m = Some io1 \<and> t_io t' m' = Some io2 \<and> 0 \<le> n_poll io1 \<and> n_poll io1 = n_poll io2"
    then show "m = m'" using gd(3)[of m io1 m' io2] ne[of m' io2] ne[of m io1] by (auto simp: t' split: if_splits)
  qed
  show "same_core t t'" using io by (auto simp: same_core_def t' io_core_def)
  show "poll_reg t' = (poll_reg t)(n \<mapsto> n_mask io AND RW)"
  proof
    fix m
    show "poll_reg t' m = ((poll_reg t)(n \<mapsto> n_mask io AND RW)) m"
      using lt[of m] room by (cases "m = n") (auto simp: poll_reg_def t' rw_of_poll_events split: option.splits)
  qed
qed

lemma poll_grow:
  assumes "poll_good t"
  shows "poll_good (t\<lparr>t_pfd := t_pfd t @ xs\<rparr>)" "poll_reg (t\<lparr>t_pfd := t_pfd t @ xs\<rparr>) = poll_reg t" "same_core t (t\<lparr>t_pfd := t_pfd t @ xs\<rparr>)"
proof -
  note gd = poll_goodD[OF assms]
  have nth: "(t_pfd t @ xs) ! nat (n_poll io) = t_pfd t ! nat (n_poll io)" if "t_io t n = Some io" "0 \<le> n_poll io" for n io
    using gd(1) gd(2)[OF that] by (simp add: nth_append)
  show "poll_good (t\<lparr>t_pfd := t_pfd t @ xs\<rparr>)"
    unfolding poll_good_def
  proof (intro conjI allI impI)
    fix n io assume "t_io (t\<lparr>t_pfd := t_pfd t @ xs\<rparr>) n = Some io \<and> 0 \<le> n_poll io"
    then show "nat (n_poll io) < t_num_pfd (t\<lparr>t_pfd := t_pfd t @ xs\<rparr>)"
      "p_fd (t_pfd (t\<lparr>t_pfd := t_pfd t @ xs\<rparr>) ! nat (n_poll io)) = n_fd io" using gd(2)[of n io] nth[of n io] by simp_all
  qed (use gd(1,3) in auto)
  show "poll_reg (t\<lparr>t_pfd := t_pfd t @ xs\<rparr>) = poll_reg t"
    using nth by (auto simp: poll_reg_def fun_eq_iff split: option.splits)
  show "same_core t (t\<lparr>t_pfd := t_pfd t @ xs\<rparr>)" by (simp add: same_core_def)
qed

lemma same_core_trans: "same_core a b \<Longrightarrow> same_core b c \<Longrightarrow> same_core a c"
  by (simp add: same_core_def)

lemma poll_inactive_law:
  assumes g: "poll_good t" and io: "t_io t n = Some io"
  shows "\<exists>t'. poll_inactive True t n = Inr t' \<and> poll_good t' \<and> same_core t t' \<and> poll_reg t' = (poll_reg t)(n \<mapsto> n_mask io AND RW)"
proof -
  define u where "u = (if length (t_pfd t) \<le> t_num_pfd t then t\<lparr>t_pfd := t_pfd t @ replicate 8 \<lparr>p_fd = 0, p_events = 0\<rparr>\<rparr> else t)"
  have u: "poll_good u" "poll_reg u = poll_reg t" "same_core t u" "t_io u n = Some io" "t_num_pfd u < length (t_pfd u)"
    using g poll_grow[OF g] io poll_goodD(1)[OF g] same_core_refl by (auto simp: u_def)
  let ?t' = "u\<lparr>t_pfd := (t_pfd u)[t_num_pfd u := \<lparr>p_fd = n_fd io, p_events = poll_events (n_mask io)\<rparr>],
      t_num_pfd := t_num_pfd u + 1, t_io := (t_io u)(n \<mapsto> io\<lparr>n_poll := int (t_num_pfd u)\<rparr>)\<rparr>"
  have "poll_inactive True t n = Inr ?t'"
    using io by (cases "length (t_pfd t) \<le> t_num_pfd t")
      (simp_all add: poll_inactive_def upsize_pfdset_def u_def io_at_def io_upd_def Let_def)
  then show ?thesis using poll_append[OF u(1,4,5) refl] same_core_trans[OF u(3)] u(2) by auto
qed

lemma poll_queue_frame: "poll_good (t\<lparr>t_queue := qs\<rparr>) = poll_good t" "poll_reg (t\<lparr>t_queue := qs\<rparr>) = poll_reg t"
  by (simp_all add: poll_good_def poll_reg_def fun_eq_iff split: option.splits)

lemma poll_mask_frame:
  assumes g: "poll_good t" and io: "t_io t n = Some io"
  shows "poll_good (set_mf t n io m f) \<and> poll_reg (set_mf t n io m f) = poll_reg t"
proof -
  have "poll_good (set_mf t n io m f)"
    unfolding poll_good_def set_mf_def using poll_goodD[OF g] io by (auto split: if_splits)
  then show ?thesis using io by (auto simp: poll_reg_def set_mf_def fun_eq_iff split: option.splits)
qed

lemma poll_add_law:
  assumes g: "poll_good t" and n: "t_io t n = None"
  shows "\<exists>t'. poll_active (set_mf t n io m f) n = Inr t' \<and> poll_good t' \<and> same_core (set_mf t n io m f) t' \<and>
    poll_reg t' = (poll_reg t)(n := None)"
  using poll_clear[OF g, of "io\<lparr>n_mask := m, n_flags := f, n_poll := -1\<rparr>" n] n
  by (auto simp: poll_active_def io_upd_def io_at_def same_core_def io_core_def set_mf_def)

interpretation po: registry "eventloop_poll True" poll_good poll_reg "\<lambda>_ _. True"
  by unfold_locales
    (use poll_active_law poll_inactive_law poll_add_law poll_queue_frame poll_mask_frame in \<open>simp_all add: eventloop_poll_def\<close>)

lemma rw_flags_zero: "NBIO_READ AND f AND NOT NBIO_READ = (0 :: byte)"
proof -
  have "NBIO_READ AND NOT NBIO_READ = 0" by (simp add: NBIO_READ_def)
  then show ?thesis by (metis and.left_commute and_zero_eq and.commute)
qed

text \<open>
  A hang-up alone, reported for an object that waits to write only, leaves the loop
  spinning: the object stays active and no callback is ever called.
\<close>

lemma pump_spins:
  assumes "t_queue t Active = [n]" "t_io t n = Some io" "n_flags io AND n_mask io = 0" "n_flags io AND NBIO_ERROR = 0"
    "n_mask io \<noteq> NBIO_DELETED" "case p of None \<Rightarrow> True | Some p \<Rightarrow> p = Elem n \<or> p = Head Active"
  shows "pump_active k ops t p = Inl Out_of_fuel"
  using assms
proof (induction k ops t p rule: pump_active.induct)
  case (4 k ops t m)
  then have "pump_one ops t n = Inr t" "next_on t Active n = Head Active"
    by (simp_all add: pump_one_def pump_flag_def io_at_def next_on_def first_of_def)
  then show ?case using 4 by (simp add: io_at_def)
qed (auto simp: first_of_def split: option.splits)

lemma hup_spins:
  assumes "t_queue t Active = []" "t_io t n = Some io" "n_mask io = NBIO_WRITE"
  shows "\<exists>t'. epoll_report t [(n, EPOLLHUP)] = Inr t' \<and> (\<forall>k ops. pump_active k ops t' None = Inl Out_of_fuel)"
proof -
  define t' where "t' = list_move_tail n Active (t\<lparr>t_io := (t_io t)(n \<mapsto> io\<lparr>n_flags := epoll_flags EPOLLHUP\<rparr>)\<rparr>)"
  have "epoll_report t [(n, EPOLLHUP)] = Inr t'" using assms(2) by (simp add: io_upd_def io_at_def t'_def)
  moreover have "pump_active k ops t' None = Inl Out_of_fuel" for k ops
    by (rule pump_spins[of t' n "io\<lparr>n_flags := epoll_flags EPOLLHUP\<rparr>"])
      (use assms in \<open>simp_all add: t'_def epoll_flags_def EPOLLHUP_def EPOLLIN_def EPOLLOUT_def EPOLLERR_def NBIO_READ_def
        NBIO_WRITE_def NBIO_ERROR_def NBIO_DELETED_def\<close>)
  ultimately show ?thesis by blast
qed

section \<open>Properties\<close>

definition ev_list :: "eventloop list" where
  "ev_list = eventloop_add (eventloop_add [] (eventloop_poll True)) (eventloop_epoll True)"

lemma ev_list_eq: "ev_list = [eventloop_epoll True, eventloop_poll True]"
  by (simp add: ev_list_def eventloop_add_def eventloop_epoll_def eventloop_poll_def)

lemma nbio_init_epoll:
  assumes "t_io t00 = Map.empty" "\<And>h. t_queue t00 (Waitq h) = []" "nbio_init ev_list t00 None = (Some pl, t0)"
  shows "pl = eventloop_epoll True \<and> epoll_good t0 \<and> nbio_inv (epoll_reg t0) t0"
proof -
  have t0: "t0 = t00\<lparr>t_epoll := Map.empty, t_queue := (t_queue t00)(Active := [], Inactive := [], Deleted := [])\<rparr>"
    and pl: "pl = eventloop_epoll True"
    using assms(3) by (auto simp: nbio_init_def ev_list_eq eventloop_epoll_def epoll_init_def)
  have q: "t_queue t0 q = []" for q using assms(2) by (cases q) (simp_all add: t0)
  have io: "t_io t0 = Map.empty" "t_epoll t0 = Map.empty" using assms(1) by (simp_all add: t0)
  then have "linked t0" using q by (simp add: linked_def)
  then show ?thesis using pl io q by (simp add: epoll_good_def nbio_inv_def)
qed


definition blank_thread :: iothread where
  "blank_thread = \<lparr>t_queue = \<lambda>_. [], t_io = Map.empty, t_epoll = Map.empty, t_pfd = [], t_num_pfd = 0, t_efd = \<lambda>_. 0\<rparr>"

definition blank_io :: "int \<Rightarrow> nbio" where
  "blank_io fd = \<lparr>n_fd = fd, n_mask = 0, n_flags = 0, n_poll = 0\<rparr>"

text \<open>One object added, on the active list and with its flags set.\<close>

definition one_active :: iothread where
  "one_active = blank_thread\<lparr>t_queue := (\<lambda>_. [])(Active := [1]), t_io := [1 \<mapsto> (blank_io 3)\<lparr>n_mask := 1, n_flags := 1\<rparr>]\<rparr>"

lemma one_active_add: "nbio_add (eventloop_epoll True) blank_thread 1 (blank_io 3) NBIO_READ = Inr one_active"
  by (simp add: nbio_add_def do_set_wait_def io_at_def io_upd_def blank_io_def blank_thread_def NBIO_DELETED_def NBIO_READ_def
      NBIO_WAIT_def eventloop_epoll_def epoll_active_def list_move_tail_def unlink_def one_active_def Let_def fun_eq_iff)

lemma nbio_init_blank: "nbio_init ev_list blank_thread None = (Some (eventloop_epoll True), blank_thread)"
  by (simp add: nbio_init_def ev_list_eq eventloop_epoll_def epoll_init_def blank_thread_def fun_eq_iff)


text \<open>
  C39.  One round of the event loop comes to an end: if serving an active object takes it
  off the active list or makes progress, and destructors do no more than free their
  object, then with enough fuel \<open>nbio_pump\<close> drains the active list, destroys every deleted
  object and then asks the back end for new events, if anything is left to wait for.
\<close>

theorem nbio_pump_drains:
  assumes "serves ops I M" "destroys ops I" "I t"
  shows "\<exists>K t1. I t1 \<and> t_queue t1 Active = [] \<and> t_queue t1 Deleted = [] \<and>
    (\<forall>k\<ge>K. nbio_pump k pl ops t as = (if t_queue t1 Inactive \<noteq> [] then ev_pump pl t1 as else Inr t1))"
  by (rule nbio_pump_returns[OF assms])

theorem nbio_pump_drains_witness:
  "\<exists>K t1. t_queue t1 Active = [] \<and> (\<forall>k\<ge>K. nbio_pump k (eventloop_epoll True)
     (efd_ops (eventloop_epoll True) (\<lambda>t v. Inr t) False) one_active [Failed] = Inr t1)"
proof -
  have "nbio_inv (epoll_reg one_active) one_active"
    by (auto simp: nbio_inv_def linked_def one_active_def blank_thread_def epoll_reg_def blank_io_def NBIO_WAIT_def)
  then have "efd_idle one_active"
    by (auto simp: efd_idle_def epoll_good_def one_active_def blank_thread_def blank_io_def NBIO_READ_def split: if_splits)
  from nbio_pump_drains[OF efd_serves efd_destroys this, of "eventloop_epoll True" "[Failed]"]
  show ?thesis by (auto simp: eventloop_epoll_def cong: if_cong)
qed

text \<open>
  C40.  The \<open>poll\<close> back end loses events.  Of two objects that wait to read, let only the first
  become ready.  The entry of the second is moved up in the array, but its index is not
  changed.  When the first waits again both objects have the same index; an event of the
  second is then reported to nobody, and after that the second descriptor is not in the
  array any more: its object waits for ever.
\<close>

theorem poll_loses_events:
  assumes t: "t_queue t Inactive = [a, b]" "t_queue t Active = []" "a \<noteq> b" "t_num_pfd t = 2" "t_pfd t = pa # pb # ps"
    and io: "t_io t a = Some ia" "t_io t b = Some ib" "n_poll ia = 0" "n_poll ib = 1" "n_mask ia = NBIO_READ" "n_mask ib = NBIO_READ"
    and pfd: "p_fd pa = n_fd ia" "p_fd pb = n_fd ib" and ev: "ev \<noteq> 0" "ev' \<noteq> 0"
  shows "\<exists>t1 t2 t3. poll_pump t [Ready [(0, ev)]] = Inr t1 \<and> t_queue t1 Active = [a] \<and>
    nbio_inactive (eventloop_poll True) t1 a NBIO_READ = Inr t2 \<and> map p_fd (take 2 (t_pfd t2)) = [n_fd ib, n_fd ia] \<and>
    map_option n_poll (t_io t2 a) = Some 1 \<and> map_option n_poll (t_io t2 b) = Some 1 \<and>
    poll_pump t2 [Ready [(0, ev')]] = Inr t3 \<and> t_queue t3 Active = [] \<and> map p_fd (take (t_num_pfd t3) (t_pfd t3)) = [n_fd ia, n_fd ia]"
proof -
  let ?f = "epoll_flags ev"
  define t1 where "t1 = list_move_tail a Active (t\<lparr>t_num_pfd := 1, t_pfd := pb # pb # ps, t_io := (t_io t)(a \<mapsto> ia\<lparr>n_flags := ?f, n_poll := -1\<rparr>)\<rparr>)"
  have 1: "poll_pump t [Ready [(0, ev)]] = Inr t1"
    using t io ev(1) by (simp add: revents_of_def io_at_def io_upd_def t1_def list_move_tail_def unlink_def Let_def fun_eq_iff)
  define pa' where "pa' = \<lparr>p_fd = n_fd ia, p_events = poll_events NBIO_READ\<rparr>"
  define t2 where "t2 = (list_move_tail a Inactive t1)\<lparr>t_num_pfd := 2, t_pfd := pb # pa' # ps,
      t_io := (t_io t)(a \<mapsto> ia\<lparr>n_flags := ?f AND NOT NBIO_READ, n_poll := 1\<rparr>)\<rparr>"
  have 2: "nbio_inactive (eventloop_poll True) t1 a NBIO_READ = Inr t2"
    using io rw_flags_zero[of ?f]
    by (simp add: nbio_inactive_def io_at_def io_upd_def t1_def eventloop_poll_def poll_inactive_def t2_def pa'_def
        list_move_tail_def unlink_def Let_def and.assoc fun_eq_iff)
  have q2: "t_queue t2 Inactive = [b, a]" "t_queue t2 Active = []" using t(1-3) by (simp_all add: t2_def t1_def)
  have io2: "t_io t2 a = Some (ia\<lparr>n_flags := ?f AND NOT NBIO_READ, n_poll := 1\<rparr>)" "t_io t2 b = Some ib"
    using t(3) io(2) by (simp_all add: t2_def)
  have 3: "poll_pump t2 [Ready [(0, ev')]] = Inr (t2\<lparr>t_pfd := pa' # pa' # ps, t_num_pfd := 2\<rparr>)"
    using q2(1) io2 io(4) by (simp add: revents_of_def io_at_def t2_def Let_def)
  show ?thesis
    by (intro exI[of _ t1] exI[of _ t2] exI[of _ "t2\<lparr>t_pfd := pa' # pa' # ps, t_num_pfd := 2\<rparr>"] conjI 1 2 3)
      (use q2 io2 pfd io(3,4) t in \<open>simp_all add: t1_def t2_def pa'_def numeral_2_eq_2\<close>)
qed


text \<open>Two objects that have been added and wait to read, on the \<open>poll\<close> back end.\<close>

definition two_waiting :: iothread where
  "two_waiting = blank_thread\<lparr>t_queue := (\<lambda>_. [])(Inactive := [1, 2]),
     t_io := [1 \<mapsto> \<lparr>n_fd = 3, n_mask = 1, n_flags = 0, n_poll = 0\<rparr>, 2 \<mapsto> \<lparr>n_fd = 4, n_mask = 1, n_flags = 0, n_poll = 1\<rparr>],
     t_pfd := [\<lparr>p_fd = 3, p_events = poll_events 1\<rparr>, \<lparr>p_fd = 4, p_events = poll_events 1\<rparr>] @ replicate 6 \<lparr>p_fd = 0, p_events = 0\<rparr>,
     t_num_pfd := 2\<rparr>"

theorem poll_loses_events_witness:
  "\<exists>t1 t2 t3. poll_pump two_waiting [Ready [(0, EPOLLIN)]] = Inr t1 \<and>
     nbio_inactive (eventloop_poll True) t1 1 NBIO_READ = Inr t2 \<and>
     poll_pump t2 [Ready [(0, EPOLLIN)]] = Inr t3 \<and> t_queue t3 Active = [] \<and> map p_fd (take (t_num_pfd t3) (t_pfd t3)) = [3, 3]"
proof -
  let ?io = "\<lambda>fd i. \<lparr>n_fd = fd, n_mask = 1, n_flags = 0, n_poll = i\<rparr>"
  let ?p = "\<lambda>fd. \<lparr>p_fd = fd, p_events = poll_events 1\<rparr>"
  have t: "t_queue two_waiting Inactive = [1, 2]" "t_queue two_waiting Active = []" "t_num_pfd two_waiting = 2"
    "t_pfd two_waiting = ?p 3 # ?p 4 # replicate 6 \<lparr>p_fd = 0, p_events = 0\<rparr>"
    "t_io two_waiting 1 = Some (?io 3 0)" "t_io two_waiting 2 = Some (?io 4 1)"
    by (simp_all add: two_waiting_def blank_thread_def)
  have "n_mask (?io fd i) = NBIO_READ" for fd i by (simp add: NBIO_READ_def)
  then show ?thesis
    using poll_loses_events[OF t(1,2) _ t(3,4,5,6), of EPOLLIN EPOLLIN] by (auto simp: EPOLLIN_def)
qed

end
