(* ===== verification/HttpConn.thy ===== *)
theory HttpConn
  imports HttpBuf Os Vhosts Nbio HttpMsg Normalize
begin

text \<open>
  A connection of the server (\<^verbatim>\<open>http_conn.c\<close>): its state, the operations the file back ends use,
  and the two synchronous back ends \<^verbatim>\<open>io_sendfile.c\<close> and \<^verbatim>\<open>io_sync.c\<close>.  One record holds the connection
  and the globals it touches: the counters, the open web roots, what is still to be read
  from the socket and what has been sent, and the answers of the system calls to come.
\<close>

section \<open>State\<close>

datatype conn_state = HTTP_CONN_REQUEST | HTTP_CONN_HEADER | HTTP_CONN_DATA | HTTP_CONN_DEAD

text \<open>A pointer to a connection buffer; the storage of different buffers does not overlap.\<close>

datatype bufp = is_null: Null_buf | Freed_buf | Buf "memory \<times> http_buf"

declare is_null_def [simp]

record http_conn =
  hc_nbio :: nbio
  hc_state :: conn_state
  hc_rstate :: rstate
  hc_io_state :: nat
  hc_webroot :: "nat option"
  hc_rptr :: nat
  hc_req :: bufp
  hc_res :: bufp
  hc_io_priv :: bufp
  hc_data_off :: nat
  hc_data_len :: nat
  hc_conn_close :: bool

text \<open>
  Asynchronous reads: the requests the kernel works on, their number as the program counts
  it, and whether the next allocations of a request succeed.
\<close>

record aio_req =
  cb_fd :: int
  cb_off :: nat
  cb_len :: nat

record aio_state =
  in_flight :: u32
  submitted :: "aio_req list"
  fresh_iocbs :: "bool list"

record world = http_conn +
  concurrency :: u32
  oomq :: "nat list"
  reqs :: u64
  open_roots :: roots
  nads_glob :: nads_globals
  files :: "int \<Rightarrow> bytes"          \<comment> \<open>contents by descriptor\<close>
  input :: bytes                   \<comment> \<open>what the peer has sent and nobody has read\<close>
  sent :: bytes                    \<comment> \<open>what has been sent to the peer\<close>
  answers :: "sysret list"
  fresh_bufs :: "(memory \<times> http_buf) option list"   \<comment> \<open>what the next allocations return\<close>
  aio :: aio_state

section \<open>The environment\<close>

definition next_answer :: "world \<Rightarrow> (sysret \<times> world) res" where
  "next_answer h = (case answers h of [] \<Rightarrow> Inl Blocked | a # s \<Rightarrow> Inr (a, h\<lparr>answers := s\<rparr>))"

definition alloc_buf :: "world \<Rightarrow> bufp \<times> world" where
  "alloc_buf h = (case fresh_bufs h of [] \<Rightarrow> (Null_buf, h)
     | None # bs \<Rightarrow> (Null_buf, h\<lparr>fresh_bufs := bs\<rparr>)
     | Some b # bs \<Rightarrow> (Buf b, h\<lparr>fresh_bufs := bs\<rparr>))"

text \<open>Freeing a null pointer does nothing, freeing twice is a fault.\<close>

definition free_buf :: "bufp \<Rightarrow> bufp res" where
  "free_buf p = (case p of Null_buf \<Rightarrow> Inr Null_buf | Freed_buf \<Rightarrow> Inl Out_of_bounds | Buf _ \<Rightarrow> Inr Freed_buf)"

definition buf_at :: "bufp \<Rightarrow> (memory \<times> http_buf) res" where
  "buf_at p = (case p of Null_buf \<Rightarrow> Inl Null_deref | Freed_buf \<Rightarrow> Inl Out_of_bounds | Buf b \<Rightarrow> Inr b)"

text \<open>\<open>send\<close>: how many bytes went out, or the error; at most what was asked for.\<close>

definition sys_send :: "world \<Rightarrow> bytes \<Rightarrow> ((errno + nat) \<times> world) res" where
  "sys_send h bs = rbind (next_answer h) (\<lambda>(a, h). case a of
     Err e \<Rightarrow> Inr (Inl e, h)
   | Ret n \<Rightarrow> let k = min n (length bs) in Inr (Inr k, h\<lparr>sent := sent h @ take k bs\<rparr>))"

definition sys_sendfile :: "world \<Rightarrow> int \<Rightarrow> nat \<Rightarrow> nat \<Rightarrow> ((errno + nat) \<times> world) res" where
  "sys_sendfile h fd off len = sys_send h (take len (drop off (files h fd)))"

definition sys_recv :: "world \<Rightarrow> nat \<Rightarrow> ((errno + bytes) \<times> world) res" where
  "sys_recv h len = rbind (next_answer h) (\<lambda>(a, h). case a of
     Err e \<Rightarrow> Inr (Inl e, h)
   | Ret n \<Rightarrow> let k = min n len in Inr (Inr (take k (input h)), h\<lparr>input := drop k (input h)\<rparr>))"

text \<open>What the operations of the event loop do to the object of the connection.\<close>

definition conn_set_wait :: "world \<Rightarrow> byte \<Rightarrow> world res" where
  "conn_set_wait h w = rassert (n_mask (hc_nbio h) \<noteq> NBIO_DELETED)
     (Inr (h\<lparr>hc_nbio := (hc_nbio h)\<lparr>n_mask := w AND NBIO_WAIT, n_flags := w AND NBIO_WAIT\<rparr>\<rparr>))"

definition conn_inactive :: "world \<Rightarrow> byte \<Rightarrow> world" where
  "conn_inactive h m = h\<lparr>hc_nbio := (hc_nbio h)\<lparr>n_flags := n_flags (hc_nbio h) AND NOT m\<rparr>\<rparr>"

definition conn_del :: "world \<Rightarrow> world" where
  "conn_del h = h\<lparr>hc_nbio := (hc_nbio h)\<lparr>n_mask := NBIO_DELETED, n_flags := 0\<rparr>\<rparr>"

section \<open>Closing a connection\<close>

definition wake_listeners :: "world \<Rightarrow> world" where
  "wake_listeners h = h\<lparr>oomq := []\<rparr>"

definition http_oom :: "world \<Rightarrow> nat \<Rightarrow> world" where
  "http_oom h listener = h\<lparr>oomq := removeAll listener (oomq h) @ [listener]\<rparr>"

text \<open>
  What is left to release depends on the state; \<open>ab\<close> is the \<open>abort\<close> operation of the file
  back end.
\<close>

definition kill_state :: "(world \<Rightarrow> world res) \<Rightarrow> world \<Rightarrow> world res" where
  "kill_state ab h = (case hc_state h of
     HTTP_CONN_REQUEST \<Rightarrow> rassert (is_null (hc_res h)) (Inr h)
   | HTTP_CONN_HEADER \<Rightarrow> rbind (free_buf (hc_res h)) (\<lambda>p. ab (h\<lparr>hc_res := p\<rparr>))
   | HTTP_CONN_DATA \<Rightarrow> ab h
   | HTTP_CONN_DEAD \<Rightarrow> Inl Aborted)"

definition http_kill :: "(world \<Rightarrow> world res) \<Rightarrow> world \<Rightarrow> world res" where
  "http_kill ab h =
    (if n_fd (hc_nbio h) = -1 then Inr h
     else let h = h\<lparr>hc_nbio := (hc_nbio h)\<lparr>n_fd := -1\<rparr>\<rparr> in
       rassert (concurrency h \<noteq> 0)
         (let h = h\<lparr>concurrency := concurrency h - 1\<rparr>;
              h = (if oomq h \<noteq> [] then wake_listeners h else h) in
          rbind (free_buf (hc_req h)) (\<lambda>p. let h = h\<lparr>hc_req := p\<rparr> in
            rbind (kill_state ab h) (\<lambda>h. Inr (conn_del (h\<lparr>hc_state := HTTP_CONN_DEAD\<rparr>))))))"

section \<open>What the file back ends may do with a connection\<close>

definition in_reply :: "world \<Rightarrow> 'a res \<Rightarrow> 'a res" where
  "in_reply h = rassert (hc_state h = HTTP_CONN_DATA \<or> hc_state h = HTTP_CONN_HEADER)"

definition root_fd :: "world \<Rightarrow> int res" where
  "root_fd h = (case hc_webroot h of None \<Rightarrow> Inl Null_deref
     | Some w \<Rightarrow> (case open_roots h w of None \<Rightarrow> Inl Out_of_bounds | Some r \<Rightarrow> Inr (webroot_get_fd r)))"

text \<open>The length, the descriptor and the offset.\<close>

definition http_conn_data :: "world \<Rightarrow> (nat \<times> int \<times> nat) res" where
  "http_conn_data h = in_reply h (rbind (root_fd h) (\<lambda>fd. Inr (hc_data_len h, fd, hc_data_off h)))"

definition http_conn_data_read :: "world \<Rightarrow> nat \<Rightarrow> (nat \<times> world) res" where
  "http_conn_data_read h len = in_reply h (rassert (len \<le> hc_data_len h)
     (let h = h\<lparr>hc_data_len := hc_data_len h - len, hc_data_off := hc_data_off h + len\<rparr> in Inr (hc_data_len h, h)))"

definition http_conn_data_complete :: "(world \<Rightarrow> world res) \<Rightarrow> world \<Rightarrow> world res" where
  "http_conn_data_complete ab h = rassert (hc_state h = HTTP_CONN_DATA) (rassert (hc_data_len h = 0)
     (rbind (conn_set_wait (h\<lparr>hc_state := HTTP_CONN_REQUEST\<rparr>) NBIO_READ) (\<lambda>h.
        rbind (unref (open_roots h) (hc_webroot h)) (\<lambda>roots.
          let h = h\<lparr>open_roots := roots, hc_webroot := None\<rparr> in
          if hc_conn_close h then http_kill ab h else Inr h))))"

definition http_conn_abort :: "(world \<Rightarrow> world res) \<Rightarrow> world \<Rightarrow> world res" where
  "http_conn_abort ab h = in_reply h (http_kill ab h)"

definition http_conn_get_priv :: "world \<Rightarrow> (bufp \<times> nat) res" where
  "http_conn_get_priv h = in_reply h (Inr (hc_io_priv h, hc_io_state h))"

definition http_conn_set_priv :: "world \<Rightarrow> bufp \<Rightarrow> nat \<Rightarrow> world res" where
  "http_conn_set_priv h p st = in_reply h (Inr (h\<lparr>hc_io_state := st, hc_io_priv := p\<rparr>))"

definition http_conn_socket :: "world \<Rightarrow> int res" where
  "http_conn_socket h = in_reply h (Inr (n_fd (hc_nbio h)))"

definition http_conn_inactive :: "world \<Rightarrow> world res" where
  "http_conn_inactive h = in_reply h (Inr (conn_inactive h NBIO_WRITE))"

definition http_conn_wake_one :: "world \<Rightarrow> world res" where
  "http_conn_wake_one h = in_reply h (conn_set_wait h NBIO_WRITE)"

definition http_conn_to_waitq :: "world \<Rightarrow> world res" where
  "http_conn_to_waitq h = in_reply h (conn_set_wait h 0)"

definition http_conn_wait_on :: "world \<Rightarrow> byte \<Rightarrow> world res" where
  "http_conn_wait_on h w = in_reply h (conn_set_wait h w)"

section \<open>File back ends\<close>

record http_fio =
  fio_prep :: "world \<Rightarrow> (bool \<times> world) res"
  fio_write :: "world \<Rightarrow> (bool \<times> world) res"
  fio_abort :: "world \<Rightarrow> world res"

text \<open>\<^verbatim>\<open>io_sendfile.c\<close>.\<close>

definition SENDFILE_CHUNK :: nat where "SENDFILE_CHUNK = 65536"

definition io_sendfile_abort :: "world \<Rightarrow> world res" where "io_sendfile_abort h = Inr h"

definition io_sendfile_prep :: "world \<Rightarrow> (bool \<times> world) res" where "io_sendfile_prep h = Inr (True, h)"

definition io_sendfile_write :: "world \<Rightarrow> (bool \<times> world) res" where
  "io_sendfile_write h = rbind (http_conn_data h) (\<lambda>(len, fd, off).
     let len = (if len > SENDFILE_CHUNK then SENDFILE_CHUNK else len) in
     rbind (http_conn_socket h) (\<lambda>_.
       rbind (sys_sendfile h fd off len) (\<lambda>(ret, h). case ret of
         Inl e \<Rightarrow> if e = EAGAIN then rbind (http_conn_inactive h) (\<lambda>h. Inr (True, h)) else Inr (False, h)
       | Inr n \<Rightarrow> if n = 0 then Inr (False, h)
           else rbind (http_conn_data_read h n) (\<lambda>(left, h).
             if left = 0 then rbind (http_conn_data_complete io_sendfile_abort h) (\<lambda>h. Inr (True, h))
             else Inr (True, h)))))"

definition fio_sendfile :: http_fio where
  "fio_sendfile = \<lparr>fio_prep = io_sendfile_prep, fio_write = io_sendfile_write, fio_abort = io_sendfile_abort\<rparr>"

text \<open>\<^verbatim>\<open>io_sync.c\<close>.\<close>

definition io_sync_abort :: "world \<Rightarrow> world res" where
  "io_sync_abort h = rbind (http_conn_get_priv h) (\<lambda>(p, _). rbind (free_buf p) (\<lambda>p. Inr (h\<lparr>hc_io_priv := p\<rparr>)))"

definition io_sync_prep :: "world \<Rightarrow> (bool \<times> world) res" where
  "io_sync_prep h = (case alloc_buf h of
     (Null_buf, h) \<Rightarrow> Inr (False, h)
   | (p, h) \<Rightarrow> rbind (http_conn_set_priv h p 0) (\<lambda>h. Inr (True, h)))"

text \<open>The buffer is topped up from the file; \<open>False\<close> when that fails or meets the end of the file.\<close>

definition io_sync_fill :: "world \<Rightarrow> memory \<times> http_buf \<Rightarrow> (bool \<times> (memory \<times> http_buf) \<times> world) res" where
  "io_sync_fill h b = rbind (http_conn_data h) (\<lambda>(data_len, fd, data_off).
     rbind (buf_write (snd b)) (\<lambda>(wsz, _).
       if wsz = 0 then Inr (True, b, h)
       else let sz = (if wsz > data_len then data_len else wsz) in
         rbind (fd_pread (answers h) \<lparr>f_data = files h fd, f_pos = 0\<rparr> data_off sz False) (\<lambda>(ok, got, eof, s).
           let h = h\<lparr>answers := s\<rparr> in
           if \<not> ok \<or> eof then Inr (False, (store_bytes (fst b) (b_write (snd b)) got, snd b), h)
           else rbind (buf_put b got) (\<lambda>b.
             rbind (http_conn_data_read h (length got)) (\<lambda>(_, h). Inr (True, b, h))))))"

text \<open>The rest of the buffer is sent and dropped.\<close>

definition io_sync_drain :: "world \<Rightarrow> memory \<times> http_buf \<Rightarrow> (bool \<times> world) res" where
  "io_sync_drain h b = rbind (buf_read (snd b)) (\<lambda>_.
     rbind (http_conn_socket h) (\<lambda>_.
       rbind (sys_send h (queued (fst b) (snd b))) (\<lambda>(ret, h). case ret of
         Inl e \<Rightarrow> if e = EAGAIN then rbind (http_conn_inactive h) (\<lambda>h. Inr (True, h)) else Inr (False, h)
       | Inr n \<Rightarrow> if n = 0 then Inr (False, h)
           else rbind (buf_shift b n) (\<lambda>b. rbind (buf_read (snd b)) (\<lambda>(rsz, _).
             let h = h\<lparr>hc_io_priv := Buf b\<rparr> in
             if rsz + hc_data_len h = 0
             then rbind (http_conn_set_priv h Null_buf 0) (\<lambda>h.
               rbind (http_conn_data_complete io_sync_abort h) (\<lambda>h. Inr (True, h)))
             else rbind (buf_write (snd b)) (\<lambda>(wsz, _).
               if hc_data_len h > wsz then rbind (buf_pack b) (\<lambda>b. Inr (True, h\<lparr>hc_io_priv := Buf b\<rparr>))
               else Inr (True, h)))))))"

definition io_sync_write :: "world \<Rightarrow> (bool \<times> world) res" where
  "io_sync_write h = rbind (http_conn_get_priv h) (\<lambda>(p, _).
     rbind (buf_at p) (\<lambda>b.
       rbind (io_sync_fill h b) (\<lambda>(ok, b, h).
         let h = h\<lparr>hc_io_priv := Buf b\<rparr> in
         if \<not> ok then Inr (False, h) else io_sync_drain h b)))"

definition fio_sync :: http_fio where
  "fio_sync = \<lparr>fio_prep = io_sync_prep, fio_write = io_sync_write, fio_abort = io_sync_abort\<rparr>"

end
