(* ===== verification/HttpServe.thy ===== *)
theory HttpServe
  imports HttpConn
begin

text \<open>
  Answering requests (\<^verbatim>\<open>http_conn.c\<close>): the canned responses, the response head, the lookup of
  the requested object, and the callbacks for reading from and writing to the socket.  The
  virtual hosts, the fuel of the search in a web root and the name of the local address
  (for requests without a host) are arguments.
\<close>

section \<open>Canned responses\<close>

definition CRLF :: bytes where "CRLF = [13, 10]"

definition resp400 :: bytes where
  "resp400 = str ''HTTP/1.1 400 Bad Request'' @ CRLF @ str ''Content-Type: text/html'' @ CRLF @ str ''Content-Length: 82'' @ CRLF @
     str ''Connection: Close'' @ CRLF @ CRLF @
     str ''<html><head><title>Fuck Off</title></head>'' @ str ''<body><h1>Bad Request</h1></body></html>''"

definition resp500 :: bytes where
  "resp500 = str ''HTTP/1.1 500 Internal Server Error'' @ CRLF @ str ''Content-Type: text/html'' @ CRLF @ str ''Content-Length: 79'' @ CRLF @
     str ''Connection: Close'' @ CRLF @ CRLF @
     str ''<html><head><title>Fail Whale</title></head>'' @ str ''<body><h1>Sorry!</h1></body></html>''"

definition resp301 :: "bytes \<Rightarrow> bytes \<Rightarrow> bytes" where
  "resp301 host loc = str ''HTTP/1.1 301 Moved Permanently'' @ CRLF @ str ''Content-Type: text/html'' @ CRLF @ str ''Content-Length: 87'' @ CRLF @
     str ''Location: http://'' @ host @ loc @ CRLF @ CRLF @
     str ''<html><head><title>Object Moved</title></head>'' @ str ''<body><h1>Object Moved</h1></body></html>''"

definition resp403 :: bytes where
  "resp403 = str ''HTTP/1.1 403 Forbidden'' @ CRLF @ str ''Content-Type: text/html'' @ CRLF @ str ''Content-Length: 84'' @ CRLF @ CRLF @
     str ''<html><head><title>Fobidden</title></head>'' @ str ''<body><h1>Access denied</h1></body></html>''"

definition resp404 :: bytes where
  "resp404 = str ''HTTP/1.1 404 Object Not Found'' @ CRLF @ str ''Content-Type: text/html'' @ CRLF @ str ''Content-Length: 83'' @ CRLF @ CRLF @
     str ''<html><head><title>Fuck Off</title></head>'' @ str ''<body><h1>y u no find?</h1></body></html>''"

definition resp501 :: bytes where
  "resp501 = str ''HTTP/1.1 501 Method Not Implemented'' @ CRLF @ str ''Content-Type: text/html'' @ CRLF @ str ''Content-Length: 87'' @ CRLF @ CRLF @
     str ''<html><head><title>Fuck...</title></head>'' @ str ''<body><h1>y u no implement?</h1></body></html>''"

text \<open>The steps the canned responses share: the text must fit, and no data follows it.\<close>

definition respond :: "bytes \<Rightarrow> world \<Rightarrow> world res" where
  "respond text h = rbind (buf_at (hc_res h)) (\<lambda>b.
     rbind (buf_write (snd b)) (\<lambda>(sz, p). rassert (p \<noteq> None \<and> sz \<ge> length text)
       (rbind (buf_put b text) (\<lambda>b. Inr (h\<lparr>hc_res := Buf b, hc_data_len := 0\<rparr>)))))"

definition response_403 :: "world \<Rightarrow> world res" where "response_403 h = respond resp403 h"
definition response_404 :: "world \<Rightarrow> world res" where "response_404 h = respond resp404 h"

definition response_501 :: "world \<Rightarrow> world res" where
  "response_501 h = rbind (respond resp501 h) (\<lambda>h. Inr (h\<lparr>hc_conn_close := True\<rparr>))"

definition response_400 :: "world \<Rightarrow> world res" where
  "response_400 h = rbind (respond resp400 h) (\<lambda>h. Inr (h\<lparr>hc_conn_close := True\<rparr>))"

definition response_500 :: "world \<Rightarrow> world res" where
  "response_500 h = rbind (respond resp500 h) (\<lambda>h. Inr (h\<lparr>hc_conn_close := True\<rparr>))"

text \<open>
  What \<open>snprintf\<close> stores of a text in \<open>n\<close> bytes, and the redirection.  The format alone is
  eight bytes longer than the text around the two strings.
\<close>

definition snprintf_bytes :: "nat \<Rightarrow> bytes \<Rightarrow> bytes" where
  "snprintf_bytes n text = (if n = 0 then [] else take (n - 1) text @ [0])"

definition response_301 :: "world \<Rightarrow> bytes \<Rightarrow> bytes \<Rightarrow> world res" where
  "response_301 h host loc = rbind (buf_at (hc_res h)) (\<lambda>(m, b).
     rbind (buf_write b) (\<lambda>(sz, p). rassert (p \<noteq> None \<and> sz \<ge> length (resp301 [] []) + 8)
       (let text = resp301 (cstr host) (cstr loc); m = store_bytes m (b_write b) (snprintf_bytes sz text) in
        rbind (buf_done_write b (length text)) (\<lambda>(_, b). Inr (h\<lparr>hc_res := Buf (m, b), hc_data_len := 0\<rparr>)))))"

section \<open>The response head\<close>

definition etag_digits :: bytes where "etag_digits = str ''01234567890abcdef''"

definition print_etag :: "bytes \<Rightarrow> bytes" where
  "print_etag etag = concat (map (\<lambda>c. [etag_digits ! unat (drop_bit 4 c), etag_digits ! unat (c AND 15)]) etag)"

text \<open>Decimal numbers, and what \<open>printf\<close> pads them with.\<close>

fun print_dec :: "nat \<Rightarrow> bytes" where
  "print_dec n = (if n < 10 then [of_nat (48 + n)] else print_dec (n div 10) @ [of_nat (48 + n mod 10)])"

declare print_dec.simps [simp del]

definition pad_left :: "byte \<Rightarrow> nat \<Rightarrow> bytes \<Rightarrow> bytes" where
  "pad_left c w s = replicate (w - length s) c @ s"

record tm =
  tm_sec :: nat
  tm_min :: nat
  tm_hour :: nat
  tm_mday :: nat
  tm_mon :: nat
  tm_year :: nat
  tm_wday :: nat

text \<open>
  \<open>gmtime_r\<close> on a time of 32 bits: the calendar date of a number of days, counted in eras of
  400 years that begin in March.
\<close>

definition gmtime :: "u32 \<Rightarrow> tm" where
  "gmtime t =
    (let s = unat t; days = s div 86400; r = s mod 86400;
         z = days + 719468; era = z div 146097; doe = z mod 146097;
         yoe = (doe - doe div 1460 + doe div 36524 - doe div 146096) div 365;
         doy = doe - (365 * yoe + yoe div 4 - yoe div 100);
         mp = (5 * doy + 2) div 153;
         mon = (if mp < 10 then mp + 2 else mp - 10)
     in \<lparr>tm_sec = r mod 60, tm_min = r div 60 mod 60, tm_hour = r div 3600,
         tm_mday = doy - (153 * mp + 2) div 5 + 1, tm_mon = mon,
         tm_year = yoe + era * 400 + (if mon < 2 then 1 else 0) - 1900, tm_wday = (days + 4) mod 7\<rparr>)"

definition HTTP_TIME_BUF :: nat where "HTTP_TIME_BUF = 44"

definition dayofweek :: "bytes list" where
  "dayofweek = map str [''Sun'', ''Mon'', ''Tue'', ''Wed'', ''Thu'', ''Fri'', ''Sat'']"

definition monthofyear :: "bytes list" where
  "monthofyear = map str [''Jan'', ''Feb'', ''Mar'', ''Apr'', ''May'', ''Jun'', ''Jul'', ''Aug'', ''Sep'', ''Oct'', ''Nov'', ''Dec'']"

definition print_time :: "tm \<Rightarrow> bytes res" where
  "print_time t = rbind (rd dayofweek (tm_wday t)) (\<lambda>wday.
     rbind (if tm_mon t = 0 then Inl Out_of_bounds else rd monthofyear (tm_mon t - 1)) (\<lambda>mon.
       Inr (wday @ str '', '' @ pad_left 48 2 (print_dec (tm_mday t)) @ str '' '' @ mon @ str '' '' @
            pad_left 32 4 (print_dec (tm_year t + 1900)) @ str '' '' @ pad_left 48 2 (print_dec (tm_hour t)) @ str '':'' @
            pad_left 48 2 (print_dec (tm_min t)) @ str '':'' @ pad_left 48 2 (print_dec (tm_sec t)) @ str '' GMT'')))"

record resp =
  rp_mem :: memory
  rp_ptr :: nat
  rp_end :: nat
  rp_len :: nat

text \<open>The text written so far lies in front of \<open>rp_ptr\<close>; \<open>tail\<close> is what a call stores behind its own text.\<close>

definition resp_put :: "bytes \<Rightarrow> bytes \<Rightarrow> resp \<Rightarrow> resp" where
  "resp_put s tail r = r\<lparr>rp_mem := store_bytes (rp_mem r) (rp_ptr r) (s @ tail), rp_ptr := rp_ptr r + length s, rp_len := rp_len r + length s\<rparr>"

definition resp_begin :: "world \<Rightarrow> resp res" where
  "resp_begin h = rbind (buf_at (hc_res h)) (\<lambda>(m, b).
     rbind (buf_write b) (\<lambda>(sz, p). case p of None \<Rightarrow> Inr \<lparr>rp_mem = m, rp_ptr = 0, rp_end = sz, rp_len = 0\<rparr>
       | Some a \<Rightarrow> Inr \<lparr>rp_mem = m, rp_ptr = a, rp_end = a + sz, rp_len = 0\<rparr>))"

definition resp_string :: "bytes \<Rightarrow> resp \<Rightarrow> resp res" where
  "resp_string s r = rassert (rp_ptr r + length s \<le> rp_end r) (Inr (resp_put s [] r))"

definition resp_u64 :: "nat \<Rightarrow> resp \<Rightarrow> resp res" where
  "resp_u64 u r =
    (let s = print_dec u; r' = r\<lparr>rp_mem := store_bytes (rp_mem r) (rp_ptr r) (snprintf_bytes (rp_end r - rp_ptr r) s)\<rparr> in
     rassert (rp_ptr r + length s \<le> rp_end r) (Inr (r'\<lparr>rp_ptr := rp_ptr r + length s, rp_len := rp_len r + length s\<rparr>)))"

definition resp_etag :: "bytes \<Rightarrow> resp \<Rightarrow> resp res" where
  "resp_etag etag r = rassert (rp_ptr r + ETAG_SZ * 2 + 1 \<le> rp_end r) (Inr (resp_put (print_etag etag) [0] r))"

definition resp_time :: "tm \<Rightarrow> resp \<Rightarrow> resp res" where
  "resp_time t r = rassert (rp_ptr r + HTTP_TIME_BUF \<le> rp_end r)
     (rbind (print_time t) (\<lambda>s.
        let r' = r\<lparr>rp_mem := store_bytes (rp_mem r) (rp_ptr r) (snprintf_bytes (HTTP_TIME_BUF + 1) s)\<rparr> in
        Inr (r'\<lparr>rp_ptr := rp_ptr r + length s, rp_len := rp_len r + length s\<rparr>)))"

definition http_code :: "nat \<Rightarrow> bytes" where
  "http_code code = [48 + of_nat (code div 100 mod 10), 48 + of_nat (code div 10 mod 10), 48 + of_nat (code mod 10)]"

definition resp_http_code :: "nat \<Rightarrow> resp \<Rightarrow> resp res" where
  "resp_http_code code r = rassert (rp_ptr r + 3 \<le> rp_end r) (Inr (resp_put (http_code code) [] r))"

definition HTTP_NOT_MODIFIED :: nat where "HTTP_NOT_MODIFIED = 304"
definition HTTP_FORBIDDEN :: nat where "HTTP_FORBIDDEN = 403"

definition code_text :: "nat \<Rightarrow> bytes" where
  "code_text code = (if code = 200 then str '' OK'' else if code = HTTP_NOT_MODIFIED then str '' Not Modified'' else str '' Not Found'')"

text \<open>The calls that build the head, in order.\<close>

fun resp_all :: "(resp \<Rightarrow> resp res) list \<Rightarrow> resp \<Rightarrow> resp res" where
  "resp_all [] r = Inr r"
| "resp_all (f # fs) r = rbind (f r) (resp_all fs)"

definition head_steps :: "nat \<Rightarrow> bytes \<Rightarrow> nat \<Rightarrow> bool \<Rightarrow> bytes \<Rightarrow> u32 \<Rightarrow> (resp \<Rightarrow> resp res) list" where
  "head_steps code mime len close etag mtime =
    [resp_string (str ''HTTP/1.1 ''), resp_http_code code, resp_string (code_text code),
     resp_string (CRLF @ str ''Content-Type: ''), resp_string mime,
     resp_string (CRLF @ str ''Content-Length: ''), resp_u64 len,
     resp_string (CRLF @ str ''Connection: ''), resp_string (if close then str ''Close'' else str ''Keep-Alive''),
     resp_string (CRLF @ str ''ETag: ''), resp_etag etag,
     resp_string (CRLF @ str ''Last-Modified: ''), resp_time (gmtime mtime),
     resp_string (CRLF @ str ''Server: ashttpd'' @ CRLF @ CRLF)]"

text \<open>The head is written into the response buffer.\<close>

definition write_head :: "nat \<Rightarrow> bytes \<Rightarrow> bytes \<Rightarrow> u32 \<Rightarrow> world \<Rightarrow> world res" where
  "write_head code mime etag mtime h = rbind (resp_begin h) (\<lambda>r.
     rbind (resp_all (head_steps code mime (hc_data_len h) (hc_conn_close h) etag mtime) r) (\<lambda>r.
       let h = h\<lparr>reqs := reqs h + 1\<rparr> in
       rbind (buf_at (hc_res h)) (\<lambda>(m, b). rbind (buf_done_write b (rp_len r)) (\<lambda>(_, b). Inr (h\<lparr>hc_res := Buf (rp_mem r, b)\<rparr>)))))"

section \<open>Requests\<close>

text \<open>The result structure of the search is not initialised.\<close>

definition name_junk :: webroot_name where
  "name_junk = \<lparr>mime_type = None, nm_u = Unset, nm_code = 0\<rparr>"

text \<open>Whether the peer has the object already.\<close>

definition etag_hit :: "http_request \<Rightarrow> bytes \<Rightarrow> bool" where
  "etag_hit r etag \<longleftrightarrow> v_len (rq_etag r) = 40 \<and> vstrcmp (v_bytes (rq_etag r)) (print_etag etag) = 0"

text \<open>The connection takes a reference to the web root for as long as it sends from it.\<close>

definition take_root :: "nat \<Rightarrow> world \<Rightarrow> world res" where
  "take_root rh h = (case open_roots h rh of None \<Rightarrow> Inl Out_of_bounds
     | Some w \<Rightarrow> Inr (h\<lparr>hc_webroot := Some rh, open_roots := (open_roots h)(rh \<mapsto> webroot_ref w)\<rparr>))"

text \<open>What is sent for an object of the web root \<open>rh\<close>, whose extent has been stored in the connection.\<close>

definition send_object ::
  "http_fio \<Rightarrow> nat \<Rightarrow> webroot \<Rightarrow> bool \<Rightarrow> nat \<Rightarrow> nat \<times> nat \<Rightarrow> bytes \<Rightarrow> u32 \<Rightarrow> world \<Rightarrow> world res" where
  "send_object fio rh root head code ty etag mtime h =
    rbind (if hc_data_len h \<noteq> 0 \<and> \<not> head then fio_prep fio h else Inr (True, h)) (\<lambda>(ok, h).
      if \<not> ok then response_500 h
      else rbind (map_at root (fst ty) (snd ty)) (\<lambda>mime.
        rbind (write_head code mime etag mtime h) (\<lambda>h.
          if head then Inr (h\<lparr>hc_data_len := 0\<rparr>) else take_root rh h)))"

definition serve_object ::
  "http_fio \<Rightarrow> nat \<Rightarrow> webroot \<Rightarrow> http_request \<Rightarrow> bool \<Rightarrow> nat \<Rightarrow> nat \<times> nat \<Rightarrow> u32 \<Rightarrow> bytes \<Rightarrow> world \<Rightarrow> world res" where
  "serve_object fio rh root r head code ty mtime etag h =
     send_object fio rh root (head \<or> etag_hit r etag) (if etag_hit r etag then HTTP_NOT_MODIFIED else code) ty etag mtime h"

text \<open>The answer for what the search found.\<close>

definition answer_name ::
  "http_fio \<Rightarrow> nat \<Rightarrow> webroot \<Rightarrow> http_request \<Rightarrow> bool \<Rightarrow> webroot_name \<Rightarrow> world \<Rightarrow> world res" where
  "answer_name fio rh root r head nm h =
    (if nm_code nm = HTTP_MOVED_PERMANENTLY
     then (case nm_u nm of Moved (Some off) len \<Rightarrow> rbind (map_at root off len) (response_301 h (v_bytes (rq_host r)))
           | _ \<Rightarrow> Inl Uninitialised)
     else if nm_code nm = HTTP_FORBIDDEN then response_403 h
     else (case (nm_u nm, mime_type nm) of
             (Data ofs len mtime etag, Some ty) \<Rightarrow> serve_object fio rh root r head (nm_code nm) ty mtime etag
               (if nm_code nm = HTTP_FOUND then h\<lparr>hc_data_off := unat ofs, hc_data_len := unat len\<rparr> else h)
           | _ \<Rightarrow> Inl Uninitialised))"

text \<open>The search for the string at \<open>u\<close> in the buffer of the normaliser.\<close>

definition answer_uri :: "http_fio \<Rightarrow> vhosts \<Rightarrow> nat \<Rightarrow> http_request \<Rightarrow> bool \<Rightarrow> nat \<Rightarrow> world \<Rightarrow> world res" where
  "answer_uri fio vh fuel r head u h = rbind (string_at (uribuf (nads_glob h)) u) (\<lambda>uri.
     case vhosts_lookup vh (Some (cstr (v_bytes (rq_host r)))) of None \<Rightarrow> response_403 h
     | Some rh \<Rightarrow>
       (case open_roots h rh of None \<Rightarrow> Inl Out_of_bounds
        | Some root \<Rightarrow>
          rbind (webroot_find fuel root (uribuf (nads_glob h)) u (length uri) name_junk) (\<lambda>(found, nm).
            if found then answer_name fio rh root r head nm h else response_404 h)))"

definition handle_get :: "http_fio \<Rightarrow> vhosts \<Rightarrow> nat \<Rightarrow> http_request \<Rightarrow> bool \<Rightarrow> world \<Rightarrow> world res" where
  "handle_get fio vh fuel r head h =
    rbind (nads_normalize (nads_glob h) \<lparr>nads_buf = v_bytes (rq_uri r), nads_uri = None, nads_query = None\<rparr>) (\<lambda>(g, n, _).
      case nads_uri n of None \<Rightarrow> Inl Uninitialised
      | Some u \<Rightarrow> answer_uri fio vh fuel r head u (h\<lparr>nads_glob := g\<rparr>))"

text \<open>After the answer has been prepared the request is dropped; what the peer sent ahead is kept.\<close>

definition request_done :: "nat \<Rightarrow> world \<Rightarrow> world res" where
  "request_done hlen h = rbind (buf_at (hc_req h)) (\<lambda>b.
     rbind (buf_shift b hlen) (\<lambda>b. rbind (buf_read (snd b)) (\<lambda>(sz, _).
       if sz \<noteq> 0
       then rbind (buf_pack b) (\<lambda>b. Inr (h\<lparr>hc_req := Buf b, hc_rptr := b_base (snd b), hc_rstate := RSTATE_INITIAL\<rparr>))
       else Inr (h\<lparr>hc_req := Null_buf\<rparr>))))"

definition handle_request :: "http_fio \<Rightarrow> vhosts \<Rightarrow> nat \<Rightarrow> bytes \<Rightarrow> world \<Rightarrow> world res" where
  "handle_request fio vh fuel local h = rassert (hc_state h = HTTP_CONN_REQUEST)
     (case alloc_buf h of
        (Null_buf, h) \<Rightarrow> http_kill (fio_abort fio) (h\<lparr>hc_res := Null_buf\<rparr>)
      | (p, h) \<Rightarrow>
        rbind (conn_set_wait (h\<lparr>hc_res := p, hc_state := HTTP_CONN_HEADER\<rparr>) NBIO_WRITE) (\<lambda>h.
          rbind (buf_at (hc_req h)) (\<lambda>(m, b). rbind (buf_read b) (\<lambda>_.
            let (hlen, r) = http_req http_request_zero (queued m b) in
            if hlen = 0 then response_400 h
            else if rq_content_len r \<noteq> 0 then http_kill (fio_abort fio) h
            else
              let r = (if v_len (rq_host r) = 0 then r\<lparr>rq_host := Some local\<rparr> else r);
                  h = h\<lparr>hc_conn_close := rq_conn_close r \<noteq> 0\<rparr> in
              rbind (if vstrcmp_fast (v_bytes (rq_method r)) (str ''GET'') = 0 then handle_get fio vh fuel r False h
                     else if vstrcmp_fast (v_bytes (rq_method r)) (str ''HEAD'') = 0 then handle_get fio vh fuel r True h
                     else response_501 h) (request_done hlen)))))"

section \<open>The callbacks\<close>

definition http_write_hdr :: "world \<Rightarrow> (bool \<times> world) res" where
  "http_write_hdr h = rbind (buf_at (hc_res h)) (\<lambda>b. rbind (buf_read (snd b)) (\<lambda>_.
     rbind (sys_send h (queued (fst b) (snd b))) (\<lambda>(ret, h). case ret of
       Inl e \<Rightarrow> if e = EAGAIN then Inr (True, conn_inactive h NBIO_WRITE) else Inr (False, h)
     | Inr n \<Rightarrow> if n = 0 then Inr (False, h)
         else rbind (buf_shift b n) (\<lambda>b. rbind (buf_read (snd b)) (\<lambda>(sz, _).
           if sz \<noteq> 0 then Inr (True, h\<lparr>hc_res := Buf b\<rparr>)
           else let h = h\<lparr>hc_res := Null_buf\<rparr> in
             if hc_data_len h \<noteq> 0 then Inr (True, h\<lparr>hc_state := HTTP_CONN_DATA\<rparr>)
             else if hc_conn_close h then Inr (False, h)
             else rbind (conn_set_wait h NBIO_READ) (\<lambda>h. Inr (True, h\<lparr>hc_state := HTTP_CONN_REQUEST\<rparr>)))))))"

definition http_write :: "http_fio \<Rightarrow> world \<Rightarrow> world res" where
  "http_write fio h =
    rbind (case hc_state h of HTTP_CONN_HEADER \<Rightarrow> http_write_hdr h | HTTP_CONN_DATA \<Rightarrow> fio_write fio h | _ \<Rightarrow> Inl Aborted)
      (\<lambda>(ok, h). if ok then Inr h else http_kill (fio_abort fio) h)"

text \<open>Reading into the request buffer and looking for the end of the head.\<close>

definition read_into :: "http_fio \<Rightarrow> vhosts \<Rightarrow> nat \<Rightarrow> bytes \<Rightarrow> memory \<times> http_buf \<Rightarrow> world \<Rightarrow> world res" where
  "read_into fio vh fuel local b h = rbind (buf_write (snd b)) (\<lambda>(sz, _).
     if sz = 0 then http_kill (fio_abort fio) h
     else rbind (sys_recv h sz) (\<lambda>(ret, h). case ret of
       Inl e \<Rightarrow> if e = EAGAIN then Inr (conn_inactive h NBIO_READ) else http_kill (fio_abort fio) h
     | Inr got \<Rightarrow> if got = [] then http_kill (fio_abort fio) h
         else rbind (buf_put b got) (\<lambda>b. let h = h\<lparr>hc_req := Buf b\<rparr> in
           rbind (http_parse_incremental (hc_rstate h) (load_bytes (fst b) (hc_rptr h) (b_write (snd b) - hc_rptr h)))
             (\<lambda>(st, n, done). let h = h\<lparr>hc_rstate := st, hc_rptr := hc_rptr h + n\<rparr> in
               if done then handle_request fio vh fuel local h else Inr h))))"

text \<open>A connection without a request buffer gets one first.\<close>

definition http_read :: "http_fio \<Rightarrow> vhosts \<Rightarrow> nat \<Rightarrow> bytes \<Rightarrow> world \<Rightarrow> world res" where
  "http_read fio vh fuel local h = rassert (hc_state h = HTTP_CONN_REQUEST)
     (if is_null (hc_req h)
      then (case alloc_buf h of
              (Null_buf, h) \<Rightarrow> http_kill (fio_abort fio) (h\<lparr>hc_req := Null_buf\<rparr>)
            | (p, h) \<Rightarrow> rbind (buf_at p) (\<lambda>b.
                read_into fio vh fuel local b (h\<lparr>hc_req := p, hc_rptr := b_base (snd b), hc_rstate := RSTATE_INITIAL\<rparr>)))
      else rbind (buf_at (hc_req h)) (\<lambda>b. read_into fio vh fuel local b h))"

definition http_dtor :: "world \<Rightarrow> world res" where
  "http_dtor h = (let h = h\<lparr>hc_state := HTTP_CONN_DEAD\<rparr> in
     rbind (unref (open_roots h) (hc_webroot h)) (\<lambda>roots. Inr (h\<lparr>open_roots := roots, hc_webroot := None\<rparr>)))"

text \<open>A new connection on the socket \<open>s\<close>; \<open>None\<close> when no memory is left.  The rest of the world is \<open>w\<close>.\<close>

definition http_conn_new :: "bool \<Rightarrow> world \<Rightarrow> int \<Rightarrow> world option" where
  "http_conn_new mem_ok w s =
    (if \<not> mem_ok then None
     else Some (w\<lparr>hc_nbio := \<lparr>n_fd = s, n_mask = NBIO_READ, n_flags = NBIO_READ, n_poll = 0\<rparr>,
       hc_state := HTTP_CONN_REQUEST, hc_rstate := RSTATE_INITIAL, hc_io_state := 0, hc_webroot := None, hc_rptr := 0,
       hc_req := Null_buf, hc_res := Null_buf, hc_io_priv := Null_buf, hc_data_off := 0, hc_data_len := 0,
       hc_conn_close := False, concurrency := concurrency w + 1\<rparr>))"

end
