(* ===== verification/HttpHead.thy ===== *)
theory HttpHead
  imports HttpServe
begin

text \<open>
  The response head: what the calls that build it leave in the response buffer, and the
  printers of numbers, dates and entity tags.
\<close>

section \<open>Numbers\<close>

lemma print_dec_length: "n < 10 ^ k \<Longrightarrow> 0 < k \<Longrightarrow> length (print_dec n) \<le> k"
proof (induction n arbitrary: k rule: print_dec.induct)
  case (1 n)
  show ?case
  proof (cases "n < 10")
    case False
    then obtain j where j: "k = Suc j" "0 < j" using 1(2,3) by (cases k; cases "k - 1") auto
    then have "n div 10 < 10 ^ j" using 1(2) by (simp add: less_mult_imp_div_less mult.commute)
    then show ?thesis using 1(1)[OF False _ j(2)] False j(1) by (subst print_dec.simps) simp
  qed (use 1(3) in \<open>subst print_dec.simps, simp\<close>)
qed

lemma print_dec_value: "dec_value (print_dec n) = n"
proof (induction n rule: print_dec.induct)
  case (1 n)
  have d: "unat (of_nat (48 + k) :: byte) - 48 = k" if "k < 10" for k
    unfolding unat_of_nat using that by simp
  show ?case
  proof (cases "n < 10")
    case True
    then show ?thesis using d[OF True] by (subst print_dec.simps) (simp add: dec_value_def)
  next
    case False
    have "dec_value (print_dec n) = 10 * dec_value (print_dec (n div 10)) + n mod 10"
      using False d[of "n mod 10"] by (subst print_dec.simps) (simp add: dec_value_def)
    then show ?thesis using 1[OF False] by simp
  qed
qed

section \<open>Dates\<close>

text \<open>The computation step by step, so that it can be evaluated.\<close>

lemma gmtime_steps:
  assumes "z = unat t div 86400 + 719468" "doe = z mod 146097"
    "yoe = (doe - doe div 1460 + doe div 36524 - doe div 146096) div 365"
    "doy = doe - (365 * yoe + yoe div 4 - yoe div 100)" "mp = (5 * doy + 2) div 153" "mon = (if mp < 10 then mp + 2 else mp - 10)"
  shows "gmtime t = \<lparr>tm_sec = unat t mod 86400 mod 60, tm_min = unat t mod 86400 div 60 mod 60, tm_hour = unat t mod 86400 div 3600,
      tm_mday = doy - (153 * mp + 2) div 5 + 1, tm_mon = mon,
      tm_year = yoe + z div 146097 * 400 + (if mon < 2 then 1 else 0) - 1900, tm_wday = (unat t div 86400 + 4) mod 7\<rparr>"
  unfolding gmtime_def Let_def assms ..

lemma gmtime_bounds:
  "tm_wday (gmtime t) < 7" "tm_hour (gmtime t) < 100" "tm_min (gmtime t) < 100" "tm_sec (gmtime t) < 100"
  "tm_mday (gmtime t) < 10 ^ 6" "tm_year (gmtime t) + 1900 < 10 ^ 4"
proof -
  define z where "z = unat t div 86400 + 719468"
  define doe where "doe = z mod 146097"
  define yoe where "yoe = (doe - doe div 1460 + doe div 36524 - doe div 146096) div 365"
  define doy where "doy = doe - (365 * yoe + yoe div 4 - yoe div 100)"
  define mp where "mp = (5 * doy + 2) div 153"
  define mon where "mon = (if mp < 10 then mp + 2 else mp - 10)"
  note g = gmtime_steps[OF z_def doe_def yoe_def doy_def mp_def mon_def]
  have s: "unat t < 2 ^ 32" using unsigned_less[of t, where 'a = nat] by simp
  then have z: "z div 146097 \<le> 5" unfolding z_def by simp
  have d: "doe < 146097" unfolding doe_def by simp
  then have y: "yoe \<le> 401" unfolding yoe_def by simp
  have "doy < 146097" using d unfolding doy_def by simp
  then show "tm_wday (gmtime t) < 7" "tm_hour (gmtime t) < 100" "tm_min (gmtime t) < 100" "tm_sec (gmtime t) < 100"
    "tm_mday (gmtime t) < 10 ^ 6" "tm_year (gmtime t) + 1900 < 10 ^ 4" using z y unfolding g by (simp_all, linarith+)
qed

lemma gmtime_leap_day: "gmtime 951782400 = \<lparr>tm_sec = 0, tm_min = 0, tm_hour = 0, tm_mday = 29, tm_mon = 1, tm_year = 100, tm_wday = 2\<rparr>"
  by (subst gmtime_steps[where z = 730484 and doe = 146096 and yoe = 399 and doy = 365 and mp = 11 and mon = 1]) simp_all

lemma gmtime_last: "gmtime 4294967295 = \<lparr>tm_sec = 15, tm_min = 28, tm_hour = 6, tm_mday = 7, tm_mon = 1, tm_year = 206, tm_wday = 0\<rparr>"
  by (subst gmtime_steps[where z = 769178 and doe = 38693 and yoe = 105 and doy = 343 and mp = 11 and mon = 1]) simp_all

lemma gmtime_epoch: "gmtime 0 = \<lparr>tm_sec = 0, tm_min = 0, tm_hour = 0, tm_mday = 1, tm_mon = 0, tm_year = 70, tm_wday = 4\<rparr>"
  by (subst gmtime_steps[where z = 719468 and doe = 135080 and yoe = 369 and doy = 306 and mp = 10 and mon = 0]) simp_all

text \<open>A date always fits its buffer.\<close>

lemma print_time_length:
  assumes "print_time (gmtime t) = Inr s"
  shows "length s \<le> HTTP_TIME_BUF"
proof -
  let ?g = "gmtime t"
  obtain d m where dm: "rd dayofweek (tm_wday ?g) = Inr d" "rd monthofyear (tm_mon ?g - 1) = Inr m"
    and s: "s = d @ str '', '' @ pad_left 48 2 (print_dec (tm_mday ?g)) @ str '' '' @ m @ str '' '' @
            pad_left 32 4 (print_dec (tm_year ?g + 1900)) @ str '' '' @ pad_left 48 2 (print_dec (tm_hour ?g)) @ str '':'' @
            pad_left 48 2 (print_dec (tm_min ?g)) @ str '':'' @ pad_left 48 2 (print_dec (tm_sec ?g)) @ str '' GMT''"
    using assms by (auto simp: print_time_def rbind_Inr_iff split: if_splits)
  have "\<forall>x \<in> set dayofweek \<union> set monthofyear. length x = 3" by (simp add: dayofweek_def monthofyear_def)
  then have l: "length d = 3" "length m = 3" using dm by (auto simp: rd_Inr_iff)
  have "length (print_dec (tm_mday ?g)) \<le> 6" "length (print_dec (tm_year ?g + 1900)) \<le> 4" "length (print_dec (tm_hour ?g)) \<le> 2"
    "length (print_dec (tm_min ?g)) \<le> 2" "length (print_dec (tm_sec ?g)) \<le> 2"
    using gmtime_bounds[of t] by (auto intro!: print_dec_length)
  then show ?thesis unfolding s using l by (simp add: pad_left_def HTTP_TIME_BUF_def)
qed

section \<open>Building the head\<close>

text \<open>The text written since the start at \<open>base\<close>, in a memory that was \<open>m\<close> before.\<close>

definition resp_rep :: "memory \<Rightarrow> nat \<Rightarrow> nat \<Rightarrow> resp \<Rightarrow> bytes \<Rightarrow> bool" where
  "resp_rep m base e r t \<longleftrightarrow> rp_ptr r = base + length t \<and> rp_len r = length t \<and> rp_end r = e \<and>
     load_bytes (rp_mem r) base (length t) = t \<and> (\<forall>x < base. rp_mem r x = m x)"

lemma load_store_prefix: "load_bytes (store_bytes m a (s @ t)) a (length s) = s"
  using load_store_same[of m a "s @ t"] load_bytes_append[of "store_bytes m a (s @ t)" a "length s" "length t"] by simp

lemma resp_rep_store:
  assumes "resp_rep m base e r t"
  shows "resp_rep m base e (r\<lparr>rp_mem := store_bytes (rp_mem r) (rp_ptr r) (s @ x), rp_ptr := rp_ptr r + length s, rp_len := rp_len r + length s\<rparr>) (t @ s)"
proof -
  have p: "rp_ptr r = base + length t" using assms by (simp add: resp_rep_def)
  let ?m = "store_bytes (rp_mem r) (rp_ptr r) (s @ x)"
  have "load_bytes ?m base (length t) = load_bytes (rp_mem r) base (length t)"
    using p by (auto simp: load_bytes_def store_bytes_def)
  then have "load_bytes ?m base (length t + length s) = t @ s"
    using assms load_store_prefix[of "rp_mem r" "rp_ptr r" s x] p by (simp add: load_bytes_append resp_rep_def)
  moreover have "\<forall>y < base. ?m y = m y" using assms p by (simp add: resp_rep_def store_bytes_def)
  ultimately show ?thesis using assms by (simp add: resp_rep_def)
qed

text \<open>A call that appends a fixed text whenever it succeeds.\<close>

definition adds :: "(resp \<Rightarrow> resp res) \<Rightarrow> bytes \<Rightarrow> bool" where
  "adds f s \<longleftrightarrow> (\<forall>m base e r t r'. resp_rep m base e r t \<longrightarrow> f r = Inr r' \<longrightarrow> resp_rep m base e r' (t @ s))"

lemma adds_string: "adds (resp_string s) s" "adds (resp_http_code c) (http_code c)" "adds (resp_etag e) (print_etag e)"
  using resp_rep_store[where s = s and x = "[]"] resp_rep_store[where s = "http_code c" and x = "[]"] resp_rep_store[where s = "print_etag e" and x = "[0]"]
  by (auto simp: adds_def resp_string_def resp_http_code_def resp_etag_def resp_put_def rassert_Inr_iff)

lemma adds_time:
  assumes "print_time (gmtime t) = Inr s"
  shows "adds (resp_time (gmtime t)) s"
proof -
  have "snprintf_bytes (HTTP_TIME_BUF + 1) s = s @ [0]" using print_time_length[OF assms] by (simp add: snprintf_bytes_def)
  then show ?thesis using resp_rep_store[where s = s and x = "[0]"] assms
    by (auto simp: adds_def resp_time_def rassert_Inr_iff Let_def)
qed

lemma adds_all: "list_all2 adds fs ss \<Longrightarrow> adds (resp_all fs) (concat ss)"
proof (induction rule: list_all2_induct)
  case Nil
  then show ?case by (simp add: adds_def)
next
  case (Cons f fs s ss)
  show ?case
    unfolding adds_def
  proof (intro allI impI)
    fix m base e r t r' assume r: "resp_rep m base e r t" "resp_all (f # fs) r = Inr r'"
    then obtain r1 where r1: "f r = Inr r1" "resp_all fs r1 = Inr r'" by (auto simp: rbind_Inr_iff)
    have "resp_rep m base e r1 (t @ s)" using Cons(1) r(1) r1(1) unfolding adds_def by blast
    then have "resp_rep m base e r' ((t @ s) @ concat ss)" using Cons(3) r1(2) unfolding adds_def by blast
    then show "resp_rep m base e r' (t @ concat (s # ss))" by simp
  qed
qed

text \<open>
  A number that exactly fills the buffer would lose its last digit to the terminator; then
  there is no room for what follows.
\<close>

lemma adds_number:
  assumes "s \<noteq> []"
  shows "adds (\<lambda>r. rbind (resp_u64 n r) (resp_string s)) (print_dec n @ s)"
  unfolding adds_def
proof (intro allI impI)
  fix m base e r t r' assume r: "resp_rep m base e r t" "rbind (resp_u64 n r) (resp_string s) = Inr r'"
  let ?d = "print_dec n"
  have room: "length ?d < rp_end r - rp_ptr r" using r(2) assms
    by (cases s) (auto simp: resp_u64_def resp_string_def rassert_Inr_iff rbind_Inr_iff Let_def)
  then have sn: "snprintf_bytes (rp_end r - rp_ptr r) ?d = ?d @ [0]" by (simp add: snprintf_bytes_def)
  obtain r1 where r1: "resp_u64 n r = Inr r1" "resp_string s r1 = Inr r'" using r(2) by (auto simp: rbind_Inr_iff)
  then have "resp_rep m base e r1 (t @ ?d)"
    using resp_rep_store[OF r(1), of ?d "[0]"] sn by (auto simp: resp_u64_def rassert_Inr_iff Let_def)
  then have "resp_rep m base e r' ((t @ ?d) @ s)" using adds_string(1)[of s] r1(2) unfolding adds_def by blast
  then show "resp_rep m base e r' (t @ ?d @ s)" by simp
qed

lemma resp_all_append: "resp_all (xs @ ys) r = rbind (resp_all xs r) (resp_all ys)"
proof (induction xs arbitrary: r)
  case (Cons f fs)
  then show ?case by (cases "f r") simp_all
qed simp

text \<open>The text of a response head; \<open>date\<close> is the printed modification time.\<close>

definition head_text :: "nat \<Rightarrow> bytes \<Rightarrow> nat \<Rightarrow> bool \<Rightarrow> bytes \<Rightarrow> bytes \<Rightarrow> bytes" where
  "head_text code mime len close etag date =
     str ''HTTP/1.1 '' @ http_code code @ code_text code @
     CRLF @ str ''Content-Type: '' @ mime @
     CRLF @ str ''Content-Length: '' @ print_dec len @
     CRLF @ str ''Connection: '' @ (if close then str ''Close'' else str ''Keep-Alive'') @
     CRLF @ str ''ETag: '' @ print_etag etag @
     CRLF @ str ''Last-Modified: '' @ date @
     CRLF @ str ''Server: ashttpd'' @ CRLF @ CRLF"

lemma adds_rbind: "adds f s \<Longrightarrow> adds g t \<Longrightarrow> adds (\<lambda>r. rbind (f r) g) (s @ t)"
  unfolding adds_def by (auto simp: rbind_Inr_iff) (metis append.assoc)

lemma head_steps_text:
  assumes "resp_rep m base e r []" "resp_all (head_steps code mime len close etag mtime) r = Inr r'"
  shows "\<exists>date. print_time (gmtime mtime) = Inr date \<and> resp_rep m base e r' (head_text code mime len close etag date)"
proof -
  obtain date where date: "print_time (gmtime mtime) = Inr date"
  proof (cases "print_time (gmtime mtime)")
    case (Inl x)
    then have "resp_time (gmtime mtime) q \<noteq> Inr q'" for q q' by (auto simp: resp_time_def rassert_Inr_iff)
    then show thesis using assms(2) by (auto simp: head_steps_def rbind_Inr_iff)
  qed
  let ?a = "[resp_string (str ''HTTP/1.1 ''), resp_http_code code, resp_string (code_text code),
     resp_string (CRLF @ str ''Content-Type: ''), resp_string mime, resp_string (CRLF @ str ''Content-Length: '')]"
  let ?b = "[resp_string (if close then str ''Close'' else str ''Keep-Alive''), resp_string (CRLF @ str ''ETag: ''), resp_etag etag,
     resp_string (CRLF @ str ''Last-Modified: ''), resp_time (gmtime mtime), resp_string (CRLF @ str ''Server: ashttpd'' @ CRLF @ CRLF)]"
  have a: "adds (resp_all ?a) (concat [str ''HTTP/1.1 '', http_code code, code_text code, CRLF @ str ''Content-Type: '', mime, CRLF @ str ''Content-Length: ''])"
    by (rule adds_all) (simp add: adds_string)
  have n: "adds (\<lambda>r. rbind (resp_u64 len r) (resp_string (CRLF @ str ''Connection: ''))) (print_dec len @ CRLF @ str ''Connection: '')"
    by (rule adds_number) simp
  have b: "adds (resp_all ?b) (concat [if close then str ''Close'' else str ''Keep-Alive'', CRLF @ str ''ETag: '', print_etag etag,
      CRLF @ str ''Last-Modified: '', date, CRLF @ str ''Server: ashttpd'' @ CRLF @ CRLF])"
    by (rule adds_all) (simp add: adds_string adds_time[OF date])
  have split: "resp_all (head_steps code mime len close etag mtime) r =
      rbind (rbind (resp_all ?a r) (\<lambda>r. rbind (resp_u64 len r) (resp_string (CRLF @ str ''Connection: '')))) (resp_all ?b)" for r
    unfolding head_steps_def
    using resp_all_append[of ?a "[resp_u64 len, resp_string (CRLF @ str ''Connection: '')] @ ?b" r]
      resp_all_append[of "[resp_u64 len, resp_string (CRLF @ str ''Connection: '')]" ?b]
    by (simp only: append.simps) (auto simp: rbind_def split: sum.splits)
  note all = adds_rbind[OF adds_rbind[OF a n] b]
  have "resp_rep m base e r' ([] @ head_text code mime len close etag date)"
    using all[unfolded adds_def, rule_format, OF assms(1) assms(2)[unfolded split]]
    by (simp only: head_text_def concat.simps append.assoc append_Nil2)
  then show ?thesis using date by simp
qed

text \<open>The head in the response buffer.\<close>

lemma write_head_cases:
  assumes b: "hc_res h = Buf (m, b)" "buf_ok b" and w: "write_head code mime etag mtime h = Inr h'"
  obtains date m' b' where "print_time (gmtime mtime) = Inr date" "h' = h\<lparr>reqs := reqs h + 1, hc_res := Buf (m', b')\<rparr>"
    "buf_ok b'" "queued m' b' = queued m b @ head_text code mime (hc_data_len h) (hc_conn_close h) etag date"
proof -
  let ?fs = "head_steps code mime (hc_data_len h) (hc_conn_close h) etag mtime"
  define sz where "sz = b_end b - b_write b"
  have bw: "buf_write b = Inr (sz, if b_write b < b_end b then Some (b_write b) else None)"
    using b(2) by (simp add: buf_write_def buf_ok_def sz_def)
  obtain r r' x b' where r: "resp_begin h = Inr r" "resp_all ?fs r = Inr r'" and d: "buf_done_write b (rp_len r') = Inr (x, b')"
    and h': "h' = h\<lparr>reqs := reqs h + 1, hc_res := Buf (rp_mem r', b')\<rparr>"
    using w b(1) by (auto simp: write_head_def rbind_Inr_iff buf_at_def Let_def)
  have "b_write b < b_end b"
  proof (rule ccontr)
    assume "\<not> b_write b < b_end b"
    then have "rp_end r = 0" using r(1) b(1) bw by (auto simp: resp_begin_def buf_at_def sz_def)
    then show False using r(2) by (simp add: head_steps_def resp_string_def)
  qed
  then have "r = \<lparr>rp_mem = m, rp_ptr = b_write b, rp_end = b_write b + sz, rp_len = 0\<rparr>"
    using r(1) b(1) bw by (simp add: resp_begin_def buf_at_def)
  then have "resp_rep m (b_write b) (b_write b + sz) r []" by (simp add: resp_rep_def)
  then obtain date where date: "print_time (gmtime mtime) = Inr date"
    "resp_rep m (b_write b) (b_write b + sz) r' (head_text code mime (hc_data_len h) (hc_conn_close h) etag date)"
    using head_steps_text[OF _ r(2)] by blast
  let ?t = "head_text code mime (hc_data_len h) (hc_conn_close h) etag date"
  have len: "rp_len r' = length ?t" "load_bytes (rp_mem r') (b_write b) (length ?t) = ?t" "\<forall>y < b_write b. rp_mem r' y = m y"
    using date(2) by (simp_all add: resp_rep_def)
  have b': "b' = b\<lparr>b_write := b_write b + length ?t\<rparr>" "b_write b + length ?t \<le> b_end b"
    using d len(1) by (auto simp: buf_done_write_def rassert_Inr_iff Let_def)
  then have ok: "buf_ok b'" using b(2) by (simp add: buf_ok_def)
  have "load_bytes (rp_mem r') (b_read b) (b_write b - b_read b) = queued m b"
    using len(3) b(2) by (simp add: queued_def load_bytes_def buf_ok_def)
  then have "queued (rp_mem r') b' = queued m b @ ?t"
    using load_bytes_append[of "rp_mem r'" "b_read b" "b_write b - b_read b" "length ?t"] b(2) len(2)
    by (simp add: queued_def b'(1) buf_ok_def)
  then show thesis using that[OF date(1) h' ok] by simp
qed

section \<open>Room for the head\<close>

text \<open>A call that succeeds when \<open>n\<close> bytes are left, and uses no more of them.\<close>

definition fits :: "(resp \<Rightarrow> resp res) \<Rightarrow> nat \<Rightarrow> bool" where
  "fits f n \<longleftrightarrow> (\<forall>r. rp_ptr r + n \<le> rp_end r \<longrightarrow> (\<exists>r'. f r = Inr r' \<and> rp_end r' = rp_end r \<and> rp_ptr r' \<le> rp_ptr r + n))"

lemma fits_mono: "fits f n \<Longrightarrow> n \<le> k \<Longrightarrow> fits f k"
  unfolding fits_def by (meson add_le_cancel_left order_trans)

lemma fits_string: "fits (resp_string s) (length s)" "fits (resp_http_code c) 3"
  by (simp_all add: fits_def resp_string_def resp_http_code_def resp_put_def http_code_def)

lemma length_print_etag: "length (print_etag e) = 2 * length e"
  by (induction e) (simp_all add: print_etag_def)

lemma fits_etag: "length e = ETAG_SZ \<Longrightarrow> fits (resp_etag e) 41"
  by (simp add: fits_def resp_etag_def resp_put_def length_print_etag ETAG_SZ_def)

lemma fits_u64: "n < 2 ^ 64 \<Longrightarrow> fits (resp_u64 n) 20"
  using print_dec_length[of n 20] by (auto simp: fits_def resp_u64_def Let_def)

lemma fits_time: "print_time (gmtime t) = Inr d \<Longrightarrow> fits (resp_time (gmtime t)) HTTP_TIME_BUF"
  using print_time_length[of t d] by (auto simp: fits_def resp_time_def Let_def)

lemma fits_all: "list_all2 fits fs ns \<Longrightarrow> fits (resp_all fs) (sum_list ns)"
proof (induction rule: list_all2_induct)
  case (Cons f fs n ns)
  show ?case
    unfolding fits_def
  proof (intro allI impI)
    fix r :: resp assume r: "rp_ptr r + sum_list (n # ns) \<le> rp_end r"
    then obtain r1 where r1: "f r = Inr r1" "rp_end r1 = rp_end r" "rp_ptr r1 \<le> rp_ptr r + n" using Cons(1) by (force simp: fits_def)
    then have "rp_ptr r1 + sum_list ns \<le> rp_end r1" using r by simp
    then obtain r2 where "resp_all fs r1 = Inr r2" "rp_end r2 = rp_end r1" "rp_ptr r2 \<le> rp_ptr r1 + sum_list ns"
      using Cons(3) by (auto simp: fits_def)
    then show "\<exists>r'. resp_all (f # fs) r = Inr r' \<and> rp_end r' = rp_end r \<and> rp_ptr r' \<le> rp_ptr r + sum_list (n # ns)"
      using r1 by auto
  qed
qed (simp add: fits_def)

definition HEAD_ROOM :: nat where "HEAD_ROOM = 250"

lemma fits_head:
  assumes "len < 2 ^ 64" "length etag = ETAG_SZ" "print_time (gmtime mtime) = Inr date"
  shows "fits (resp_all (head_steps code mime len close etag mtime)) (HEAD_ROOM + length mime)"
proof (rule fits_mono[OF fits_all])
  let ?ns = "[9, 3, 13, 16, length mime, 18, 20, 14, 10, 8, 41, 17, HTTP_TIME_BUF, 21]"
  have c: "fits (resp_string (code_text code)) 13" by (rule fits_mono[OF fits_string(1)]) (simp add: code_text_def)
  have k: "fits (resp_string (if close then str ''Close'' else str ''Keep-Alive'')) 10" by (rule fits_mono[OF fits_string(1)]) simp
  note t = fits_mono[OF fits_string(1)]
  show "list_all2 fits (head_steps code mime len close etag mtime) ?ns"
    unfolding head_steps_def
    by (simp add: c k fits_string(2) fits_etag[OF assms(2)] fits_u64[OF assms(1)] fits_time[OF assms(3)] fits_string(1) t CRLF_def)
  show "sum_list ?ns \<le> HEAD_ROOM + length mime" by (simp add: HEAD_ROOM_def HTTP_TIME_BUF_def)
qed

lemma write_head_returns:
  assumes b: "hc_res h = Buf (m, b)" "buf_ok b" "HEAD_ROOM + length mime \<le> b_end b - b_write b"
    and d: "hc_data_len h < 2 ^ 64" "length etag = ETAG_SZ" "print_time (gmtime mtime) = Inr date"
  shows "\<exists>h'. write_head code mime etag mtime h = Inr h'"
proof -
  have lt: "b_write b < b_end b" using b(3) by (simp add: HEAD_ROOM_def)
  have room: "b_write b + (HEAD_ROOM + length mime) \<le> b_end b" using b(3) lt by linarith
  have bw: "buf_write b = Inr (b_end b - b_write b, Some (b_write b))" using b(2) lt by (simp add: buf_write_def buf_ok_def)
  let ?r = "\<lparr>rp_mem = m, rp_ptr = b_write b, rp_end = b_end b, rp_len = 0\<rparr>"
  have r: "resp_begin h = Inr ?r" using b(1) bw lt by (simp add: resp_begin_def buf_at_def)
  obtain r' where r': "resp_all (head_steps code mime (hc_data_len h) (hc_conn_close h) etag mtime) ?r = Inr r'"
    "rp_end r' = b_end b" "rp_ptr r' \<le> b_write b + (HEAD_ROOM + length mime)"
    using fits_head[OF d, of code mime "hc_conn_close h", unfolded fits_def, rule_format, of ?r] room by auto
  have rep: "resp_rep m (b_write b) (b_end b) ?r []" by (simp add: resp_rep_def)
  have "rp_len r' \<le> HEAD_ROOM + length mime" using head_steps_text[OF rep r'(1)] r'(3) by (auto simp: resp_rep_def)
  then have "b_write b + rp_len r' \<le> b_end b" using room by linarith
  then have "\<exists>x b'. buf_done_write b (rp_len r') = Inr (x, b')" by (simp add: buf_done_write_def Let_def)
  then show ?thesis using r r'(1) b(1) by (auto simp: write_head_def buf_at_def Let_def)
qed

end
