(* ===== verification/HttpConnProps.thy ===== *)
theory HttpConnProps
  imports HttpHead
begin

text \<open>
  Correctness of a connection: the contract of a file back end as a locale, the invariant
  of the connection's state machine, and the delivery of a response, with the
  interpretations for \<open>sendfile\<close> and for the buffered back end.
\<close>

section \<open>Reading from files\<close>

lemma fd_pread_fault: "fd_pread s f off len eof = Inl e \<Longrightarrow> e = Blocked"
  by (induction s f off len eof rule: fd_pread.induct)
    (auto simp: rbind_Inl_iff Let_def dest: io_retry_fault split: if_splits)

lemma fd_pread_spec:
  "fd_pread s f off len eof = Inr (True, got, False, s') \<Longrightarrow> got = take len (drop off (f_data f)) \<and> length got = len \<and> 0 < len"
proof (induction s f off len eof arbitrary: got rule: fd_pread.induct)
  case (2 x s f off len eof)
  then show ?case by (auto simp: rbind_Inr_iff split: if_splits)
next
  case (3 n s f off len eof)
  let ?g = "sys_pread f off (xfer_len len) n"
  obtain k where k: "?g = take k (drop off (f_data f))" "k \<le> len" using sys_pread_take by blast
  show ?case
  proof (cases "?g = [] \<or> \<not> length ?g < len")
    case True
    then have "got = ?g" "?g \<noteq> []" "length ?g = len" using 3(2) k by (auto simp: Let_def split: if_splits)
    then show ?thesis using k by auto
  next
    case False
    obtain more where m: "fd_pread s f (off + length ?g) (len - length ?g) eof = Inr (True, more, False, s')" "got = ?g @ more"
      using 3(2) False by (auto simp: Let_def rbind_Inr_iff split: if_splits)
    have "more = take (len - length ?g) (drop (off + length ?g) (f_data f))" "length more = len - length ?g"
      using 3(1)[OF refl _ _ m(1)] False by auto
    moreover have "?g = take (length ?g) (drop off (f_data f))"
      unfolding k(1) by (cases "k \<le> length (f_data f) - off") (simp_all add: min_def)
    moreover have "take len (drop off (f_data f)) = take (length ?g) (drop off (f_data f)) @
        take (len - length ?g) (drop (off + length ?g) (f_data f))"
      using take_add[of "length ?g" "len - length ?g" "drop off (f_data f)"] False by (simp add: add.commute)
    ultimately show ?thesis using m(2) False by auto
  qed
qed simp

section \<open>The invariant of a connection\<close>

definition req_ok :: "world \<Rightarrow> bool" where
  "req_ok h \<longleftrightarrow> hc_req h = Null_buf \<or>
     (\<exists>m b. hc_req h = Buf (m, b) \<and> buf_ok b \<and> b_read b \<le> hc_rptr h \<and> hc_rptr h \<le> b_write b)"

text \<open>The buffers the allocator hands out are empty.\<close>

definition bufs_ok :: "(memory \<times> http_buf) option list \<Rightarrow> bool" where
  "bufs_ok bs \<longleftrightarrow> (\<forall>m b. Some (m, b) \<in> set bs \<longrightarrow> buf_ok b \<and> b_read b = b_base b \<and> b_write b = b_base b)"

text \<open>The connection holds a web root that is open.\<close>

definition live :: "world \<Rightarrow> bool" where
  "live h \<longleftrightarrow> (\<exists>w r. hc_webroot h = Some w \<and> open_roots h w = Some r)"

definition pend :: "bufp \<Rightarrow> bytes" where
  "pend p = (case p of Buf (m, b) \<Rightarrow> queued m b | _ \<Rightarrow> [])"

text \<open>
  What the state says of the connection; \<open>busy\<close> is what the file back end keeps while a
  body is being sent.
\<close>

definition conn_ok :: "(bufp \<Rightarrow> bool) \<Rightarrow> world \<Rightarrow> bool" where
  "conn_ok busy h \<longleftrightarrow>
    (if hc_state h = HTTP_CONN_DEAD then n_fd (hc_nbio h) = -1 \<and> n_mask (hc_nbio h) = NBIO_DELETED
     else n_fd (hc_nbio h) \<noteq> -1 \<and> concurrency h \<noteq> 0 \<and> req_ok h \<and> bufs_ok (fresh_bufs h) \<and>
      (case hc_state h of
         HTTP_CONN_REQUEST \<Rightarrow> n_mask (hc_nbio h) = NBIO_READ \<and> hc_res h = Null_buf \<and> hc_io_priv h = Null_buf
       | HTTP_CONN_HEADER \<Rightarrow> n_mask (hc_nbio h) = NBIO_WRITE \<and> (\<exists>m b. hc_res h = Buf (m, b) \<and> buf_ok b \<and> queued m b \<noteq> []) \<and>
           (hc_data_len h = 0 \<longrightarrow> hc_io_priv h = Null_buf) \<and>
           (hc_data_len h \<noteq> 0 \<longrightarrow> busy (hc_io_priv h) \<and> pend (hc_io_priv h) = [] \<and> live h)
       | HTTP_CONN_DATA \<Rightarrow> n_mask (hc_nbio h) = NBIO_WRITE \<and> hc_res h = Null_buf \<and> busy (hc_io_priv h) \<and> live h
       | HTTP_CONN_DEAD \<Rightarrow> False))"

text \<open>What is left to send of a response: its head, what is buffered of its body, and the rest of the file.\<close>

definition body_of :: "nat option \<Rightarrow> roots \<Rightarrow> (int \<Rightarrow> bytes) \<Rightarrow> nat \<Rightarrow> nat \<Rightarrow> bytes" where
  "body_of w roots fs off len = (case w of None \<Rightarrow> [] | Some w \<Rightarrow> (case roots w of None \<Rightarrow> []
     | Some r \<Rightarrow> take len (drop off (fs (r_fd r)))))"

definition body :: "world \<Rightarrow> bytes" where
  "body h = body_of (hc_webroot h) (open_roots h) (files h) (hc_data_off h) (hc_data_len h)"

definition todo :: "world \<Rightarrow> bytes" where
  "todo h = (if hc_state h = HTTP_CONN_HEADER \<or> hc_state h = HTTP_CONN_DATA
     then pend (hc_res h) @ pend (hc_io_priv h) @ (if hc_data_len h = 0 then [] else body h) else [])"

text \<open>One step of sending.\<close>

definition delivers :: "world \<Rightarrow> world \<Rightarrow> bool" where
  "delivers h h' \<longleftrightarrow> (\<exists>rest. sent h @ todo h = sent h' @ rest \<and> (hc_state h' \<noteq> HTTP_CONN_DEAD \<longrightarrow> rest = todo h'))"

lemma deliversI: "sent h' @ todo h' = sent h @ todo h \<Longrightarrow> delivers h h'"
  unfolding delivers_def by (rule exI[of _ "todo h'"]) simp

section \<open>Closing\<close>

text \<open>A connection that can be closed: the buffers it holds are not freed yet.\<close>

definition killable :: "(bufp \<Rightarrow> bool) \<Rightarrow> world \<Rightarrow> bool" where
  "killable busy h \<longleftrightarrow> n_fd (hc_nbio h) \<noteq> -1 \<and> concurrency h \<noteq> 0 \<and> hc_req h \<noteq> Freed_buf \<and> hc_res h \<noteq> Freed_buf \<and>
     hc_state h \<noteq> HTTP_CONN_DEAD \<and> (hc_state h = HTTP_CONN_REQUEST \<longrightarrow> hc_res h = Null_buf) \<and>
     (hc_io_priv h = Null_buf \<or> busy (hc_io_priv h))"

lemma http_kill_with:
  assumes k: "n_fd (hc_nbio h) \<noteq> -1" "concurrency h \<noteq> 0" "hc_req h \<noteq> Freed_buf"
    and st: "\<And>g. hc_state g = hc_state h \<Longrightarrow> hc_res g = hc_res h \<Longrightarrow> hc_io_priv g = hc_io_priv h \<Longrightarrow>
      \<exists>p q. kill_state ab g = Inr (g\<lparr>hc_res := p, hc_io_priv := q\<rparr>)"
  shows "\<exists>h'. http_kill ab h = Inr h' \<and> conn_ok busy h' \<and> hc_state h' = HTTP_CONN_DEAD \<and> sent h' = sent h \<and>
    input h' = input h \<and> open_roots h' = open_roots h \<and> hc_webroot h' = hc_webroot h \<and> concurrency h' = concurrency h - 1 \<and> answers h' = answers h \<and> hc_conn_close h' = hc_conn_close h"
proof -
  define h0 where "h0 = h\<lparr>hc_nbio := (hc_nbio h)\<lparr>n_fd := -1\<rparr>, concurrency := concurrency h - 1\<rparr>"
  define h1 where "h1 = (if oomq h \<noteq> [] then wake_listeners h0 else h0)\<lparr>hc_req := (if hc_req h = Null_buf then Null_buf else Freed_buf)\<rparr>"
  have h1: "hc_state h1 = hc_state h" "hc_res h1 = hc_res h" "hc_io_priv h1 = hc_io_priv h" "n_fd (hc_nbio h1) = -1" "sent h1 = sent h"
    "input h1 = input h" "open_roots h1 = open_roots h" "hc_webroot h1 = hc_webroot h" "concurrency h1 = concurrency h - 1" "answers h1 = answers h" "hc_conn_close h1 = hc_conn_close h"
    "hc_req h1 = (if hc_req h = Null_buf then Null_buf else Freed_buf)"
    by (simp_all add: h1_def h0_def wake_listeners_def)
  have f: "free_buf (hc_req h) = Inr (hc_req h1)" using k(3) by (simp add: free_buf_def h1 split: bufp.splits)
  have step: "http_kill ab h = rbind (kill_state ab h1) (\<lambda>h. Inr (conn_del (h\<lparr>hc_state := HTTP_CONN_DEAD\<rparr>)))"
    using k(1,2) f by (simp add: http_kill_def Let_def h1_def h0_def wake_listeners_def)
  obtain p q where "kill_state ab h1 = Inr (h1\<lparr>hc_res := p, hc_io_priv := q\<rparr>)" using st[OF h1(1-3)] by blast
  then show ?thesis using step h1 by (simp add: conn_ok_def conn_del_def)
qed

text \<open>The end of a body: the connection waits for the next request, or is closed.\<close>

lemma data_complete_ok:
  assumes st: "hc_state h = HTTP_CONN_DATA" "hc_data_len h = 0" "live h" "n_mask (hc_nbio h) = NBIO_WRITE" "hc_res h = Null_buf"
    "hc_io_priv h = Null_buf" "n_fd (hc_nbio h) \<noteq> -1" "concurrency h \<noteq> 0" "req_ok h" "bufs_ok (fresh_bufs h)"
  shows "\<exists>h'. http_conn_data_complete ab h = Inr h' \<and> conn_ok busy h' \<and> sent h' = sent h \<and>
    (hc_state h' = HTTP_CONN_REQUEST \<or> hc_state h' = HTTP_CONN_DEAD) \<and>
    (hc_state h' = HTTP_CONN_DEAD \<longleftrightarrow> hc_conn_close h) \<and> answers h' = answers h \<and> hc_conn_close h' = hc_conn_close h"
proof -
  obtain w r where w: "hc_webroot h = Some w" "open_roots h w = Some r" using st(3) by (auto simp: live_def)
  define h1 where "h1 = h\<lparr>hc_state := HTTP_CONN_REQUEST, hc_nbio := (hc_nbio h)\<lparr>n_mask := NBIO_READ, n_flags := NBIO_READ\<rparr>,
    open_roots := (open_roots h)(w := webroot_unref (Some r)), hc_webroot := None\<rparr>"
  have run: "http_conn_data_complete ab h = (if hc_conn_close h1 then http_kill ab h1 else Inr h1)"
    using st w by (simp add: http_conn_data_complete_def conn_set_wait_def unref_def h1_def NBIO_READ_def NBIO_WRITE_def
        NBIO_WAIT_def NBIO_DELETED_def)
  have ok: "conn_ok busy h1" using st by (simp add: conn_ok_def h1_def req_ok_def)
  show ?thesis
  proof (cases "hc_conn_close h1")
    case True
    have "\<exists>h'. http_kill ab h1 = Inr h' \<and> conn_ok busy h' \<and> hc_state h' = HTTP_CONN_DEAD \<and> sent h' = sent h1 \<and>
      input h' = input h1 \<and> open_roots h' = open_roots h1 \<and> hc_webroot h' = hc_webroot h1 \<and> concurrency h' = concurrency h1 - 1 \<and> answers h' = answers h1 \<and> hc_conn_close h' = hc_conn_close h1"
    proof (rule http_kill_with)
      fix g :: world assume "hc_state g = hc_state h1" "hc_res g = hc_res h1"
      then have "kill_state ab g = Inr (g\<lparr>hc_res := hc_res g, hc_io_priv := hc_io_priv g\<rparr>)"
        using st(5) by (simp add: kill_state_def h1_def)
      then show "\<exists>p q. kill_state ab g = Inr (g\<lparr>hc_res := p, hc_io_priv := q\<rparr>)" by blast
    qed (use st in \<open>auto simp: h1_def req_ok_def\<close>)
    then show ?thesis using run True by (auto simp: h1_def)
  next
    case False
    then show ?thesis using run ok by (simp add: h1_def)
  qed
qed

text \<open>The answers of \<open>send\<close>.\<close>

lemma sys_send_cases:
  obtains "sys_send h bs = Inl Blocked"
  | e s where "sys_send h bs = Inr (Inl e, h\<lparr>answers := s\<rparr>)"
  | k s where "k \<le> length bs" "sys_send h bs = Inr (Inr k, h\<lparr>answers := s, sent := sent h @ take k bs\<rparr>)"
proof (cases "answers h")
  case Nil
  then show ?thesis using that(1) by (simp add: sys_send_def next_answer_def)
next
  case (Cons a s)
  show ?thesis
  proof (cases a)
    case (Ret n)
    then show ?thesis using that(3)[of "min n (length bs)" s] Cons by (simp add: sys_send_def next_answer_def Let_def)
  next
    case (Err e)
    then show ?thesis using that(2)[of e s] Cons by (simp add: sys_send_def next_answer_def)
  qed
qed

text \<open>Sending a part of a buffer.\<close>

lemma buf_send:
  assumes "buf_ok b" "n \<le> length (queued m b)"
  shows "\<exists>b' sz p. buf_shift (m, b) n = Inr (m, b') \<and> buf_ok b' \<and> queued m b' = drop n (queued m b) \<and> buf_read b' = Inr (sz, p) \<and>
    sz = length (queued m b')"
proof -
  obtain q where q: "buf_shift (m, b) n = Inr q" "buf_ok (snd q)" "queued (fst q) (snd q) = drop n (queued m b)"
    using bq.shift_ok[of "(m, b)" n] assms by auto
  then have "fst q = m" by (auto simp: buf_shift_def rbind_Inr_iff)
  moreover have "buf_read (snd q) = Inr (b_write (snd q) - b_read (snd q), if b_read (snd q) \<noteq> 0 then Some (b_read (snd q)) else None)"
    using q(2) by (simp add: buf_read_def buf_ok_def)
  ultimately show ?thesis using q by (cases q) (auto simp: queued_def)
qed

lemma buf_read_ok: "buf_ok b \<Longrightarrow> \<exists>x. buf_read b = Inr x"
  by (simp add: buf_read_def buf_ok_def)

text \<open>What the header callback does once the kernel has taken \<open>k\<close> bytes.\<close>

lemma http_write_hdr_run:
  assumes b: "hc_res h = Buf (m, b)" "buf_ok b" and s: "sys_send h (queued m b) = Inr (Inr k, h1)" "k \<noteq> 0" "k \<le> length (queued m b)"
  obtains b' where "buf_ok b'" "queued m b' = drop k (queued m b)"
    "http_write_hdr h = (if k < length (queued m b) then Inr (True, h1\<lparr>hc_res := Buf (m, b')\<rparr>)
       else if hc_data_len h1 \<noteq> 0 then Inr (True, h1\<lparr>hc_res := Null_buf, hc_state := HTTP_CONN_DATA\<rparr>)
       else if hc_conn_close h1 then Inr (False, h1\<lparr>hc_res := Null_buf\<rparr>)
       else rbind (conn_set_wait (h1\<lparr>hc_res := Null_buf\<rparr>) NBIO_READ) (\<lambda>h. Inr (True, h\<lparr>hc_state := HTTP_CONN_REQUEST\<rparr>)))"
proof -
  obtain b' sz p where b': "buf_shift (m, b) k = Inr (m, b')" "buf_ok b'" "queued m b' = drop k (queued m b)"
    "buf_read b' = Inr (sz, p)" "sz = length (queued m b')" using buf_send[OF b(2) s(3)] by blast
  obtain x where x: "buf_read b = Inr x" using buf_read_ok[OF b(2)] by blast
  show thesis
    using that[OF b'(2,3)] b(1) x s b'(1,3,4,5) by (simp add: http_write_hdr_def buf_at_def Let_def)
qed

text \<open>
  A connection for which a response is being prepared, and one for which it is ready.
\<close>

definition answering :: "world \<Rightarrow> bool" where
  "answering h \<longleftrightarrow> hc_state h = HTTP_CONN_HEADER \<and> n_fd (hc_nbio h) \<noteq> -1 \<and> concurrency h \<noteq> 0 \<and> req_ok h \<and>
     bufs_ok (fresh_bufs h) \<and> n_mask (hc_nbio h) = NBIO_WRITE \<and> (\<exists>m b. hc_res h = Buf (m, b) \<and> buf_ok b) \<and> hc_io_priv h = Null_buf"

lemma answered:
  assumes "answering h" "h' = h\<lparr>hc_res := Buf (m, b), hc_data_len := 0, hc_conn_close := c\<rparr>" "buf_ok b" "queued m b \<noteq> []"
  shows "conn_ok busy h' \<and> hc_state h' = HTTP_CONN_HEADER \<and> hc_req h' = hc_req h"
  using assms by (simp add: answering_def conn_ok_def req_ok_def)

lemma respond_cases:
  assumes "hc_res h = Buf (m, b)" "buf_ok b" "respond text h = Inr h'"
  obtains m' b' where "h' = h\<lparr>hc_res := Buf (m', b'), hc_data_len := 0\<rparr>" "buf_ok b'" "queued m' b' = queued m b @ text"
proof -
  obtain sz q where bw: "buf_write b = Inr (sz, q)" "sz = b_end b - b_write b" using assms(2) by (simp add: buf_write_def buf_ok_def)
  have len: "length text \<le> b_end b - b_write b"
    using assms(1,3) bw by (auto simp: respond_def buf_at_def rassert_Inr_iff)
  obtain m' b' where b': "buf_put (m, b) text = Inr (m', b')" "buf_ok b'" "queued m' b' = queued m b @ text"
    using bq.put_ok[of "(m, b)" "text"] assms(2) len by auto
  have "h' = h\<lparr>hc_res := Buf (m', b'), hc_data_len := 0\<rparr>"
    using assms(1,3) bw b'(1) by (auto simp: respond_def buf_at_def rassert_Inr_iff)
  then show thesis using that b' by blast
qed

lemma respond_answered:
  assumes "answering h" "respond text h = Inr h1" "text \<noteq> []" "h' = h1 \<or> h' = h1\<lparr>hc_conn_close := True\<rparr>"
  shows "conn_ok busy h' \<and> hc_state h' = HTTP_CONN_HEADER \<and> hc_req h' = hc_req h"
proof -
  obtain m b where b: "hc_res h = Buf (m, b)" "buf_ok b" using assms(1) by (auto simp: answering_def)
  obtain m' b' where h1: "h1 = h\<lparr>hc_res := Buf (m', b'), hc_data_len := 0\<rparr>" "buf_ok b'" "queued m' b' = queued m b @ text"
    using respond_cases[OF b assms(2)] by blast
  then have "h' = h\<lparr>hc_res := Buf (m', b'), hc_data_len := 0, hc_conn_close := hc_conn_close h'\<rparr>" using assms(4) by auto
  from answered[OF assms(1) this h1(2)] show ?thesis using h1(3) assms(3) by simp
qed

lemma responses_answered:
  assumes "answering h"
  shows "response_403 h = Inr h' \<Longrightarrow> conn_ok busy h' \<and> hc_state h' = HTTP_CONN_HEADER \<and> hc_req h' = hc_req h"
    "response_404 h = Inr h' \<Longrightarrow> conn_ok busy h' \<and> hc_state h' = HTTP_CONN_HEADER \<and> hc_req h' = hc_req h"
    "response_501 h = Inr h' \<Longrightarrow> conn_ok busy h' \<and> hc_state h' = HTTP_CONN_HEADER \<and> hc_req h' = hc_req h"
    "response_400 h = Inr h' \<Longrightarrow> conn_ok busy h' \<and> hc_state h' = HTTP_CONN_HEADER \<and> hc_req h' = hc_req h"
    "response_500 h = Inr h' \<Longrightarrow> conn_ok busy h' \<and> hc_state h' = HTTP_CONN_HEADER \<and> hc_req h' = hc_req h"
proof -
  have ne: "resp403 \<noteq> []" "resp404 \<noteq> []" "resp501 \<noteq> []" "resp400 \<noteq> []" "resp500 \<noteq> []"
    by (simp_all add: resp403_def resp404_def resp501_def resp400_def resp500_def)
  note r = respond_answered[OF assms]
  show "response_403 h = Inr h' \<Longrightarrow> conn_ok busy h' \<and> hc_state h' = HTTP_CONN_HEADER \<and> hc_req h' = hc_req h"
    unfolding response_403_def by (rule r[OF _ ne(1) disjI1[OF refl]])
  show "response_404 h = Inr h' \<Longrightarrow> conn_ok busy h' \<and> hc_state h' = HTTP_CONN_HEADER \<and> hc_req h' = hc_req h"
    unfolding response_404_def by (rule r[OF _ ne(2) disjI1[OF refl]])
  show "response_501 h = Inr h' \<Longrightarrow> conn_ok busy h' \<and> hc_state h' = HTTP_CONN_HEADER \<and> hc_req h' = hc_req h"
    unfolding response_501_def rbind_Inr_iff by (elim exE conjE) (rule r[OF _ ne(3) disjI2], assumption, simp)
  show "response_400 h = Inr h' \<Longrightarrow> conn_ok busy h' \<and> hc_state h' = HTTP_CONN_HEADER \<and> hc_req h' = hc_req h"
    unfolding response_400_def rbind_Inr_iff by (elim exE conjE) (rule r[OF _ ne(4) disjI2], assumption, simp)
  show "response_500 h = Inr h' \<Longrightarrow> conn_ok busy h' \<and> hc_state h' = HTTP_CONN_HEADER \<and> hc_req h' = hc_req h"
    unfolding response_500_def rbind_Inr_iff by (elim exE conjE) (rule r[OF _ ne(5) disjI2], assumption, simp)
qed

lemma done_write_queue:
  assumes "buf_ok b" "buf_done_write b n = Inr (x, b')" "0 < n"
  shows "buf_ok b' \<and> queued m b' \<noteq> [] \<and> b' = b\<lparr>b_write := b_write b + n\<rparr>"
proof -
  have b': "b' = b\<lparr>b_write := b_write b + n\<rparr>" "b_write b + n \<le> b_end b"
    using assms(2) by (auto simp: buf_done_write_def rassert_Inr_iff Let_def)
  then have "buf_ok b'" using assms(1) by (simp add: buf_ok_def)
  moreover have "length (queued m b') \<noteq> 0" unfolding queued_def using b' assms(1,3) by (simp add: buf_ok_def)
  ultimately show ?thesis using b' by auto
qed

lemma response_301_answered:
  assumes "answering h" "response_301 h host loc = Inr h'"
  shows "conn_ok busy h' \<and> hc_state h' = HTTP_CONN_HEADER \<and> hc_req h' = hc_req h"
proof -
  obtain m b where b: "hc_res h = Buf (m, b)" "buf_ok b" using assms(1) by (auto simp: answering_def)
  let ?t = "resp301 (cstr host) (cstr loc)"
  obtain m' x b' where h': "h' = h\<lparr>hc_res := Buf (m', b'), hc_data_len := 0\<rparr>" "buf_done_write b (length ?t) = Inr (x, b')"
    using assms(2) b(1) by (auto simp: response_301_def buf_at_def rbind_Inr_iff rassert_Inr_iff Let_def)
  have "0 < length ?t" by (simp add: resp301_def)
  note q = done_write_queue[OF b(2) h'(2) this, of m']
  have "h' = h\<lparr>hc_res := Buf (m', b'), hc_data_len := 0, hc_conn_close := hc_conn_close h\<rparr>" using h'(1) by simp
  from answered[OF assms(1) this] show ?thesis using q by blast
qed

text \<open>The contract of a file back end.\<close>

locale file_io =
  fixes fio :: http_fio and busy :: "bufp \<Rightarrow> bool"
  assumes prep_law: "hc_state h = HTTP_CONN_HEADER \<Longrightarrow> hc_io_priv h = Null_buf \<Longrightarrow> bufs_ok (fresh_bufs h) \<Longrightarrow>
      \<exists>ok p st fb. fio_prep fio h = Inr (ok, h\<lparr>hc_io_priv := p, hc_io_state := st, fresh_bufs := fb\<rparr>) \<and>
        (if ok then busy p \<and> pend p = [] else p = Null_buf) \<and> bufs_ok fb"
    and abort_law: "hc_state h = HTTP_CONN_HEADER \<or> hc_state h = HTTP_CONN_DATA \<Longrightarrow> hc_io_priv h = Null_buf \<or> busy (hc_io_priv h) \<Longrightarrow>
      \<exists>p. fio_abort fio h = Inr (h\<lparr>hc_io_priv := p\<rparr>)"
    and write_law: "conn_ok busy h \<Longrightarrow> hc_state h = HTTP_CONN_DATA \<Longrightarrow>
      fio_write fio h = Inl Blocked \<or>
      (\<exists>h'. fio_write fio h = Inr (True, h') \<and> conn_ok busy h' \<and> delivers h h') \<or>
      (\<exists>h'. fio_write fio h = Inr (False, h') \<and> killable busy h' \<and> hc_state h' = HTTP_CONN_DATA \<and>
        (\<exists>rest. sent h @ todo h = sent h' @ rest))"
begin

lemma http_kill_ok:
  assumes "killable busy h"
  shows "\<exists>h'. http_kill (fio_abort fio) h = Inr h' \<and> conn_ok busy h' \<and> hc_state h' = HTTP_CONN_DEAD \<and> sent h' = sent h \<and>
    input h' = input h \<and> open_roots h' = open_roots h \<and> hc_webroot h' = hc_webroot h \<and> concurrency h' = concurrency h - 1 \<and> answers h' = answers h \<and> hc_conn_close h' = hc_conn_close h"
proof (rule http_kill_with)
  fix g :: world assume g: "hc_state g = hc_state h" "hc_res g = hc_res h" "hc_io_priv g = hc_io_priv h"
  have k: "hc_res h \<noteq> Freed_buf" "hc_state h \<noteq> HTTP_CONN_DEAD" "hc_io_priv h = Null_buf \<or> busy (hc_io_priv h)"
    "hc_state h = HTTP_CONN_REQUEST \<Longrightarrow> hc_res h = Null_buf" using assms by (simp_all add: killable_def)
  obtain p where p: "free_buf (hc_res g) = Inr p" using k(1) g(2) by (cases "hc_res h") (auto simp: free_buf_def)
  show "\<exists>p q. kill_state (fio_abort fio) g = Inr (g\<lparr>hc_res := p, hc_io_priv := q\<rparr>)"
  proof (cases "hc_state g")
    case HTTP_CONN_REQUEST
    then have "kill_state (fio_abort fio) g = Inr (g\<lparr>hc_res := hc_res g, hc_io_priv := hc_io_priv g\<rparr>)"
      using k(4) g by (simp add: kill_state_def)
    then show ?thesis by blast
  next
    case HTTP_CONN_HEADER
    then show ?thesis using abort_law[of "g\<lparr>hc_res := p\<rparr>"] k(3) p g by (auto simp: kill_state_def)
  next
    case HTTP_CONN_DATA
    then obtain q where q: "fio_abort fio g = Inr (g\<lparr>hc_io_priv := q\<rparr>)" using abort_law[of g] k(3) g by auto
    have "g\<lparr>hc_io_priv := q\<rparr> = g\<lparr>hc_res := hc_res g, hc_io_priv := q\<rparr>" by simp
    then show ?thesis using q HTTP_CONN_DATA unfolding kill_state_def by (metis conn_state.simps(15))
  qed (use k(2) g in simp)
qed (use assms in \<open>simp_all add: killable_def\<close>)

lemma http_write_hdr_ok:
  assumes ok: "conn_ok busy h" and st: "hc_state h = HTTP_CONN_HEADER"
  shows "http_write_hdr h = Inl Blocked \<or>
    (\<exists>h'. http_write_hdr h = Inr (True, h') \<and> conn_ok busy h' \<and> delivers h h') \<or>
    (\<exists>h'. http_write_hdr h = Inr (False, h') \<and> killable busy h' \<and> (\<exists>rest. sent h @ todo h = sent h' @ rest))"
proof -
  obtain m b where b: "hc_res h = Buf (m, b)" "buf_ok b" "queued m b \<noteq> []" using ok st by (auto simp: conn_ok_def)
  obtain x where x: "buf_read b = Inr x" using buf_read_ok[OF b(2)] by blast
  have o: "n_fd (hc_nbio h) \<noteq> -1" "concurrency h \<noteq> 0" "req_ok h" "n_mask (hc_nbio h) = NBIO_WRITE"
    "(hc_data_len h = 0 \<longrightarrow> hc_io_priv h = Null_buf) \<and> (hc_data_len h \<noteq> 0 \<longrightarrow> busy (hc_io_priv h) \<and> pend (hc_io_priv h) = [] \<and> live h)"
    using ok st by (simp_all add: conn_ok_def)
  have kill: "killable busy (h\<lparr>answers := s, sent := t, hc_res := r\<rparr>)" if "r \<noteq> Freed_buf" for s t r
    using o st that by (auto simp: killable_def req_ok_def split: if_splits)
  have td: "todo h = queued m b @ (if hc_data_len h = 0 then [] else body h)"
    using o(5) by (auto simp: todo_def st b(1) pend_def split: if_splits)
  show ?thesis
  proof (rule sys_send_cases[of h "queued m b"])
    assume "sys_send h (queued m b) = Inl Blocked"
    then show ?thesis using b(1) x by (simp add: http_write_hdr_def buf_at_def)
  next
    fix e s assume s: "sys_send h (queued m b) = Inr (Inl e, h\<lparr>answers := s\<rparr>)"
    let ?h = "conn_inactive (h\<lparr>answers := s\<rparr>) NBIO_WRITE"
    have "conn_ok busy ?h" "todo ?h = todo h" "sent ?h = sent h"
      using ok st by (simp_all add: conn_ok_def conn_inactive_def req_ok_def live_def todo_def body_def)
    then have "conn_ok busy ?h \<and> delivers h ?h" by (simp add: deliversI)
    moreover have "killable busy (h\<lparr>answers := s\<rparr>)" using o st b(1) by (auto simp: killable_def req_ok_def)
    ultimately show ?thesis using b(1) x s by (cases "e = EAGAIN") (auto simp: http_write_hdr_def buf_at_def)
  next
    fix k s assume k: "k \<le> length (queued m b)" and s: "sys_send h (queued m b) = Inr (Inr k, h\<lparr>answers := s, sent := sent h @ take k (queued m b)\<rparr>)"
    let ?h = "h\<lparr>answers := s, sent := sent h @ take k (queued m b)\<rparr>"
    have pre: "sent h @ todo h = sent ?h @ drop k (queued m b) @ (if hc_data_len h = 0 then [] else body h)" by (simp add: td)
    show ?thesis
    proof (cases "k = 0")
      case True
      have "killable busy ?h" using o st b(1) by (auto simp: killable_def req_ok_def)
      then have "killable busy ?h \<and> (\<exists>rest. sent h @ todo h = sent ?h @ rest)" using pre by blast
      then show ?thesis using True b(1) x s by (simp add: http_write_hdr_def buf_at_def)
    next
      case False
      obtain b' where b': "buf_ok b'" "queued m b' = drop k (queued m b)" and
        run0: "http_write_hdr h = (if k < length (queued m b) then Inr (True, ?h\<lparr>hc_res := Buf (m, b')\<rparr>)
           else if hc_data_len ?h \<noteq> 0 then Inr (True, ?h\<lparr>hc_res := Null_buf, hc_state := HTTP_CONN_DATA\<rparr>)
           else if hc_conn_close ?h then Inr (False, ?h\<lparr>hc_res := Null_buf\<rparr>)
           else rbind (conn_set_wait (?h\<lparr>hc_res := Null_buf\<rparr>) NBIO_READ) (\<lambda>h. Inr (True, h\<lparr>hc_state := HTTP_CONN_REQUEST\<rparr>)))"
        using http_write_hdr_run[OF b(1,2) s False k] by blast
      define sz where "sz = length (queued m b) - k"
      let ?n = "?h\<lparr>hc_res := Null_buf\<rparr>"
      have run: "http_write_hdr h = (if sz \<noteq> 0 then Inr (True, ?h\<lparr>hc_res := Buf (m, b')\<rparr>)
           else if hc_data_len h \<noteq> 0 then Inr (True, ?n\<lparr>hc_state := HTTP_CONN_DATA\<rparr>)
           else if hc_conn_close h then Inr (False, ?n)
           else rbind (conn_set_wait ?n NBIO_READ) (\<lambda>h. Inr (True, h\<lparr>hc_state := HTTP_CONN_REQUEST\<rparr>)))"
        using run0 k by (auto simp: sz_def)
      have dr: "sz = 0 \<Longrightarrow> drop k (queued m b) = []" "sz \<noteq> 0 \<Longrightarrow> drop k (queued m b) \<noteq> []" by (simp_all add: sz_def)
      consider "sz \<noteq> 0" | "sz = 0" "hc_data_len h \<noteq> 0" | "sz = 0" "hc_data_len h = 0" "hc_conn_close h"
        | "sz = 0" "hc_data_len h = 0" "\<not> hc_conn_close h" by blast
      then show ?thesis
      proof cases
        case 1
        let ?g = "?h\<lparr>hc_res := Buf (m, b')\<rparr>"
        have "conn_ok busy ?g" using ok st b' 1 dr(2) by (simp add: conn_ok_def req_ok_def live_def)
        moreover have "delivers h ?g" using pre b'(2) o(5)
          by (intro deliversI) (auto simp: todo_def st pend_def body_def split: if_splits)
        ultimately show ?thesis using run 1 by simp
      next
        case 2
        let ?g = "?n\<lparr>hc_state := HTTP_CONN_DATA\<rparr>"
        have "conn_ok busy ?g" using ok st 2 by (simp add: conn_ok_def req_ok_def live_def)
        moreover have "delivers h ?g" using pre dr 2 o(5)
          by (intro deliversI) (auto simp: todo_def pend_def body_def split: if_splits)
        ultimately show ?thesis using run 2 by simp
      next
        case 3
        have "killable busy ?n" using kill[where r = Null_buf and s = s and t = "sent ?h"] by simp
        moreover have "\<exists>rest. sent h @ todo h = sent ?n @ rest" using pre by simp
        ultimately show ?thesis using run 3 by simp
      next
        case 4
        let ?g = "?n\<lparr>hc_nbio := (hc_nbio h)\<lparr>n_mask := NBIO_READ, n_flags := NBIO_READ\<rparr>, hc_state := HTTP_CONN_REQUEST\<rparr>"
        have w: "conn_set_wait ?n NBIO_READ = Inr (?n\<lparr>hc_nbio := (hc_nbio h)\<lparr>n_mask := NBIO_READ, n_flags := NBIO_READ\<rparr>\<rparr>)"
          using o(4) by (simp add: conn_set_wait_def NBIO_READ_def NBIO_WAIT_def NBIO_WRITE_def NBIO_DELETED_def)
        have "conn_ok busy ?g" using ok st 4 by (simp add: conn_ok_def req_ok_def)
        moreover have "delivers h ?g" using pre dr 4 by (intro deliversI) (auto simp: todo_def)
        ultimately show ?thesis using run 4 w by simp
      qed
    qed
  qed
qed

lemma http_write_ok:
  assumes ok: "conn_ok busy h" and st: "hc_state h = HTTP_CONN_HEADER \<or> hc_state h = HTTP_CONN_DATA"
  shows "http_write fio h = Inl Blocked \<or> (\<exists>h'. http_write fio h = Inr h' \<and> conn_ok busy h' \<and> delivers h h')"
proof -
  let ?w = "if hc_state h = HTTP_CONN_HEADER then http_write_hdr h else fio_write fio h"
  have w: "http_write fio h = rbind ?w (\<lambda>(ok, h). if ok then Inr h else http_kill (fio_abort fio) h)"
    using st by (auto simp: http_write_def)
  consider "?w = Inl Blocked" | h' where "?w = Inr (True, h')" "conn_ok busy h'" "delivers h h'"
    | h' rest where "?w = Inr (False, h')" "killable busy h'" "sent h @ todo h = sent h' @ rest"
    using http_write_hdr_ok[OF ok] write_law[OF ok] st by (cases "hc_state h = HTTP_CONN_HEADER") auto
  then show ?thesis
  proof cases
    case 3
    obtain g where g: "http_kill (fio_abort fio) h' = Inr g" "conn_ok busy g" "hc_state g = HTTP_CONN_DEAD" "sent g = sent h'"
      using http_kill_ok[OF 3(2)] by blast
    then have "delivers h g" using 3(3) by (auto simp: delivers_def)
    then show ?thesis using w 3(1) g by simp
  qed (use w in simp_all)
qed

end

section \<open>Answering a request\<close>

context file_io
begin

lemma head_text_nonempty: "head_text code mime len close etag date \<noteq> []"
  by (simp add: head_text_def)

lemma prep_cases:
  assumes st: "hc_state h = HTTP_CONN_HEADER" "hc_io_priv h = Null_buf" "bufs_ok (fresh_bufs h)"
  obtains ok p ios fb where "(if hc_data_len h \<noteq> 0 \<and> \<not> head then fio_prep fio h else Inr (True, h)) =
      Inr (ok, h\<lparr>hc_io_priv := p, hc_io_state := ios, fresh_bufs := fb\<rparr>)" "bufs_ok fb"
      "if ok \<and> hc_data_len h \<noteq> 0 \<and> \<not> head then busy p \<and> pend p = [] else p = Null_buf"
proof (cases "hc_data_len h \<noteq> 0 \<and> \<not> head")
  case True
  obtain ok p ios fb where "fio_prep fio h = Inr (ok, h\<lparr>hc_io_priv := p, hc_io_state := ios, fresh_bufs := fb\<rparr>)"
    "if ok then busy p \<and> pend p = [] else p = Null_buf" "bufs_ok fb" using prep_law[OF st] by blast
  then show thesis using that[where ok = ok and p = p and ios = ios and fb = fb] True by (simp split: if_splits)
next
  case False
  then show thesis using that[where ok = True and p = Null_buf and ios = "hc_io_state h" and fb = "fresh_bufs h"] st by auto
qed

lemma send_object_answered:
  assumes a: "answering h" and s: "send_object fio rh root head code ty etag mtime h = Inr h'"
  shows "conn_ok busy h' \<and> hc_state h' = HTTP_CONN_HEADER \<and> hc_req h' = hc_req h"
proof -
  have st: "hc_state h = HTTP_CONN_HEADER" "hc_io_priv h = Null_buf" "bufs_ok (fresh_bufs h)" using a by (simp_all add: answering_def)
  obtain ok p ios fb where prep: "(if hc_data_len h \<noteq> 0 \<and> \<not> head then fio_prep fio h else Inr (True, h)) =
      Inr (ok, h\<lparr>hc_io_priv := p, hc_io_state := ios, fresh_bufs := fb\<rparr>)" "bufs_ok fb"
      "if ok \<and> hc_data_len h \<noteq> 0 \<and> \<not> head then busy p \<and> pend p = [] else p = Null_buf"
    by (rule prep_cases[OF st])
  let ?h = "h\<lparr>hc_io_priv := p, hc_io_state := ios, fresh_bufs := fb\<rparr>"
  show ?thesis
  proof (cases ok)
    case False
    then have "response_500 ?h = Inr h'" using s prep(1) by (simp add: send_object_def)
    moreover have "answering ?h" using a prep(2,3) False by (simp add: answering_def req_ok_def)
    ultimately show ?thesis using responses_answered(5)[of ?h h'] by simp
  next
    case True
    obtain m b where b: "hc_res ?h = Buf (m, b)" "buf_ok b" using a by (auto simp: answering_def)
    obtain mime h1 where w: "write_head code mime etag mtime ?h = Inr h1"
      and fin: "(if head then Inr (h1\<lparr>hc_data_len := 0\<rparr>) else take_root rh h1) = Inr h'"
      using s prep(1) True by (auto simp: send_object_def rbind_Inr_iff)
    obtain date m' b' where h1: "h1 = ?h\<lparr>reqs := reqs ?h + 1, hc_res := Buf (m', b')\<rparr>" "buf_ok b'"
      "queued m' b' = queued m b @ head_text code mime (hc_data_len ?h) (hc_conn_close ?h) etag date"
      using write_head_cases[OF b w] by blast
    have q: "queued m' b' \<noteq> []" using h1(3) head_text_nonempty by simp
    show ?thesis
    proof (cases head)
      case hd: True
      then have "h' = h1\<lparr>hc_data_len := 0\<rparr>" using fin by simp
      then show ?thesis using a prep(2,3) hd h1(1,2) q by (simp add: answering_def conn_ok_def req_ok_def)
    next
      case hd: False
      then obtain wr' where "h' = h1\<lparr>hc_webroot := Some rh, open_roots := (open_roots h1)(rh \<mapsto> wr')\<rparr>"
        using fin by (auto simp: take_root_def split: option.splits)
      then show ?thesis using a prep(2,3) hd True h1(1,2) q by (auto simp: answering_def conn_ok_def req_ok_def live_def)
    qed
  qed
qed

lemma answer_name_answered:
  assumes a: "answering h" and n: "answer_name fio rh root r head nm h = Inr h'"
  shows "conn_ok busy h' \<and> hc_state h' = HTTP_CONN_HEADER \<and> hc_req h' = hc_req h"
proof -
  consider off len where "nm_code nm = HTTP_MOVED_PERMANENTLY" "nm_u nm = Moved (Some off) len"
    | "nm_code nm \<noteq> HTTP_MOVED_PERMANENTLY" "nm_code nm = HTTP_FORBIDDEN"
    | ofs len mtime etag ty where "nm_code nm \<noteq> HTTP_MOVED_PERMANENTLY" "nm_code nm \<noteq> HTTP_FORBIDDEN"
        "nm_u nm = Data ofs len mtime etag" "mime_type nm = Some ty"
    using n by (auto simp: answer_name_def split: if_splits name_u.splits option.splits)
  then show ?thesis
  proof cases
    case 1
    then show ?thesis using n response_301_answered[OF a] by (auto simp: answer_name_def rbind_Inr_iff)
  next
    case 2
    then show ?thesis using n responses_answered(1)[OF a] by (simp add: answer_name_def)
  next
    case 3
    let ?h = "if nm_code nm = HTTP_FOUND then h\<lparr>hc_data_off := unat ofs, hc_data_len := unat len\<rparr> else h"
    have "answering ?h" "hc_req ?h = hc_req h" using a by (simp_all add: answering_def req_ok_def)
    then show ?thesis using send_object_answered[of ?h] n 3 by (simp add: answer_name_def serve_object_def)
  qed
qed

lemma handle_get_answered:
  assumes a: "answering h" and g: "handle_get fio vh fuel r head h = Inr h'"
  shows "conn_ok busy h' \<and> hc_state h' = HTTP_CONN_HEADER \<and> hc_req h' = hc_req h"
proof -
  obtain g u where u: "answer_uri fio vh fuel r head u (h\<lparr>nads_glob := g\<rparr>) = Inr h'"
    using g by (auto simp: handle_get_def rbind_Inr_iff split: option.splits)
  let ?h = "h\<lparr>nads_glob := g\<rparr>"
  have a': "answering ?h" using a by (simp add: answering_def req_ok_def)
  obtain uri where uri: "string_at (uribuf (nads_glob ?h)) u = Inr uri" using u by (auto simp: answer_uri_def rbind_Inr_iff)
  show ?thesis
  proof (cases "vhosts_lookup vh (Some (cstr (v_bytes (rq_host r))))")
    case None
    then show ?thesis using u uri responses_answered(1)[OF a', of h'] by (simp add: answer_uri_def)
  next
    case (Some rh)
    then obtain root where root: "open_roots ?h rh = Some root" using u uri by (cases "open_roots ?h rh") (simp_all add: answer_uri_def)
    then obtain found nm where "webroot_find fuel root (uribuf (nads_glob ?h)) u (length uri) name_junk = Inr (found, nm)"
      "(if found then answer_name fio rh root r head nm ?h else response_404 ?h) = Inr h'"
      using u uri Some by (auto simp: answer_uri_def rbind_Inr_iff)
    then show ?thesis using responses_answered(2)[OF a', of h'] answer_name_answered[OF a', of rh root r head nm h']
      by (cases found) simp_all
  qed
qed

text \<open>The request buffer after the request.\<close>

lemma request_done_ok:
  assumes ok: "conn_ok busy h" and st: "hc_state h = HTTP_CONN_HEADER" and d: "request_done hlen h = Inr h'"
  shows "conn_ok busy h'"
proof -
  obtain m b where b: "hc_req h = Buf (m, b)" "buf_ok b"
    using ok st d by (auto simp: conn_ok_def req_ok_def request_done_def buf_at_def)
  obtain m1 b1 where b1: "buf_shift (m, b) hlen = Inr (m1, b1)" using d b(1) by (auto simp: request_done_def buf_at_def rbind_Inr_iff)
  have "hlen \<le> length (queued m b)"
    using buf_op_accepts[of "(m, b)" "Shift hlen" "(m1, b1)"] b(2) b1 by simp
  then have ok1: "buf_ok b1" using bq.shift_ok[of "(m, b)" hlen] b(2) b1 by auto
  then obtain sz x where rd: "buf_read b1 = Inr (sz, x)" by (simp add: buf_read_def buf_ok_def)
  show ?thesis
  proof (cases "sz = 0")
    case True
    then have "h' = h\<lparr>hc_req := Null_buf\<rparr>" using d b(1) b1 rd by (simp add: request_done_def buf_at_def)
    then show ?thesis using ok st by (simp add: conn_ok_def req_ok_def live_def)
  next
    case False
    obtain m2 b2 where b2: "buf_pack (m1, b1) = Inr (m2, b2)" "buf_ok b2" using bq.pack_ok[of "(m1, b1)"] ok1 by auto
    then have "b_read b2 = b_base b2" by (auto simp: buf_pack_def buf_reset_def rassert_Inr_iff Let_def split: if_splits)
    moreover have "h' = h\<lparr>hc_req := Buf (m2, b2), hc_rptr := b_base b2, hc_rstate := RSTATE_INITIAL\<rparr>"
      using d b(1) b1 rd False b2(1) by (simp add: request_done_def buf_at_def)
    ultimately show ?thesis using ok st b2(2) by (simp add: conn_ok_def req_ok_def live_def buf_ok_def)
  qed
qed

lemma alloc_buf_cases:
  assumes "bufs_ok (fresh_bufs h)"
  obtains fb where "alloc_buf h = (Null_buf, h\<lparr>fresh_bufs := fb\<rparr>)" "bufs_ok fb"
  | m b fb where "alloc_buf h = (Buf (m, b), h\<lparr>fresh_bufs := fb\<rparr>)" "bufs_ok fb" "buf_ok b" "b_read b = b_base b" "b_write b = b_base b"
proof (cases "fresh_bufs h")
  case Nil
  then have "alloc_buf h = (Null_buf, h\<lparr>fresh_bufs := []\<rparr>)" by (simp add: alloc_buf_def)
  then show ?thesis by (rule that(1)) (simp add: bufs_ok_def)
next
  case (Cons q fb)
  have fb: "bufs_ok fb" using assms Cons by (auto simp: bufs_ok_def)
  show ?thesis
  proof (cases q)
    case None
    then show ?thesis using that(1)[of fb] Cons fb by (simp add: alloc_buf_def)
  next
    case (Some mb)
    obtain m b where mb: "mb = (m, b)" by (cases mb)
    have "Some (m, b) \<in> set (fresh_bufs h)" using Cons Some mb by simp
    then have "buf_ok b" "b_read b = b_base b" "b_write b = b_base b" using assms unfolding bufs_ok_def by metis+
    then show ?thesis using that(2)[of m b fb] Cons Some mb fb by (simp add: alloc_buf_def)
  qed
qed

lemma handle_request_ok:
  assumes ok: "conn_ok busy h" and st: "hc_state h = HTTP_CONN_REQUEST" and r: "handle_request fio vh fuel local h = Inr h'"
  shows "conn_ok busy h'"
proof -
  have o: "n_fd (hc_nbio h) \<noteq> -1" "concurrency h \<noteq> 0" "req_ok h" "bufs_ok (fresh_bufs h)" "n_mask (hc_nbio h) = NBIO_READ"
    "hc_res h = Null_buf" "hc_io_priv h = Null_buf" using ok st by (simp_all add: conn_ok_def)
  show ?thesis
  proof (rule alloc_buf_cases[OF o(4)])
    fix fb assume f: "alloc_buf h = (Null_buf, h\<lparr>fresh_bufs := fb\<rparr>)"
    then have run: "http_kill (fio_abort fio) (h\<lparr>fresh_bufs := fb, hc_res := Null_buf\<rparr>) = Inr h'" using r st by (simp add: handle_request_def)
    have "killable busy (h\<lparr>fresh_bufs := fb, hc_res := Null_buf\<rparr>)" using o st by (auto simp: killable_def req_ok_def)
    from http_kill_ok[OF this] show ?thesis using run by auto
  next
    fix m b fb assume f: "alloc_buf h = (Buf (m, b), h\<lparr>fresh_bufs := fb\<rparr>)" "bufs_ok fb" "buf_ok b" "b_read b = b_base b" "b_write b = b_base b"
    define h1 where "h1 = h\<lparr>fresh_bufs := fb, hc_res := Buf (m, b), hc_state := HTTP_CONN_HEADER,
      hc_nbio := (hc_nbio h)\<lparr>n_mask := NBIO_WRITE, n_flags := NBIO_WRITE\<rparr>\<rparr>"
    have w: "conn_set_wait (h\<lparr>fresh_bufs := fb, hc_res := Buf (m, b), hc_state := HTTP_CONN_HEADER\<rparr>) NBIO_WRITE = Inr h1"
      using o(5) by (simp add: conn_set_wait_def h1_def NBIO_READ_def NBIO_WRITE_def NBIO_WAIT_def NBIO_DELETED_def)
    have a: "answering h1" using o f by (simp add: answering_def h1_def req_ok_def)
    obtain rm rb where req: "hc_req h1 = Buf (rm, rb)" "buf_read rb \<noteq> Inl e" for e
      using r st f(1) w o(3) by (auto simp: handle_request_def rbind_Inr_iff buf_at_def req_ok_def h1_def buf_read_def buf_ok_def)
    obtain hlen q where hq: "http_req http_request_zero (queued rm rb) = (hlen, q)" by (cases "http_req http_request_zero (queued rm rb)")
    define q' where "q' = (if v_len (rq_host q) = 0 then q\<lparr>rq_host := Some local\<rparr> else q)"
    let ?h = "h1\<lparr>hc_conn_close := rq_conn_close q' \<noteq> 0\<rparr>"
    obtain x where x: "buf_read rb = Inr x" using req(2) by (cases "buf_read rb") auto
    have run: "(if hlen = 0 then response_400 h1
            else if rq_content_len q \<noteq> 0 then http_kill (fio_abort fio) h1
            else rbind (if vstrcmp_fast (v_bytes (rq_method q')) (str ''GET'') = 0 then handle_get fio vh fuel q' False ?h
                     else if vstrcmp_fast (v_bytes (rq_method q')) (str ''HEAD'') = 0 then handle_get fio vh fuel q' True ?h
                     else response_501 ?h) (request_done hlen)) = Inr h'"
      using r st f(1) w req(1) x hq by (simp add: handle_request_def buf_at_def q'_def Let_def cong: if_cong)
    consider "hlen = 0" | "hlen \<noteq> 0" "rq_content_len q \<noteq> 0" | "hlen \<noteq> 0" "rq_content_len q = 0" by blast
    then show ?thesis
    proof cases
      case 1
      then show ?thesis using run responses_answered(4)[OF a] by simp
    next
      case 2
      have "killable busy h1" using o st by (auto simp: killable_def req_ok_def h1_def)
      from http_kill_ok[OF this] show ?thesis using run 2 by auto
    next
      case 3
      have a': "answering ?h" using a by (simp add: answering_def req_ok_def)
      obtain h2 where h2: "(if vstrcmp_fast (v_bytes (rq_method q')) (str ''GET'') = 0 then handle_get fio vh fuel q' False ?h
                     else if vstrcmp_fast (v_bytes (rq_method q')) (str ''HEAD'') = 0 then handle_get fio vh fuel q' True ?h
                     else response_501 ?h) = Inr h2" "request_done hlen h2 = Inr h'"
        using run 3 by (auto simp: rbind_Inr_iff)
      then have "conn_ok busy h2 \<and> hc_state h2 = HTTP_CONN_HEADER"
        using handle_get_answered[OF a'] responses_answered(3)[OF a'] by (auto split: if_splits)
      then show ?thesis using request_done_ok h2(2) by blast
    qed
  qed
qed

lemma parse_incremental_moves: "http_parse_incremental st bs = Inr (st', n, d) \<Longrightarrow> n \<le> length bs"
proof (induction bs arbitrary: st n)
  case (Cons c cs)
  obtain k s where "http_parse_incremental s cs = Inr (st', k, d) \<and> n = Suc k \<or> n = 0"
    using Cons.prems by (auto simp: Let_def rbind_Inr_iff split: if_splits option.splits)
  then show ?case using Cons.IH by fastforce
qed simp

lemma sys_recv_cases:
  obtains "sys_recv h len = Inl Blocked"
  | e s where "sys_recv h len = Inr (Inl e, h\<lparr>answers := s\<rparr>)"
  | k s where "k \<le> len" "sys_recv h len = Inr (Inr (take k (input h)), h\<lparr>answers := s, input := drop k (input h)\<rparr>)"
proof (cases "answers h")
  case Nil
  then show ?thesis using that(1) by (simp add: sys_recv_def next_answer_def)
next
  case (Cons a s)
  show ?thesis
  proof (cases a)
    case (Ret n)
    then show ?thesis using that(3)[of "min n len" s] Cons by (simp add: sys_recv_def next_answer_def Let_def)
  next
    case (Err e)
    then show ?thesis using that(2)[of e s] Cons by (simp add: sys_recv_def next_answer_def)
  qed
qed

lemma read_into_ok:
  assumes ok: "conn_ok busy h" and st: "hc_state h = HTTP_CONN_REQUEST" and b: "hc_req h = Buf (m, b)"
    and r: "read_into fio vh fuel local (m, b) h = Inr h'"
  shows "conn_ok busy h'"
proof -
  have bb: "buf_ok b" "b_read b \<le> hc_rptr h" "hc_rptr h \<le> b_write b" using ok st b by (auto simp: conn_ok_def req_ok_def)
  have kill: "conn_ok busy h'" if "killable busy g" "http_kill (fio_abort fio) g = Inr h'" for g
    using http_kill_ok[OF that(1)] that(2) by auto
  define sz where "sz = b_end b - b_write b"
  obtain x where bw: "buf_write b = Inr (sz, x)" using bb(1) by (simp add: buf_write_def buf_ok_def sz_def)
  have k0: "killable busy h" using ok st by (auto simp: conn_ok_def killable_def req_ok_def)
  show ?thesis
  proof (cases "sz = 0")
    case True
    then show ?thesis using r bw kill[OF k0] by (simp add: read_into_def)
  next
    case False
    show ?thesis
    proof (rule sys_recv_cases[of h sz])
      assume "sys_recv h sz = Inl Blocked"
      then show ?thesis using r bw False by (simp add: read_into_def)
    next
      fix e s assume s: "sys_recv h sz = Inr (Inl e, h\<lparr>answers := s\<rparr>)"
      have "conn_ok busy (conn_inactive (h\<lparr>answers := s\<rparr>) NBIO_READ)" using ok st by (simp add: conn_ok_def conn_inactive_def req_ok_def)
      moreover have "killable busy (h\<lparr>answers := s\<rparr>)" using k0 by (simp add: killable_def)
      ultimately show ?thesis using r bw False s kill by (auto simp: read_into_def split: if_splits)
    next
      fix k s assume k: "k \<le> sz" and s: "sys_recv h sz = Inr (Inr (take k (input h)), h\<lparr>answers := s, input := drop k (input h)\<rparr>)"
      let ?got = "take k (input h)" and ?h = "h\<lparr>answers := s, input := drop k (input h)\<rparr>"
      show ?thesis
      proof (cases "?got = []")
        case True
        have "killable busy ?h" using k0 by (simp add: killable_def)
        then show ?thesis using r bw False s True kill by (simp add: read_into_def)
      next
        case ne: False
        have gl: "length ?got \<le> b_end b - b_write b" using k by (simp add: sz_def)
        obtain m1 b1 where b1: "buf_put (m, b) ?got = Inr (m1, b1)" "buf_ok b1"
          using bq.put_ok[of "(m, b)" ?got] bb(1) gl by auto
        have fr: "b_read b1 = b_read b" "b_write b \<le> b_write b1"
          using b1(1) by (auto simp: buf_put_def buf_done_write_def rbind_Inr_iff rassert_Inr_iff Let_def)
        obtain st' n d where p: "http_parse_incremental (hc_rstate h) (load_bytes m1 (hc_rptr h) (b_write b1 - hc_rptr h)) = Inr (st', n, d)"
          and fin: "(if d then handle_request fio vh fuel local (?h\<lparr>hc_req := Buf (m1, b1), hc_rstate := st', hc_rptr := hc_rptr h + n\<rparr>)
            else Inr (?h\<lparr>hc_req := Buf (m1, b1), hc_rstate := st', hc_rptr := hc_rptr h + n\<rparr>)) = Inr h'"
          using r bw False s ne b1(1) by (auto simp: read_into_def rbind_Inr_iff Let_def cong: if_cong)
        have "n \<le> b_write b1 - hc_rptr h" using parse_incremental_moves[OF p] by simp
        then have "conn_ok busy (?h\<lparr>hc_req := Buf (m1, b1), hc_rstate := st', hc_rptr := hc_rptr h + n\<rparr>)"
          using ok st b1(2) fr bb by (simp add: conn_ok_def req_ok_def)
        then show ?thesis using fin handle_request_ok[of "?h\<lparr>hc_req := Buf (m1, b1), hc_rstate := st', hc_rptr := hc_rptr h + n\<rparr>"] st
          by (auto split: if_splits)
      qed
    qed
  qed
qed

lemma http_read_ok:
  assumes ok: "conn_ok busy h" and st: "hc_state h = HTTP_CONN_REQUEST" and r: "http_read fio vh fuel local h = Inr h'"
  shows "conn_ok busy h'"
proof (cases "hc_req h = Null_buf")
  case True
  have fb: "bufs_ok (fresh_bufs h)" using ok st by (simp add: conn_ok_def)
  show ?thesis
  proof (rule alloc_buf_cases[OF fb])
    fix f assume f: "alloc_buf h = (Null_buf, h\<lparr>fresh_bufs := f\<rparr>)"
    have "killable busy (h\<lparr>fresh_bufs := f, hc_req := Null_buf\<rparr>)" using ok st by (auto simp: conn_ok_def killable_def)
    from http_kill_ok[OF this] show ?thesis using r st True f by (auto simp: http_read_def)
  next
    fix m b f assume f: "alloc_buf h = (Buf (m, b), h\<lparr>fresh_bufs := f\<rparr>)" "bufs_ok f" "buf_ok b" "b_read b = b_base b" "b_write b = b_base b"
    let ?h = "h\<lparr>fresh_bufs := f, hc_req := Buf (m, b), hc_rptr := b_base b, hc_rstate := RSTATE_INITIAL\<rparr>"
    have "conn_ok busy ?h" using ok st f by (simp add: conn_ok_def req_ok_def)
    moreover have "read_into fio vh fuel local (m, b) ?h = Inr h'"
      using r st True f(1) by (simp add: http_read_def buf_at_def)
    ultimately show ?thesis using read_into_ok[of ?h m b] st by simp
  qed
next
  case False
  then obtain m b where b: "hc_req h = Buf (m, b)" using ok st by (auto simp: conn_ok_def req_ok_def)
  then have "read_into fio vh fuel local (m, b) h = Inr h'" using r st by (simp add: http_read_def buf_at_def)
  then show ?thesis using read_into_ok[OF ok st b] by blast
qed

end

section \<open>The sendfile back end\<close>

definition sf_busy :: "bufp \<Rightarrow> bool" where "sf_busy p \<longleftrightarrow> p = Null_buf"

lemma body_advance:
  assumes "live h" "k \<le> hc_data_len h"
  shows "body h = take k (body h) @ body (h\<lparr>hc_data_len := hc_data_len h - k, hc_data_off := hc_data_off h + k\<rparr>)"
    "take k (body h) = take k (drop (hc_data_off h) (files h (r_fd (the (open_roots h (the (hc_webroot h)))))))"
proof -
  obtain w r where w: "hc_webroot h = Some w" "open_roots h w = Some r" using assms(1) by (auto simp: live_def)
  let ?d = "drop (hc_data_off h) (files h (r_fd r))"
  have "take (hc_data_len h) ?d = take k ?d @ take (hc_data_len h - k) (drop (hc_data_off h + k) (files h (r_fd r)))"
    using take_add[of k "hc_data_len h - k" ?d] assms(2) by (simp add: add.commute)
  moreover have "take k (take (hc_data_len h) ?d) = take k ?d" using assms(2) by (simp add: min_def)
  ultimately show "body h = take k (body h) @ body (h\<lparr>hc_data_len := hc_data_len h - k, hc_data_off := hc_data_off h + k\<rparr>)"
    "take k (body h) = take k (drop (hc_data_off h) (files h (r_fd (the (open_roots h (the (hc_webroot h)))))))"
    using w by (simp_all add: body_def body_of_def)
qed

lemma body_empty [simp]: "hc_data_len h = 0 \<Longrightarrow> body h = []"
  by (auto simp: body_def body_of_def split: option.splits)

lemma todo_data: "hc_state h = HTTP_CONN_DATA \<Longrightarrow> hc_res h = Null_buf \<Longrightarrow> todo h = pend (hc_io_priv h) @ body h"
  by (simp add: todo_def pend_def)

lemma io_sendfile_write_run:
  assumes "hc_state h = HTTP_CONN_DATA" "hc_webroot h = Some w" "open_roots h w = Some r"
  shows "io_sendfile_write h =
    rbind (sys_send h (take (if hc_data_len h > SENDFILE_CHUNK then SENDFILE_CHUNK else hc_data_len h) (drop (hc_data_off h) (files h (r_fd r)))))
      (\<lambda>(ret, h). case ret of
         Inl e \<Rightarrow> if e = EAGAIN then rbind (http_conn_inactive h) (\<lambda>h. Inr (True, h)) else Inr (False, h)
       | Inr n \<Rightarrow> if n = 0 then Inr (False, h)
           else rbind (http_conn_data_read h n) (\<lambda>(left, h).
             if left = 0 then rbind (http_conn_data_complete io_sendfile_abort h) (\<lambda>h. Inr (True, h))
             else Inr (True, h)))"
  using assms by (simp add: io_sendfile_write_def http_conn_data_def in_reply_def root_fd_def webroot_get_fd_def
      http_conn_socket_def sys_sendfile_def Let_def)

lemma sendfile_write_law:
  assumes ok: "conn_ok sf_busy h" and st: "hc_state h = HTTP_CONN_DATA"
  shows "io_sendfile_write h = Inl Blocked \<or>
      (\<exists>h'. io_sendfile_write h = Inr (True, h') \<and> conn_ok sf_busy h' \<and> delivers h h') \<or>
      (\<exists>h'. io_sendfile_write h = Inr (False, h') \<and> killable sf_busy h' \<and> hc_state h' = HTTP_CONN_DATA \<and>
        (\<exists>rest. sent h @ todo h = sent h' @ rest))"
proof -
  have o: "n_fd (hc_nbio h) \<noteq> -1" "concurrency h \<noteq> 0" "req_ok h" "n_mask (hc_nbio h) = NBIO_WRITE" "hc_res h = Null_buf"
    "hc_io_priv h = Null_buf" "live h" "bufs_ok (fresh_bufs h)" using ok st by (simp_all add: conn_ok_def sf_busy_def)
  obtain w r where w: "hc_webroot h = Some w" "open_roots h w = Some r" using o(7) by (auto simp: live_def)
  have td: "todo h = body h" using todo_data[OF st o(5)] o(6) by (simp add: pend_def)
  define len where "len = (if hc_data_len h > SENDFILE_CHUNK then SENDFILE_CHUNK else hc_data_len h)"
  define bs where "bs = take len (drop (hc_data_off h) (files h (r_fd r)))"
  note run = io_sendfile_write_run[OF st w, folded len_def, folded bs_def]
  show ?thesis
  proof (rule sys_send_cases[of h bs])
    assume "sys_send h bs = Inl Blocked"
    then show ?thesis using run by simp
  next
    fix e s assume s: "sys_send h bs = Inr (Inl e, h\<lparr>answers := s\<rparr>)"
    let ?h = "conn_inactive (h\<lparr>answers := s\<rparr>) NBIO_WRITE"
    have "conn_ok sf_busy ?h" "todo ?h = todo h" "sent ?h = sent h"
      using ok st by (simp_all add: conn_ok_def conn_inactive_def req_ok_def live_def todo_def body_def)
    then have "conn_ok sf_busy ?h \<and> delivers h ?h" by (simp add: deliversI)
    moreover have "killable sf_busy (h\<lparr>answers := s\<rparr>)" using o st by (auto simp: killable_def req_ok_def)
    ultimately show ?thesis using st s run by (cases "e = EAGAIN") (auto simp: http_conn_inactive_def in_reply_def)
  next
    fix k s assume k: "k \<le> length bs" and s: "sys_send h bs = Inr (Inr k, h\<lparr>answers := s, sent := sent h @ take k bs\<rparr>)"
    let ?h = "h\<lparr>answers := s, sent := sent h @ take k bs\<rparr>"
    have kl: "k \<le> hc_data_len h" using k by (auto simp: bs_def len_def split: if_splits)
    have "k \<le> len" using k by (simp add: bs_def)
    then have tk: "take k bs = take k (body h)" using body_advance(2)[OF o(7) kl] w by (simp add: bs_def)
    let ?g = "?h\<lparr>hc_data_len := hc_data_len h - k, hc_data_off := hc_data_off h + k\<rparr>"
    have bg: "body ?g = body (h\<lparr>hc_data_len := hc_data_len h - k, hc_data_off := hc_data_off h + k\<rparr>)" by (simp add: body_def)
    have "sent ?g @ body ?g = sent h @ take k (body h) @ body (h\<lparr>hc_data_len := hc_data_len h - k, hc_data_off := hc_data_off h + k\<rparr>)"
      unfolding bg by (simp add: tk)
    then have pre: "sent h @ todo h = sent ?g @ body ?g" unfolding td using body_advance(1)[OF o(7) kl] by presburger
    have kill: "killable sf_busy ?h" using o st by (auto simp: killable_def req_ok_def)
    show ?thesis
    proof (cases "k = 0")
      case True
      then show ?thesis using run s kill st by simp
    next
      case False
      have rd: "http_conn_data_read ?h k = Inr (hc_data_len h - k, ?g)"
        using st kl by (simp add: http_conn_data_read_def in_reply_def Let_def)
      show ?thesis
      proof (cases "hc_data_len h - k = 0")
        case True
        obtain h' where h': "http_conn_data_complete io_sendfile_abort ?g = Inr h'" "conn_ok sf_busy h'" "sent h' = sent ?g"
          "hc_state h' = HTTP_CONN_REQUEST \<or> hc_state h' = HTTP_CONN_DEAD"
          using data_complete_ok[of ?g io_sendfile_abort sf_busy] o st True by (auto simp: live_def req_ok_def)
        have "delivers h h'" using pre True h'(3,4) by (auto simp: delivers_def todo_def)
        then show ?thesis using run s False rd True h' by simp
      next
        case nz: False
        have "conn_ok sf_busy ?g" using ok st by (simp add: conn_ok_def req_ok_def live_def)
        moreover have "todo ?g = body ?g" using todo_data[of ?g] st o(5,6) by (simp add: pend_def)
        ultimately show ?thesis using run s False rd nz pre deliversI[of ?g h] by simp
      qed
    qed
  qed
qed

interpretation sf: file_io fio_sendfile sf_busy
proof
  fix h
  show "\<exists>ok p st fb. fio_prep fio_sendfile h = Inr (ok, h\<lparr>hc_io_priv := p, hc_io_state := st, fresh_bufs := fb\<rparr>) \<and>
      (if ok then sf_busy p \<and> pend p = [] else p = Null_buf) \<and> bufs_ok fb" if "hc_io_priv h = Null_buf" "bufs_ok (fresh_bufs h)"
    using that by (intro exI[of _ True] exI[of _ Null_buf] exI[of _ "hc_io_state h"] exI[of _ "fresh_bufs h"])
      (simp add: fio_sendfile_def io_sendfile_prep_def sf_busy_def pend_def)
  show "\<exists>p. fio_abort fio_sendfile h = Inr (h\<lparr>hc_io_priv := p\<rparr>)"
    by (rule exI[of _ "hc_io_priv h"]) (simp add: fio_sendfile_def io_sendfile_abort_def)
qed (use sendfile_write_law in \<open>simp add: fio_sendfile_def\<close>)

section \<open>The buffered back end\<close>

definition sy_busy :: "bufp \<Rightarrow> bool" where "sy_busy p \<longleftrightarrow> (\<exists>m b. p = Buf (m, b) \<and> buf_ok b)"

lemma io_sync_fill_cases:
  assumes ok: "buf_ok b" and st: "hc_state h = HTTP_CONN_DATA" "live h"
  obtains "io_sync_fill h (m, b) = Inl Blocked"
  | m' s where "io_sync_fill h (m, b) = Inr (False, (m', b), h\<lparr>answers := s\<rparr>)"
  | m' b' k s where "io_sync_fill h (m, b) =
        Inr (True, (m', b'), h\<lparr>answers := s, hc_data_len := hc_data_len h - k, hc_data_off := hc_data_off h + k\<rparr>)"
      "k \<le> hc_data_len h" "buf_ok b'" "queued m' b' = queued m b @ take k (body h)"
proof -
  obtain w r where w: "hc_webroot h = Some w" "open_roots h w = Some r" using st(2) by (auto simp: live_def)
  define wsz where "wsz = b_end b - b_write b"
  define sz where "sz = (if wsz > hc_data_len h then hc_data_len h else wsz)"
  have data: "http_conn_data h = Inr (hc_data_len h, r_fd r, hc_data_off h)"
    using st(1) w by (simp add: http_conn_data_def in_reply_def root_fd_def webroot_get_fd_def)
  obtain x where bw: "buf_write b = Inr (wsz, x)" using ok by (simp add: buf_write_def buf_ok_def wsz_def)
  let ?p = "fd_pread (answers h) \<lparr>f_data = files h (r_fd r), f_pos = 0\<rparr> (hc_data_off h) sz False"
  show thesis
  proof (cases "wsz = 0")
    case True
    have "io_sync_fill h (m, b) = Inr (True, (m, b), h)" using True data bw by (simp add: io_sync_fill_def)
    moreover have "h\<lparr>answers := answers h, hc_data_len := hc_data_len h - 0, hc_data_off := hc_data_off h + 0\<rparr> = h" by simp
    ultimately show thesis using that(3)[where m' = m and b' = b and s = "answers h" and k = 0] ok by simp
  next
    case False
    have run: "io_sync_fill h (m, b) = rbind ?p (\<lambda>(ok, got, eof, s).
           let h = h\<lparr>answers := s\<rparr> in
           if \<not> ok \<or> eof then Inr (False, (store_bytes m (b_write b) got, b), h)
           else rbind (buf_put (m, b) got) (\<lambda>b.
             rbind (http_conn_data_read h (length got)) (\<lambda>(_, h). Inr (True, b, h))))"
      using False data bw by (simp add: io_sync_fill_def sz_def Let_def cong: if_cong)
    show thesis
    proof (cases ?p)
      case (Inl e)
      then have "?p = Inl Blocked" using fd_pread_fault[OF Inl] by simp
      then show thesis using that(1) run by simp
    next
      case (Inr q)
      obtain ok' got eof s where q: "q = (ok', got, eof, s)" by (cases q)
      show thesis
      proof (cases "\<not> ok' \<or> eof")
        case True
        then show thesis using that(2)[of "store_bytes m (b_write b) got" s] run Inr q by simp
      next
        case okk: False
        then have g: "got = take sz (drop (hc_data_off h) (files h (r_fd r)))" "length got = sz"
          using fd_pread_spec[of "answers h" "\<lparr>f_data = files h (r_fd r), f_pos = 0\<rparr>" "hc_data_off h" sz False got s] Inr q by auto
        have szs: "sz \<le> hc_data_len h" "sz \<le> wsz" by (simp_all add: sz_def)
        obtain m' b' where b': "buf_put (m, b) got = Inr (m', b')" "buf_ok b'" "queued m' b' = queued m b @ got"
          using bq.put_ok[of "(m, b)" got] ok g(2) szs(2) by (auto simp: wsz_def)
        have "got = take sz (body h)" using body_advance(2)[OF st(2) szs(1)] w g(1) by simp
        moreover have "io_sync_fill h (m, b) =
            Inr (True, (m', b'), h\<lparr>answers := s, hc_data_len := hc_data_len h - sz, hc_data_off := hc_data_off h + sz\<rparr>)"
          using run Inr q okk b'(1) g(2) szs(1) st(1) by (simp add: http_conn_data_read_def in_reply_def Let_def)
        ultimately show thesis using that(3)[where m' = m' and b' = b' and s = s and k = sz] b' szs(1) by simp
      qed
    qed
  qed
qed

lemma io_sync_drain_ok:
  assumes h: "hc_state h = HTTP_CONN_DATA" "conn_ok sy_busy h" "hc_io_priv h = Buf (m, b)"
  shows "io_sync_drain h (m, b) = Inl Blocked \<or>
      (\<exists>h'. io_sync_drain h (m, b) = Inr (True, h') \<and> conn_ok sy_busy h' \<and> delivers h h') \<or>
      (\<exists>h'. io_sync_drain h (m, b) = Inr (False, h') \<and> killable sy_busy h' \<and> hc_state h' = HTTP_CONN_DATA \<and>
        (\<exists>rest. sent h @ todo h = sent h' @ rest))"
proof -
  have o: "n_fd (hc_nbio h) \<noteq> -1" "concurrency h \<noteq> 0" "req_ok h" "n_mask (hc_nbio h) = NBIO_WRITE" "hc_res h = Null_buf"
    "live h" "bufs_ok (fresh_bufs h)" and b: "buf_ok b" using h by (simp_all add: conn_ok_def sy_busy_def)
  have td: "todo h = queued m b @ body h" using todo_data[OF h(1) o(5)] h(3) by (simp add: pend_def)
  obtain x where x: "buf_read b = Inr x" using buf_read_ok[OF b] by blast
  show ?thesis
  proof (rule sys_send_cases[of h "queued m b"])
    assume "sys_send h (queued m b) = Inl Blocked"
    then show ?thesis using x h(1) by (simp add: io_sync_drain_def http_conn_socket_def in_reply_def)
  next
    fix e s assume s: "sys_send h (queued m b) = Inr (Inl e, h\<lparr>answers := s\<rparr>)"
    let ?h = "conn_inactive (h\<lparr>answers := s\<rparr>) NBIO_WRITE"
    have "conn_ok sy_busy ?h" "todo ?h = todo h" "sent ?h = sent h"
      using h by (simp_all add: conn_ok_def conn_inactive_def req_ok_def live_def todo_def body_def)
    then have "conn_ok sy_busy ?h \<and> delivers h ?h" by (simp add: deliversI)
    moreover have "killable sy_busy (h\<lparr>answers := s\<rparr>)" using o h b by (auto simp: killable_def req_ok_def sy_busy_def)
    ultimately show ?thesis using h(1) s x
      by (cases "e = EAGAIN") (auto simp: io_sync_drain_def http_conn_socket_def http_conn_inactive_def in_reply_def)
  next
    fix k s assume k: "k \<le> length (queued m b)" and s: "sys_send h (queued m b) = Inr (Inr k, h\<lparr>answers := s, sent := sent h @ take k (queued m b)\<rparr>)"
    let ?h = "h\<lparr>answers := s, sent := sent h @ take k (queued m b)\<rparr>"
    have kill: "killable sy_busy ?h" using o h b by (auto simp: killable_def req_ok_def sy_busy_def)
    show ?thesis
    proof (cases "k = 0")
      case True
      then show ?thesis using s x kill h(1) by (simp add: io_sync_drain_def http_conn_socket_def in_reply_def)
    next
      case False
      obtain b' sz p where b': "buf_shift (m, b) k = Inr (m, b')" "buf_ok b'" "queued m b' = drop k (queued m b)"
        "buf_read b' = Inr (sz, p)" "sz = length (queued m b')" using buf_send[OF b k] by blast
      obtain wsz y where bw: "buf_write b' = Inr (wsz, y)" using b'(2) by (simp add: buf_write_def buf_ok_def)
      obtain m2 b2 where pk: "buf_pack (m, b') = Inr (m2, b2)" "buf_ok b2" "queued m2 b2 = queued m b'"
        using bq.pack_ok[of "(m, b')"] b'(2) by auto
      let ?g = "?h\<lparr>hc_io_priv := Buf (m, b')\<rparr>" and ?n = "?h\<lparr>hc_io_state := 0, hc_io_priv := Null_buf\<rparr>"
      have run: "io_sync_drain h (m, b) = (if sz + hc_data_len h = 0
             then rbind (http_conn_data_complete io_sync_abort ?n) (\<lambda>h. Inr (True, h))
             else if hc_data_len h > wsz then Inr (True, ?h\<lparr>hc_io_priv := Buf (m2, b2)\<rparr>) else Inr (True, ?g))"
        using s x False h(1) b'(1,4) bw pk(1)
        by (simp add: io_sync_drain_def http_conn_socket_def http_conn_set_priv_def in_reply_def Let_def)
      have goon: "conn_ok sy_busy (?h\<lparr>hc_io_priv := Buf (mm, bb)\<rparr>) \<and> delivers h (?h\<lparr>hc_io_priv := Buf (mm, bb)\<rparr>)"
        if q: "buf_ok bb" "queued mm bb = drop k (queued m b)" for mm bb
      proof
        show "conn_ok sy_busy (?h\<lparr>hc_io_priv := Buf (mm, bb)\<rparr>)" using h q(1) by (auto simp: conn_ok_def req_ok_def live_def sy_busy_def)
        have "todo (?h\<lparr>hc_io_priv := Buf (mm, bb)\<rparr>) = drop k (queued m b) @ body h"
          using todo_data[of "?h\<lparr>hc_io_priv := Buf (mm, bb)\<rparr>"] h(1) o(5) q(2) by (simp add: pend_def body_def)
        then show "delivers h (?h\<lparr>hc_io_priv := Buf (mm, bb)\<rparr>)" by (intro deliversI) (simp add: td)
      qed
      show ?thesis
      proof (cases "sz + hc_data_len h = 0")
        case True
        obtain h' where h': "http_conn_data_complete io_sync_abort ?n = Inr h'" "conn_ok sy_busy h'" "sent h' = sent ?n"
          "hc_state h' = HTTP_CONN_REQUEST \<or> hc_state h' = HTTP_CONN_DEAD"
          using data_complete_ok[of ?n io_sync_abort sy_busy] o h(1) True by (auto simp: live_def req_ok_def)
        have "sent h @ todo h = sent h'" using True h'(3) b'(3,5) by (simp add: td)
        then have "delivers h h'" using h'(4) by (auto simp: delivers_def todo_def)
        then show ?thesis using run True h' by simp
      next
        case nz: False
        then show ?thesis using run goon[of b' m] goon[of b2 m2] b' pk by (cases "hc_data_len h > wsz") auto
      qed
    qed
  qed
qed

lemma sync_write_law:
  assumes ok: "conn_ok sy_busy h" and st: "hc_state h = HTTP_CONN_DATA"
  shows "io_sync_write h = Inl Blocked \<or>
      (\<exists>h'. io_sync_write h = Inr (True, h') \<and> conn_ok sy_busy h' \<and> delivers h h') \<or>
      (\<exists>h'. io_sync_write h = Inr (False, h') \<and> killable sy_busy h' \<and> hc_state h' = HTTP_CONN_DATA \<and>
        (\<exists>rest. sent h @ todo h = sent h' @ rest))"
proof -
  obtain m b where p: "hc_io_priv h = Buf (m, b)" "buf_ok b" using ok st by (auto simp: conn_ok_def sy_busy_def)
  have lv: "live h" "hc_res h = Null_buf" using ok st by (simp_all add: conn_ok_def)
  have run: "io_sync_write h = rbind (io_sync_fill h (m, b)) (\<lambda>(ok, b, h).
         let h = h\<lparr>hc_io_priv := Buf b\<rparr> in if \<not> ok then Inr (False, h) else io_sync_drain h b)"
    using p(1) st by (simp add: io_sync_write_def http_conn_get_priv_def in_reply_def buf_at_def)
  show ?thesis
  proof (rule io_sync_fill_cases[OF p(2) st lv(1), of m])
    assume "io_sync_fill h (m, b) = Inl Blocked"
    then show ?thesis using run by simp
  next
    fix m' s assume f: "io_sync_fill h (m, b) = Inr (False, (m', b), h\<lparr>answers := s\<rparr>)"
    have "killable sy_busy (h\<lparr>answers := s, hc_io_priv := Buf (m', b)\<rparr>)"
      using ok st p(2) by (auto simp: conn_ok_def killable_def req_ok_def sy_busy_def)
    then show ?thesis using run f st by simp
  next
    fix m' b' k s
    let ?g = "h\<lparr>answers := s, hc_data_len := hc_data_len h - k, hc_data_off := hc_data_off h + k\<rparr>"
    assume f: "io_sync_fill h (m, b) = Inr (True, (m', b'), ?g)" "k \<le> hc_data_len h" "buf_ok b'" "queued m' b' = queued m b @ take k (body h)"
    let ?h = "?g\<lparr>hc_io_priv := Buf (m', b')\<rparr>"
    have "conn_ok sy_busy ?h" using ok st f(3) by (auto simp: conn_ok_def req_ok_def live_def sy_busy_def)
    moreover have "hc_state ?h = HTTP_CONN_DATA" "hc_io_priv ?h = Buf (m', b')" using st by simp_all
    moreover have td: "todo ?h = todo h" "sent ?h = sent h"
    proof -
      have "todo ?h = queued m b @ take k (body h) @ body (h\<lparr>hc_data_len := hc_data_len h - k, hc_data_off := hc_data_off h + k\<rparr>)"
        using todo_data[of ?h] st lv(2) f(4) by (simp add: pend_def body_def)
      then show "todo ?h = todo h" using body_advance(1)[OF lv(1) f(2)] todo_data[OF st lv(2)] p(1) by (simp add: pend_def)
    qed simp
    ultimately show ?thesis using io_sync_drain_ok[of ?h m' b'] run f(1) unfolding delivers_def by simp
  qed
qed

interpretation sy: file_io fio_sync sy_busy
proof
  fix h
  show "\<exists>ok p st fb. fio_prep fio_sync h = Inr (ok, h\<lparr>hc_io_priv := p, hc_io_state := st, fresh_bufs := fb\<rparr>) \<and>
      (if ok then sy_busy p \<and> pend p = [] else p = Null_buf) \<and> bufs_ok fb"
    if h: "hc_state h = HTTP_CONN_HEADER" "hc_io_priv h = Null_buf" "bufs_ok (fresh_bufs h)"
  proof -
    have none: ?thesis if "fio_prep fio_sync h = Inr (False, h\<lparr>fresh_bufs := fb\<rparr>)" "bufs_ok fb" for fb
      using that h(2) by (intro exI[of _ False] exI[of _ Null_buf] exI[of _ "hc_io_state h"] exI[of _ fb]) simp
    show ?thesis
    proof (cases "fresh_bufs h")
      case Nil
      then have "fio_prep fio_sync h = Inr (False, h\<lparr>fresh_bufs := []\<rparr>)" by (simp add: fio_sync_def io_sync_prep_def alloc_buf_def)
      then show ?thesis by (rule none) (simp add: bufs_ok_def)
    next
      case (Cons q fb)
      have fb: "bufs_ok fb" using h(3) Cons by (auto simp: bufs_ok_def)
      show ?thesis
      proof (cases q)
        case None
        then have "fio_prep fio_sync h = Inr (False, h\<lparr>fresh_bufs := fb\<rparr>)" using Cons by (simp add: fio_sync_def io_sync_prep_def alloc_buf_def)
        then show ?thesis using fb by (rule none)
      next
        case (Some mb)
        obtain m b where mb: "mb = (m, b)" by (cases mb)
        have "Some (m, b) \<in> set (fresh_bufs h)" using Cons Some mb by simp
        then have "buf_ok b" "b_read b = b_write b" using h(3) unfolding bufs_ok_def by metis+
        then have "buf_ok b" "queued m b = []" by (simp_all add: queued_def)
        then show ?thesis using h(1) Cons Some mb fb
          by (intro exI[of _ True] exI[of _ "Buf (m, b)"] exI[of _ 0] exI[of _ fb])
            (simp add: fio_sync_def io_sync_prep_def alloc_buf_def http_conn_set_priv_def in_reply_def sy_busy_def pend_def)
      qed
    qed
  qed
  show "\<exists>p. fio_abort fio_sync h = Inr (h\<lparr>hc_io_priv := p\<rparr>)"
    if a: "hc_state h = HTTP_CONN_HEADER \<or> hc_state h = HTTP_CONN_DATA" "hc_io_priv h = Null_buf \<or> sy_busy (hc_io_priv h)"
  proof -
    obtain q where "free_buf (hc_io_priv h) = Inr q" using a(2) by (auto simp: free_buf_def sy_busy_def)
    then have "fio_abort fio_sync h = Inr (h\<lparr>hc_io_priv := q\<rparr>)"
      using a(1) by (simp add: fio_sync_def io_sync_abort_def http_conn_get_priv_def in_reply_def disj_commute)
    then show ?thesis by blast
  qed
qed (use sync_write_law in \<open>simp add: fio_sync_def\<close>)

end
