(* ===== verification/HttpProps.thy ===== *)
theory HttpProps
  imports HttpConnProps
begin

text \<open>
  What the connections promise: the invariant of their state machine in every reachable
  state, the delivery of responses, what is sent for an object of a web root, and two
  cases in which a reply goes wrong.
\<close>

section \<open>The state machine\<close>

text \<open>
  The steps of a connection: the event loop calls the callback the mask asks for; between
  the calls the peer sends, the kernel decides about its answers and other connections
  release buffers.
\<close>

inductive conn_step :: "http_fio \<Rightarrow> vhosts \<Rightarrow> nat \<Rightarrow> bytes \<Rightarrow> world \<Rightarrow> world \<Rightarrow> bool"
  for fio :: http_fio and vh :: vhosts and fuel :: nat and local :: bytes where
  readable: "n_mask (hc_nbio h) = NBIO_READ \<Longrightarrow> http_read fio vh fuel local h = Inr h' \<Longrightarrow> conn_step fio vh fuel local h h'"
| writable: "n_mask (hc_nbio h) = NBIO_WRITE \<Longrightarrow> http_write fio h = Inr h' \<Longrightarrow> conn_step fio vh fuel local h h'"
| environment: "bufs_ok fb \<Longrightarrow> conn_step fio vh fuel local h (h\<lparr>input := input h @ i, answers := s, fresh_bufs := fb, oomq := q\<rparr>)"

lemma conn_ok_env: "conn_ok busy h \<Longrightarrow> bufs_ok fb \<Longrightarrow> conn_ok busy (h\<lparr>input := i, answers := s, fresh_bufs := fb, oomq := q\<rparr>)"
  by (simp add: conn_ok_def req_ok_def live_def split: conn_state.splits if_splits)

lemma conn_ok_mask:
  assumes "conn_ok busy h"
  shows "n_mask (hc_nbio h) = NBIO_READ \<longleftrightarrow> hc_state h = HTTP_CONN_REQUEST"
    "n_mask (hc_nbio h) = NBIO_WRITE \<longleftrightarrow> hc_state h = HTTP_CONN_HEADER \<or> hc_state h = HTTP_CONN_DATA"
  using assms by (auto simp: conn_ok_def NBIO_READ_def NBIO_WRITE_def NBIO_DELETED_def split: conn_state.splits if_splits)

lemma conn_new_ok:
  assumes "http_conn_new True w s = Some h" "s \<noteq> -1" "bufs_ok (fresh_bufs w)" "concurrency w + 1 \<noteq> 0"
  shows "conn_ok busy h"
  using assms by (auto simp: http_conn_new_def conn_ok_def req_ok_def)

context file_io
begin

lemma step_ok: "conn_step fio vh fuel local h h' \<Longrightarrow> conn_ok busy h \<Longrightarrow> conn_ok busy h'"
proof (induction rule: conn_step.induct)
  case (readable h h')
  then show ?case using http_read_ok conn_ok_mask(1) by blast
next
  case (writable h h')
  then show ?case using http_write_ok[of h] conn_ok_mask(2)[of busy h] by auto
next
  case (environment fb h i s q)
  then show ?case using conn_ok_env by blast
qed

lemma steps_ok: "(conn_step fio vh fuel local)\<^sup>*\<^sup>* h h' \<Longrightarrow> conn_ok busy h \<Longrightarrow> conn_ok busy h'"
  by (induction rule: rtranclp_induct) (auto dest: step_ok)

end

text \<open>The back ends with what each keeps while a body is being sent.\<close>

lemmas back_ends = sf.file_io_axioms sy.file_io_axioms

section \<open>Sending a response\<close>

text \<open>At most \<open>n\<close> calls of the write callback, until the response is out.\<close>

fun http_writes :: "http_fio \<Rightarrow> nat \<Rightarrow> world \<Rightarrow> world res" where
  "http_writes fio 0 h = Inr h"
| "http_writes fio (Suc n) h =
    (if hc_state h = HTTP_CONN_HEADER \<or> hc_state h = HTTP_CONN_DATA then rbind (http_write fio h) (http_writes fio n) else Inr h)"

lemma delivers_refl: "delivers h h"
  by (simp add: delivers_def)

lemma delivers_trans: "delivers h1 h2 \<Longrightarrow> hc_state h2 \<noteq> HTTP_CONN_DEAD \<Longrightarrow> delivers h2 h3 \<Longrightarrow> delivers h1 h3"
  by (auto simp: delivers_def)

context file_io
begin

lemma writes_deliver:
  "conn_ok busy h \<Longrightarrow> http_writes fio n h = Inl Blocked \<or> (\<exists>h'. http_writes fio n h = Inr h' \<and> conn_ok busy h' \<and> delivers h h')"
proof (induction n arbitrary: h)
  case (Suc n)
  show ?case
  proof (cases "hc_state h = HTTP_CONN_HEADER \<or> hc_state h = HTTP_CONN_DATA")
    case True
    consider "http_write fio h = Inl Blocked" | g where "http_write fio h = Inr g" "conn_ok busy g" "delivers h g"
      using http_write_ok[OF Suc.prems True] by blast
    then show ?thesis
    proof cases
      case 2
      show ?thesis
      proof (cases "hc_state g = HTTP_CONN_DEAD")
        case dead: True
        have "http_writes fio n g = Inr g" using dead by (cases n) simp_all
        then show ?thesis using True 2 by simp
      next
        case False
        then show ?thesis using True 2 Suc.IH[of g] delivers_trans[of h g] by auto
      qed
    qed (use True in simp)
  qed (use Suc.prems delivers_refl in simp)
qed (simp add: delivers_refl)

end

text \<open>
  A response that \<open>sendfile\<close> can finish: the file holds all of its body, and the connection
  does not wait for an empty one.
\<close>

definition sendable :: "world \<Rightarrow> bool" where
  "sendable h \<longleftrightarrow> conn_ok sf_busy h \<and> (hc_state h = HTTP_CONN_HEADER \<or> hc_state h = HTTP_CONN_DATA) \<and>
     (hc_data_len h \<noteq> 0 \<longrightarrow> length (body h) = hc_data_len h) \<and> (hc_state h = HTTP_CONN_DATA \<longrightarrow> hc_data_len h \<noteq> 0)"

text \<open>One answer of the kernel is used and at least a byte goes out; the last one ends the response.\<close>

definition progress :: "world \<Rightarrow> world \<Rightarrow> bool" where
  "progress h h' \<longleftrightarrow> answers h' = tl (answers h) \<and> sent h' @ todo h' = sent h @ todo h \<and> hc_conn_close h' = hc_conn_close h \<and>
     (if hc_state h' = HTTP_CONN_HEADER \<or> hc_state h' = HTTP_CONN_DATA then sendable h' \<and> length (todo h') < length (todo h)
      else hc_state h' = (if hc_conn_close h then HTTP_CONN_DEAD else HTTP_CONN_REQUEST))"

lemma sys_send_ret:
  "answers h = Ret n # s \<Longrightarrow> sys_send h bs = Inr (Inr (min n (length bs)), h\<lparr>answers := s, sent := sent h @ take (min n (length bs)) bs\<rparr>)"
  by (simp add: sys_send_def next_answer_def Let_def)

lemma sendfile_hdr_progress:
  assumes ok: "sendable h" and st: "hc_state h = HTTP_CONN_HEADER" and a: "answers h = Ret n # s" "0 < n"
  shows "\<exists>h'. http_write fio_sendfile h = Inr h' \<and> progress h h'"
proof -
  have c: "conn_ok sf_busy h" and len: "hc_data_len h \<noteq> 0 \<Longrightarrow> length (body h) = hc_data_len h" using ok by (simp_all add: sendable_def)
  obtain m b where b: "hc_res h = Buf (m, b)" "buf_ok b" "queued m b \<noteq> []" using c st by (auto simp: conn_ok_def)
  have priv: "pend (hc_io_priv h) = []" using c st by (cases "hc_data_len h = 0") (auto simp: conn_ok_def pend_def)
  have td: "todo h = queued m b @ (if hc_data_len h = 0 then [] else body h)" using st b(1) priv by (simp add: todo_def pend_def)
  define k where "k = min n (length (queued m b))"
  let ?h = "h\<lparr>answers := s, sent := sent h @ take k (queued m b)\<rparr>"
  have k: "k \<noteq> 0" "k \<le> length (queued m b)" using a(2) b(3) by (simp_all add: k_def)
  obtain b' where b': "buf_ok b'" "queued m b' = drop k (queued m b)"
    and run: "http_write_hdr h = (if k < length (queued m b) then Inr (True, ?h\<lparr>hc_res := Buf (m, b')\<rparr>)
       else if hc_data_len ?h \<noteq> 0 then Inr (True, ?h\<lparr>hc_res := Null_buf, hc_state := HTTP_CONN_DATA\<rparr>)
       else if hc_conn_close ?h then Inr (False, ?h\<lparr>hc_res := Null_buf\<rparr>)
       else rbind (conn_set_wait (?h\<lparr>hc_res := Null_buf\<rparr>) NBIO_READ) (\<lambda>h. Inr (True, h\<lparr>hc_state := HTTP_CONN_REQUEST\<rparr>)))"
    using http_write_hdr_run[OF b(1,2) sys_send_ret[OF a(1), of "queued m b", folded k_def] k] by blast
  have w: "http_write fio_sendfile h = rbind (http_write_hdr h) (\<lambda>(ok, h). if ok then Inr h else http_kill (fio_abort fio_sendfile) h)"
    using st by (simp add: http_write_def)
  have kill: "killable sf_busy (?h\<lparr>hc_res := Null_buf\<rparr>)" if "hc_data_len h = 0"
    using c st that by (auto simp: conn_ok_def killable_def req_ok_def)
  consider "k < length (queued m b)" | "k = length (queued m b)" "hc_data_len h \<noteq> 0"
    | "k = length (queued m b)" "hc_data_len h = 0" "hc_conn_close h" | "k = length (queued m b)" "hc_data_len h = 0" "\<not> hc_conn_close h"
    using k(2) by linarith
  then show ?thesis
  proof cases
    case 1
    let ?g = "?h\<lparr>hc_res := Buf (m, b')\<rparr>"
    have g: "conn_ok sf_busy ?g" using c st b' 1 by (simp add: conn_ok_def req_ok_def live_def)
    have tg: "todo ?g = drop k (queued m b) @ (if hc_data_len h = 0 then [] else body h)"
      using st priv b'(2) by (simp add: todo_def pend_def body_def)
    then have "progress h ?g" using g st a(1) len k td 1 by (simp add: progress_def sendable_def body_def)
    then show ?thesis using w run 1 by simp
  next
    case 2
    let ?g = "?h\<lparr>hc_res := Null_buf, hc_state := HTTP_CONN_DATA\<rparr>"
    have g: "conn_ok sf_busy ?g" using c st 2 by (simp add: conn_ok_def req_ok_def live_def)
    have tg: "todo ?g = body h" using priv 2 by (simp add: todo_def pend_def body_def)
    then have "progress h ?g" using g a(1) len 2 td b(3) by (simp add: progress_def sendable_def body_def)
    then show ?thesis using w run 2 by simp
  next
    case 3
    obtain g where "http_kill (fio_abort fio_sendfile) (?h\<lparr>hc_res := Null_buf\<rparr>) = Inr g" "hc_state g = HTTP_CONN_DEAD"
      "sent g = sent ?h" "answers g = s" "hc_conn_close g = hc_conn_close h"
      using sf.http_kill_ok[OF kill[OF 3(2)]] by auto
    then show ?thesis using w run 3 td a(1) by (simp add: progress_def todo_def)
  next
    case 4
    let ?g = "?h\<lparr>hc_res := Null_buf, hc_nbio := (hc_nbio h)\<lparr>n_mask := NBIO_READ, n_flags := NBIO_READ\<rparr>, hc_state := HTTP_CONN_REQUEST\<rparr>"
    have "n_mask (hc_nbio h) = NBIO_WRITE" using c st by (simp add: conn_ok_def)
    then have "conn_set_wait (?h\<lparr>hc_res := Null_buf\<rparr>) NBIO_READ =
        Inr (?h\<lparr>hc_res := Null_buf, hc_nbio := (hc_nbio h)\<lparr>n_mask := NBIO_READ, n_flags := NBIO_READ\<rparr>\<rparr>)"
      by (simp add: conn_set_wait_def NBIO_READ_def NBIO_WAIT_def NBIO_WRITE_def NBIO_DELETED_def)
    then have "http_write fio_sendfile h = Inr ?g" using w run 4 by simp
    moreover have "progress h ?g" using td a(1) 4 by (simp add: progress_def todo_def)
    ultimately show ?thesis by blast
  qed
qed

lemma sendfile_data_progress:
  assumes ok: "sendable h" and st: "hc_state h = HTTP_CONN_DATA" and a: "answers h = Ret n # s" "0 < n"
  shows "\<exists>h'. http_write fio_sendfile h = Inr h' \<and> progress h h'"
proof -
  have c: "conn_ok sf_busy h" and len: "length (body h) = hc_data_len h" "hc_data_len h \<noteq> 0" using ok st by (simp_all add: sendable_def)
  have o: "live h" "hc_res h = Null_buf" "hc_io_priv h = Null_buf" "n_mask (hc_nbio h) = NBIO_WRITE" "n_fd (hc_nbio h) \<noteq> -1"
    "concurrency h \<noteq> 0" "req_ok h" "bufs_ok (fresh_bufs h)" using c st by (simp_all add: conn_ok_def sf_busy_def)
  obtain w r where w: "hc_webroot h = Some w" "open_roots h w = Some r" using o(1) by (auto simp: live_def)
  define l where "l = (if hc_data_len h > SENDFILE_CHUNK then SENDFILE_CHUNK else hc_data_len h)"
  define bs where "bs = take l (drop (hc_data_off h) (files h (r_fd r)))"
  have l: "0 < l" "l \<le> hc_data_len h" using len(2) by (auto simp: l_def SENDFILE_CHUNK_def)
  have bs: "bs = take l (body h)" using body_advance(2)[OF o(1) l(2)] w by (simp add: bs_def)
  define k where "k = min n (length bs)"
  have k: "k \<noteq> 0" "k \<le> length bs" "k \<le> l" using a(2) l len by (auto simp: k_def bs)
  have kl: "k \<le> hc_data_len h" using k l by linarith
  let ?h = "h\<lparr>answers := s, sent := sent h @ take k bs\<rparr>"
  let ?g = "?h\<lparr>hc_data_len := hc_data_len h - k, hc_data_off := hc_data_off h + k\<rparr>"
  have rd: "http_conn_data_read ?h k = Inr (hc_data_len h - k, ?g)" using st kl by (simp add: http_conn_data_read_def in_reply_def Let_def)
  have run: "http_write fio_sendfile h = (if hc_data_len h - k = 0 then http_conn_data_complete io_sendfile_abort ?g else Inr ?g)"
    using io_sendfile_write_run[OF st w, folded l_def, folded bs_def] sys_send_ret[OF a(1), of bs, folded k_def] k(1) rd st
    by (auto simp: http_write_def fio_sendfile_def rbind_def split: sum.splits)
  have td: "todo h = body h" using todo_data[OF st o(2)] o(3) by (simp add: pend_def)
  have bg: "body ?g = body (h\<lparr>hc_data_len := hc_data_len h - k, hc_data_off := hc_data_off h + k\<rparr>)" by (simp add: body_def)
  have split: "body h = take k (body h) @ body ?g" unfolding bg using body_advance(1)[OF o(1) kl] .
  have tk: "take k bs = take k (body h)" using k(3) by (simp add: bs)
  have lg: "length (body ?g) = hc_data_len h - k" using arg_cong[OF split, of length] len(1) kl by simp
  show ?thesis
  proof (cases "hc_data_len h - k = 0")
    case True
    obtain h' where h': "http_conn_data_complete io_sendfile_abort ?g = Inr h'" "sent h' = sent ?g" "answers h' = s"
      "hc_state h' = (if hc_conn_close h then HTTP_CONN_DEAD else HTTP_CONN_REQUEST)" "hc_conn_close h' = hc_conn_close h"
      using data_complete_ok[of ?g io_sendfile_abort sf_busy] o st True by (auto simp: live_def req_ok_def)
    have "sent h' @ todo h' = sent h @ todo h" using h'(2,4) split lg True tk td by (simp add: todo_def)
    then show ?thesis using run True h' a(1) by (simp add: progress_def)
  next
    case False
    have g: "conn_ok sf_busy ?g" using c st by (simp add: conn_ok_def req_ok_def live_def)
    have tg: "todo ?g = body ?g" using todo_data[of ?g] st o(2,3) by (simp add: pend_def)
    have "sent ?g @ todo ?g = sent h @ todo h" unfolding tg td using split tk by simp
    moreover have "length (todo ?g) < length (todo h)" unfolding tg td lg len(1) using k(1) kl by simp
    moreover have "sendable ?g" using g st lg False by (simp add: sendable_def)
    ultimately show ?thesis using run False st a(1) by (simp add: progress_def)
  qed
qed

lemma sendfile_progress:
  assumes "sendable h" "answers h = Ret n # s" "0 < n"
  shows "\<exists>h'. http_write fio_sendfile h = Inr h' \<and> progress h h'"
  using assms sendfile_hdr_progress sendfile_data_progress unfolding sendable_def by blast

lemma sendfile_finishes:
  assumes "sendable h" "length (todo h) \<le> n" "n \<le> length (answers h)" "\<forall>a \<in> set (answers h). \<exists>k. a = Ret k \<and> 0 < k"
  shows "\<exists>h'. http_writes fio_sendfile n h = Inr h' \<and> sent h' = sent h @ todo h \<and>
    hc_state h' = (if hc_conn_close h then HTTP_CONN_DEAD else HTTP_CONN_REQUEST)"
  using assms
proof (induction n arbitrary: h)
  case 0
  then have "todo h \<noteq> []" by (auto simp: sendable_def todo_def conn_ok_def pend_def)
  then show ?case using 0 by simp
next
  case (Suc n)
  obtain k s where a: "answers h = Ret k # s" "0 < k" using Suc.prems(3,4) by (cases "answers h") auto
  have st: "hc_state h = HTTP_CONN_HEADER \<or> hc_state h = HTTP_CONN_DATA" using Suc.prems(1) by (simp add: sendable_def)
  obtain g where g: "http_write fio_sendfile h = Inr g" "progress h g" using sendfile_progress[OF Suc.prems(1) a] by blast
  show ?case
  proof (cases "hc_state g = HTTP_CONN_HEADER \<or> hc_state g = HTTP_CONN_DATA")
    case True
    have p: "sendable g" "length (todo g) < length (todo h)" "answers g = s" "sent g @ todo g = sent h @ todo h" "hc_conn_close g = hc_conn_close h"
      using g(2) True a(1) by (simp_all add: progress_def)
    have "\<exists>h'. http_writes fio_sendfile n g = Inr h' \<and> sent h' = sent g @ todo g \<and>
      hc_state h' = (if hc_conn_close g then HTTP_CONN_DEAD else HTTP_CONN_REQUEST)"
      using Suc.prems(2-4) p a(1) by (intro Suc.IH) auto
    then show ?thesis using g(1) st p(4,5) by auto
  next
    case False
    then have "http_writes fio_sendfile n g = Inr g" by (cases n) simp_all
    moreover have "todo g = []" using False by (simp add: todo_def)
    ultimately show ?thesis using g st False by (simp add: progress_def)
  qed
qed

section \<open>What is sent for an object\<close>

text \<open>The reply for an object of a web root: head and contents.\<close>

definition object_reply :: "webroot \<Rightarrow> (int \<Rightarrow> bytes) \<Rightarrow> bytes \<Rightarrow> bool \<Rightarrow> nat \<times> nat \<times> bytes \<Rightarrow> bytes \<Rightarrow> bytes" where
  "object_reply root fs mime close = (\<lambda>(ofs, len, etag) date.
     head_text HTTP_FOUND mime len close etag date @ take len (drop ofs (fs (r_fd root))))"

definition replying :: "webroot \<Rightarrow> (int \<Rightarrow> bytes) \<Rightarrow> bytes \<Rightarrow> bool \<Rightarrow> nat \<times> nat \<times> bytes \<Rightarrow> bytes \<Rightarrow> world \<Rightarrow> bool" where
  "replying root fs mime close x date h \<longleftrightarrow> todo h = object_reply root fs mime close x date \<and> hc_conn_close h = close \<and>
     hc_data_len h = fst (snd x) \<and> body h = take (fst (snd x)) (drop (fst x) (fs (r_fd root)))"

text \<open>A request for an object that the web root of its host has, on a connection that can answer it.\<close>

definition get_found :: "vhosts \<Rightarrow> nat \<Rightarrow> http_request \<Rightarrow> world \<Rightarrow> webroot \<Rightarrow> webroot_name \<Rightarrow> bytes \<Rightarrow> bool" where
  "get_found vh fuel r h root nm mime \<longleftrightarrow> answering h \<and>
     (\<exists>m b. hc_res h = Buf (m, b) \<and> queued m b = [] \<and> HEAD_ROOM + length mime \<le> b_end b - b_write b) \<and>
     (\<exists>g nd ok p uri. nads_normalize (nads_glob h) \<lparr>nads_buf = v_bytes (rq_uri r), nads_uri = None, nads_query = None\<rparr> = Inr (g, nd, ok) \<and>
        nads_uri nd = Some p \<and> string_at (uribuf g) p = Inr uri \<and>
        webroot_find fuel root (uribuf g) p (length uri) name_junk = Inr (True, nm)) \<and>
     (\<exists>rh. vhosts_lookup vh (Some (cstr (v_bytes (rq_host r)))) = Some rh \<and> open_roots h rh = Some root) \<and>
     (case mime_type nm of None \<Rightarrow> False | Some ty \<Rightarrow> map_at root (fst ty) (snd ty) = Inr mime)"

context file_io
begin

lemma send_object_todo:
  assumes a: "answering h" "hc_res h = Buf (m, b)" "queued m b = []" and root: "open_roots h rh = Some root"
    and mime: "map_at root (fst ty) (snd ty) = Inr mime" and s: "send_object fio rh root False HTTP_FOUND ty etag mtime h = Inr h'"
  shows "sent h' = sent h \<and> (todo h' = resp500 \<and> (\<exists>g. fio_prep fio h = Inr (False, g)) \<or> (\<exists>date. print_time (gmtime mtime) = Inr date \<and>
    replying root (files h) mime (hc_conn_close h) (hc_data_off h, hc_data_len h, etag) date h'))"
proof -
  have st: "hc_state h = HTTP_CONN_HEADER" "hc_io_priv h = Null_buf" "bufs_ok (fresh_bufs h)" "buf_ok b"
    using a(1,2) by (auto simp: answering_def)
  obtain ok p ios fb where prep: "(if hc_data_len h \<noteq> 0 \<and> \<not> False then fio_prep fio h else Inr (True, h)) =
      Inr (ok, h\<lparr>hc_io_priv := p, hc_io_state := ios, fresh_bufs := fb\<rparr>)" "bufs_ok fb"
      "if ok \<and> hc_data_len h \<noteq> 0 \<and> \<not> False then busy p \<and> pend p = [] else p = Null_buf"
    by (rule prep_cases[OF st(1-3)])
  let ?h = "h\<lparr>hc_io_priv := p, hc_io_state := ios, fresh_bufs := fb\<rparr>"
  have pp: "pend p = []" using prep(3) by (auto simp: pend_def split: if_splits)
  have res: "hc_res ?h = Buf (m, b)" using a(2) by simp
  show ?thesis
  proof (cases ok)
    case False
    then obtain h1 where h1: "respond resp500 ?h = Inr h1" "h' = h1\<lparr>hc_conn_close := True\<rparr>"
      using s prep(1) by (auto simp: send_object_def response_500_def rbind_Inr_iff)
    obtain m' b' where "h1 = ?h\<lparr>hc_res := Buf (m', b'), hc_data_len := 0\<rparr>" "queued m' b' = queued m b @ resp500"
      using respond_cases[OF res st(4) h1(1)] by blast
    then have "sent h' = sent h" "todo h' = resp500" using h1(2) st(1) pp a(3) by (simp_all add: todo_def pend_def)
    moreover have "\<exists>g. fio_prep fio h = Inr (False, g)" using prep(1) False by (auto split: if_splits)
    ultimately show ?thesis by blast
  next
    case True
    obtain h1 where w: "write_head HTTP_FOUND mime etag mtime ?h = Inr h1" and t: "take_root rh h1 = Inr h'"
      using s prep(1) True mime by (auto simp: send_object_def rbind_Inr_iff)
    obtain date m' b' where d: "print_time (gmtime mtime) = Inr date" and h1: "h1 = ?h\<lparr>reqs := reqs ?h + 1, hc_res := Buf (m', b')\<rparr>"
      "queued m' b' = queued m b @ head_text HTTP_FOUND mime (hc_data_len ?h) (hc_conn_close ?h) etag date"
      using write_head_cases[OF res st(4) w] by blast
    have h': "h' = h1\<lparr>hc_webroot := Some rh, open_roots := (open_roots h)(rh \<mapsto> webroot_ref root)\<rparr>"
      using t root h1(1) by (simp add: take_root_def)
    have "sent h' = sent h" "replying root (files h) mime (hc_conn_close h) (hc_data_off h, hc_data_len h, etag) date h'"
      unfolding h' using h1 st(1) pp a(3) by (simp_all add: replying_def todo_def pend_def object_reply_def body_def body_of_def webroot_ref_def)
    then show ?thesis using d by blast
  qed
qed

lemma respond_returns:
  assumes "hc_res h = Buf (m, b)" "buf_ok b" "0 < length text" "length text \<le> b_end b - b_write b"
  shows "\<exists>h'. respond text h = Inr h'"
proof -
  have "b_write b < b_end b" using assms(3,4) by linarith
  then have "buf_write b = Inr (b_end b - b_write b, Some (b_write b))" using assms by (simp add: buf_write_def buf_ok_def)
  then show ?thesis using bq.put_ok[of "(m, b)" "text"] assms by (auto simp: respond_def buf_at_def)
qed

lemma send_object_returns:
  assumes a: "answering h" "hc_res h = Buf (m, b)" and root: "open_roots h rh = Some root"
    and mime: "map_at root (fst ty) (snd ty) = Inr mime" "HEAD_ROOM + length mime \<le> b_end b - b_write b"
    and d: "hc_data_len h < 2 ^ 64" "length etag = ETAG_SZ" "print_time (gmtime mtime) = Inr date"
  shows "\<exists>h'. send_object fio rh root head code ty etag mtime h = Inr h'"
proof -
  have st: "hc_state h = HTTP_CONN_HEADER" "hc_io_priv h = Null_buf" "bufs_ok (fresh_bufs h)" "buf_ok b"
    using a(1,2) by (auto simp: answering_def)
  obtain ok p ios fb where prep: "(if hc_data_len h \<noteq> 0 \<and> \<not> head then fio_prep fio h else Inr (True, h)) =
      Inr (ok, h\<lparr>hc_io_priv := p, hc_io_state := ios, fresh_bufs := fb\<rparr>)" "bufs_ok fb"
      "if ok \<and> hc_data_len h \<noteq> 0 \<and> \<not> head then busy p \<and> pend p = [] else p = Null_buf"
    by (rule prep_cases[OF st(1-3)])
  let ?h = "h\<lparr>hc_io_priv := p, hc_io_state := ios, fresh_bufs := fb\<rparr>"
  have "length resp500 \<le> HEAD_ROOM" "0 < length resp500" by (simp_all add: resp500_def HEAD_ROOM_def CRLF_def)
  then obtain h5 where h5: "respond resp500 ?h = Inr h5" using respond_returns[of ?h m b resp500] a(2) st(4) mime(2) by auto
  obtain h1 where h1: "write_head code mime etag mtime ?h = Inr h1"
    using write_head_returns[of ?h m b mime etag mtime date code] a(2) st(4) mime(2) d by auto
  have "open_roots h1 = open_roots h" by (rule write_head_cases[OF _ st(4) h1, of m]) (simp_all add: a(2))
  then have "open_roots h1 rh = Some root" using root by simp
  then show ?thesis using prep(1) h5 h1 mime(1)
    by (cases ok; cases head) (simp_all add: send_object_def response_500_def take_root_def)
qed

lemma handle_get_reply:
  assumes g: "get_found vh fuel r h root nm mime" and f: "nm_code nm = HTTP_FOUND" "nm_u nm = Data ofs len mtime etag"
    and d: "length etag = ETAG_SZ" "print_time (gmtime mtime) = Inr date" and e: "\<not> etag_hit r etag"
  shows "\<exists>h'. handle_get fio vh fuel r False h = Inr h' \<and> conn_ok busy h' \<and> hc_state h' = HTTP_CONN_HEADER \<and> sent h' = sent h \<and>
    (todo h' = resp500 \<and> (\<exists>x g. fio_prep fio x = Inr (False, g)) \<or>
     replying root (files h) mime (hc_conn_close h) (unat ofs, unat len, etag) date h')"
proof -
  obtain m b where b: "answering h" "hc_res h = Buf (m, b)" "queued m b = []" "HEAD_ROOM + length mime \<le> b_end b - b_write b"
    using g unfolding get_found_def by blast
  obtain ng nd ok p uri where n: "nads_normalize (nads_glob h) \<lparr>nads_buf = v_bytes (rq_uri r), nads_uri = None, nads_query = None\<rparr> = Inr (ng, nd, ok)"
    "nads_uri nd = Some p" "string_at (uribuf ng) p = Inr uri" "webroot_find fuel root (uribuf ng) p (length uri) name_junk = Inr (True, nm)"
    using g unfolding get_found_def by blast
  obtain rh where v: "vhosts_lookup vh (Some (cstr (v_bytes (rq_host r)))) = Some rh" "open_roots h rh = Some root"
    using g unfolding get_found_def by blast
  obtain ty where ty: "mime_type nm = Some ty" "map_at root (fst ty) (snd ty) = Inr mime"
    using g unfolding get_found_def by (auto split: option.splits)
  let ?h = "h\<lparr>nads_glob := ng, hc_data_off := unat ofs, hc_data_len := unat len\<rparr>"
  have run: "handle_get fio vh fuel r False h = send_object fio rh root False HTTP_FOUND ty etag mtime ?h"
    using n v f e ty by (simp add: handle_get_def answer_uri_def answer_name_def serve_object_def HTTP_FOUND_def
        HTTP_MOVED_PERMANENTLY_def HTTP_FORBIDDEN_def)
  have h: "answering ?h" "hc_res ?h = Buf (m, b)" "open_roots ?h rh = Some root" using b(1,2) v(2) by (simp_all add: answering_def req_ok_def)
  have "hc_data_len ?h < 2 ^ 64" using unsigned_less[of len, where 'a = nat] by simp
  then obtain h' where h': "send_object fio rh root False HTTP_FOUND ty etag mtime ?h = Inr h'"
    using send_object_returns[OF h ty(2) b(4) _ d] by blast
  have "sent h' = sent h \<and> (todo h' = resp500 \<and> (\<exists>x g. fio_prep fio x = Inr (False, g)) \<or>
      replying root (files h) mime (hc_conn_close h) (unat ofs, unat len, etag) date h')"
    using send_object_todo[OF h(1,2) b(3) h(3) ty(2) h'] d(2) by auto
  moreover have "handle_get fio vh fuel r False h = Inr h'" using run h' by simp
  ultimately show ?thesis using send_object_answered[OF h(1) h'] by blast
qed

end

text \<open>A back end that needs nothing to start sending.\<close>

locale ready_file_io = file_io +
  assumes prep_ready: "fio_prep fio h = Inr (True, h)"
begin

lemma handle_get_object:
  assumes "get_found vh fuel r h root nm mime" "nm_code nm = HTTP_FOUND" "nm_u nm = Data ofs len mtime etag"
    "length etag = ETAG_SZ" "print_time (gmtime mtime) = Inr date" "\<not> etag_hit r etag"
  shows "\<exists>h'. handle_get fio vh fuel r False h = Inr h' \<and> conn_ok busy h' \<and> hc_state h' = HTTP_CONN_HEADER \<and> sent h' = sent h \<and>
    replying root (files h) mime (hc_conn_close h) (unat ofs, unat len, etag) date h'"
  using handle_get_reply[OF assms] by (auto simp: prep_ready)

end

interpretation sfr: ready_file_io fio_sendfile sf_busy
  by unfold_locales (simp add: fio_sendfile_def io_sendfile_prep_def)

section \<open>Properties\<close>

text \<open>The back ends, with what each keeps in the connection while a body is being sent.\<close>

definition back_end :: "http_fio \<Rightarrow> (bufp \<Rightarrow> bool) \<Rightarrow> bool" where
  "back_end fio busy \<longleftrightarrow> (fio, busy) = (fio_sendfile, sf_busy) \<or> (fio, busy) = (fio_sync, sy_busy)"

lemma back_end_io: "back_end fio busy \<Longrightarrow> file_io fio busy"
  unfolding back_end_def using sf.file_io_axioms sy.file_io_axioms by blast

text \<open>
  C5.  The invariant of a connection.  Whatever the client sends, the kernel answers and the
  other connections do, a connection is at every moment in one of four consistent states:
  waiting for a request without a response buffer; sending a head from a nonempty buffer;
  sending a body, with an open web root and what the back end needs; or dead, without a
  socket and deregistered.  In each state it waits for the events it can handle, and when it
  waits for writing the write callback returns or waits for the kernel: no assertion fails,
  no buffer is used after it was freed and no null pointer is followed.
\<close>

theorem conn_reachable_ok:
  assumes "back_end fio busy" "http_conn_new True w s = Some h0" "s \<noteq> -1" "bufs_ok (fresh_bufs w)" "concurrency w + 1 \<noteq> 0"
    and "(conn_step fio vh fuel local)\<^sup>*\<^sup>* h0 h"
  shows "conn_ok busy h \<and>
    (n_mask (hc_nbio h) = NBIO_WRITE \<longrightarrow> http_write fio h = Inl Blocked \<or> (\<exists>h'. http_write fio h = Inr h' \<and> conn_ok busy h'))"
proof -
  have ok: "conn_ok busy h" using file_io.steps_ok[OF back_end_io[OF assms(1)] assms(6)] conn_new_ok[OF assms(2-5)] by blast
  then show ?thesis using file_io.http_write_ok[OF back_end_io[OF assms(1)] ok] conn_ok_mask(2)[OF ok] by blast
qed

text \<open>A connection on which the first bytes of a request have arrived.\<close>

definition sample_world :: world where
  "sample_world = \<lparr>hc_nbio = \<lparr>n_fd = 0, n_mask = 0, n_flags = 0, n_poll = 0\<rparr>, hc_state = HTTP_CONN_REQUEST,
     hc_rstate = RSTATE_INITIAL, hc_io_state = 0, hc_webroot = None, hc_rptr = 0, hc_req = Null_buf, hc_res = Null_buf, hc_io_priv = Null_buf,
     hc_data_off = 0, hc_data_len = 0, hc_conn_close = False, concurrency = 0, oomq = [], reqs = 0, open_roots = Map.empty,
     nads_glob = \<lparr>uribuf = [], nads_errcode = 0\<rparr>, files = (\<lambda>_. str ''abc''), input = str ''GE'', sent = [], answers = [Ret 2],
     fresh_bufs = [Some (\<lambda>_. 0, \<lparr>b_base = 1, b_end = 9, b_read = 1, b_write = 1\<rparr>)], aio = \<lparr>in_flight = 0, submitted = [], fresh_iocbs = []\<rparr>\<rparr>"

theorem conn_reachable_ok_witness:
  "\<exists>h0 h. http_conn_new True sample_world 7 = Some h0 \<and>
     (conn_step fio_sendfile \<lparr>v_tree = None, v_dirname = [], v_default = None\<rparr> 1 [])\<^sup>*\<^sup>* h0 h \<and> conn_ok sf_busy h \<and> hc_rptr h = 3"
proof -
  let ?vh = "\<lparr>v_tree = None, v_dirname = [], v_default = None\<rparr>"
  obtain h0 where h0: "http_conn_new True sample_world 7 = Some h0" by (simp add: http_conn_new_def)
  have m: "n_mask (hc_nbio h0) = NBIO_READ" using h0 by (auto simp: http_conn_new_def)
  have "case http_conn_new True sample_world 7 of None \<Rightarrow> False | Some h0 \<Rightarrow>
      (case http_read fio_sendfile ?vh 1 [] h0 of Inl e \<Rightarrow> False | Inr h \<Rightarrow> hc_rptr h = 3)"
    by code_simp
  then obtain h where h: "http_read fio_sendfile ?vh 1 [] h0 = Inr h" "hc_rptr h = 3" using h0 by (auto split: sum.splits)
  have steps: "(conn_step fio_sendfile ?vh 1 [])\<^sup>*\<^sup>* h0 h" using conn_step.readable[OF m h(1)] by blast
  have "back_end fio_sendfile sf_busy" "bufs_ok (fresh_bufs sample_world)" "concurrency sample_world + 1 \<noteq> 0"
    by (simp_all add: back_end_def bufs_ok_def sample_world_def buf_ok_def)
  then have "conn_ok sf_busy h" using conn_reachable_ok[OF _ h0 _ _ _ steps] by simp
  then show ?thesis using h0 steps h(2) by blast
qed

text \<open>
  C6.  A response arrives unchanged.  However the kernel splits the calls, what a connection
  has put on the wire is at every moment a prefix of what it had sent before, the head, the
  buffered part of the body and the slice of the file, and as long as it is not closed the
  rest is what it still holds: once it waits for the next request exactly the response has
  been sent.
\<close>

theorem response_delivered:
  assumes "back_end fio busy" "conn_ok busy h"
  shows "http_writes fio n h = Inl Blocked \<or> (\<exists>h' rest. http_writes fio n h = Inr h' \<and> sent h @ todo h = sent h' @ rest \<and>
    (hc_state h' \<noteq> HTTP_CONN_DEAD \<longrightarrow> rest = todo h') \<and> (hc_state h' = HTTP_CONN_REQUEST \<longrightarrow> sent h' = sent h @ todo h))"
  using file_io.writes_deliver[OF back_end_io[OF assms(1)] assms(2), of n] by (force simp: delivers_def todo_def)

text \<open>A body of three bytes, to be sent by the buffered back end.\<close>

definition sample_root :: webroot where
  "sample_root = \<lparr>r_fd = 5, r_ref = 2, r_map = [], r_num_edges = 0, r_num_redirect = 0, r_num_oid = 0, r_trie = 0, r_redir = 0, r_file = 0, r_strtab = 0\<rparr>"

definition sample_sending :: "bufp \<Rightarrow> nat \<Rightarrow> sysret list \<Rightarrow> world" where
  "sample_sending p len s = sample_world\<lparr>hc_nbio := \<lparr>n_fd = 7, n_mask = NBIO_WRITE, n_flags = NBIO_WRITE, n_poll = 0\<rparr>, hc_state := HTTP_CONN_DATA,
     hc_webroot := Some 0, hc_io_priv := p, hc_data_off := 3 - len, hc_data_len := len, concurrency := 1,
     open_roots := [0 \<mapsto> sample_root], answers := s, fresh_bufs := []\<rparr>"

lemma sample_sending_ok:
  "conn_ok sf_busy (sample_sending Null_buf n s)" "buf_ok b \<Longrightarrow> conn_ok sy_busy (sample_sending (Buf (m, b)) n s)"
  by (simp_all add: sample_sending_def sample_world_def conn_ok_def req_ok_def live_def sf_busy_def sy_busy_def bufs_ok_def)

lemma sample_sending_simps:
  "hc_state (sample_sending p n s) = HTTP_CONN_DATA" "answers (sample_sending p n s) = s" "sent (sample_sending p n s) = []"
  "hc_data_len (sample_sending p n s) = n" "hc_io_priv (sample_sending p n s) = p" "hc_conn_close (sample_sending p n s) = False"
  "body (sample_sending p n s) = take n (drop (3 - n) (str ''abc''))"
  "todo (sample_sending p n s) = pend p @ take n (drop (3 - n) (str ''abc''))"
  by (simp_all add: sample_sending_def sample_world_def todo_def body_def body_of_def pend_def sample_root_def)

theorem response_delivered_witness:
  "\<exists>h' rest. http_writes fio_sendfile 1 (sample_sending Null_buf 3 [Ret 1, Err EAGAIN]) = Inr h' \<and> str ''abc'' = sent h' @ rest"
proof -
  let ?h = "sample_sending Null_buf 3 [Ret 1, Err EAGAIN]"
  have "sendable ?h" using sample_sending_ok(1)[of 3] by (simp add: sendable_def sample_sending_simps)
  then obtain g where "http_write fio_sendfile ?h = Inr g"
    using sendfile_progress[of ?h 1 "[Err EAGAIN]"] by (auto simp: sample_sending_simps)
  then have nb: "http_writes fio_sendfile 1 ?h \<noteq> Inl Blocked" by (simp add: sample_sending_simps)
  have "back_end fio_sendfile sf_busy" by (simp add: back_end_def)
  from response_delivered[OF this sample_sending_ok(1), of 1 3 "[Ret 1, Err EAGAIN]"] nb
  show ?thesis by (auto simp: sample_sending_simps pend_def)
qed

text \<open>
  C17.  With \<open>sendfile\<close> every response is finished.  If the file is as long as the index says and
  the kernel takes at least a byte at every call, the response is complete after at most as
  many calls of the write callback as it has bytes, and the connection waits for the next
  request, or is closed if that was agreed.
\<close>

theorem sendfile_completes:
  assumes "conn_ok sf_busy h" "hc_state h = HTTP_CONN_HEADER \<or> hc_state h = HTTP_CONN_DATA" "hc_state h = HTTP_CONN_DATA \<Longrightarrow> hc_data_len h \<noteq> 0"
    and "hc_data_len h \<noteq> 0 \<Longrightarrow> length (body h) = hc_data_len h"
    and "length (todo h) \<le> n" "n \<le> length (answers h)" "\<forall>a \<in> set (answers h). \<exists>k. a = Ret k \<and> 0 < k"
  shows "\<exists>h'. http_writes fio_sendfile n h = Inr h' \<and> sent h' = sent h @ todo h \<and>
    hc_state h' = (if hc_conn_close h then HTTP_CONN_DEAD else HTTP_CONN_REQUEST)"
  by (rule sendfile_finishes) (use assms in \<open>auto simp: sendable_def\<close>)

theorem sendfile_completes_witness:
  "\<exists>h'. http_writes fio_sendfile 3 (sample_sending Null_buf 3 [Ret 1, Ret 1, Ret 9]) = Inr h' \<and> sent h' = str ''abc'' \<and> hc_state h' = HTTP_CONN_REQUEST"
  using sendfile_completes[OF sample_sending_ok(1), of 3 "[Ret 1, Ret 1, Ret 9]" 3] by (simp add: sample_sending_simps pend_def)

text \<open>
  C19.  The buffered back end drops clients.  Once the whole rest of a file is in the buffer and
  a part of it has been sent, the next call tops the buffer up with a read of no bytes,
  takes the answer for the end of the file and closes the connection: what is still in the
  buffer is never sent, although nothing has failed.
\<close>

theorem sync_short_send_closes:
  assumes "conn_ok sy_busy h" "hc_state h = HTTP_CONN_DATA" "hc_io_priv h = Buf (m, b)" "b_write b < b_end b" "hc_data_len h = 0"
    and "answers h = Ret n # s"
  shows "\<exists>h'. http_write fio_sync h = Inr h' \<and> hc_state h' = HTTP_CONN_DEAD \<and> sent h' = sent h \<and> todo h = queued m b"
proof -
  have b: "buf_ok b" "live h" "hc_res h = Null_buf" using assms(1-3) by (auto simp: conn_ok_def sy_busy_def)
  obtain w r where w: "hc_webroot h = Some w" "open_roots h w = Some r" using b(2) by (auto simp: live_def)
  have data: "http_conn_data h = Inr (0, r_fd r, hc_data_off h)"
    using assms(2,5) w by (simp add: http_conn_data_def in_reply_def root_fd_def webroot_get_fd_def)
  have bw: "buf_write b = Inr (b_end b - b_write b, Some (b_write b))" using b(1) assms(4) by (simp add: buf_write_def buf_ok_def)
  have "fd_pread (answers h) f off 0 False = Inr (True, [], True, s)" for f off
    unfolding assms(6) by (simp add: Let_def sys_pread_def xfer_len_def)
  moreover have st0: "store_bytes m (b_write b) [] = m" by (rule ext) (auto simp: store_bytes_def)
  ultimately have "io_sync_fill h (m, b) = Inr (False, (m, b), h\<lparr>answers := s\<rparr>)"
    using data bw assms(4) st0 by (simp add: io_sync_fill_def Let_def)
  then have run: "http_write fio_sync h = http_kill io_sync_abort (h\<lparr>answers := s, hc_io_priv := Buf (m, b)\<rparr>)"
    using assms(2,3) by (simp add: http_write_def fio_sync_def io_sync_write_def http_conn_get_priv_def in_reply_def buf_at_def)
  have "killable sy_busy (h\<lparr>answers := s, hc_io_priv := Buf (m, b)\<rparr>)"
    using assms(1,2) b(1) by (auto simp: conn_ok_def killable_def req_ok_def sy_busy_def)
  from sy.http_kill_ok[OF this] obtain h' where "http_write fio_sync h = Inr h'" "hc_state h' = HTTP_CONN_DEAD" "sent h' = sent h"
    using run by (auto simp: fio_sync_def)
  moreover have "todo h = queued m b" using todo_data[OF assms(2) b(3)] assms(3,5) by (simp add: pend_def)
  ultimately show ?thesis by blast
qed

theorem sync_short_send_closes_witness:
  "\<exists>h'. http_write fio_sync (sample_sending (Buf (\<lambda>_. 98, \<lparr>b_base = 1, b_end = 9, b_read = 2, b_write = 4\<rparr>)) 0 [Ret 5]) = Inr h' \<and>
     hc_state h' = HTTP_CONN_DEAD \<and> sent h' = [] \<and>
     todo (sample_sending (Buf (\<lambda>_. 98, \<lparr>b_base = 1, b_end = 9, b_read = 2, b_write = 4\<rparr>)) 0 [Ret 5]) = str ''bb''"
proof -
  let ?b = "\<lparr>b_base = 1, b_end = 9, b_read = 2, b_write = 4\<rparr> :: http_buf"
  have "buf_ok ?b" by (simp add: buf_ok_def)
  then show ?thesis
    using sync_short_send_closes[OF sample_sending_ok(2), of ?b "\<lambda>_. 98" 0 "[Ret 5]" "\<lambda>_. 98" ?b 5 "[]"]
    by (simp add: sample_sending_simps queued_def load_bytes_def)
qed



end
