(* ===== verification/IoAsync.thy ===== *)
theory IoAsync
  imports HttpServe
begin

text \<open>
  The back ends on asynchronous input (\<^verbatim>\<open>io_async.c\<close>, \<^verbatim>\<open>io_async_sendfile.c\<close>): a read of the file
  is submitted to the kernel while the connection waits on no event, and its completion,
  announced through an event descriptor, wakes the connection.  A completion carries the
  error or the bytes the kernel has put into the buffer.
\<close>

section \<open>Submitting\<close>

text \<open>A request for the kernel; \<open>io_submit\<close> answers with the number it has accepted.\<close>

definition aio_push :: "world \<Rightarrow> aio_req \<Rightarrow> (bool \<times> world) res" where
  "aio_push h rq = rbind (next_answer h) (\<lambda>(a, h). case a of
     Err e \<Rightarrow> Inr (False, h)
   | Ret n \<Rightarrow> if n = 0 then Inr (False, h) else Inr (True, h\<lparr>aio := (aio h)\<lparr>submitted := submitted (aio h) @ [rq]\<rparr>\<rparr>))"

definition alloc_iocb :: "world \<Rightarrow> bool \<times> world" where
  "alloc_iocb h = (case fresh_iocbs (aio h) of [] \<Rightarrow> (False, h) | ok # oks \<Rightarrow> (ok, h\<lparr>aio := (aio h)\<lparr>fresh_iocbs := oks\<rparr>\<rparr>))"

definition count_in_flight :: "u32 \<Rightarrow> world \<Rightarrow> world" where
  "count_in_flight d h = h\<lparr>aio := (aio h)\<lparr>in_flight := in_flight (aio h) + d\<rparr>\<rparr>"

definition aio_submit :: "world \<Rightarrow> (bool \<times> world) res" where
  "aio_submit h = rbind (http_conn_data h) (\<lambda>(data_len, fd, data_off). rassert (data_len \<noteq> 0)
     (case alloc_iocb h of
        (False, h) \<Rightarrow> Inr (False, h)
      | (True, h) \<Rightarrow>
        rbind (http_conn_get_priv h) (\<lambda>(p, _). rbind (buf_at p) (\<lambda>b. rbind (buf_write (snd b)) (\<lambda>(sz, _).
          let sz = (if data_len < sz then data_len else sz) in
          rbind (aio_push h \<lparr>cb_fd = fd, cb_off = data_off, cb_len = sz\<rparr>) (\<lambda>(ok, h).
            if \<not> ok then Inr (False, h)
            else rbind (http_conn_to_waitq h) (\<lambda>h. Inr (True, count_in_flight 1 h))))))))"

section \<open>The operations\<close>

definition io_async_abort :: "world \<Rightarrow> world res" where
  "io_async_abort h = rbind (http_conn_get_priv h) (\<lambda>(p, _). rbind (free_buf p) (\<lambda>p. Inr (h\<lparr>hc_io_priv := p\<rparr>)))"

definition io_async_prep :: "world \<Rightarrow> (bool \<times> world) res" where
  "io_async_prep h = (case alloc_buf h of
     (Null_buf, h) \<Rightarrow> Inr (False, h)
   | (p, h) \<Rightarrow> rbind (http_conn_set_priv h p 0) (\<lambda>h. rbind (aio_submit h) (\<lambda>(ok, h).
       if ok then Inr (True, h)
       else rbind (free_buf p) (\<lambda>_. rbind (http_conn_set_priv h Null_buf 0) (\<lambda>h. Inr (False, h))))))"

definition io_async_write :: "world \<Rightarrow> (bool \<times> world) res" where
  "io_async_write h = rbind (http_conn_get_priv h) (\<lambda>(p, _). rbind (buf_at p) (\<lambda>b. rbind (buf_read (snd b)) (\<lambda>_.
     rbind (in_reply h (Inr (hc_data_len h))) (\<lambda>_. rbind (http_conn_socket h) (\<lambda>_.
       rbind (sys_send h (queued (fst b) (snd b))) (\<lambda>(ret, h). case ret of
         Inl e \<Rightarrow> if e = EAGAIN then rbind (http_conn_inactive h) (\<lambda>h. Inr (True, h)) else Inr (False, h)
       | Inr n \<Rightarrow> if n = 0 then Inr (False, h)
           else rbind (buf_shift b n) (\<lambda>b. rbind (buf_read (snd b)) (\<lambda>(sz, _).
             let h = h\<lparr>hc_io_priv := Buf b\<rparr> in
             rbind (http_conn_data_read h n) (\<lambda>(data_len, h).
               if sz \<noteq> 0 then Inr (True, h)
               else if data_len \<noteq> 0 then rbind (buf_pack b) (\<lambda>b. aio_submit (h\<lparr>hc_io_priv := Buf b\<rparr>))
               else rbind (free_buf (hc_io_priv h)) (\<lambda>_. rbind (http_conn_set_priv h Null_buf 0) (\<lambda>h.
                 rbind (http_conn_data_complete io_async_abort h) (\<lambda>h. Inr (True, h)))))))))))))"

definition handle_completion :: "world \<Rightarrow> errno + bytes \<Rightarrow> world res" where
  "handle_completion h ret = (let h = count_in_flight (-1) h in case ret of
     Inl e \<Rightarrow> http_conn_abort io_async_abort h
   | Inr got \<Rightarrow> if got = [] then http_conn_abort io_async_abort h
       else rbind (http_conn_get_priv h) (\<lambda>(p, _). rbind (buf_at p) (\<lambda>b. rbind (buf_put b got) (\<lambda>b.
         http_conn_wake_one (h\<lparr>hc_io_priv := Buf b\<rparr>)))))"

text \<open>The callback of the event descriptor, for the completions of one connection.\<close>

fun completions :: "(world \<Rightarrow> 'a \<Rightarrow> world res) \<Rightarrow> world \<Rightarrow> 'a list \<Rightarrow> world res" where
  "completions f h [] = Inr h"
| "completions f h (e # es) = rbind (f h e) (\<lambda>h. completions f h es)"

definition aio_event :: "world \<Rightarrow> errno + (errno + bytes) list \<Rightarrow> world res" where
  "aio_event h evs = (if in_flight (aio h) = 0 then Inr h
     else case evs of Inl e \<Rightarrow> Inr h | Inr es \<Rightarrow> completions handle_completion h es)"

definition fio_async :: http_fio where
  "fio_async = \<lparr>fio_prep = io_async_prep, fio_write = io_async_write, fio_abort = io_async_abort\<rparr>"

section \<open>Sending in the kernel\<close>

text \<open>Here the kernel sends the file itself; a completion carries the number of bytes.\<close>

definition aio_sendfile_submit :: "world \<Rightarrow> (bool \<times> world) res" where
  "aio_sendfile_submit h = rbind (http_conn_data h) (\<lambda>(data_len, fd, data_off). rassert (data_len \<noteq> 0)
     (case alloc_iocb h of
        (False, h) \<Rightarrow> Inr (False, h)
      | (True, h) \<Rightarrow> rbind (http_conn_socket h) (\<lambda>_.
          rbind (aio_push h \<lparr>cb_fd = fd, cb_off = data_off, cb_len = data_len\<rparr>) (\<lambda>(ok, h).
            if \<not> ok then Inr (False, h) else Inr (True, count_in_flight 1 h)))))"

definition io_async_sendfile_abort :: "world \<Rightarrow> world res" where "io_async_sendfile_abort h = Inr h"

definition io_async_sendfile_prep :: "world \<Rightarrow> (bool \<times> world) res" where "io_async_sendfile_prep h = Inr (True, h)"

definition io_async_sendfile_write :: "world \<Rightarrow> (bool \<times> world) res" where
  "io_async_sendfile_write h = rbind (http_conn_to_waitq h) aio_sendfile_submit"

definition sendfile_completion :: "world \<Rightarrow> errno + nat \<Rightarrow> world res" where
  "sendfile_completion h ret = (let h = count_in_flight (-1) h in case ret of
     Inr n \<Rightarrow> if n > 0
       then rbind (http_conn_data_read h n) (\<lambda>(data_len, h).
         if data_len \<noteq> 0
         then rbind (aio_sendfile_submit h) (\<lambda>(ok, h). if ok then Inr h else http_conn_abort io_async_sendfile_abort h)
         else http_conn_data_complete io_async_sendfile_abort h)
       else http_conn_abort io_async_sendfile_abort h
   | Inl e \<Rightarrow> if e = EAGAIN then http_conn_wait_on h NBIO_WRITE else http_conn_abort io_async_sendfile_abort h)"

definition aio_sendfile_event :: "world \<Rightarrow> errno + (errno + nat) list \<Rightarrow> world res" where
  "aio_sendfile_event h evs = (case evs of Inl e \<Rightarrow> Inr h | Inr es \<Rightarrow> completions sendfile_completion h es)"

definition fio_async_sendfile :: http_fio where
  "fio_async_sendfile = \<lparr>fio_prep = io_async_sendfile_prep, fio_write = io_async_sendfile_write, fio_abort = io_async_sendfile_abort\<rparr>"

section \<open>Lemmas\<close>

text \<open>A read can only be submitted for a connection that has its web root.\<close>

lemma aio_submit_needs_root:
  assumes "hc_webroot h = None" "hc_state h = HTTP_CONN_HEADER"
  shows "aio_submit h = Inl Null_deref"
  using assms by (simp add: aio_submit_def http_conn_data_def in_reply_def root_fd_def)

lemma async_prep_needs_root:
  assumes "hc_webroot h = None" "hc_state h = HTTP_CONN_HEADER" "fst (alloc_buf h) \<noteq> Null_buf"
  shows "io_async_prep h = Inl Null_deref"
proof -
  obtain p g where a: "alloc_buf h = (p, g)" by (cases "alloc_buf h")
  then have "hc_webroot g = None" "hc_state g = HTTP_CONN_HEADER" using assms(1,2)
    by (auto simp: alloc_buf_def split: list.splits option.splits)
  then have "http_conn_set_priv g p 0 = Inr (g\<lparr>hc_io_state := 0, hc_io_priv := p\<rparr>)"
    "aio_submit (g\<lparr>hc_io_state := 0, hc_io_priv := p\<rparr>) = Inl Null_deref"
    by (simp_all add: http_conn_set_priv_def in_reply_def aio_submit_needs_root)
  then show ?thesis using a assms(3) by (cases p) (simp_all add: io_async_prep_def)
qed

text \<open>A completion for a connection that has been closed in the meantime stops the server.\<close>

lemma completion_after_close:
  assumes "hc_state h = HTTP_CONN_DEAD"
  shows "handle_completion h ret = Inl Assert_failed"
  using assms by (cases ret) (auto simp: handle_completion_def Let_def count_in_flight_def http_conn_abort_def
      http_conn_get_priv_def in_reply_def rassert_def)

end
