(* ===== verification/Site.thy ===== *)
theory Site
  imports HttpProps IoAsync MkrootProps
begin

text \<open>
  The two programs together: a directory given to \<^verbatim>\<open>mkroot\<close>, the file it writes, the server that
  maps this file, and what a client receives for one of its URIs.
\<close>

section \<open>A request for a file of the web root\<close>

text \<open>
  The connection has just parsed the request \<open>r\<close> and has an empty response buffer with room for
  a head with the media type \<open>mime\<close>; the host of the request leads to the web root \<open>w\<close>, with any
  reference count, and the normaliser makes \<open>u\<close> of the target.
\<close>

definition request_for :: "vhosts \<Rightarrow> http_request \<Rightarrow> world \<Rightarrow> webroot \<Rightarrow> bytes \<Rightarrow> bytes \<Rightarrow> bool" where
  "request_for vh r h w u mime \<longleftrightarrow> answering h \<and>
     (\<exists>m b. hc_res h = Buf (m, b) \<and> queued m b = [] \<and> HEAD_ROOM + length mime \<le> b_end b - b_write b) \<and>
     (\<exists>g nd ok p. nads_normalize (nads_glob h) \<lparr>nads_buf = v_bytes (rq_uri r), nads_uri = None, nads_query = None\<rparr> = Inr (g, nd, ok) \<and>
        nads_uri nd = Some p \<and> in_buffer (uribuf g) p u) \<and>
     (\<exists>rh k. vhosts_lookup vh (Some (cstr (v_bytes (rq_host r)))) = Some rh \<and> open_roots h rh = Some (w\<lparr>r_ref := k\<rparr>))"

lemma in_buffer_string: "in_buffer buf p u \<Longrightarrow> string_at buf p = Inr u"
  using string_at_append[of u "take p buf"] by (auto simp: in_buffer_def string_at_def cstr_append_nul)

lemma request_found:
  assumes w: "written_root r0 t r1 cs pad" and ob: "map_of (k_uri r0) u = Some (File i)" "u \<noteq> []"
    and r: "request_for vh r h (image_root fd pad t (with_digests r1 cs)) u (o_type (k_file r0 ! i))" and fuel: "256 * (length u + 2) \<le> fuel"
  obtains k nm off where "get_found vh fuel r h ((image_root fd pad t (with_digests r1 cs))\<lparr>r_ref := k\<rparr>) nm (o_type (k_file r0 ! i))"
    "nm_code nm = HTTP_FOUND" "nm_u nm = Data off (of_nat (o_size (k_file r0 ! i))) (of_nat (o_mtime (k_file r0 ! i))) (fips_sha1 (cs ! i))"
    "take (o_size (k_file r0 ! i)) (drop (unat off) (index_image pad t (with_digests r1 cs) @ concat cs)) = cs ! i"
    "o_size (k_file r0 ! i) < 2 ^ 64"
proof -
  let ?w = "image_root fd pad t (with_digests r1 cs)" let ?f = "k_file r0 ! i"
  obtain g nd ok p where n: "nads_normalize (nads_glob h) \<lparr>nads_buf = v_bytes (rq_uri r), nads_uri = None, nads_query = None\<rparr> = Inr (g, nd, ok)"
    "nads_uri nd = Some p" "in_buffer (uribuf g) p u" using r unfolding request_for_def by blast
  obtain rh k where v: "vhosts_lookup vh (Some (cstr (v_bytes (rq_host r)))) = Some rh" "open_roots h rh = Some (?w\<lparr>r_ref := k\<rparr>)"
    using r unfolding request_for_def by blast
  obtain ty off where f: "webroot_find fuel ?w (uribuf g) p (length u) name_junk = Inr (True, name_junk\<lparr>nm_code := HTTP_FOUND,
      mime_type := Some (ty, length (o_type ?f)), nm_u := Data off (of_nat (o_size ?f)) (of_nat (o_mtime ?f)) (fips_sha1 (cs ! i))\<rparr>)"
    "map_at ?w ty (length (o_type ?f)) = Inr (o_type ?f)"
    "take (o_size ?f) (drop (unat off) (index_image pad t (with_digests r1 cs) @ concat cs)) = cs ! i" "o_size ?f < 2 ^ 64"
    using find_image_file[OF w n(3) ob(2) fuel refl ob(1), where out = name_junk and fd = fd] by blast
  let ?nm = "name_junk\<lparr>nm_code := HTTP_FOUND, mime_type := Some (ty, length (o_type ?f)),
      nm_u := Data off (of_nat (o_size ?f)) (of_nat (o_mtime ?f)) (fips_sha1 (cs ! i))\<rparr>"
  have find: "webroot_find fuel (?w\<lparr>r_ref := k\<rparr>) (uribuf g) p (length u) name_junk = Inr (True, ?nm)"
    using f(1) by (simp only: webroot_find_ref)
  have mime: "map_at (?w\<lparr>r_ref := k\<rparr>) ty (length (o_type ?f)) = Inr (o_type ?f)" using f(2) by (simp only: map_at_ref)
  have a: "answering h" "\<exists>m b. hc_res h = Buf (m, b) \<and> queued m b = [] \<and> HEAD_ROOM + length (o_type ?f) \<le> b_end b - b_write b"
    using r unfolding request_for_def by blast+
  have "get_found vh fuel r h (?w\<lparr>r_ref := k\<rparr>) ?nm (o_type ?f)"
    unfolding get_found_def using a n(1,2) in_buffer_string[OF n(3)] v find mime by auto
  then show thesis using that f(3,4) by simp
qed

text \<open>What the client receives: the response is prepared, and sent by as many calls as the kernel needs.\<close>

definition serves_file :: "vhosts \<Rightarrow> nat \<Rightarrow> http_request \<Rightarrow> world \<Rightarrow> file_obj \<Rightarrow> bytes \<Rightarrow> bytes \<Rightarrow> bool" where
  "serves_file vh k r h ob c date \<longleftrightarrow>
     (\<exists>h'. handle_get fio_sendfile vh k r False h = Inr h' \<and> sent h' = sent h \<and>
        (\<forall>a n. (\<forall>x \<in> set a. \<exists>j. x = Ret j \<and> 0 < j) \<and> length (todo h') \<le> n \<and> n \<le> length a \<longrightarrow>
          (\<exists>h2. http_writes fio_sendfile n (h'\<lparr>answers := a\<rparr>) = Inr h2 \<and>
            sent h2 = sent h @ head_text HTTP_FOUND (o_type ob) (o_size ob) (hc_conn_close h) (fips_sha1 c) date @ c \<and>
            hc_state h2 = (if hc_conn_close h then HTTP_CONN_DEAD else HTTP_CONN_REQUEST))))"

lemma written_length:
  assumes "written_root r0 t r1 cs pad" "map_of (k_uri r0) u = Some (File i)"
  shows "length (cs ! i) = o_size (k_file r0 ! i)" "i < length (k_file r0)"
proof -
  have "ref_ok r0 (File i)" using assms map_of_SomeD[OF assms(2)] by (force simp: written_root_def mk_wf_def)
  then show "i < length (k_file r0)" by (simp add: ref_ok_def)
  then show "length (cs ! i) = o_size (k_file r0 ! i)" using assms(1) by (simp add: written_root_def list_all2_conv_all_nth)
qed

lemma image_serves_file:
  assumes w: "written_root r0 t r1 cs pad" and ob: "map_of (k_uri r0) u = Some (File i)" "u \<noteq> []"
    and r: "request_for vh r h (image_root fd pad t (with_digests r1 cs)) u (o_type (k_file r0 ! i))" and fuel: "256 * (length u + 2) \<le> k"
    and e: "\<not> etag_hit r (fips_sha1 (cs ! i))" and f: "files h fd = index_image pad t (with_digests r1 cs) @ concat cs"
    and date: "print_time (gmtime (of_nat (o_mtime (k_file r0 ! i)))) = Inr date"
  shows "serves_file vh k r h (k_file r0 ! i) (cs ! i) date"
proof -
  let ?w = "image_root fd pad t (with_digests r1 cs)" let ?f = "k_file r0 ! i"
  obtain j nm off where g: "get_found vh k r h (?w\<lparr>r_ref := j\<rparr>) nm (o_type ?f)" "nm_code nm = HTTP_FOUND"
    "nm_u nm = Data off (of_nat (o_size ?f)) (of_nat (o_mtime ?f)) (fips_sha1 (cs ! i))"
    "take (o_size ?f) (drop (unat off) (index_image pad t (with_digests r1 cs) @ concat cs)) = cs ! i" "o_size ?f < 2 ^ 64"
    by (rule request_found[OF w ob r fuel])
  have et: "length (fips_sha1 (cs ! i)) = ETAG_SZ" by (simp add: length_fips_sha1 ETAG_SZ_def)
  have sz: "unat (of_nat (o_size ?f) :: u64) = o_size ?f" using g(5) by (rule unat_of_nat64)
  have fd: "r_fd (?w\<lparr>r_ref := j\<rparr>) = fd" by (simp add: image_root_def webroot_tables_def Let_def)
  obtain h' where h': "handle_get fio_sendfile vh k r False h = Inr h'" "conn_ok sf_busy h'" "hc_state h' = HTTP_CONN_HEADER" "sent h' = sent h"
    "replying (?w\<lparr>r_ref := j\<rparr>) (files h) (o_type ?f) (hc_conn_close h) (unat off, unat (of_nat (o_size ?f) :: u64), fips_sha1 (cs ! i)) date h'"
    using sfr.handle_get_object[OF g(1-3) et date e] by blast
  have td: "todo h' = head_text HTTP_FOUND (o_type ?f) (o_size ?f) (hc_conn_close h) (fips_sha1 (cs ! i)) date @ cs ! i"
    and bd: "body h' = cs ! i" "hc_data_len h' = o_size ?f" "hc_conn_close h' = hc_conn_close h"
    using h'(5) g(4) f sz fd by (simp_all add: replying_def object_reply_def)
  have len: "length (cs ! i) = o_size ?f" by (rule written_length[OF w ob(1)])
  show ?thesis unfolding serves_file_def
  proof (rule exI[of _ h'], intro conjI allI impI h'(1,4))
    fix a n assume a: "(\<forall>x \<in> set a. \<exists>j. x = Ret j \<and> 0 < j) \<and> length (todo h') \<le> n \<and> n \<le> length a"
    let ?h = "h'\<lparr>answers := a\<rparr>"
    have q: "todo ?h = todo h'" "sent ?h = sent h" "body ?h = body h'" "conn_ok sf_busy ?h"
      using h'(2,4) by (simp_all add: todo_def body_def conn_ok_def req_ok_def live_def split: conn_state.splits if_splits)
    then have "sendable ?h" using h'(3) bd len by (simp add: sendable_def)
    then have "\<exists>h2. http_writes fio_sendfile n ?h = Inr h2 \<and> sent h2 = sent ?h @ todo ?h \<and>
        hc_state h2 = (if hc_conn_close ?h then HTTP_CONN_DEAD else HTTP_CONN_REQUEST)"
      using a q(1) by (intro sendfile_finishes) auto
    then show "\<exists>h2. http_writes fio_sendfile n ?h = Inr h2 \<and>
        sent h2 = sent h @ head_text HTTP_FOUND (o_type ?f) (o_size ?f) (hc_conn_close h) (fips_sha1 (cs ! i)) date @ cs ! i \<and>
        hc_state h2 = (if hc_conn_close h then HTTP_CONN_DEAD else HTTP_CONN_REQUEST)"
      using q(1,2) td bd(3) by simp
  qed
qed

section \<open>Properties\<close>


text \<open>A connection that has read \<open>GET /a\<close>, on a server with one host.\<close>

definition sample_conn :: "webroot \<Rightarrow> bytes \<Rightarrow> world" where
  "sample_conn w data = \<lparr>hc_nbio = \<lparr>n_fd = 7, n_mask = NBIO_WRITE, n_flags = NBIO_WRITE, n_poll = 0\<rparr>, hc_state = HTTP_CONN_HEADER,
     hc_rstate = RSTATE_INITIAL, hc_io_state = 0, hc_webroot = None, hc_rptr = 0, hc_req = Null_buf,
     hc_res = Buf (\<lambda>_. 0, \<lparr>b_base = 1, b_end = 1001, b_read = 1, b_write = 1\<rparr>), hc_io_priv = Null_buf, hc_data_off = 0, hc_data_len = 0,
     hc_conn_close = False, concurrency = 1, oomq = [], reqs = 0, open_roots = [0 \<mapsto> w],
     nads_glob = \<lparr>uribuf = replicate 20 0, nads_errcode = 0\<rparr>, files = (\<lambda>_. data), input = [], sent = [], answers = [], fresh_bufs = [Some (\<lambda>_. 0, \<lparr>b_base = 1, b_end = 1001, b_read = 1, b_write = 1\<rparr>)],
     aio = \<lparr>in_flight = 0, submitted = [], fresh_iocbs = []\<rparr>\<rparr>"

definition one_host :: vhosts where
  "one_host = \<lparr>v_tree = None, v_dirname = str ''v'', v_default = Some 0\<rparr>"

definition sample_get :: http_request where
  "sample_get = http_request_zero\<lparr>rq_method := Some (str ''GET''), rq_uri := Some (str ''/a''), rq_host := Some (str ''h'')\<rparr>"

lemma sample_normalized:
  "\<exists>g nd ok. nads_normalize \<lparr>uribuf = replicate 20 0, nads_errcode = 0\<rparr> \<lparr>nads_buf = str ''/a'', nads_uri = None, nads_query = None\<rparr> = Inr (g, nd, ok) \<and>
     nads_uri nd = Some 0 \<and> in_buffer (uribuf g) 0 (str ''/a'')"
proof -
  have "case nads_normalize \<lparr>uribuf = replicate 20 0, nads_errcode = 0\<rparr> \<lparr>nads_buf = str ''/a'', nads_uri = None, nads_query = None\<rparr> of
      Inl e \<Rightarrow> False | Inr (g, nd, ok) \<Rightarrow> nads_uri nd = Some 0 \<and> uribuf g = str ''/a'' @ 0 # replicate 17 0"
    by code_simp
  then show ?thesis by (auto simp: in_buffer_def RE_EDGE_MAX_def split: sum.splits)
qed

lemma sample_fuel: "256 * (length (str ''/a'') + 2) \<le> 1024" by simp

lemma sample_request: "request_for one_host sample_get (sample_conn w data) w (str ''/a'') (str ''text'')"
proof -
  have "answering (sample_conn w data)" by (simp add: answering_def sample_conn_def req_ok_def bufs_ok_def buf_ok_def)
  moreover have "\<exists>m b. hc_res (sample_conn w data) = Buf (m, b) \<and> queued m b = [] \<and> HEAD_ROOM + length (str ''text'') \<le> b_end b - b_write b"
    by (simp add: sample_conn_def queued_def HEAD_ROOM_def load_bytes_def)
  moreover have "vhosts_lookup one_host (Some (cstr (v_bytes (rq_host sample_get)))) = Some 0"
    by (simp add: vhosts_lookup_def one_host_def cb_contains_def)
  moreover have "open_roots (sample_conn w data) 0 = Some (w\<lparr>r_ref := r_ref w\<rparr>)" by (simp add: sample_conn_def)
  moreover have "v_bytes (rq_uri sample_get) = str ''/a''" "nads_glob (sample_conn w data) = \<lparr>uribuf = replicate 20 0, nads_errcode = 0\<rparr>"
    by (simp_all add: sample_get_def v_bytes_def sample_conn_def)
  ultimately show ?thesis unfolding request_for_def using sample_normalized by metis
qed

lemma sample_date: "print_time (gmtime 2678400) = Inr (str ''Sun, 01 Jan 1970 00:00:00 GMT'')"
proof -
  have "gmtime 2678400 = \<lparr>tm_sec = 0, tm_min = 0, tm_hour = 0, tm_mday = 1, tm_mon = 1, tm_year = 70, tm_wday = 0\<rparr>"
    by (subst gmtime_steps[where z = 719499 and doe = 135111 and yoe = 369 and doy = 337 and mp = 11 and mon = 1]) simp_all
  moreover have "print_time \<lparr>tm_sec = 0, tm_min = 0, tm_hour = 0, tm_mday = 1, tm_mon = 1, tm_year = 70, tm_wday = 0\<rparr> =
      Inr (str ''Sun, 01 Jan 1970 00:00:00 GMT'')"
    by (simp add: print_time_def dayofweek_def monthofyear_def pad_left_def print_dec.simps rd_def)
  ultimately show ?thesis by simp
qed


text \<open>
  C18.  The asynchronous back end cannot serve a first file.  \<open>handle_get\<close> prepares the back end
  before it stores the web root in the connection, and the preparation submits a read for
  which it needs the descriptor of that web root: for any object with contents, on a
  connection that has no web root from an earlier request, the server follows a null pointer.
\<close>

theorem async_get_crashes:
  assumes g: "get_found vh k r h root nm mime" and f: "nm_code nm = HTTP_FOUND" "nm_u nm = Data ofs len mtime etag" "len \<noteq> 0"
    and e: "\<not> etag_hit r etag" and h: "hc_webroot h = None" "fst (alloc_buf h) \<noteq> Null_buf"
  shows "handle_get fio_async vh k r False h = Inl Null_deref"
proof -
  obtain ng nd ok p uri where n: "nads_normalize (nads_glob h) \<lparr>nads_buf = v_bytes (rq_uri r), nads_uri = None, nads_query = None\<rparr> = Inr (ng, nd, ok)"
    "nads_uri nd = Some p" "string_at (uribuf ng) p = Inr uri" "webroot_find k root (uribuf ng) p (length uri) name_junk = Inr (True, nm)"
    using g unfolding get_found_def by blast
  obtain rh where v: "vhosts_lookup vh (Some (cstr (v_bytes (rq_host r)))) = Some rh" "open_roots h rh = Some root"
    using g unfolding get_found_def by blast
  obtain ty where ty: "mime_type nm = Some ty" using g unfolding get_found_def by (auto split: option.splits)
  let ?h = "h\<lparr>nads_glob := ng, hc_data_off := unat ofs, hc_data_len := unat len\<rparr>"
  have st: "hc_state h = HTTP_CONN_HEADER" using g by (simp add: get_found_def answering_def)
  have run: "handle_get fio_async vh k r False h = send_object fio_async rh root False HTTP_FOUND ty etag mtime ?h"
    using n v f e ty by (simp add: handle_get_def answer_uri_def answer_name_def serve_object_def HTTP_FOUND_def
        HTTP_MOVED_PERMANENTLY_def HTTP_FORBIDDEN_def)
  have "fst (alloc_buf ?h) = fst (alloc_buf h)" by (simp add: alloc_buf_def split: list.splits option.splits)
  then have "io_async_prep ?h = Inl Null_deref" using async_prep_needs_root[of ?h] h st by simp
  moreover have "hc_data_len ?h \<noteq> 0" using f(3) by (simp add: unat_eq_0)
  ultimately show ?thesis unfolding run by (simp add: send_object_def fio_async_def)
qed

theorem async_get_crashes_witness:
  "\<exists>w (f :: ofile). handle_get fio_async one_host 1024 sample_get False (sample_conn w (f_data f)) = Inl Null_deref"
proof -
  obtain ws f st where f: "do_mkroot 2 (sample_env_at 7) (sample_sys\<lparr>m_writes := ws\<rparr>) (str ''w'') = Inr (True, Some f)"
    and st: "scan_item 2 (sample_env_at 7) \<lparr>sc_root = webroot_new (str ''w''), sc_tmp = Some sample_tmp\<rparr> [] [] = Inr (True, st)"
    "k_uri (sc_root st) = [(str ''/'', Redir 0), (str ''/a'', File 0)]"
    "map (\<lambda>ob. (o_content ob, o_size ob, o_type ob, o_mtime ob)) (k_file (sc_root st)) = [(FILE_PATH (str ''w/a''), 3, str ''text'', 7)]"
    and size: "length (f_data f) < 2 ^ 32 - 1 + sum_list (map o_size (k_file (sc_root st)))" "length (f_data f) < 2 ^ 64"
    by (rule sample_built)
  obtain cs tmp' t r1 where w: "written_root (sc_root st) t r1 cs (m_pad (sample_sys\<lparr>m_writes := ws\<rparr>))"
    using mkroot_written[OF f sample_names_at sample_sys_facts(1) sample_facts(2) sample_sys_facts(2,3) st(1) sample_uris(2)[OF st(2)] size] by metis
  have ob: "o_type (k_file (sc_root st) ! 0) = str ''text''" "o_size (k_file (sc_root st) ! 0) = 3" using st(3) by (auto simp: map_eq_Cons_conv)
  have u: "map_of (k_uri (sc_root st)) (str ''/a'') = Some (File 0)" "str ''/a'' \<noteq> []" using st(2) by simp_all
  let ?w = "image_root 5 (m_pad (sample_sys\<lparr>m_writes := ws\<rparr>)) t (with_digests r1 cs)" let ?h = "sample_conn ?w (f_data f)"
  have r: "request_for one_host sample_get ?h ?w (str ''/a'') (o_type (k_file (sc_root st) ! 0))" unfolding ob(1) by (rule sample_request)
  obtain k nm off mt et where g: "get_found one_host 1024 sample_get ?h (?w\<lparr>r_ref := k\<rparr>) nm (str ''text'')" "nm_code nm = HTTP_FOUND"
    "nm_u nm = Data off (of_nat 3) mt et"
    using request_found[OF w u r, of 1024] ob by (metis sample_fuel)
  have "\<not> etag_hit sample_get et" by (simp add: etag_hit_def sample_get_def http_request_zero_def v_len_def v_bytes_def)
  moreover have "hc_webroot ?h = None" "fst (alloc_buf ?h) \<noteq> Null_buf" by (simp_all add: sample_conn_def alloc_buf_def)
  ultimately show ?thesis using async_get_crashes[OF g] by auto
qed

end
