(* ===== verification/Fsck.thy ===== *)
theory Fsck
  imports MkrootProps
begin

text \<open>
  The web root checker (\<^verbatim>\<open>fsck.c\<close>): it opens a web root as the server does, writes its trie as a
  graph, counts the lengths of the edges and lists every object.  The traversals follow the edges
  of the file, which nothing keeps from forming a cycle: hence the fuel.  Printed lines are values;
  the percentages, which \<open>printf\<close> computes from the counts shown, are left out.
\<close>

section \<open>Printing\<close>

text \<open>
  \<open>%.*s\<close>: the bytes before a NUL, at most as many as the precision says; an \<open>int\<close> below
  zero is no precision at all.
\<close>

definition precision :: "nat \<Rightarrow> nat option" where
  "precision n = (let i = c_int (int n) in if i < 0 then None else Some (nat i))"

definition str_prec :: "bytes \<Rightarrow> nat option \<Rightarrow> bytes res" where
  "str_prec bs prec =
    (let s = (case prec of None \<Rightarrow> bs | Some n \<Rightarrow> take n bs) in
     if 0 \<in> set s \<or> (case prec of None \<Rightarrow> False | Some n \<Rightarrow> n \<le> length bs) then Inr (cstr s) else Inl Out_of_bounds)"

datatype dot_line = Dot_begin | Dot_graph | Dot_style | Dot_node nat bytes | Dot_arrow nat nat | Dot_end

datatype obj_kind = Redir_code int | Redir_to bytes | File_obj bytes u64 u64

type_synonym obj_line = "bytes \<times> u32 \<times> obj_kind"

section \<open>The graph\<close>

text \<open>The offset of \<open>re_str\<close> in the mapping, for the edge \<open>re\<close> of the table.\<close>

definition edge_str :: "webroot \<Rightarrow> nat \<Rightarrow> nat" where
  "edge_str r re = r_trie r + DEDGE_SZ * re + 10"

fun do_dump :: "nat \<Rightarrow> webroot \<Rightarrow> nat \<Rightarrow> nat \<Rightarrow> (dot_line list \<times> nat) res" where
  "do_dump 0 r re num_edges = Inl Out_of_fuel"
| "do_dump (Suc fuel) r re num_edges =
    (if num_edges = 0 then Inr ([], 0)
     else rbind (dedge_at r re) (\<lambda>d.
       rbind (str_prec (drop (edge_str r re) (r_map r)) (precision (unat (re_strlen d)))) (\<lambda>label.
       let idx = unat (re_edges_idx d); num = unat (re_num_edges d) in
       rbind (do_dump fuel r idx num) (\<lambda>(sub, tmp).
       rbind (do_dump fuel r (re + 1) (num_edges - 1)) (\<lambda>(rest, ret).
         Inr (Dot_node re label # sub @ map (\<lambda>j. Dot_arrow re (idx + j)) [0..<num] @ rest,
              max (tmp + unat (re_strlen d)) ret))))))"

text \<open>The result of \<open>fopen\<close> is used unchecked.\<close>

definition dump_root :: "bool \<Rightarrow> nat \<Rightarrow> webroot \<Rightarrow> (dot_line list \<times> nat) res" where
  "dump_root fopen_ok fuel r =
    (if \<not> fopen_ok then Inl Null_deref
     else rbind (do_dump fuel r 0 1) (\<lambda>(ls, max_len).
       Inr ([Dot_begin, Dot_graph, Dot_style] @ ls @ [Dot_end], max_len)))"

section \<open>The histograms\<close>

text \<open>\<open>h[k]++\<close>; a null pointer is \<open>None\<close>.\<close>

definition bump :: "u32 list option \<Rightarrow> nat \<Rightarrow> u32 list option res" where
  "bump h k = (case h of None \<Rightarrow> Inl Null_deref
     | Some h \<Rightarrow> rbind (rd h k) (\<lambda>c. rbind (wr h k (c + 1)) (\<lambda>h. Inr (Some h))))"

type_synonym hists = "u32 list option \<times> u32 list option"

definition count_edge :: "trie_dedge \<Rightarrow> hists \<Rightarrow> hists res" where
  "count_edge d = (\<lambda>(hist, hist2). rbind (bump hist (unat (re_strlen d))) (\<lambda>hist.
     rbind (bump hist2 (unat (re_num_edges d))) (\<lambda>hist2. Inr (hist, hist2))))"

fun calc_hists :: "nat \<Rightarrow> webroot \<Rightarrow> nat \<Rightarrow> nat \<Rightarrow> hists \<Rightarrow> hists res" where
  "calc_hists 0 r re num_edges h = Inl Out_of_fuel"
| "calc_hists (Suc fuel) r re num_edges h =
    (if num_edges = 0 then Inr h
     else rbind (dedge_at r re) (\<lambda>d.
       rbind (calc_hists fuel r (unat (re_edges_idx d)) (unat (re_num_edges d)) h) (\<lambda>h.
       rbind (count_edge d h) (\<lambda>h. calc_hists fuel r (re + 1) (num_edges - 1) h))))"

text \<open>The rows of a histogram: value, count, and the count so far; the counters wrap.\<close>

fun hist_rows :: "u32 \<Rightarrow> nat \<Rightarrow> u32 list \<Rightarrow> (nat \<times> u32 \<times> u32) list" where
  "hist_rows sofar i [] = []"
| "hist_rows sofar i (c # cs) =
    (if c = 0 then hist_rows sofar (i + 1) cs else (i, c, sofar + c) # hist_rows (sofar + c) (i + 1) cs)"

definition dump_hist :: "u32 list \<Rightarrow> u32 \<times> (nat \<times> u32 \<times> u32) list" where
  "dump_hist hist = (sum_list hist, hist_rows 0 0 hist)"

definition dump_fanout_hist :: "u32 list \<Rightarrow> u32 \<times> (nat \<times> u32 \<times> u32) list" where
  "dump_fanout_hist hist = (sum_list hist, hist_rows 0 0 hist)"

section \<open>The objects\<close>

text \<open>The lines of \<open>print_obj\<close> below the URI.\<close>

definition print_kind :: "webroot \<Rightarrow> u32 \<Rightarrow> obj_kind res" where
  "print_kind r oid =
    (if unat oid < r_num_redirect r
     then rbind (map_at r (r_redir r + REDIRECT_SZ * unat oid) REDIRECT_SZ) (\<lambda>bs.
       let redir = redirect_of bs in
       if r_off redir = WEBROOT_INVALID_REDIRECT then Inr (Redir_code (sint (r_len redir)))
       else rbind (str_prec (drop (unat (r_off redir)) (r_map r)) (precision (unat (r_len redir))))
         (\<lambda>v. Inr (Redir_to v)))
     else rbind (map_at r (r_file r + FILE_SZ * (unat oid - r_num_redirect r)) FILE_SZ) (\<lambda>bs.
       let f = file_of bs in
       rbind (str_prec (drop (unat (f_type f)) (r_map r)) (precision (unat (f_type_len f))))
         (\<lambda>ty. Inr (File_obj ty (f_off f) (f_len f)))))"

definition print_obj :: "webroot \<Rightarrow> trie_dedge \<Rightarrow> bytes \<Rightarrow> nat \<Rightarrow> obj_line res" where
  "print_obj r d uri uri_len = rbind (str_prec uri (precision uri_len)) (\<lambda>u.
     rbind (print_kind r (re_oid d)) (\<lambda>k. Inr (u, re_oid d, k)))"

text \<open>\<open>memcpy\<close> into the buffer of \<open>max_len\<close> bytes, which may be the null pointer.\<close>

definition copy_to :: "bytes option \<Rightarrow> nat \<Rightarrow> bytes \<Rightarrow> bytes res" where
  "copy_to buf pos bs = (case buf of None \<Rightarrow> Inl Null_deref
     | Some m \<Rightarrow> if pos + length bs \<le> length m then Inr (take pos m @ bs @ drop (pos + length bs) m) else Inl Out_of_bounds)"

fun do_deets :: "nat \<Rightarrow> webroot \<Rightarrow> nat \<Rightarrow> nat \<Rightarrow> nat \<Rightarrow> bytes option \<Rightarrow> (obj_line list \<times> bytes option) res" where
  "do_deets 0 r re num_edges pos uri = Inl Out_of_fuel"
| "do_deets (Suc fuel) r re num_edges pos uri =
    (if num_edges = 0 then Inr ([], uri)
     else rbind (dedge_at r re) (\<lambda>d. let len = unat (re_strlen d) in
       rbind (map_at r (edge_str r re) len) (\<lambda>s.
       rbind (copy_to uri pos s) (\<lambda>uri.
       rbind (if re_oid d \<noteq> GIDX_INVALID_OID then rbind (print_obj r d uri (pos + len)) (\<lambda>l. Inr [l]) else Inr []) (\<lambda>l.
       rbind (do_deets fuel r (unat (re_edges_idx d)) (unat (re_num_edges d)) (pos + len) (Some uri)) (\<lambda>(sub, uri).
       rbind (do_deets fuel r (re + 1) (num_edges - 1) pos uri) (\<lambda>(rest, uri).
         Inr (l @ sub @ rest, uri))))))))"

definition print_deets :: "nat \<Rightarrow> webroot \<Rightarrow> bytes option \<Rightarrow> obj_line list res" where
  "print_deets fuel r buf = rbind (do_deets fuel r 0 1 0 buf) (\<lambda>(ls, buf). Inr ls)"

section \<open>The program\<close>

record fsck_report =
  fr_dot :: "dot_line list"
  fr_max_len :: nat
  fr_map_sz :: nat
  fr_objs :: "obj_line list"
  fr_hist :: "u32 \<times> (nat \<times> u32 \<times> u32) list"
  fr_fanout :: "u32 \<times> (nat \<times> u32 \<times> u32) list"

text \<open>
  The environment of a run: which of \<open>fopen\<close> and the three allocations succeed, and what the
  fresh buffer holds.  Only the histograms' pointers are used when an allocation fails.
\<close>

record fsck_env =
  fe_fopen :: bool
  fe_hist :: bool
  fe_hist2 :: bool
  fe_buf :: "nat \<Rightarrow> bytes option"

definition fsck_root :: "fsck_env \<Rightarrow> nat \<Rightarrow> webroot \<Rightarrow> fsck_report res" where
  "fsck_root env fuel r =
    rbind (dump_root (fe_fopen env) fuel r) (\<lambda>(dot, max_len).
    let hist = (if fe_hist env then Some (replicate max_len 0) else None);
        hist2 = (if fe_hist2 env then Some (replicate 0x100 0) else None) in
    rbind (calc_hists fuel r 0 1 (hist, hist2)) (\<lambda>(hist, hist2).
    rbind (print_deets fuel r (fe_buf env max_len)) (\<lambda>objs.
      Inr \<lparr>fr_dot = dot, fr_max_len = max_len, fr_map_sz = length (r_map r), fr_objs = objs,
           fr_hist = dump_hist (case hist of None \<Rightarrow> [] | Some h \<Rightarrow> h),
           fr_fanout = dump_fanout_hist (case hist2 of None \<Rightarrow> [] | Some h \<Rightarrow> h)\<rparr>)))"

text \<open>\<open>do_fsck\<close>: the report, if the web root could be opened, and whether it is still held.\<close>

definition do_fsck :: "fsck_env \<Rightarrow> nat \<Rightarrow> open_outcome res \<Rightarrow> (fsck_report option \<times> webroot option) res" where
  "do_fsck env fuel opened = rbind opened (\<lambda>out.
    case o_root out of None \<Rightarrow> Inr (None, None)
    | Some r \<Rightarrow> rbind (fsck_root env fuel r) (\<lambda>rep. Inr (Some rep, webroot_unref (Some r))))"

text \<open>The exit status: \<open>EXIT_SUCCESS\<close> is 0.\<close>

definition fsck_main :: "nat \<Rightarrow> fsck_env \<Rightarrow> nat \<Rightarrow> open_outcome res \<Rightarrow> nat res" where
  "fsck_main argc env fuel opened =
    (if argc < 2 then Inr 1
     else rbind (do_fsck env fuel opened) (\<lambda>(rep, r). Inr (if rep = None then 1 else 0)))"

end
