(* ===== verification/FsckProps.thy ===== *)
theory FsckProps
  imports Fsck
begin

text \<open>
  What the checker reports of a web root that holds a trie (\<^verbatim>\<open>fsck.c\<close>): its three traversals
  as functions of the trie, the objects listed against the entries of the trie, and the run on a
  web root of the builder.
\<close>

section \<open>The trie as the traversals see it\<close>

fun edge_height :: "trie_edge \<Rightarrow> nat" where
  "edge_height (Edge c t cs) = length c + foldr max (map edge_height cs) 0"

fun edge_counts :: "trie_edge \<Rightarrow> (nat \<times> nat) list" where
  "edge_counts (Edge c t cs) = concat (map edge_counts cs) @ [(length c, length cs)]"

fun edge_list :: "bytes \<Rightarrow> trie_edge \<Rightarrow> (bytes \<times> trie_entry) list" where
  "edge_list pre (Edge c t cs) =
    (case t of None \<Rightarrow> [] | Some v \<Rightarrow> [(pre @ c, v)]) @ concat (map (edge_list (pre @ c)) cs)"

abbreviation "forest_height es \<equiv> foldr max (map edge_height es) 0"
abbreviation "forest_counts es \<equiv> concat (map edge_counts es)"
abbreviation "forest_list pre es \<equiv> concat (map (edge_list pre) es)"

lemma edge_sel:
  "edge_height e = length (e_cmp e) + forest_height (e_edges e)"
  "edge_counts e = forest_counts (e_edges e) @ [(length (e_cmp e), length (e_edges e))]"
  "edge_list pre e = (case e_terminal e of None \<Rightarrow> [] | Some v \<Rightarrow> [(pre @ e_cmp e, v)]) @ forest_list (pre @ e_cmp e) (e_edges e)"
  "edge_count e = Suc (sum_list (map edge_count (e_edges e)))"
proof -
  obtain c t cs where e: "e = Edge c t cs" by (cases e)
  show "edge_height e = length (e_cmp e) + forest_height (e_edges e)"
    "edge_counts e = forest_counts (e_edges e) @ [(length (e_cmp e), length (e_edges e))]"
    "edge_list pre e = (case e_terminal e of None \<Rightarrow> [] | Some v \<Rightarrow> [(pre @ e_cmp e, v)]) @ forest_list (pre @ e_cmp e) (e_edges e)"
    "edge_count e = Suc (sum_list (map edge_count (e_edges e)))"
    by (simp_all add: e split: option.splits)
qed

section \<open>Siblings in the file\<close>

definition siblings :: "trie \<Rightarrow> nat \<Rightarrow> nat \<Rightarrow> trie_edge list \<Rightarrow> bool" where
  "siblings t i n es \<longleftrightarrow> es = take n (drop i (map snd (r_bfs_order t))) \<and> i + n \<le> length (r_bfs_order t)"

lemma siblings_0: "siblings t i 0 es \<Longrightarrow> es = []"
  by (simp add: siblings_def)

lemma siblings_Cons:
  assumes "siblings t i n es" "n \<noteq> 0"
  obtains es' where "es = snd (r_bfs_order t ! i) # es'" "i < length (r_bfs_order t)" "siblings t (i + 1) (n - 1) es'"
proof -
  obtain k where k: "n = Suc k" using assms(2) by (cases n) auto
  have i: "i < length (r_bfs_order t)" using assms k by (simp add: siblings_def)
  then have "drop i (map snd (r_bfs_order t)) = snd (r_bfs_order t ! i) # drop (Suc i) (map snd (r_bfs_order t))"
    by (metis Cons_nth_drop_Suc length_map nth_map)
  then show thesis using assms(1) i k by (intro that[of "take k (drop (Suc i) (map snd (r_bfs_order t)))"]) (auto simp: siblings_def)
qed

text \<open>What the record of an edge says, and where its children are.\<close>

lemma edge_on_disk:
  assumes t: "trie_for ents t cs" and h: "holds_trie r t" and k: "k < length (r_bfs_order t)"
  defines "e \<equiv> snd (r_bfs_order t ! k)"
  obtains d where "dedge_at r k = Inr d" "unat (re_strlen d) = length (e_cmp e)" "unat (re_num_edges d) = length (e_edges e)"
    "siblings t (unat (re_edges_idx d)) (length (e_edges e)) (e_edges e)" "re_oid d = oid_of (e_terminal e)"
    "map_at r (edge_str r k) (length (e_cmp e)) = Inr (e_cmp e)" "length (e_cmp e) \<le> RE_EDGE_MAX" "0 \<notin> set (e_cmp e)"
    "edges_ok (e_edges e)"
proof -
  let ?o = "r_bfs_order t"
  have bo: "?o = do_layout_bfs [([], Edge [] None cs)]" using t by (simp add: trie_for_def)
  obtain j where j: "first_child ?o (?o ! k) = Inr j" "e_edges e \<noteq> [] \<longrightarrow> j + length (e_edges e) \<le> length ?o \<and> 0 < j"
    "take (length (e_edges e)) (drop j (map snd ?o)) = e_edges e"
    using first_child_spec[OF bo nth_mem[OF k]] unfolding e_def by blast
  let ?d = "edge_dedge e j"
  have d: "dedge_at r k = Inr ?d" using holds_trie_node[OF h k] j(1) by (simp add: node_dedge_def e_def)
  have w: "length (e_cmp e) \<le> RE_EDGE_MAX" "0 \<notin> set (e_cmp e)" "edges_ok (e_edges e)"
    using trie_for_writable[OF t nth_mem[OF k]] by (simp_all add: writable_def e_def)
  have lt32: "length ?o < 2 ^ 32" using h by (auto simp: holds_trie_def trie_image_def)
  have jo: "j < length ?o" using first_child_less[OF j(1) j(2)[unfolded e_def]] k by linarith
  have n: "unat (re_edges_idx ?d) = j" "unat (re_num_edges ?d) = length (e_edges e)" "unat (re_strlen ?d) = length (e_cmp e)"
    using jo lt32 edges_ok_few[OF w(3)] w(1) by (simp_all add: edge_dedge_def RE_EDGE_MAX_def unsigned_of_nat take_bit_nat_eq_self)
  have "siblings t j (length (e_edges e)) (e_edges e)" using j(2,3) jo by (cases "e_edges e = []") (auto simp: siblings_def)
  moreover have "re_oid ?d = oid_of (e_terminal e)" by (simp add: edge_dedge_def oid_of_def split: option.splits)
  moreover have "map_at r (edge_str r k) (length (e_cmp e)) = Inr (e_cmp e)"
  proof -
    let ?bs = "take DEDGE_SZ (drop (r_trie r + DEDGE_SZ * k) (r_map r))"
    have b: "r_trie r + DEDGE_SZ * k + DEDGE_SZ \<le> length (r_map r)" "?d = dedge_of ?bs"
      using d by (auto simp: dedge_at_def map_at_def split: if_splits)
    have "take (length (e_cmp e)) (re_str ?d) = e_cmp e" by (simp add: edge_dedge_def)
    moreover have "re_str ?d = take 8 (drop 10 ?bs)" using b(2) by (simp add: dedge_of_def)
    ultimately have "e_cmp e = take (length (e_cmp e)) (take 8 (drop 10 ?bs))" by simp
    also have "\<dots> = take (length (e_cmp e)) (drop (edge_str r k) (r_map r))"
      using w(1) by (simp add: DEDGE_SZ_def RE_EDGE_MAX_def drop_take edge_str_def add.commute add.left_commute min_def)
    finally show ?thesis using b(1) w(1) by (simp add: map_at_def edge_str_def DEDGE_SZ_def RE_EDGE_MAX_def)
  qed
  ultimately show thesis using that[of ?d] d n w by simp
qed

lemma root_siblings: "trie_for ents t cs \<Longrightarrow> siblings t 0 1 [Edge [] None cs]"
  using bfs_starts[of "[([], Edge [] None cs)]"] by (auto simp: trie_for_def siblings_def)

section \<open>The traversals\<close>

lemma precision_small: "n < 2 ^ 31 \<Longrightarrow> precision n = Some n"
  using c_int_id[of "int n"] by (simp add: precision_def Let_def)

lemma do_dump_returns:
  assumes t: "trie_for ents t cs" and h: "holds_trie r t"
  shows "siblings t i n es \<Longrightarrow> sum_list (map edge_count es) < fuel \<Longrightarrow> \<exists>ls. do_dump fuel r i n = Inr (ls, forest_height es)"
proof (induction fuel arbitrary: i n es)
  case (Suc fuel)
  show ?case
  proof (cases "n = 0")
    case True
    then show ?thesis using siblings_0[of t i es] Suc.prems(1) by simp
  next
    case False
    obtain es' where es: "es = snd (r_bfs_order t ! i) # es'" "i < length (r_bfs_order t)" "siblings t (i + 1) (n - 1) es'"
      by (rule siblings_Cons[OF Suc.prems(1) False])
    let ?e = "snd (r_bfs_order t ! i)"
    obtain d where d: "dedge_at r i = Inr d" "unat (re_strlen d) = length (e_cmp ?e)" "unat (re_num_edges d) = length (e_edges ?e)"
      "siblings t (unat (re_edges_idx d)) (length (e_edges ?e)) (e_edges ?e)"
      "map_at r (edge_str r i) (length (e_cmp ?e)) = Inr (e_cmp ?e)" "length (e_cmp ?e) \<le> RE_EDGE_MAX"
      by (rule edge_on_disk[OF t h es(2)])
    have fuel: "sum_list (map edge_count (e_edges ?e)) < fuel" "sum_list (map edge_count es') < fuel"
      using Suc.prems(2) es(1) edge_sel(4)[of ?e] by simp_all
    obtain l1 where l1: "do_dump fuel r (unat (re_edges_idx d)) (length (e_edges ?e)) = Inr (l1, forest_height (e_edges ?e))"
      using Suc.IH[OF d(4) fuel(1)] by blast
    obtain l2 where l2: "do_dump fuel r (i + 1) (n - 1) = Inr (l2, forest_height es')"
      using Suc.IH[OF es(3) fuel(2)] by blast
    have "length (e_cmp ?e) < 2 ^ 31" using d(6) by (simp add: RE_EDGE_MAX_def)
    then have "str_prec (drop (edge_str r i) (r_map r)) (precision (length (e_cmp ?e))) = Inr (cstr (e_cmp ?e))"
      using d(5) by (auto simp: str_prec_def precision_small map_at_def Let_def split: if_splits)
    then show ?thesis using False d(1-3) l1 l2 es(1) edge_sel(1)[of ?e] by (simp add: Let_def add.commute)
  qed
qed simp

text \<open>The histograms: one step per edge, children first.\<close>

fun bump_all :: "(nat \<times> nat) list \<Rightarrow> hists \<Rightarrow> hists res" where
  "bump_all [] h = Inr h"
| "bump_all ((a, b) # xs) h = rbind (bump (fst h) a) (\<lambda>h1. rbind (bump (snd h) b) (\<lambda>h2. bump_all xs (h1, h2)))"

lemma rbind_assoc: "rbind (rbind m f) g = rbind m (\<lambda>x. rbind (f x) g)"
  by (cases m) auto

lemma bump_all_append: "bump_all (xs @ ys) h = rbind (bump_all xs h) (bump_all ys)"
proof (induction xs h rule: bump_all.induct)
  case (2 a b xs h)
  then show ?case by (cases "bump (fst h) a"; cases "bump (snd h) b") simp_all
qed simp

lemma bump_all_Cons: "bump_all ((a, b) # xs) = (\<lambda>h. rbind (bump (fst h) a) (\<lambda>h1. rbind (bump (snd h) b) (\<lambda>h2. bump_all xs (h1, h2))))"
  by (simp add: fun_eq_iff)

lemma calc_hists_bumps:
  assumes t: "trie_for ents t cs" and h: "holds_trie r t"
  shows "siblings t i n es \<Longrightarrow> sum_list (map edge_count es) < fuel \<Longrightarrow> calc_hists fuel r i n st = bump_all (forest_counts es) st"
proof (induction fuel arbitrary: i n es st)
  case (Suc fuel)
  show ?case
  proof (cases "n = 0")
    case True
    then show ?thesis using siblings_0[of t i es] Suc.prems(1) by simp
  next
    case False
    obtain es' where es: "es = snd (r_bfs_order t ! i) # es'" "i < length (r_bfs_order t)" "siblings t (i + 1) (n - 1) es'"
      by (rule siblings_Cons[OF Suc.prems(1) False])
    let ?e = "snd (r_bfs_order t ! i)"
    obtain d where d: "dedge_at r i = Inr d" "unat (re_strlen d) = length (e_cmp ?e)" "unat (re_num_edges d) = length (e_edges ?e)"
      "siblings t (unat (re_edges_idx d)) (length (e_edges ?e)) (e_edges ?e)"
      by (rule edge_on_disk[OF t h es(2)])
    have fuel: "sum_list (map edge_count (e_edges ?e)) < fuel" "sum_list (map edge_count es') < fuel"
      using Suc.prems(2) es(1) edge_sel(4)[of ?e] by simp_all
    have "count_edge d h = bump_all [(length (e_cmp ?e), length (e_edges ?e))] h" for h
      using d(2,3) by (cases h) (simp add: count_edge_def)
    then show ?thesis
      using False d(1,3) Suc.IH[OF d(4) fuel(1)] Suc.IH[OF es(3) fuel(2)] es(1) edge_sel(2)[of ?e]
      by (simp add: bump_all_append bump_all_Cons rbind_assoc)
  qed
qed simp

text \<open>How the histograms come out: an index outside stops the program, otherwise each row counts.\<close>

lemma bump_all_fails:
  assumes "\<exists>(a, b) \<in> set xs. length h1 \<le> a" "\<forall>(a, b) \<in> set xs. b < length h2"
  shows "bump_all xs (Some h1, Some h2) = Inl Out_of_bounds"
  using assms
proof (induction xs arbitrary: h1 h2)
  case (Cons x xs)
  obtain a b where x: "x = (a, b)" by (cases x)
  show ?case
  proof (cases "a < length h1")
    case True
    then have "bump_all xs (Some (h1[a := h1 ! a + 1]), Some (h2[b := h2 ! b + 1])) = Inl Out_of_bounds"
      using Cons x by (intro Cons.IH) auto
    then show ?thesis using True Cons.prems(2) x by (simp add: bump_def rd_def wr_def)
  qed (simp add: x bump_def rd_def)
qed simp

lemma bump_all_counts:
  assumes "\<forall>(a, b) \<in> set xs. a < length h1 \<and> b < length h2"
  shows "\<exists>h1' h2'. bump_all xs (Some h1, Some h2) = Inr (Some h1', Some h2') \<and> length h1' = length h1 \<and> length h2' = length h2 \<and>
    (\<forall>k < length h1. h1' ! k = h1 ! k + of_nat (count_list (map fst xs) k)) \<and>
    (\<forall>k < length h2. h2' ! k = h2 ! k + of_nat (count_list (map snd xs) k))"
  using assms
proof (induction xs arbitrary: h1 h2)
  case (Cons x xs)
  obtain a b where x: "x = (a, b)" by (cases x)
  let ?h1 = "h1[a := h1 ! a + 1]" let ?h2 = "h2[b := h2 ! b + 1]"
  obtain h1' h2' where r: "bump_all xs (Some ?h1, Some ?h2) = Inr (Some h1', Some h2')" "length h1' = length h1" "length h2' = length h2"
    "\<forall>k < length h1. h1' ! k = ?h1 ! k + of_nat (count_list (map fst xs) k)"
    "\<forall>k < length h2. h2' ! k = ?h2 ! k + of_nat (count_list (map snd xs) k)"
    using Cons.IH[of ?h1 ?h2] Cons.prems x by auto
  moreover have "bump_all (x # xs) (Some h1, Some h2) = Inr (Some h1', Some h2')"
    using r(1) Cons.prems x by (simp add: bump_def rd_def wr_def)
  ultimately show ?case using x by (auto simp: nth_list_update)
qed simp

text \<open>The objects, with the buffer as long as the longest path.\<close>

lemma do_deets_lists:
  assumes t: "trie_for ents t cs" and h: "holds_trie r t"
  shows "siblings t i n es \<Longrightarrow> sum_list (map edge_count es) < fuel \<Longrightarrow> length pre + forest_height es \<le> length m \<Longrightarrow>
    take (length pre) m = pre \<Longrightarrow> 0 \<notin> set pre \<Longrightarrow>
    \<forall>(u, v) \<in> set (forest_list pre es). t_oid v \<noteq> GIDX_INVALID_OID \<and> length u < 2 ^ 31 \<and> print_kind r (t_oid v) = Inr (K (t_oid v)) \<Longrightarrow>
    \<exists>m'. do_deets fuel r i n (length pre) (Some m) =
        Inr (map (\<lambda>(u, v). (u, t_oid v, K (t_oid v))) (forest_list pre es), Some m') \<and>
      length m' = length m \<and> take (length pre) m' = pre"
proof (induction fuel arbitrary: i n es pre m)
  case (Suc fuel)
  show ?case
  proof (cases "n = 0")
    case True
    then show ?thesis using siblings_0[of t i es] Suc.prems(1,4) by simp
  next
    case False
    obtain es' where es: "es = snd (r_bfs_order t ! i) # es'" "i < length (r_bfs_order t)" "siblings t (i + 1) (n - 1) es'"
      by (rule siblings_Cons[OF Suc.prems(1) False])
    define e where "e = snd (r_bfs_order t ! i)"
    obtain d where d: "dedge_at r i = Inr d" "unat (re_strlen d) = length (e_cmp e)" "unat (re_num_edges d) = length (e_edges e)"
      "siblings t (unat (re_edges_idx d)) (length (e_edges e)) (e_edges e)" "re_oid d = oid_of (e_terminal e)"
      "map_at r (edge_str r i) (length (e_cmp e)) = Inr (e_cmp e)" "0 \<notin> set (e_cmp e)"
      unfolding e_def by (rule edge_on_disk[OF t h es(2)])
    note es = es[folded e_def]
    have fuel: "sum_list (map edge_count (e_edges e)) < fuel" "sum_list (map edge_count es') < fuel"
      using Suc.prems(2) es(1) edge_sel(4)[of e] by simp_all
    let ?pre = "pre @ e_cmp e"
    have fits: "length ?pre + forest_height (e_edges e) \<le> length m" "length pre + forest_height es' \<le> length m"
      using Suc.prems(3) es(1) edge_sel(1)[of e] by simp_all
    define m1 where "m1 = ?pre @ drop (length ?pre) m"
    have c: "copy_to (Some m) (length pre) (e_cmp e) = Inr m1"
      using fits(1) Suc.prems(4) by (simp add: copy_to_def m1_def)
    have m1: "length m1 = length m" "take (length ?pre) m1 = ?pre" using fits(1) by (simp_all add: m1_def)
    note sel = edge_sel(3)[of pre e]
    let ?line = "\<lambda>(u, v). (u, t_oid v, K (t_oid v))"
    let ?t = "case e_terminal e of None \<Rightarrow> [] | Some v \<Rightarrow> [(?pre, v)]"
    have l: "(if re_oid d \<noteq> GIDX_INVALID_OID then rbind (print_obj r d m1 (length pre + unat (re_strlen d))) (\<lambda>l. Inr [l]) else Inr []) =
        Inr (map ?line ?t)"
    proof (cases "e_terminal e")
      case None
      then show ?thesis using d(5) by (simp add: oid_of_def)
    next
      case (Some v)
      have v: "t_oid v \<noteq> GIDX_INVALID_OID" "length ?pre < 2 ^ 31" "print_kind r (t_oid v) = Inr (K (t_oid v))"
        using Suc.prems(6) Some sel es(1) by auto
      have "cstr (take (length ?pre) m1) = ?pre" using m1(2) Suc.prems(5) d(7) by (simp add: cstr_id)
      moreover have "length ?pre \<le> length m1" using fits(1) m1(1) by linarith
      ultimately have "str_prec m1 (precision (length ?pre)) = Inr ?pre"
        unfolding precision_small[OF v(2)] str_prec_def Let_def option.case by (simp only: if_True simp_thms)
      then have "print_obj r d m1 (length ?pre) = Inr (?pre, t_oid v, K (t_oid v))"
        using Some d(5) v(3) by (simp add: print_obj_def oid_of_def del: length_append)
      then show ?thesis unfolding d(2) using Some d(5) v(1) by (simp add: oid_of_def)
    qed
    have s1: "\<forall>(u, v) \<in> set (forest_list ?pre (e_edges e)). t_oid v \<noteq> GIDX_INVALID_OID \<and> length u < 2 ^ 31 \<and> print_kind r (t_oid v) = Inr (K (t_oid v))"
      using Suc.prems(6) sel es(1) by auto
    have nul: "0 \<notin> set ?pre" using Suc.prems(5) d(7) by simp
    obtain m2 where m2: "do_deets fuel r (unat (re_edges_idx d)) (length (e_edges e)) (length ?pre) (Some m1) =
        Inr (map ?line (forest_list ?pre (e_edges e)), Some m2)" "length m2 = length m" "take (length ?pre) m2 = ?pre"
      using Suc.IH[OF d(4) fuel(1) _ m1(2) nul s1] fits(1) m1(1) by auto
    have p2: "take (length pre) m2 = pre" using arg_cong[OF m2(3), of "take (length pre)"] by simp
    have s2: "\<forall>(u, v) \<in> set (forest_list pre es'). t_oid v \<noteq> GIDX_INVALID_OID \<and> length u < 2 ^ 31 \<and> print_kind r (t_oid v) = Inr (K (t_oid v))"
      using Suc.prems(6) es(1) by auto
    obtain m3 where m3: "do_deets fuel r (i + 1) (n - 1) (length pre) (Some m2) = Inr (map ?line (forest_list pre es'), Some m3)"
      "length m3 = length m" "take (length pre) m3 = pre"
      using Suc.IH[OF es(3) fuel(2) _ p2 Suc.prems(5) s2] fits(2) m2(2) by auto
    have "do_deets (Suc fuel) r i n (length pre) (Some m) =
        Inr (map ?line ?t @ map ?line (forest_list ?pre (e_edges e)) @ map ?line (forest_list pre es'), Some m3)"
      using False d(1-3,6) c l m2(1) m3(1) by (simp add: Let_def split del: if_split)
    moreover have "map ?line (forest_list pre es) = map ?line ?t @ map ?line (forest_list ?pre (e_edges e)) @ map ?line (forest_list pre es')"
      using sel es(1) by simp
    ultimately show ?thesis using m3(2,3) by simp
  qed
qed simp

section \<open>The listing against the entries\<close>

lemma edge_list_prefix: "(u, v) \<in> set (edge_list pre e) \<Longrightarrow> prefix (pre @ e_cmp e) u"
proof (induction pre e arbitrary: u v rule: edge_list.induct)
  case (1 pre c t cs)
  then consider "u = pre @ c" | e where "e \<in> set cs" "(u, v) \<in> set (edge_list (pre @ c) e)"
    by (auto split: option.splits)
  then show ?case
  proof cases
    case 2
    then have "prefix ((pre @ c) @ e_cmp e) u" using 1(1) by blast
    then show ?thesis using append_prefixD by fastforce
  qed simp
qed

lemma trie_find_Cons:
  assumes "edges_ok (e # es)" "x \<noteq> []"
  shows "trie_find (e # es) x = (if prefix (e_cmp e) x then
      if drop (length (e_cmp e)) x = [] then e_terminal e else trie_find (e_edges e) (drop (length (e_cmp e)) x) else trie_find es x)"
  by (simp add: trie_find.simps[of "e # es"] trie_find.simps[of es] Let_def)

lemma trie_find_no_edge:
  assumes "edges_ok (e # es)" "prefix (e_cmp e) x" "x \<noteq> []"
  shows "trie_find es x = None"
proof -
  have "\<not> prefix (e_cmp y) x" if "y \<in> set es" for y
    using edges_ok_order[of "[]" e es] edges_okD[OF assms(1)] assms that prefix_hd edge_ok_ne
    by (metis append_Nil list.set_intros less_irrefl)
  then have "find (\<lambda>e. prefix (e_cmp e) x) es = None" by (auto simp: find_None_iff)
  then show ?thesis by (simp add: trie_find.simps[of es])
qed

lemma forest_list_entries:
  "edges_ok es \<Longrightarrow> (u, v) \<in> set (forest_list pre es) \<longleftrightarrow> (\<exists>x. u = pre @ x \<and> x \<noteq> [] \<and> trie_find es x = Some v)"
proof (induction "sum_list (map edge_count es)" arbitrary: es pre rule: less_induct)
  case less
  show ?case
  proof (cases es)
    case Nil
    then show ?thesis by (simp add: trie_find.simps)
  next
    case (Cons e es')
    let ?c = "e_cmp e"
    have ok: "edges_ok es'" "edges_ok (e_edges e)" "?c \<noteq> []"
      using less.prems edges_okD[OF less.prems, of e] edges_ok_sublists[of "[e]" es'] by (simp_all add: Cons edge_ok_iff)
    have "sum_list (map edge_count (e_edges e)) < sum_list (map edge_count es)" "sum_list (map edge_count es') < sum_list (map edge_count es)"
      using Cons edge_sel(4)[of e] by simp_all
    note IH = less.hyps[OF this(1) ok(2), of "pre @ ?c"] less.hyps[OF this(2) ok(1), of pre]
    note find = trie_find_Cons[OF less.prems[unfolded Cons]] and none = trie_find_no_edge[OF less.prems[unfolded Cons]]
    have "(u, v) \<in> set (edge_list pre e) \<longleftrightarrow> (\<exists>x. u = pre @ x \<and> x \<noteq> [] \<and> prefix ?c x \<and> trie_find es x = Some v)"
    proof
      assume "(u, v) \<in> set (edge_list pre e)"
      then consider "e_terminal e = Some v" "u = pre @ ?c" | "(u, v) \<in> set (forest_list (pre @ ?c) (e_edges e))"
        unfolding edge_sel(3)[of pre e] by (auto split: option.splits)
      then show "\<exists>x. u = pre @ x \<and> x \<noteq> [] \<and> prefix ?c x \<and> trie_find es x = Some v"
      proof cases
        case 1
        then show ?thesis using ok(3) find[of ?c] Cons by auto
      next
        case 2
        then obtain y where "u = (pre @ ?c) @ y" "y \<noteq> []" "trie_find (e_edges e) y = Some v" using IH(1) by blast
        then show ?thesis using ok(3) find[of "?c @ y"] Cons by (intro exI[of _ "?c @ y"]) simp
      qed
    next
      assume "\<exists>x. u = pre @ x \<and> x \<noteq> [] \<and> prefix ?c x \<and> trie_find es x = Some v"
      then obtain y where y: "u = pre @ ?c @ y" "trie_find es (?c @ y) = Some v" by (auto simp: prefix_def)
      then have "(if y = [] then e_terminal e else trie_find (e_edges e) y) = Some v"
        using find[of "?c @ y"] ok(3) Cons by (auto split: if_splits)
      then show "(u, v) \<in> set (edge_list pre e)"
        unfolding edge_sel(3)[of pre e] using y(1) IH(1) by (auto split: if_splits)
    qed
    moreover have "(u, v) \<in> set (forest_list pre es') \<longleftrightarrow> (\<exists>x. u = pre @ x \<and> x \<noteq> [] \<and> \<not> prefix ?c x \<and> trie_find es x = Some v)"
      using IH(2) find none Cons by auto
    moreover have "(u, v) \<in> set (forest_list pre es) \<longleftrightarrow> (u, v) \<in> set (edge_list pre e) \<or> (u, v) \<in> set (forest_list pre es')"
      by (simp add: Cons)
    ultimately show ?thesis by blast
  qed
qed

lemma forest_list_distinct: "edges_ok es \<Longrightarrow> distinct (map fst (forest_list pre es))"
proof (induction "sum_list (map edge_count es)" arbitrary: es pre rule: less_induct)
  case less
  show ?case
  proof (cases es)
    case (Cons e es')
    let ?c = "e_cmp e"
    have ok: "edges_ok es'" "edges_ok (e_edges e)" "?c \<noteq> []"
      using less.prems edges_okD[OF less.prems, of e] edges_ok_sublists[of "[e]" es'] by (simp_all add: Cons edge_ok_iff)
    have "sum_list (map edge_count (e_edges e)) < sum_list (map edge_count es)" "sum_list (map edge_count es') < sum_list (map edge_count es)"
      using Cons edge_sel(4)[of e] by simp_all
    note IH = less.hyps[OF this(1) ok(2), of "pre @ ?c"] less.hyps[OF this(2) ok(1), of pre]
    have "pre @ ?c \<notin> fst ` set (forest_list (pre @ ?c) (e_edges e))"
    proof
      assume "pre @ ?c \<in> fst ` set (forest_list (pre @ ?c) (e_edges e))"
      then obtain v where "(pre @ ?c, v) \<in> set (forest_list (pre @ ?c) (e_edges e))" by force
      then show False using forest_list_entries[OF ok(2), of "pre @ ?c" v "pre @ ?c"] by auto
    qed
    then have one: "distinct (map fst (edge_list pre e))"
      unfolding edge_sel(3)[of pre e] using IH(1) by (auto split: option.splits)
    have "u \<notin> fst ` set (forest_list pre es')" if u: "u \<in> fst ` set (edge_list pre e)" for u
    proof
      assume "u \<in> fst ` set (forest_list pre es')"
      then obtain v where "(u, v) \<in> set (forest_list pre es')" by force
      then obtain x where x: "u = pre @ x" "x \<noteq> []" "trie_find es' x = Some v" using forest_list_entries[OF ok(1)] by blast
      moreover have "prefix ?c x" using u edge_list_prefix[of u _ pre e] x(1) by force
      ultimately show False using trie_find_no_edge[OF less.prems[unfolded Cons]] by simp
    qed
    then show ?thesis using one IH(2) Cons by auto
  qed simp
qed

lemma forest_list_trie:
  assumes t: "trie_for ents t cs" and d: "distinct (map t_str ents)" "\<forall>v \<in> set ents. t_str v \<noteq> []"
  shows "set (forest_list [] [Edge [] None cs]) = (\<lambda>v. (t_str v, v)) ` set ents" "distinct (map fst (forest_list [] [Edge [] None cs]))"
proof -
  have cs: "edges_ok cs" and find: "\<And>x. x \<noteq> [] \<Longrightarrow> trie_find cs x = map_of (map (\<lambda>u. (t_str u, u)) ents) x"
    using t by (auto simp: trie_for_def)
  have m: "map_of (map (\<lambda>u. (t_str u, u)) ents) x = Some v \<longleftrightarrow> v \<in> set ents \<and> t_str v = x" for x v
    using map_of_eq_Some_iff[of "map (\<lambda>u. (t_str u, u)) ents"] d(1) by (auto simp: comp_def)
  have l: "forest_list [] [Edge [] None cs] = forest_list [] cs" by simp
  have mem: "(u, v) \<in> set (forest_list [] cs) \<longleftrightarrow> v \<in> set ents \<and> t_str v = u" for u v
    using forest_list_entries[OF cs, of u v "[]"] find m d(2) by auto
  show "set (forest_list [] [Edge [] None cs]) = (\<lambda>v. (t_str v, v)) ` set ents" unfolding l set_eq_iff split_paired_All mem by auto
  show "distinct (map fst (forest_list [] [Edge [] None cs]))" unfolding l using forest_list_distinct[OF cs] .
qed

section \<open>A run on an opened web root\<close>

lemma edge_counts_order:
  assumes t: "trie_for ents t cs" and h: "holds_trie r t"
  shows "siblings t i n es \<Longrightarrow> x \<in> set (forest_counts es) \<Longrightarrow>
    \<exists>k < length (r_bfs_order t). x = (length (e_cmp (snd (r_bfs_order t ! k))), length (e_edges (snd (r_bfs_order t ! k))))"
proof (induction "sum_list (map edge_count es)" arbitrary: i n es rule: less_induct)
  case less
  show ?case
  proof (cases "n = 0")
    case True
    then show ?thesis using siblings_0[of t i es] less.prems by simp
  next
    case False
    obtain es' where es: "es = snd (r_bfs_order t ! i) # es'" "i < length (r_bfs_order t)" "siblings t (i + 1) (n - 1) es'"
      by (rule siblings_Cons[OF less.prems(1) False])
    let ?e = "snd (r_bfs_order t ! i)"
    obtain d where "dedge_at r i = Inr d" and d: "siblings t (unat (re_edges_idx d)) (length (e_edges ?e)) (e_edges ?e)"
      by (rule edge_on_disk[OF t h es(2)])
    have lt: "sum_list (map edge_count (e_edges ?e)) < sum_list (map edge_count es)" "sum_list (map edge_count es') < sum_list (map edge_count es)"
      using es(1) edge_sel(4)[of ?e] by simp_all
    consider "x = (length (e_cmp ?e), length (e_edges ?e))" | "x \<in> set (forest_counts (e_edges ?e))" | "x \<in> set (forest_counts es')"
      using less.prems(2) es(1) edge_sel(2)[of ?e] by auto
    then show ?thesis
      using es(2) less.hyps[OF lt(1) d] less.hyps[OF lt(2) es(3)] by cases blast+
  qed
qed

lemma edge_counts_child: "c \<in> set (e_edges e) \<Longrightarrow> set (edge_counts c) \<subseteq> set (edge_counts e)"
  by (cases e) auto

lemma forest_counts_records:
  assumes t: "trie_for ents t cs" and h: "holds_trie r t"
  shows "(\<exists>(a, b) \<in> set (forest_counts [Edge [] None cs]). L \<le> a) \<longleftrightarrow>
    (\<exists>k d. k < r_num_edges r \<and> dedge_at r k = Inr d \<and> L \<le> unat (re_strlen d))"
    and "(a, b) \<in> set (forest_counts [Edge [] None cs]) \<Longrightarrow> b < 0x100"
proof -
  let ?root = "Edge [] None cs" let ?o = "r_bfs_order t"
  have n: "r_num_edges r = length ?o" using h by (simp add: holds_trie_def trie_image_def)
  note order = edge_counts_order[OF t h root_siblings[OF t]]
  have all: "\<forall>x \<in> set ?o. set (edge_counts (snd x)) \<subseteq> set (edge_counts ?root)"
  proof -
    have "\<forall>x \<in> set (do_layout_bfs [([], ?root)]). set (edge_counts (snd x)) \<subseteq> set (edge_counts ?root)"
      by (rule bfs_all) (use edge_counts_child in auto)
    then show ?thesis using t by (simp add: trie_for_def)
  qed
  show "(\<exists>(a, b) \<in> set (forest_counts [?root]). L \<le> a) \<longleftrightarrow> (\<exists>k d. k < r_num_edges r \<and> dedge_at r k = Inr d \<and> L \<le> unat (re_strlen d))"
  proof
    assume "\<exists>(a, b) \<in> set (forest_counts [?root]). L \<le> a"
    then obtain a b where x: "(a, b) \<in> set (forest_counts [?root])" "L \<le> a" by blast
    obtain k where k: "k < length ?o" "(a, b) = (length (e_cmp (snd (?o ! k))), length (e_edges (snd (?o ! k))))"
      using order[OF x(1)] by blast
    obtain d where "dedge_at r k = Inr d" "unat (re_strlen d) = length (e_cmp (snd (?o ! k)))" by (rule edge_on_disk[OF t h k(1)])
    then show "\<exists>k d. k < r_num_edges r \<and> dedge_at r k = Inr d \<and> L \<le> unat (re_strlen d)" using k x(2) n by auto
  next
    assume "\<exists>k d. k < r_num_edges r \<and> dedge_at r k = Inr d \<and> L \<le> unat (re_strlen d)"
    then obtain k d where k: "k < length ?o" "dedge_at r k = Inr d" "L \<le> unat (re_strlen d)" using n by auto
    let ?e = "snd (?o ! k)"
    obtain d' where "dedge_at r k = Inr d'" "unat (re_strlen d') = length (e_cmp ?e)" by (rule edge_on_disk[OF t h k(1)])
    then have "L \<le> length (e_cmp ?e)" using k(2,3) by simp
    moreover have "(length (e_cmp ?e), length (e_edges ?e)) \<in> set (edge_counts ?e)" unfolding edge_sel(2)[of ?e] by simp
    ultimately show "\<exists>(a, b) \<in> set (forest_counts [?root]). L \<le> a" using all nth_mem[OF k(1)] by fastforce
  qed
  assume "(a, b) \<in> set (forest_counts [?root])"
  then obtain k where k: "k < length ?o" "b = length (e_edges (snd (?o ! k)))" using order by blast
  have "edges_ok (e_edges (snd (?o ! k)))" using trie_for_writable[OF t nth_mem[OF k(1)]] by (simp add: writable_def)
  then show "b < 0x100" using edges_ok_few k(2) by simp
qed

text \<open>The environment in which no call fails.\<close>

definition fsck_env_ok :: "fsck_env \<Rightarrow> bool" where
  "fsck_env_ok env \<longleftrightarrow> fe_fopen env \<and> fe_hist env \<and> fe_hist2 env \<and> (\<forall>n. \<exists>m. fe_buf env n = Some m \<and> length m = n)"

lemma fsck_root_runs:
  assumes t: "trie_for ents t cs" and h: "holds_trie r t" and env: "fsck_env_ok env" and fuel: "r_num_edges r < fuel"
    and objs: "\<forall>(u, v) \<in> set (forest_list [] [Edge [] None cs]).
      t_oid v \<noteq> GIDX_INVALID_OID \<and> length u < 2 ^ 31 \<and> print_kind r (t_oid v) = Inr (K (t_oid v))"
  shows "\<exists>dot L ls rep. dump_root True fuel r = Inr (dot, L) \<and> print_deets fuel r (fe_buf env L) = Inr ls \<and>
    ls = map (\<lambda>(u, v). (u, t_oid v, K (t_oid v))) (forest_list [] [Edge [] None cs]) \<and>
    fr_dot rep = dot \<and> fr_max_len rep = L \<and> fr_objs rep = ls \<and>
    fsck_root env fuel r = (if \<exists>k d. k < r_num_edges r \<and> dedge_at r k = Inr d \<and> L \<le> unat (re_strlen d)
      then Inl Out_of_bounds else Inr rep)"
proof -
  let ?es = "[Edge [] None cs]"
  have "length (r_bfs_order t) = node_count [([], Edge [] None cs)]" using t bfs_count by (simp add: trie_for_def)
  then have f: "sum_list (map edge_count ?es) < fuel"
    using fuel h by (simp add: holds_trie_def trie_image_def node_count_def)
  note sib = root_siblings[OF t]
  define L where "L = forest_height ?es"
  obtain m where m: "fe_buf env L = Some m" "length m = L" using env by (auto simp: fsck_env_ok_def)
  obtain ls where dump: "do_dump fuel r 0 1 = Inr (ls, L)" using do_dump_returns[OF t h sib f] by (auto simp: L_def)
  have calc: "calc_hists fuel r 0 1 st = bump_all (forest_counts ?es) st" for st by (rule calc_hists_bumps[OF t h sib f])
  let ?objs = "map (\<lambda>(u, v). (u, t_oid v, K (t_oid v))) (forest_list [] ?es)"
  have "length ([] :: bytes) + forest_height ?es \<le> length m" "take (length ([] :: bytes)) m = []" "0 \<notin> set ([] :: bytes)"
    using m(2) by (simp_all add: L_def)
  from do_deets_lists[OF t h sib f this objs] obtain m' where
    "do_deets fuel r 0 1 0 (Some m) = Inr (?objs, Some m')" by auto
  then have deets: "print_deets fuel r (fe_buf env L) = Inr ?objs" using m(1) by (simp add: print_deets_def)
  have dr: "dump_root True fuel r = Inr ([Dot_begin, Dot_graph, Dot_style] @ ls @ [Dot_end], L)" using dump by (simp add: dump_root_def)
  let ?h1 = "replicate L (0 :: u32)" let ?h2 = "replicate 0x100 (0 :: u32)"
  have fan: "\<forall>(a, b) \<in> set (forest_counts ?es). b < length ?h2" using forest_counts_records(2)[OF t h] by auto
  have root: "fsck_root env fuel r = rbind (bump_all (forest_counts ?es) (Some ?h1, Some ?h2)) (\<lambda>(h1, h2).
      Inr \<lparr>fr_dot = [Dot_begin, Dot_graph, Dot_style] @ ls @ [Dot_end], fr_max_len = L, fr_map_sz = length (r_map r), fr_objs = ?objs,
           fr_hist = dump_hist (case h1 of None \<Rightarrow> [] | Some h \<Rightarrow> h), fr_fanout = dump_fanout_hist (case h2 of None \<Rightarrow> [] | Some h \<Rightarrow> h)\<rparr>)"
    using env dr calc deets by (simp add: fsck_root_def fsck_env_ok_def Let_def)
  note rec = forest_counts_records(1)[OF t h, of L]
  show ?thesis
  proof (cases "\<exists>(a, b) \<in> set (forest_counts ?es). L \<le> a")
    case True
    then have "bump_all (forest_counts ?es) (Some ?h1, Some ?h2) = Inl Out_of_bounds" by (intro bump_all_fails fan) simp
    then have "fsck_root env fuel r = Inl Out_of_bounds" unfolding root by (simp only: rbind_simps)
    then show ?thesis using True[unfolded rec] dr deets
      by (intro exI[of _ "[Dot_begin, Dot_graph, Dot_style] @ ls @ [Dot_end]"] exI[of _ L] exI[of _ ?objs]
          exI[of _ "\<lparr>fr_dot = [Dot_begin, Dot_graph, Dot_style] @ ls @ [Dot_end], fr_max_len = L, fr_map_sz = 0, fr_objs = ?objs,
            fr_hist = (0, []), fr_fanout = (0, [])\<rparr>"]) simp
  next
    case False
    then have "\<forall>(a, b) \<in> set (forest_counts ?es). a < length ?h1 \<and> b < length ?h2" using fan by force
    then obtain h1 h2 where "bump_all (forest_counts ?es) (Some ?h1, Some ?h2) = Inr (Some h1, Some h2)"
      using bump_all_counts by blast
    then have "\<exists>rep. fsck_root env fuel r = Inr rep \<and> fr_dot rep = [Dot_begin, Dot_graph, Dot_style] @ ls @ [Dot_end] \<and>
        fr_max_len rep = L \<and> fr_objs rep = ?objs"
      unfolding root by simp
    then obtain rep where "fsck_root env fuel r = Inr rep" "fr_dot rep = [Dot_begin, Dot_graph, Dot_style] @ ls @ [Dot_end]"
        "fr_max_len rep = L" "fr_objs rep = ?objs" by blast
    moreover have "\<not> (\<exists>k d. k < r_num_edges r \<and> dedge_at r k = Inr d \<and> L \<le> unat (re_strlen d))" using False rec by blast
    ultimately show ?thesis using dr deets by (intro exI[of _ "[Dot_begin, Dot_graph, Dot_style] @ ls @ [Dot_end]"] exI[of _ L] exI[of _ ?objs] exI[of _ rep]) simp
  qed
qed

section \<open>A web root of the builder\<close>

text \<open>What is printed below the URI of the object \<open>ob\<close>; \<open>data\<close> are the bytes of the file.\<close>

definition listed_kind :: "mkroot \<Rightarrow> bytes list \<Rightarrow> bytes \<Rightarrow> objref \<Rightarrow> obj_kind \<Rightarrow> bool" where
  "listed_kind r cs data ob k = (case ob of
     Redir i \<Rightarrow> (case o_uri (k_redirect r ! i) of
        None \<Rightarrow> k = Redir_code (sint (o_code (k_redirect r ! i))) | Some v \<Rightarrow> k = Redir_to (cstr v))
   | File i \<Rightarrow> let f = k_file r ! i in
       \<exists>off. k = File_obj (cstr (o_type f)) off (of_nat (o_size f)) \<and> take (o_size f) (drop (unat off) data) = cs ! i)"

lemma str_prec_slice:
  assumes "take n (drop p bs) = s" "p + n \<le> length bs" "n = length s" "n < 2 ^ 31"
  shows "str_prec (drop p bs) (precision n) = Inr (cstr s)"
proof -
  have "n \<le> length (drop p bs)" using assms(2) by simp
  then show ?thesis using assms(1,4) by (simp add: str_prec_def precision_small Let_def)
qed

lemma short_in_buffer: "length u < 256 \<Longrightarrow> 0 \<notin> set u \<Longrightarrow> in_buffer (u @ 0 # replicate 8 0) 0 u"
  by (simp add: in_buffer_def RE_EDGE_MAX_def)

lemma print_written:
  assumes w: "written_root r t r1 cs pad" and r2: "r2 = with_digests r1 cs" and small: "length (index_image pad t r2) < 2 ^ 31"
    and u: "map_of (k_uri r) u = Some ob"
  shows "obj_oid r ob \<noteq> GIDX_INVALID_OID \<and> (\<exists>k. print_kind (image_root fd pad t r2) (obj_oid r ob) = Inr k \<and>
    listed_kind r cs (index_image pad t r2 @ concat cs) ob k)"
proof -
  let ?w = "image_root fd pad t r2" let ?img = "index_image pad t r2" let ?data = "?img @ concat cs"
  have l: "laid_out t r r1" and wf: "mk_wf r" and sz: "length ?img < 2 ^ 32 - 1" and cl: "length cs = length (k_file r)"
    and uo: "uris_ok r"
    using w by (auto simp: written_root_def r2 dest: list_all2_lengthD)
  have ok: "index_ok (trie_entries r1) t r2" using written_index_ok[OF w] by (simp add: r2)
  have "u \<in> fst ` set (k_uri r)" using map_of_SomeD[OF u] by force
  then have b: "in_buffer (u @ 0 # replicate 8 0) 0 u" "u \<noteq> []"
    using uo wf short_in_buffer[of u] map_of_SomeD[OF u] by (auto simp: uris_ok_def mk_wf_def)
  note oid = written_oid[OF w b le_refl r2 refl, where fd = fd]
  note q = oid(2)[OF u]
  have map: "r_map ?w = ?img" using image_root_simps(1)[OF ok sz] .
  show ?thesis
  proof (cases ob)
    case (Redir i)
    have i: "i < length (k_redirect r)" "unat (obj_oid r ob) = i" using q Redir by (simp_all add: ref_ok_def)
    have m: "map_at ?w (r_redir ?w + REDIRECT_SZ * i) REDIRECT_SZ = Inr (redirect_bytes (redirect_rec (k_redirect r2 ! i)))"
      using redirect_at_image[OF ok sz _ refl] i(1) laid_outD(7)[OF l] by (simp add: r2 with_digests_simps)
    note rb = redirect_of_bytes[of "redirect_rec (k_redirect r2 ! i)" "[]", unfolded append_Nil2]
    show ?thesis
    proof (cases "o_uri (k_redirect r ! i)")
      case None
      then have "redirect_rec (k_redirect r2 ! i) = \<lparr>r_off = WEBROOT_INVALID_REDIRECT, r_len = o_code (k_redirect r ! i)\<rparr>"
        using laid_outD(9)[OF l i(1)] by (simp add: r2 with_digests_simps redirect_rec_def)
      then show ?thesis using q i m rb oid(3) None Redir by (simp add: print_kind_def listed_kind_def)
    next
      case uri: (Some v)
      note wrd = written_redirect[OF w i(1) uri, folded r2]
      let ?off = "index_sz t r + k_mimetab_sz r1 + offs (map uri_bytes_of (k_redirect r)) i"
      have un: "unat (of_nat ?off :: u32) = ?off" "unat (of_nat (length v) :: u32) = length v"
        by (rule unat_of_nat32, use wrd(2) in linarith)+
      then have "of_nat ?off \<noteq> WEBROOT_INVALID_REDIRECT" using wrd(2) by (auto simp: WEBROOT_INVALID_REDIRECT_def)
      moreover have "str_prec (drop ?off (r_map ?w)) (precision (length v)) = Inr (cstr v)"
        unfolding map by (rule str_prec_slice[OF wrd(3,4) refl]) (use wrd(4) small in linarith)
      ultimately have "print_kind ?w (obj_oid r ob) = Inr (Redir_to (cstr v))"
        using q i m rb oid(3) wrd(1) un by (simp add: print_kind_def Let_def del: of_nat_add)
      then show ?thesis using q Redir uri by (simp add: listed_kind_def)
    qed
  next
    case (File i)
    have i: "i < length (k_file r)" "unat (obj_oid r ob) = length (k_redirect r) + i" using q File by (simp_all add: ref_ok_def)
    let ?f = "k_file r ! i" let ?rec = "file_rec r2 (k_file r2 ! i)"
    note fr = written_file_rec[OF w i(1), folded r2]
    have m: "map_at ?w (r_file ?w + FILE_SZ * i) FILE_SZ = Inr (file_bytes ?rec)"
      using file_at_image[OF ok sz _ refl] i(1) laid_outD(8)[OF l] cl by (simp add: r2 with_digests_def)
    have "length (f_digest ?rec) = 20" using fr by (simp add: length_fips_sha1)
    note fb = file_of_bytes[OF this, of "[]", unfolded append_Nil2]
    have "o_type ?f \<in> fst ` set (k_mime_type r)" using wf i(1) by (simp add: mk_wf_def)
    then obtain ty where ty: "mime_off r2 (o_type ?f) = of_nat ty" "ty + length (o_type ?f) < 2 ^ 32"
      "take (length (o_type ?f)) (drop ty ?img) = o_type ?f" "ty + length (o_type ?f) \<le> length ?img"
      using written_mime[OF w, folded r2] by blast
    have ut: "unat (of_nat ty :: u32) = ty" "unat (of_nat (length (o_type ?f)) :: u32) = length (o_type ?f)"
      by (rule unat_of_nat32, use ty(2) in linarith)+
    have s: "str_prec (drop ty (r_map ?w)) (precision (length (o_type ?f))) = Inr (cstr (o_type ?f))"
      unfolding map by (rule str_prec_slice[OF ty(3,4) refl]) (use ty(4) small in linarith)
    obtain off where off: "o_off (k_file r1 ! i) = of_nat off" "off + o_size ?f < 2 ^ 64" "take (o_size ?f) (drop off ?data) = cs ! i"
      using written_content[OF w i(1), folded r2] by blast
    have "unat (of_nat off :: u64) = off" by (rule unat_of_nat64, use off(2) in linarith)
    then have c: "take (o_size ?f) (drop (unat (o_off (k_file r1 ! i))) ?data) = cs ! i" using off(1,3) by simp
    have "print_kind ?w (obj_oid r ob) = Inr (File_obj (cstr (o_type ?f)) (o_off (k_file r1 ! i)) (of_nat (o_size ?f)))"
      using i m fb oid(3) fr ty(1) ut s by (simp add: print_kind_def Let_def)
    then show ?thesis using q File c by (auto simp: listed_kind_def)
  qed
qed

lemma listed_mem:
  "(u, oid, k) \<in> set (map (\<lambda>(u, v). (u, t_oid v, K (t_oid v))) xs) \<longleftrightarrow> (\<exists>v. (u, v) \<in> set xs \<and> oid = t_oid v \<and> k = K (t_oid v))"
  by force

lemma fsck_written:
  assumes w: "written_root r t r1 cs pad" and r2: "r2 = with_digests r1 cs" and small: "length (index_image pad t r2) < 2 ^ 31"
    and env: "fsck_env_ok env" and fuel: "length (index_image pad t r2) \<le> fuel" and im: "im = image_root fd pad t r2"
  shows "\<exists>dot L ls rep. dump_root True fuel im = Inr (dot, L) \<and> print_deets fuel im (fe_buf env L) = Inr ls \<and>
    distinct (map fst ls) \<and> fst ` set ls = fst ` set (k_uri r) \<and>
    (\<forall>(u, oid, k) \<in> set ls. \<exists>ob. map_of (k_uri r) u = Some ob \<and> oid = obj_oid r ob \<and>
      listed_kind r cs (index_image pad t r2 @ concat cs) ob k) \<and>
    fr_dot rep = dot \<and> fr_max_len rep = L \<and> fr_objs rep = ls \<and>
    fsck_root env fuel im = (if \<exists>k d. k < r_num_edges im \<and> dedge_at im k = Inr d \<and> L \<le> unat (re_strlen d)
      then Inl Out_of_bounds else Inr rep)"
proof -
  have l: "laid_out t r r1" and wf: "mk_wf r" and sz: "length (index_image pad t r2) < 2 ^ 32 - 1" and uo: "uris_ok r"
    using w by (auto simp: written_root_def r2)
  have ok: "index_ok (trie_entries r1) t r2" using written_index_ok[OF w] by (simp add: r2)
  obtain edges where t: "trie_for (trie_entries r1) t edges" using w by (auto simp: written_root_def)
  have h: "holds_trie im t" unfolding im by (rule holds_image[OF ok sz])
  have oids: "obj_oid r1 = obj_oid r" using laid_outD(7)[OF l] by (auto simp: obj_oid_def fun_eq_iff split: objref.splits)
  have k1: "map fst (k_uri r1) = map t_str (trie_entries r1)" by (simp add: trie_entries_def comp_def case_prod_beta')
  have su: "set (k_uri r1) = set (k_uri r)" using laid_outD(1)[OF l] by simp
  have ents: "trie_entries r1 = map (\<lambda>(u, ob). \<lparr>t_str = u, t_oid = obj_oid r ob\<rparr>) (k_uri r1)" by (simp add: trie_entries_def oids)
  have dist: "distinct (map fst (k_uri r))" using uo by (simp add: uris_ok_def)
  then have "distinct (map t_str (trie_entries r1))" unfolding k1[symmetric] using laid_outD(1)[OF l] by (simp add: distinct_map)
  moreover have "\<forall>v \<in> set (trie_entries r1). t_str v \<noteq> []" using wf su by (auto simp: ents mk_wf_def)
  ultimately have list: "set (forest_list [] [Edge [] None edges]) = (\<lambda>v. (t_str v, v)) ` set (trie_entries r1)"
    "distinct (map fst (forest_list [] [Edge [] None edges]))"
    by (rule forest_list_trie[OF t])+
  define K where "K oid = projr (print_kind im oid)" for oid
  let ?P = "\<lambda>ob k. listed_kind r cs (index_image pad t r2 @ concat cs) ob k"
  have obj: "obj_oid r ob \<noteq> GIDX_INVALID_OID \<and> length u < 256 \<and> map_of (k_uri r) u = Some ob \<and>
      print_kind im (obj_oid r ob) = Inr (K (obj_oid r ob)) \<and> ?P ob (K (obj_oid r ob))" if "(u, ob) \<in> set (k_uri r)" for u ob
  proof -
    have u: "map_of (k_uri r) u = Some ob" using that dist by simp
    moreover have "length u < 256" using uo that by (force simp: uris_ok_def)
    ultimately show ?thesis using print_written[OF w r2 small u, of fd, folded im] by (auto simp: K_def)
  qed
  have mem: "(u, v) \<in> set (forest_list [] [Edge [] None edges]) \<longleftrightarrow> (\<exists>ob. (u, ob) \<in> set (k_uri r) \<and> v = \<lparr>t_str = u, t_oid = obj_oid r ob\<rparr>)" for u v
    unfolding list(1) ents using su by (force simp: image_iff)
  have "length (trie_image t) \<le> length (index_image pad t r2)"
    using length_index_image(1)[OF ok, of pad] length_index_image(2)[OF ok] trie_image_length[OF t] by (simp add: DEDGE_SZ_def HDR_SZ_def)
  moreover have "length (index_image pad t r2) = length (trie_image t) \<longrightarrow> False"
    using length_index_image(1)[OF ok, of pad] length_index_image(2)[OF ok] trie_image_length[OF t] by (simp add: DEDGE_SZ_def HDR_SZ_def)
  ultimately have fu: "r_num_edges im < fuel" using fuel h by (auto simp: holds_trie_def)
  have "\<forall>(u, v) \<in> set (forest_list [] [Edge [] None edges]).
      t_oid v \<noteq> GIDX_INVALID_OID \<and> length u < 2 ^ 31 \<and> print_kind im (t_oid v) = Inr (K (t_oid v))"
    using obj mem by fastforce
  from fsck_root_runs[OF t h env fu this] obtain dot L ls rep where run:
    "dump_root True fuel im = Inr (dot, L)" "print_deets fuel im (fe_buf env L) = Inr ls"
    "ls = map (\<lambda>(u, v). (u, t_oid v, K (t_oid v))) (forest_list [] [Edge [] None edges])"
    "fr_dot rep = dot" "fr_max_len rep = L" "fr_objs rep = ls"
    "fsck_root env fuel im = (if \<exists>k d. k < r_num_edges im \<and> dedge_at im k = Inr d \<and> L \<le> unat (re_strlen d) then Inl Out_of_bounds else Inr rep)"
    by (elim exE conjE)
  have ml: "(u, oid, k) \<in> set ls \<longleftrightarrow> (\<exists>ob. (u, ob) \<in> set (k_uri r) \<and> oid = obj_oid r ob \<and> k = K oid)" for u oid k
  proof -
    have "(u, oid, k) \<in> set ls \<longleftrightarrow> (\<exists>v. (u, v) \<in> set (forest_list [] [Edge [] None edges]) \<and> oid = t_oid v \<and> k = K (t_oid v))"
      unfolding run(3) by (rule listed_mem)
    then show ?thesis unfolding mem by auto
  qed
  have "map fst ls = map fst (forest_list [] [Edge [] None edges])" unfolding run(3) map_map by (rule map_cong) auto
  then have "distinct (map fst ls)" using list(2) by simp
  moreover have "fst ` set ls = fst ` set (k_uri r)" using ml by (force simp: image_iff)
  moreover have "\<forall>(u, oid, k) \<in> set ls. \<exists>ob. map_of (k_uri r) u = Some ob \<and> oid = obj_oid r ob \<and> ?P ob k"
  proof (clarify)
    fix u oid k assume "(u, oid, k) \<in> set ls"
    then obtain ob where "(u, ob) \<in> set (k_uri r)" "oid = obj_oid r ob" "k = K oid" using ml by blast
    then show "\<exists>ob. map_of (k_uri r) u = Some ob \<and> oid = obj_oid r ob \<and> ?P ob k" using obj by blast
  qed
  ultimately show ?thesis using run(1,2,4-7) by (intro exI[of _ dot] exI[of _ L] exI[of _ ls] exI[of _ rep] conjI)
qed

section \<open>Properties\<close>


text \<open>
  A web root with a single URI of at most eight bytes makes the checker write outside its
  memory: the trie is one edge, which is the longest path, the histogram has as many entries as
  that path has bytes, and the count of the edge goes into the entry behind the last one.
\<close>

lemma single_trie:
  assumes "0 < length (t_str v)" "length (t_str v) \<le> RE_EDGE_MAX" "0 \<notin> set (t_str v)"
  shows "\<exists>t. new_trie [v] = Inr (Some t) \<and> trie_for [v] t [Edge (t_str v) (Some v) []]"
proof -
  have "common_prefix (t_str v) (t_str v) 0 = length (t_str v)" using assms(1,2) by (simp add: common_prefix_def)
  then have g: "group_of v [v] 0 = (length (t_str v), 1)" using assms(1,2) by (simp add: group_of_def RE_EDGE_MAX_def)
  have "do_radix (\<lambda>_. True) [v] 0 1 = Inr ([Edge (t_str v) (Some v) []], 2, True)"
    using assms by (simp add: do_radix.simps g Let_def)
  then have c: "construct_radix (\<lambda>_. True) (Some [v]) = Inr (True, Some (Edge [] None [Edge (t_str v) (Some v) []]), 2)"
    by (simp add: construct_radix_def)
  have "sorted_entries 0 [v]" using assms by (simp add: sorted_entries_def sfx_def RE_EDGE_MAX_def)
  from trie_new_correct[OF this] obtain t cs where "trie_new True True (\<lambda>_. True) (Some [v]) = Inr (Some t)" "trie_for [v] t cs" by blast
  moreover have ok: "edges_ok [Edge (t_str v) (Some v) []]" using assms by (simp add: edges_ok_def)
  moreover have "trie_find [Edge (t_str v) (Some v) []] x = map_of (map (\<lambda>u. (t_str u, u)) [v]) x" if "x \<noteq> []" for x
    using trie_find_Cons[OF ok that] by (auto simp: trie_find.simps[of "[]"] prefix_def)
  ultimately show ?thesis using c
    by (auto simp: new_trie_def trie_new_def layout_radix_def trie_for_def)
qed

lemma fsck_single_page_overflows:
  assumes "0 < length (t_str v)" "length (t_str v) \<le> RE_EDGE_MAX" "0 \<notin> set (t_str v)"
    and t: "new_trie [v] = Inr (Some t)" and h: "holds_trie r t" and env: "fsck_env_ok env" "2 < fuel" and out: "o_root out = Some r"
  shows "do_fsck env fuel (Inr out) = Inl Out_of_bounds"
proof -
  let ?es = "[Edge [] None [Edge (t_str v) (Some v) []]]"
  have tf: "trie_for [v] t [Edge (t_str v) (Some v) []]" using single_trie[OF assms(1-3)] t by auto
  have f: "sum_list (map edge_count ?es) < fuel" using env(2) by simp
  note sib = root_siblings[OF tf]
  obtain ls where d: "do_dump fuel r 0 1 = Inr (ls, forest_height ?es)" using do_dump_returns[OF tf h sib f] by blast
  have c: "calc_hists fuel r 0 1 st = bump_all (forest_counts ?es) st" for st by (rule calc_hists_bumps[OF tf h sib f])
  let ?L = "length (t_str v)"
  have "bump_all (forest_counts ?es) (Some (replicate ?L 0), Some (replicate 0x100 0)) = Inl Out_of_bounds"
    by (rule bump_all_fails) simp_all
  then have "calc_hists fuel r 0 1 (Some (replicate ?L 0), Some (replicate 0x100 0)) = Inl Out_of_bounds" unfolding c .
  moreover have "dump_root True fuel r = Inr ([Dot_begin, Dot_graph, Dot_style] @ ls @ [Dot_end], ?L)"
    using d by (simp add: dump_root_def)
  ultimately have "fsck_root env fuel r = Inl Out_of_bounds" using env(1) by (simp add: fsck_root_def fsck_env_ok_def Let_def)
  then show ?thesis using out by (simp add: do_fsck_def)
qed

text \<open>A web root that is only a trie.\<close>

definition bare_root :: "trie \<Rightarrow> webroot" where
  "bare_root t = \<lparr>r_fd = 3, r_ref = 1, r_map = concat (map dedge_bytes (trie_image t)), r_num_edges = length (trie_image t),
     r_num_redirect = 0, r_num_oid = 0, r_trie = 0, r_redir = 0, r_file = 0, r_strtab = 0\<rparr>"

lemma holds_bare_root:
  assumes t: "trie_for es t cs" and "length (trie_image t) < 2 ^ 32"
  shows "holds_trie (bare_root t) t"
proof -
  have re: "length (re_str d) = 8" if "d \<in> set (trie_image t)" for d using trie_for_dedge[OF t that] .
  have "dedge_at (bare_root t) k = Inr (trie_image t ! k)" if k: "k < length (trie_image t)" for k
  proof -
    have l8: "length (re_str (trie_image t ! k)) = 8" using re k by simp
    have "map_at (bare_root t) (0 + DEDGE_SZ * k) DEDGE_SZ = Inr (map dedge_bytes (trie_image t) ! k)"
      by (rule map_at_concat[where pre = "[]" and post = "[]"]) (use k re length_dedge_bytes in \<open>auto simp: bare_root_def\<close>)
    then show ?thesis using k dedge_of_bytes[OF l8, of "[]"] by (simp add: dedge_at_def bare_root_def)
  qed
  then show ?thesis using assms(2) by (simp add: holds_trie_def bare_root_def)
qed

definition sample_fsck_env :: fsck_env where
  "sample_fsck_env = \<lparr>fe_fopen = True, fe_hist = True, fe_hist2 = True, fe_buf = (\<lambda>n. Some (replicate n 0))\<rparr>"

lemma sample_fsck_env_ok: "fsck_env_ok sample_fsck_env"
  by (simp add: fsck_env_ok_def sample_fsck_env_def)

lemma fsck_single_page_sample:
  "\<exists>t. new_trie [\<lparr>t_str = str ''/'', t_oid = 0\<rparr>] = Inr (Some t) \<and>
    do_fsck sample_fsck_env 9 (Inr \<lparr>o_root = Some (bare_root t), o_fd = True, o_map = True\<rparr>) = Inl Out_of_bounds"
proof -
  let ?v = "\<lparr>t_str = str ''/'', t_oid = 0\<rparr> :: trie_entry"
  have v: "0 < length (t_str ?v)" "length (t_str ?v) \<le> RE_EDGE_MAX" "0 \<notin> set (t_str ?v)" by (simp_all add: RE_EDGE_MAX_def)
  obtain t where t: "new_trie [?v] = Inr (Some t)" "trie_for [?v] t [Edge (t_str ?v) (Some ?v) []]" using single_trie[OF v] by blast
  have "length (trie_image t) = 2" using t(2) by (simp add: trie_for_def trie_image_def bfs_count node_count_def)
  then have "holds_trie (bare_root t) t" by (intro holds_bare_root[OF t(2)]) simp
  then show ?thesis
    using fsck_single_page_overflows[OF v t(1) _ sample_fsck_env_ok, of "bare_root t" 9 "\<lparr>o_root = Some (bare_root t), o_fd = True, o_map = True\<rparr>"] t(1)
    by auto
qed


end
