(* ===== verification/Strpool.thy ===== *)
theory Strpool
  imports Hgang
begin

text \<open>
  The allocator of the builder's strings (\<^verbatim>\<open>strpool.c\<close>): memory is cut from the front of slabs and
  given back only all at once.  A slab is its block of \<open>malloc\<close> with the fields of its header;
  the list of slabs is a list, whose last element is the tail.  Sizes wrap at \<open>2 ^ 64\<close>.
\<close>

section \<open>The allocator\<close>

record strpool_slab =
  sl_base :: nat
  sl_alloc :: nat      \<comment> \<open>the size asked of \<open>malloc\<close>\<close>
  sl_len :: nat
  sl_ptr :: nat

record strpool =
  sp_base :: nat
  sp_slab_size :: nat
  sp_slabs :: "strpool_slab list"

abbreviation (input) sizeof_strpool :: nat where "sizeof_strpool \<equiv> 24"
abbreviation (input) sizeof_slab :: nat where "sizeof_slab \<equiv> 24"

definition strpool_new :: "malloc \<Rightarrow> heap \<Rightarrow> nat \<Rightarrow> strpool option \<times> heap" where
  "strpool_new malloc hp sz = (case malloc (blocks hp) sizeof_strpool of
     None \<Rightarrow> (None, hp)
   | Some a \<Rightarrow>
       let sz = (if sz = 0 then 8192 else sz); sz = (if sz < sizeof_slab then sizeof_slab else sz)
       in (Some \<lparr>sp_base = a, sp_slab_size = sz, sp_slabs = []\<rparr>, hp\<lparr>blocks := (a, sizeof_strpool) # blocks hp\<rparr>))"

fun free_slabs :: "heap \<Rightarrow> strpool_slab list \<Rightarrow> heap res" where
  "free_slabs hp [] = Inr hp"
| "free_slabs hp (s # ss) = rbind (heap_free hp (sl_base s)) (\<lambda>hp. free_slabs hp ss)"

definition strpool_free :: "heap \<Rightarrow> strpool option \<Rightarrow> heap res" where
  "strpool_free hp p = (case p of None \<Rightarrow> Inr hp
     | Some m \<Rightarrow> rbind (free_slabs hp (sp_slabs m)) (\<lambda>hp. heap_free hp (sp_base m)))"

definition strpool_alloc_slow :: "malloc \<Rightarrow> heap \<Rightarrow> strpool \<Rightarrow> nat \<Rightarrow> nat option \<times> heap \<times> strpool" where
  "strpool_alloc_slow malloc hp m sz =
    (let need = (sizeof_slab + sz) mod 2 ^ 64; alloc = (if need < sp_slab_size m then sp_slab_size m else need) in
     case malloc (blocks hp) alloc of
       None \<Rightarrow> (None, hp, m)
     | Some s \<Rightarrow>
         (Some (s + sizeof_slab), hp\<lparr>blocks := (s, alloc) # blocks hp\<rparr>,
          m\<lparr>sp_slabs := sp_slabs m @ [\<lparr>sl_base = s, sl_alloc = alloc, sl_len = alloc - need, sl_ptr = s + sizeof_slab + sz\<rparr>]\<rparr>))"

definition cut :: "nat \<Rightarrow> strpool_slab \<Rightarrow> strpool_slab" where
  "cut sz t = t\<lparr>sl_ptr := sl_ptr t + sz, sl_len := (if sl_ptr t + sz > sl_ptr t + sl_len t then 0 else sl_len t - sz)\<rparr>"

definition strpool_alloc :: "malloc \<Rightarrow> heap \<Rightarrow> strpool \<Rightarrow> nat \<Rightarrow> nat option \<times> heap \<times> strpool" where
  "strpool_alloc malloc hp m sz =
    (if sp_slabs m = [] \<or> sl_len (last (sp_slabs m)) < sz then strpool_alloc_slow malloc hp m sz
     else let t = last (sp_slabs m) in
       (Some (sl_ptr t), hp, m\<lparr>sp_slabs := butlast (sp_slabs m) @ [cut sz t]\<rparr>))"

section \<open>The invariant\<close>

text \<open>
  \<open>L\<close> are the objects handed out, each an address and a size.  They lie behind the headers of
  the slabs and do not overlap; the free part of the tail lies behind all objects of its slab.
\<close>

definition inside :: "strpool \<Rightarrow> nat \<Rightarrow> nat \<Rightarrow> bool" where
  "inside m a n \<longleftrightarrow> (\<exists>s \<in> set (sp_slabs m). sl_base s + sizeof_slab \<le> a \<and> a + n \<le> sl_base s + sl_alloc s)"

definition tail_ok :: "strpool \<Rightarrow> (nat \<times> nat) list \<Rightarrow> bool" where
  "tail_ok m L \<longleftrightarrow> (sp_slabs m \<noteq> [] \<longrightarrow> (let t = last (sp_slabs m) in
     sl_base t + sizeof_slab \<le> sl_ptr t \<and> sl_ptr t + sl_len t \<le> sl_base t + sl_alloc t \<and>
     (\<forall>(a, n) \<in> set L. apart a n (sl_ptr t) (sl_len t))))"

definition sp_blocks :: "strpool \<Rightarrow> (nat \<times> nat) list" where
  "sp_blocks m = (sp_base m, sizeof_strpool) # map (\<lambda>s. (sl_base s, sl_alloc s)) (sp_slabs m)"

definition sp_inv :: "heap \<Rightarrow> strpool \<Rightarrow> (nat \<times> nat) list \<Rightarrow> bool" where
  "sp_inv hp m L \<longleftrightarrow> blocks_ok (blocks hp) \<and> sizeof_slab \<le> sp_slab_size m \<and>
     set (sp_blocks m) \<subseteq> set (blocks hp) \<and> distinct (map fst (sp_blocks m)) \<and> list_all (\<lambda>s. sizeof_slab \<le> sl_alloc s) (sp_slabs m) \<and>
     sorted_wrt (\<lambda>(a, n) (b, k). apart a n b k) L \<and> list_all (\<lambda>(a, n). inside m a n) L \<and> tail_ok m L"

lemma sp_inv_new:
  assumes "malloc_ok malloc" "blocks_ok (blocks hp)" "strpool_new malloc hp sz = (Some m, hp')"
  shows "sp_inv hp' m []"
proof -
  obtain a where a: "malloc (blocks hp) 24 = Some a" "hp' = hp\<lparr>blocks := (a, 24) # blocks hp\<rparr>" "sp_slabs m = []" "sp_base m = a"
    "24 \<le> sp_slab_size m"
    using assms(3) by (auto simp: strpool_new_def Let_def split: option.splits)
  then have "blocks_ok ((a, 24) # blocks hp)"
    using assms(1,2) by (fastforce simp: malloc_ok_def blocks_ok_def list_all_iff)
  then show ?thesis using a by (simp add: sp_inv_def sp_blocks_def tail_ok_def)
qed

text \<open>A fresh block is apart from everything in the pool.\<close>

lemma fresh_apart:
  assumes inv: "sp_inv hp m L" and s: "blocks_ok ((s, k) # blocks hp)" "0 < k" and a: "(a, n) \<in> set L"
  shows "apart a n s k"
proof -
  obtain t where t: "t \<in> set (sp_slabs m)" "sl_base t + 24 \<le> a" "a + n \<le> sl_base t + sl_alloc t"
    using inv a by (auto simp: sp_inv_def list_all_iff inside_def)
  have "(sl_base t, sl_alloc t) \<in> set (blocks hp)" using inv t(1) by (auto simp: sp_inv_def sp_blocks_def)
  then have "apart s k (sl_base t) (sl_alloc t)" using s(1) by (auto simp: blocks_ok_def)
  then have "apart (sl_base t) (sl_alloc t) s k" by (simp add: apart_sym)
  then show ?thesis by (rule apart_mono) (use t in simp_all)
qed

lemma sp_inv_slow:
  assumes ok: "malloc_ok malloc" and inv: "sp_inv hp m L" and sz: "24 + sz < 2 ^ 64"
    and r: "strpool_alloc_slow malloc hp m sz = (Some x, hp', m')"
  shows "sp_inv hp' m' (L @ [(x, sz)])"
proof -
  define al where "al = (if 24 + sz < sp_slab_size m then sp_slab_size m else 24 + sz)"
  have al: "24 + sz \<le> al" "24 \<le> al" by (simp_all add: al_def)
  obtain s where s: "malloc (blocks hp) al = Some s" "x = s + 24" "hp' = hp\<lparr>blocks := (s, al) # blocks hp\<rparr>"
    "m' = m\<lparr>sp_slabs := sp_slabs m @ [\<lparr>sl_base = s, sl_alloc = al, sl_len = al - (24 + sz), sl_ptr = s + 24 + sz\<rparr>]\<rparr>"
    using r sz by (auto simp: strpool_alloc_slow_def Let_def al_def split: option.splits if_splits)
  let ?t = "\<lparr>sl_base = s, sl_alloc = al, sl_len = al - (24 + sz), sl_ptr = s + 24 + sz\<rparr>"
  have b: "blocks_ok ((s, al) # blocks hp)"
    using ok inv s(1) by (fastforce simp: malloc_ok_def sp_inv_def blocks_ok_def list_all_iff)
  have new: "apart s al b k" if "(b, k) \<in> set (blocks hp)" for b k using b that by (auto simp: blocks_ok_def)
  have fresh: "s \<notin> fst ` set (sp_blocks m)"
  proof
    assume "s \<in> fst ` set (sp_blocks m)"
    then obtain k where k: "(s, k) \<in> set (sp_blocks m)" by force
    then have "24 \<le> k" using inv by (auto simp: sp_inv_def sp_blocks_def list_all_iff)
    moreover have "apart s al s k" using new inv k by (auto simp: sp_inv_def)
    ultimately show False using al by (simp add: apart_def)
  qed
  have objs: "apart a n s al" if "(a, n) \<in> set L" for a n
    using fresh_apart[OF inv b _ that] al by simp
  have ins: "inside m' a n" if "inside m a n" for a n using that s(4) by (auto simp: inside_def)
  have "inside m' x sz" using s al by (simp add: inside_def)
  moreover have "apart a n x sz" if "(a, n) \<in> set L" for a n
    using objs[OF that] by (rule apart_mono) (use s al in simp_all)
  moreover have "tail_ok m' (L @ [(x, sz)])"
    unfolding tail_ok_def Let_def s(4)
    using objs s(2) al by (auto simp: apart_def) fastforce+
  moreover have "sp_blocks m' = sp_blocks m @ [(s, al)]" "set (blocks hp') = insert (s, al) (set (blocks hp))"
    using s by (simp_all add: sp_blocks_def)
  moreover have "distinct (map fst (sp_blocks m @ [(s, al)]))" using inv fresh by (simp add: sp_inv_def)
  ultimately show ?thesis
    using inv b ins s al by (auto simp: sp_inv_def sorted_wrt_append list_all_iff)
qed

lemma sp_inv_cut:
  assumes inv: "sp_inv hp m L" and t: "sp_slabs m = ss @ [t]" "sz \<le> sl_len t"
  shows "sp_inv hp (m\<lparr>sp_slabs := ss @ [cut sz t]\<rparr>) (L @ [(sl_ptr t, sz)])"
proof -
  let ?m = "m\<lparr>sp_slabs := ss @ [cut sz t]\<rparr>"
  have c: "sl_base (cut sz t) = sl_base t" "sl_alloc (cut sz t) = sl_alloc t" "sl_ptr (cut sz t) = sl_ptr t + sz"
    "sl_len (cut sz t) = sl_len t - sz"
    using t(2) by (simp_all add: cut_def)
  have tl: "sl_base t + 24 \<le> sl_ptr t" "sl_ptr t + sl_len t \<le> sl_base t + sl_alloc t"
    and ap: "apart a n (sl_ptr t) (sl_len t)" if "(a, n) \<in> set L" for a n
    using inv t that by (auto simp: sp_inv_def tail_ok_def)
  have tl: "sl_base t + 24 \<le> sl_ptr t" "sl_ptr t + sl_len t \<le> sl_base t + sl_alloc t"
    using inv t by (auto simp: sp_inv_def tail_ok_def)
  have "apart a n (sl_ptr t) sz" if "(a, n) \<in> set L" for a n
    using ap[OF that] by (rule apart_mono) (use t(2) in simp_all)
  moreover have "tail_ok ?m (L @ [(sl_ptr t, sz)])"
    using tl t(2) ap c by (fastforce simp: tail_ok_def apart_def)
  moreover have "inside ?m (sl_ptr t) sz" using tl t(2) c by (simp add: inside_def)
  moreover have "inside ?m = inside m" using t(1) c by (simp add: inside_def fun_eq_iff)
  moreover have "sp_blocks ?m = sp_blocks m" using t(1) c by (simp add: sp_blocks_def)
  ultimately show ?thesis
    using inv t(1) c by (auto simp: sp_inv_def sorted_wrt_append list_all_iff)
qed

lemma sp_inv_alloc:
  assumes ok: "malloc_ok malloc" and inv: "sp_inv hp m L" and sz: "24 + sz < 2 ^ 64"
    and r: "strpool_alloc malloc hp m sz = (Some x, hp', m')"
  shows "sp_inv hp' m' (L @ [(x, sz)])"
proof (cases "sp_slabs m = [] \<or> sl_len (last (sp_slabs m)) < sz")
  case True
  then show ?thesis using sp_inv_slow[OF ok inv sz] r by (simp add: strpool_alloc_def)
next
  case False
  then have t: "sp_slabs m = butlast (sp_slabs m) @ [last (sp_slabs m)]" "sz \<le> sl_len (last (sp_slabs m))" by auto
  have "x = sl_ptr (last (sp_slabs m))" "hp' = hp" "m' = m\<lparr>sp_slabs := butlast (sp_slabs m) @ [cut sz (last (sp_slabs m))]\<rparr>"
    using False r by (auto simp: strpool_alloc_def Let_def)
  then show ?thesis using sp_inv_cut[OF inv t] by simp
qed

lemma sp_null_unchanged: "strpool_alloc malloc hp m sz = (None, hp', m') \<Longrightarrow> hp' = hp \<and> m' = m"
  by (auto simp: strpool_alloc_def strpool_alloc_slow_def Let_def split: if_splits option.splits)

lemma sp_inv_other:
  assumes "malloc_ok malloc" "sp_inv hp m L" "malloc (blocks hp) n = Some a"
  shows "sp_inv (hp\<lparr>blocks := (a, n) # blocks hp\<rparr>) m L"
  using assms by (fastforce simp: sp_inv_def malloc_ok_def blocks_ok_def list_all_iff)

section \<open>Every use of a pool\<close>

text \<open>
  A pool from its creation on: requests of the builder, answered or refused, between calls of
  \<open>malloc\<close> by anyone else.
\<close>

inductive sp_run :: "malloc \<Rightarrow> heap \<Rightarrow> strpool \<Rightarrow> (nat \<times> nat) list \<Rightarrow> bool" for malloc where
  sp_start: "blocks_ok (blocks hp) \<Longrightarrow> strpool_new malloc hp sz = (Some m, hp') \<Longrightarrow> sp_run malloc hp' m []"
| sp_object: "sp_run malloc hp m L \<Longrightarrow> 24 + sz < 2 ^ 64 \<Longrightarrow> strpool_alloc malloc hp m sz = (Some x, hp', m') \<Longrightarrow>
    sp_run malloc hp' m' (L @ [(x, sz)])"
| sp_null: "sp_run malloc hp m L \<Longrightarrow> strpool_alloc malloc hp m sz = (None, hp', m') \<Longrightarrow> sp_run malloc hp' m' L"
| sp_other: "sp_run malloc hp m L \<Longrightarrow> malloc (blocks hp) n = Some a \<Longrightarrow>
    sp_run malloc (hp\<lparr>blocks := (a, n) # blocks hp\<rparr>) m L"

lemma sp_run_inv: "sp_run malloc hp m L \<Longrightarrow> malloc_ok malloc \<Longrightarrow> sp_inv hp m L"
  by (induction rule: sp_run.induct)
    (auto intro: sp_inv_new sp_inv_alloc sp_inv_other dest!: sp_null_unchanged)

lemma free_slabs_all:
  assumes "distinct (map sl_base ss)" "sl_base ` set ss \<subseteq> fst ` set (blocks hp)"
  shows "free_slabs hp ss = Inr (hp\<lparr>blocks := filter (\<lambda>(b, k). b \<notin> sl_base ` set ss) (blocks hp)\<rparr>)"
  using assms
proof (induction ss arbitrary: hp)
  case (Cons s ss)
  let ?hp = "hp\<lparr>blocks := filter (\<lambda>(b, k). b \<noteq> sl_base s) (blocks hp)\<rparr>"
  have "heap_free hp (sl_base s) = Inr ?hp" using Cons.prems(2) by (simp add: heap_free_def)
  moreover have "sl_base ` set ss \<subseteq> fst ` set (blocks ?hp)"
    using Cons.prems by (fastforce simp: image_iff subset_iff)
  moreover have "filter (\<lambda>(b, k). b \<notin> sl_base ` set ss) (blocks ?hp) = filter (\<lambda>(b, k). b \<notin> sl_base ` set (s # ss)) (blocks hp)"
    by (auto intro!: filter_cong)
  ultimately show ?case using Cons.IH[of ?hp] Cons.prems(1) by simp
qed (simp add: split_def)

lemma sp_inv_free:
  assumes inv: "sp_inv hp m L"
  shows "strpool_free hp (Some m) = Inr (hp\<lparr>blocks := filter (\<lambda>(b, k). b \<notin> fst ` set (sp_blocks m)) (blocks hp)\<rparr>)"
proof -
  have f: "map fst (sp_blocks m) = sp_base m # map sl_base (sp_slabs m)" by (simp add: sp_blocks_def o_def)
  have d: "distinct (map sl_base (sp_slabs m))" "sp_base m \<notin> sl_base ` set (sp_slabs m)"
    using inv unfolding sp_inv_def f by simp_all
  have sub: "sl_base ` set (sp_slabs m) \<subseteq> fst ` set (blocks hp)" "(sp_base m, 24) \<in> set (blocks hp)"
    using inv by (force simp: sp_inv_def sp_blocks_def)+
  have "fst ` set (sp_blocks m) = insert (sp_base m) (sl_base ` set (sp_slabs m))"
    by (auto simp: sp_blocks_def image_iff)
  moreover have "filter (\<lambda>(b, k). b \<noteq> sp_base m) (filter (\<lambda>(b, k). b \<notin> sl_base ` set (sp_slabs m)) (blocks hp)) =
      filter (\<lambda>(b, k). b \<notin> insert (sp_base m) (sl_base ` set (sp_slabs m))) (blocks hp)"
    by (auto intro!: filter_cong)
  moreover have "sp_base m \<in> fst ` set (filter (\<lambda>(b, k). b \<notin> sl_base ` set (sp_slabs m)) (blocks hp))"
    using d(2) sub(2) by (force simp: image_iff)
  ultimately show ?thesis
    using free_slabs_all[OF d(1) sub(1)] by (simp add: strpool_free_def heap_free_def)
qed

text \<open>
  C20.  The string pool hands out memory of its own and gives all of it back.  Whatever sequence of
  requests was answered or refused, with other users of \<open>malloc\<close> in between: each object handed
  out lies in a block that the pool holds, no two objects overlap, and \<open>strpool_free\<close> returns
  and releases the blocks at the addresses of the pool, each address once.
\<close>

theorem strpool_objects_disjoint:
  assumes "malloc_ok malloc" "sp_run malloc hp m L"
  shows "sorted_wrt (\<lambda>(a, n) (b, k). apart a n b k) L \<and>
    list_all (\<lambda>(a, n). \<exists>b k. (b, k) \<in> set (sp_blocks m) \<and> (b, k) \<in> set (blocks hp) \<and> b \<le> a \<and> a + n \<le> b + k) L \<and>
    distinct (map fst (sp_blocks m)) \<and>
    strpool_free hp (Some m) = Inr (hp\<lparr>blocks := filter (\<lambda>(b, k). b \<notin> fst ` set (sp_blocks m)) (blocks hp)\<rparr>)"
proof -
  have inv: "sp_inv hp m L" using sp_run_inv assms by blast
  have "\<exists>b k. (b, k) \<in> set (sp_blocks m) \<and> (b, k) \<in> set (blocks hp) \<and> b \<le> a \<and> a + n \<le> b + k" if "(a, n) \<in> set L" for a n
  proof -
    have "inside m a n" using inv that unfolding sp_inv_def list_all_iff by blast
    then obtain s where s: "s \<in> set (sp_slabs m)" "sl_base s + 24 \<le> a" "a + n \<le> sl_base s + sl_alloc s"
      unfolding inside_def by blast
    then have "(sl_base s, sl_alloc s) \<in> set (sp_blocks m)" by (simp add: sp_blocks_def)
    moreover have "(sl_base s, sl_alloc s) \<in> set (blocks hp)" using inv calculation by (auto simp: sp_inv_def)
    ultimately show ?thesis using s by (intro exI[of _ "sl_base s"] exI[of _ "sl_alloc s"]) simp
  qed
  then show ?thesis using inv sp_inv_free[OF inv] by (auto simp: sp_inv_def list_all_iff)
qed

definition sample_strpool :: strpool where
  "sample_strpool = \<lparr>sp_base = 16, sp_slab_size = 32, sp_slabs =
     [\<lparr>sl_base = 56, sl_alloc = 32, sl_len = 0, sl_ptr = 88\<rparr>, \<lparr>sl_base = 104, sl_alloc = 33, sl_len = 0, sl_ptr = 137\<rparr>]\<rparr>"

definition sample_strheap :: heap where
  "sample_strheap = \<lparr>mem = (\<lambda>_. 0), blocks = [(104, 33), (56, 32), (16, 24)]\<rparr>"

lemma sample_strpool_run: "sp_run bump_malloc sample_strheap sample_strpool [(80, 5), (85, 3), (128, 9)]"
proof -
  let ?h = "\<lambda>bs. \<lparr>mem = (\<lambda>_. 0), blocks = bs\<rparr>"
  let ?m = "\<lambda>ss. \<lparr>sp_base = 16, sp_slab_size = 32, sp_slabs = ss\<rparr>"
  have "strpool_new bump_malloc (?h []) 32 = (Some (?m []), ?h [(16, 24)])"
    by (simp add: strpool_new_def bump_malloc_def Let_def)
  then have "sp_run bump_malloc (?h [(16, 24)]) (?m []) []"
    using sp_start[of "?h []"] by (simp add: blocks_ok_def)
  then have "sp_run bump_malloc (?h [(56, 32), (16, 24)]) (?m [\<lparr>sl_base = 56, sl_alloc = 32, sl_len = 3, sl_ptr = 85\<rparr>]) ([] @ [(80, 5)])"
    by (rule sp_object) (simp_all add: strpool_alloc_def strpool_alloc_slow_def bump_malloc_def Let_def)
  then have "sp_run bump_malloc (?h [(56, 32), (16, 24)]) (?m [\<lparr>sl_base = 56, sl_alloc = 32, sl_len = 0, sl_ptr = 88\<rparr>]) (([] @ [(80, 5)]) @ [(85, 3)])"
    by (rule sp_object) (simp_all add: strpool_alloc_def cut_def Let_def)
  then have "sp_run bump_malloc sample_strheap sample_strpool ((([] @ [(80, 5)]) @ [(85, 3)]) @ [(128, 9)])"
    by (rule sp_object)
      (simp_all add: strpool_alloc_def strpool_alloc_slow_def bump_malloc_def Let_def sample_strheap_def sample_strpool_def)
  then show ?thesis by simp
qed

theorem strpool_objects_disjoint_witness:
  "sorted_wrt (\<lambda>(a, n) (b, k). apart a n b k) [(80, 5), (85, 3), (128, 9)] \<and>
   strpool_free sample_strheap (Some sample_strpool) = Inr \<lparr>mem = (\<lambda>_. 0), blocks = []\<rparr>"
  using strpool_objects_disjoint[OF bump_malloc_ok sample_strpool_run]
  by (simp add: sample_strpool_def sample_strheap_def sp_blocks_def)

text \<open>
  A request of more than \<open>2 ^ 64 - 25\<close> bytes: the sum of the header and the request wraps, a slab
  of the default size is taken, and the request is answered with far less memory than was asked.
\<close>

lemma strpool_alloc_wraps:
  assumes "2 ^ 64 \<le> 24 + sz" "sz < 2 ^ 64" "sp_slabs m = []" "24 \<le> sp_slab_size m" "malloc (blocks hp) (sp_slab_size m) = Some s"
  shows "fst (strpool_alloc malloc hp m sz) = Some (s + 24) \<and>
    blocks (fst (snd (strpool_alloc malloc hp m sz))) = (s, sp_slab_size m) # blocks hp"
proof -
  have "(24 + sz) mod 2 ^ 64 = 24 + sz - 2 ^ 64" using assms(1,2) by (subst le_mod_geq) auto
  then have "(24 + sz) mod 2 ^ 64 < 24" using assms(2) by simp
  then show ?thesis using assms(3-5) by (auto simp: strpool_alloc_def strpool_alloc_slow_def Let_def)
qed

end
