(* ===== verification/Inotify.thy ===== *)
theory Inotify
  imports Vhosts Nbio
begin

text \<open>
  Directory watches (\<^verbatim>\<open>nbio-inotify.c\<close>): the events the kernel packs into a buffer, their dispatch
  to the callbacks of a watch, and the array of watches.  \<open>'s\<close> is the state the callbacks work on;
  the private pointer of a watch is part of its closures.  The last sections join the watch with
  the virtual hosts, whose table follows the directory.
\<close>

section \<open>Events\<close>

definition IN_MOVED_FROM :: u32 where "IN_MOVED_FROM = 0x40"
definition IN_MOVED_TO :: u32 where "IN_MOVED_TO = 0x80"
definition IN_CREATE :: u32 where "IN_CREATE = 0x100"
definition IN_DELETE :: u32 where "IN_DELETE = 0x200"
definition IN_DELETE_SELF :: u32 where "IN_DELETE_SELF = 0x400"
definition IN_MOVE_SELF :: u32 where "IN_MOVE_SELF = 0x800"
definition IN_UNMOUNT :: u32 where "IN_UNMOUNT = 0x2000"
definition IN_IGNORED :: u32 where "IN_IGNORED = 0x8000"
definition IN_ISDIR :: u32 where "IN_ISDIR = 0x40000000"

record inotify_event =
  e_wd :: u32
  e_mask :: u32
  e_cookie :: u32
  e_len :: u32

definition EVENT_SZ :: nat where "EVENT_SZ = 16"

definition event_of :: "bytes \<Rightarrow> inotify_event" where
  "event_of bs = \<lparr>e_wd = u32_at bs 0, e_mask = u32_at bs 4, e_cookie = u32_at bs 8, e_len = u32_at bs 12\<rparr>"

text \<open>What the kernel writes: the header, then the name, padded with NULs to \<open>len\<close> bytes.\<close>

definition event_bytes :: "inotify_event \<Rightarrow> bytes" where
  "event_bytes ev = u32_bytes (e_wd ev) @ u32_bytes (e_mask ev) @ u32_bytes (e_cookie ev) @ u32_bytes (e_len ev)"

definition packed :: "(inotify_event \<times> bytes) list \<Rightarrow> bytes" where
  "packed evs = concat (map (\<lambda>(ev, name). event_bytes ev @ name) evs)"

section \<open>Masks as text\<close>

text \<open>
  \<open>mask2str\<close> prints the names of the bits into a static buffer, which keeps its old text if there
  are none.  A text that does not fit would put the pointer behind the buffer.
\<close>

definition mask_flags :: "(u32 \<times> bytes) list" where
  "mask_flags = [(0x1, str ''IN_ACCESS''), (0x4, str ''IN_ATTRIB''), (0x8, str ''IN_CLOSE_WRITE''),
     (0x10, str ''IN_CLOSE_NOWRITE''), (IN_CREATE, str ''IN_CREATE''), (IN_DELETE, str ''IN_DELETE''),
     (IN_DELETE_SELF, str ''IN_DELETE_SELF''), (0x2, str ''IN_MODIFY''), (IN_MOVE_SELF, str ''IN_MOVE_SELF''),
     (IN_MOVED_FROM, str ''IN_MOVED_FROM''), (IN_MOVED_TO, str ''IN_MOVED_TO''), (0x20, str ''IN_OPEN''),
     (IN_IGNORED, str ''IN_IGNORED''), (IN_ISDIR, str ''IN_ISDIR''), (0x4000, str ''IN_Q_OVERFLOW''),
     (IN_UNMOUNT, str ''IN_UNMOUNT'')]"

definition MASK_BUF :: nat where "MASK_BUF = 256"

fun put_flags :: "u32 \<Rightarrow> bytes \<Rightarrow> (u32 \<times> bytes) list \<Rightarrow> bytes res" where
  "put_flags m out [] = Inr out"
| "put_flags m out ((val, name) # fs) =
    (if m AND val = 0 then put_flags m out fs
     else let s = (if out = [] then [] else str '', '') @ name in
       if MASK_BUF \<le> length out + length s then Inl Out_of_bounds else put_flags m (out @ s) fs)"

definition mask2str :: "bytes \<Rightarrow> u32 \<Rightarrow> bytes res" where
  "mask2str old m = rbind (put_flags m [] mask_flags) (\<lambda>s. Inr (if s = [] then old else s))"

section \<open>Watches\<close>

record 's watch_ops =
  wo_create :: "('s \<Rightarrow> bytes option \<Rightarrow> bool \<Rightarrow> 's res) option"
  wo_delete :: "('s \<Rightarrow> bytes option \<Rightarrow> bool \<Rightarrow> 's res) option"
  wo_moved_from :: "('s \<Rightarrow> bytes option \<Rightarrow> bool \<Rightarrow> 's res) option"
  wo_moved_to :: "('s \<Rightarrow> bytes option \<Rightarrow> bool \<Rightarrow> 's res) option"
  wo_move_self :: "('s \<Rightarrow> 's res) option"
  wo_delete_self :: "('s \<Rightarrow> 's res) option"
  wo_dtor :: "('s \<Rightarrow> 's res) option"

record 's watch =
  w_d :: int
  w_ops :: "'s watch_ops option"

text \<open>An element of the array that nobody has written is \<open>None\<close>.\<close>

record 's nbnotify =
  n_ifd :: int
  n_watch :: "'s watch option list"

definition call_named :: "('s \<Rightarrow> bytes option \<Rightarrow> bool \<Rightarrow> 's res) option \<Rightarrow> bytes option \<Rightarrow> bool \<Rightarrow> 's \<Rightarrow> 's res" where
  "call_named f nstr isdir s = (case f of None \<Rightarrow> Inr s | Some f \<Rightarrow> f s nstr isdir)"

definition call_self :: "('s \<Rightarrow> 's res) option \<Rightarrow> 's \<Rightarrow> 's res" where
  "call_self f s = (case f of None \<Rightarrow> Inr s | Some f \<Rightarrow> f s)"

text \<open>\<open>name\<close> is the result of reading the \<open>len\<close> bytes behind the header; the copy is a C string.\<close>

definition dispatch :: "bool \<Rightarrow> 's nbnotify \<Rightarrow> inotify_event \<Rightarrow> bytes res \<Rightarrow> 's \<Rightarrow> 's res" where
  "dispatch mem_ok n ev name s =
    (let wd = sint (e_wd ev); m = e_mask ev in
     if wd < 0 \<or> length (n_watch n) \<le> nat wd then Inr s
     else case n_watch n ! nat wd of None \<Rightarrow> Inl Uninitialised
     | Some w \<Rightarrow> (case w_ops w of None \<Rightarrow> Inr s
     | Some ops \<Rightarrow>
       let isdir = (m AND IN_ISDIR \<noteq> 0) in
       if e_len ev \<noteq> 0 \<and> \<not> mem_ok then Inr s
       else rbind (if e_len ev \<noteq> 0 then rbind name (\<lambda>nm. Inr (Some (cstr nm))) else Inr None) (\<lambda>nstr.
         if m AND IN_IGNORED \<noteq> 0 then Inr s
         else if m AND IN_CREATE \<noteq> 0 then call_named (wo_create ops) nstr isdir s
         else if m AND IN_DELETE \<noteq> 0 then call_named (wo_delete ops) nstr isdir s
         else if m AND IN_MOVED_FROM \<noteq> 0 then call_named (wo_moved_from ops) nstr isdir s
         else if m AND IN_MOVED_TO \<noteq> 0 then call_named (wo_moved_to ops) nstr isdir s
         else if m AND IN_MOVE_SELF \<noteq> 0 then call_self (wo_move_self ops) s
         else if m AND (IN_DELETE_SELF OR IN_UNMOUNT) \<noteq> 0 then call_self (wo_delete_self ops) s
         else Inr s)))"

text \<open>The loop over the bytes one \<open>read\<close> delivered; what follows them in the buffer is not initialised.\<close>

definition filled :: "bytes \<Rightarrow> nat \<Rightarrow> nat \<Rightarrow> bytes res" where
  "filled buf p n = (if p + n \<le> length buf then Inr (take n (drop p buf)) else Inl Uninitialised)"

function ifd_events :: "bool \<Rightarrow> 's nbnotify \<Rightarrow> bytes \<Rightarrow> nat \<Rightarrow> 's \<Rightarrow> 's res" where
  "ifd_events mem_ok n buf p s =
    (if \<not> p < length buf then Inr s
     else rbind (filled buf p EVENT_SZ) (\<lambda>h. let ev = event_of h; len = unat (e_len ev) in
       rbind (dispatch mem_ok n ev (filled buf (p + EVENT_SZ) len) s)
         (\<lambda>s. ifd_events mem_ok n buf (p + (EVENT_SZ + len)) s)))"
  by pat_completeness auto
termination
  by (relation "measure (\<lambda>(mem_ok, n, buf, p, s). length buf - p)") (auto simp: EVENT_SZ_def)

declare ifd_events.simps [simp del]

text \<open>The answers of \<open>read\<close>: bytes, at most as many as the buffer holds, or an error.\<close>

datatype notify_read = Events bytes | Again | Read_failed

definition IFD_BUF :: nat where "IFD_BUF = 4096"

fun ifd_read :: "eventloop \<Rightarrow> bool \<Rightarrow> 's nbnotify \<Rightarrow> nat \<Rightarrow> notify_read list \<Rightarrow> iothread \<times> 's \<Rightarrow> (iothread \<times> 's) res" where
  "ifd_read pl mem_ok n a [] ts = Inl Blocked"
| "ifd_read pl mem_ok n a (Again # as) ts = rbind (nbio_inactive pl (fst ts) a NBIO_READ) (\<lambda>t. Inr (t, snd ts))"
| "ifd_read pl mem_ok n a (Read_failed # as) ts = Inr ts"
| "ifd_read pl mem_ok n a (Events bs # as) ts =
    (let buf = take IFD_BUF bs in
     if buf = [] then Inr ts
     else rbind (ifd_events mem_ok n buf 0 (snd ts)) (\<lambda>s. ifd_read pl mem_ok n a as (fst ts, s)))"

text \<open>\<open>ifd_dtor\<close>: the loop over the watches; closing and freeing has no effect on \<open>'s\<close>.\<close>

fun free_watches :: "'s watch option list \<Rightarrow> 's \<Rightarrow> 's res" where
  "free_watches [] s = Inr s"
| "free_watches (None # ws) s = Inl Uninitialised"
| "free_watches (Some w # ws) s =
    (if w_d w < 0 then free_watches ws s
     else case w_ops w of None \<Rightarrow> free_watches ws s
     | Some ops \<Rightarrow> rbind (call_self (wo_dtor ops) s) (free_watches ws))"

definition ifd_dtor :: "'s nbnotify \<Rightarrow> 's \<Rightarrow> 's res" where
  "ifd_dtor n s = free_watches (n_watch n) s"

definition nbio_inotify_new :: "eventloop \<Rightarrow> bool \<Rightarrow> int \<Rightarrow> iothread \<Rightarrow> nat \<Rightarrow> ('s nbnotify option \<times> iothread) res" where
  "nbio_inotify_new pl mem_ok fd t a =
    (if \<not> mem_ok then Inr (None, t)
     else if fd < 0 then Inr (None, t)
     else rbind (nbio_add pl t a \<lparr>n_fd = fd, n_mask = 0, n_flags = 0, n_poll = 0\<rparr> NBIO_READ) (\<lambda>t.
       Inr (Some \<lparr>n_ifd = fd, n_watch = []\<rparr>, t)))"

definition nbio_notify_free :: "eventloop \<Rightarrow> iothread \<Rightarrow> nat option \<Rightarrow> iothread res" where
  "nbio_notify_free pl t a = (case a of None \<Rightarrow> Inr t | Some a \<Rightarrow> nbio_del pl t a)"

text \<open>\<open>wd\<close> is the answer of \<open>inotify_add_watch\<close>.  Of a grown array only the last element is written.\<close>

definition nbio_inotify_watch_dir :: "bool \<Rightarrow> int \<Rightarrow> 's nbnotify \<Rightarrow> 's watch_ops \<Rightarrow> (bool \<times> 's nbnotify) res" where
  "nbio_inotify_watch_dir realloc_ok wd n ops =
    (if wd < 0 then Inr (False, n)
     else let k = nat wd; grow = (length (n_watch n) < k + 1) in
     if grow \<and> \<not> realloc_ok then Inr (False, n)
     else let n = (if grow then n\<lparr>n_watch := n_watch n @ replicate (k - length (n_watch n)) None @ [Some \<lparr>w_d = -1, w_ops = None\<rparr>]\<rparr> else n) in
     case n_watch n ! k of None \<Rightarrow> Inl Uninitialised
     | Some w \<Rightarrow> if 0 \<le> w_d w then Inr (False, n)
       else Inr (True, n\<lparr>n_watch := (n_watch n)[k := Some \<lparr>w_d = wd, w_ops = Some ops\<rparr>]\<rparr>))"

section \<open>The callbacks of the virtual hosts\<close>

text \<open>
  \<open>vhost_add\<close> takes the length of the name before all else, \<open>vhost_del\<close> returns early for a
  directory: without a name both follow a null pointer otherwise.  \<open>server_quit\<close> only prints.
\<close>

definition add_cb :: "(bytes \<Rightarrow> (nat \<times> webroot) option) \<Rightarrow> bool \<Rightarrow> vhosts \<times> roots \<Rightarrow> bytes option \<Rightarrow> bool \<Rightarrow> (vhosts \<times> roots) res" where
  "add_cb openf mem_ok vr nstr isdir = (case nstr of None \<Rightarrow> Inl Null_deref | Some name \<Rightarrow> vhost_add openf mem_ok vr name isdir)"

definition del_cb :: "nat option \<Rightarrow> vhosts \<times> roots \<Rightarrow> bytes option \<Rightarrow> bool \<Rightarrow> (vhosts \<times> roots) res" where
  "del_cb junk vr nstr isdir = (case nstr of None \<Rightarrow> if isdir then Inr vr else Inl Null_deref | Some name \<Rightarrow> vhost_del junk vr name isdir)"

definition server_quit :: "vhosts \<times> roots \<Rightarrow> (vhosts \<times> roots) res" where
  "server_quit vr = Inr vr"

definition vhost_ops :: "(bytes \<Rightarrow> (nat \<times> webroot) option) \<Rightarrow> bool \<Rightarrow> nat option \<Rightarrow> (vhosts \<times> roots) watch_ops" where
  "vhost_ops openf mem_ok junk = \<lparr>wo_create = Some (add_cb openf mem_ok), wo_delete = Some (del_cb junk),
     wo_moved_from = Some (del_cb junk), wo_moved_to = Some (add_cb openf mem_ok),
     wo_move_self = Some server_quit, wo_delete_self = Some server_quit, wo_dtor = None\<rparr>"

section \<open>The loop reads what the kernel packed\<close>

lemma put_flags_fits:
  "length out + sum_list (map (\<lambda>(v, nm). 2 + length nm) fs) < MASK_BUF \<Longrightarrow> \<exists>s. put_flags m out fs = Inr s"
  by (induction fs arbitrary: out) (auto simp: Let_def)

lemma mask2str_fits: "\<exists>s. mask2str old m = Inr s"
proof -
  have "length ([] :: bytes) + sum_list (map (\<lambda>(v, nm). 2 + length nm) mask_flags) < MASK_BUF" by (simp add: mask_flags_def MASK_BUF_def)
  then obtain s where "put_flags m [] mask_flags = Inr s" using put_flags_fits by blast
  then show ?thesis by (simp add: mask2str_def)
qed

lemma event_of_bytes: "event_of (event_bytes ev @ rest) = ev"
  by (cases ev) (simp add: event_of_def event_bytes_def at_skip)

lemma length_event_bytes: "length (event_bytes ev) = EVENT_SZ"
  by (simp add: event_bytes_def EVENT_SZ_def)

text \<open>The events one after the other.\<close>

fun dispatch_all :: "bool \<Rightarrow> 's nbnotify \<Rightarrow> (inotify_event \<times> bytes) list \<Rightarrow> 's \<Rightarrow> 's res" where
  "dispatch_all mem_ok n [] s = Inr s"
| "dispatch_all mem_ok n ((ev, name) # evs) s = rbind (dispatch mem_ok n ev (Inr name) s) (dispatch_all mem_ok n evs)"

definition event_ok :: "inotify_event \<times> bytes \<Rightarrow> bool" where
  "event_ok = (\<lambda>(ev, name). length name = unat (e_len ev))"

lemma ifd_events_packed:
  "list_all event_ok evs \<Longrightarrow> ifd_events mem_ok n (pre @ packed evs) (length pre) s = dispatch_all mem_ok n evs s"
proof (induction evs arbitrary: pre s)
  case Nil
  then show ?case by (simp add: packed_def ifd_events.simps)
next
  case (Cons x evs)
  obtain ev name where x: "x = (ev, name)" by (cases x)
  have len: "length name = unat (e_len ev)" using Cons.prems x by (simp add: event_ok_def)
  let ?buf = "pre @ packed (x # evs)" let ?p = "length pre"
  have buf: "?buf = pre @ event_bytes ev @ name @ packed evs" by (simp add: packed_def x)
  have h: "filled ?buf ?p EVENT_SZ = Inr (event_bytes ev)" unfolding buf by (simp add: filled_def length_event_bytes)
  have nm: "filled ?buf (?p + EVENT_SZ) (unat (e_len ev)) = Inr name"
    unfolding buf by (simp add: filled_def length_event_bytes len[symmetric])
  have e: "event_of (event_bytes ev) = ev" using event_of_bytes[of ev "[]"] by simp
  have lt: "?p < length ?buf" unfolding buf by (simp add: length_event_bytes EVENT_SZ_def)
  have rest: "ifd_events mem_ok n ?buf (?p + (EVENT_SZ + unat (e_len ev))) s = dispatch_all mem_ok n evs s" for s
  proof -
    have "?buf = (pre @ event_bytes ev @ name) @ packed evs" unfolding buf by simp
    moreover have "?p + (EVENT_SZ + unat (e_len ev)) = length (pre @ event_bytes ev @ name)" by (simp add: length_event_bytes len)
    ultimately show ?thesis using Cons.IH[of "pre @ event_bytes ev @ name"] Cons.prems by simp
  qed
  have "ifd_events mem_ok n ?buf (?p + (EVENT_SZ + unat (e_len ev))) = dispatch_all mem_ok n evs" by (rule ext) (rule rest)
  then show ?case using lt h nm e x by (subst ifd_events.simps) (simp add: Let_def)
qed

lemma packed_nonempty: "evs \<noteq> [] \<Longrightarrow> packed evs \<noteq> []"
proof (cases evs)
  case (Cons x xs)
  have "event_bytes (fst x) \<noteq> []" using length_event_bytes[of "fst x"] by (auto simp: EVENT_SZ_def)
  then show ?thesis using Cons by (simp add: packed_def split_def)
qed simp

lemma dispatch_all_append: "dispatch_all mem_ok n (xs @ ys) s = rbind (dispatch_all mem_ok n xs s) (dispatch_all mem_ok n ys)"
proof (induction xs arbitrary: s)
  case (Cons x xs)
  then show ?case by (cases x; cases "dispatch mem_ok n (fst x) (Inr (snd x)) s") auto
qed simp

lemma ifd_read_packed:
  assumes "\<forall>evs \<in> set batches. evs \<noteq> [] \<and> list_all event_ok evs \<and> length (packed evs) \<le> IFD_BUF"
  shows "ifd_read pl mem_ok n a (map (Events \<circ> packed) batches @ [Again]) (t, s) =
    rbind (dispatch_all mem_ok n (concat batches) s) (\<lambda>s. rbind (nbio_inactive pl t a NBIO_READ) (\<lambda>t. Inr (t, s)))"
  using assms
proof (induction batches arbitrary: s)
  case (Cons evs batches)
  have e: "packed evs \<noteq> []" "length (packed evs) \<le> IFD_BUF" "list_all event_ok evs" using Cons.prems packed_nonempty by auto
  have "ifd_events mem_ok n (packed evs) 0 s = dispatch_all mem_ok n evs s" for s
    using ifd_events_packed[OF e(3), of mem_ok n "[]" s] by simp
  then show ?case using Cons e(1,2) by (cases "dispatch_all mem_ok n evs s") (simp_all add: dispatch_all_append)
qed simp

section \<open>The table follows the directory\<close>

text \<open>What an event does to the table, and the events for which this is what happens.\<close>

definition event_is :: "inotify_event \<Rightarrow> u32 \<Rightarrow> bool" where
  "event_is ev m \<longleftrightarrow> e_mask ev AND m \<noteq> 0"

definition added :: "inotify_event \<Rightarrow> bool" where
  "added ev \<longleftrightarrow> \<not> event_is ev IN_IGNORED \<and> (event_is ev IN_CREATE \<or>
     \<not> event_is ev IN_DELETE \<and> \<not> event_is ev IN_MOVED_FROM \<and> event_is ev IN_MOVED_TO)"

definition removed :: "inotify_event \<Rightarrow> bool" where
  "removed ev \<longleftrightarrow> \<not> event_is ev IN_IGNORED \<and> \<not> event_is ev IN_CREATE \<and> (event_is ev IN_DELETE \<or> event_is ev IN_MOVED_FROM)"

definition table_event :: "(bytes \<Rightarrow> (nat \<times> webroot) option) \<Rightarrow> bytes \<Rightarrow> inotify_event \<times> bytes \<Rightarrow> table \<Rightarrow> table" where
  "table_event openf dirname = (\<lambda>(ev, name) T.
     if event_is ev IN_ISDIR then T
     else if added ev then (case openf (dirname @ str ''/'' @ cstr name) of None \<Rightarrow> T | Some (w, _) \<Rightarrow> table_add T (cstr name) w)
     else if removed ev then table_del T (cstr name) else T)"

fun events_ok :: "(bytes \<Rightarrow> (nat \<times> webroot) option) \<Rightarrow> bytes \<Rightarrow> nat set \<Rightarrow> table \<Rightarrow> (inotify_event \<times> bytes) list \<Rightarrow> bool" where
  "events_ok openf dirname used T [] = True"
| "events_ok openf dirname used T ((ev, name) # evs) =
    (let T' = table_event openf dirname (ev, name) T; u = cstr name in
     (added ev \<or> removed ev \<longrightarrow> e_len ev \<noteq> 0) \<and>
     (if \<not> event_is ev IN_ISDIR \<and> added ev
      then ascii_key u \<and> (case openf (dirname @ str ''/'' @ u) of None \<Rightarrow> events_ok openf dirname used T' evs
        | Some (w, root) \<Rightarrow> w \<notin> used \<and> r_ref root = 1 \<and> events_ok openf dirname (insert w used) T' evs)
      else (\<not> event_is ev IN_ISDIR \<and> removed ev \<longrightarrow> u = DEFAULT_NAME \<or> fst T u \<noteq> None) \<and> events_ok openf dirname used T' evs))"

lemma vhost_del_keeps: "vhost_del junk (v, roots) name isdir = Inr (v', roots') \<Longrightarrow> v_dirname v' = v_dirname v \<and> dom roots' \<subseteq> dom roots"
  by (auto simp: vhost_del_def unref_def rbind_Inr_iff split: if_splits option.splits)

definition vh_watched :: "'s nbnotify \<Rightarrow> int \<Rightarrow> 's watch_ops \<Rightarrow> bool" where
  "vh_watched n wd ops \<longleftrightarrow> 0 \<le> wd \<and> nat wd < length (n_watch n) \<and> n_watch n ! nat wd = Some \<lparr>w_d = wd, w_ops = Some ops\<rparr>"

lemma dispatch_vhosts:
  assumes n: "vh_watched n (sint (e_wd ev)) (vhost_ops openf True junk)"
    and len: "added ev \<or> removed ev \<longrightarrow> e_len ev \<noteq> 0"
  shows "dispatch True n ev (Inr name) vr =
    (if added ev then vhost_add openf True vr (cstr name) (event_is ev IN_ISDIR)
     else if removed ev then vhost_del junk vr (cstr name) (event_is ev IN_ISDIR) else Inr vr)"
  using n len
  by (auto simp: dispatch_def vh_watched_def Let_def vhost_ops_def call_named_def call_self_def add_cb_def del_cb_def server_quit_def
      added_def removed_def event_is_def)

lemma dispatch_all_vhosts:
  assumes n: "\<forall>(ev, name) \<in> set evs. vh_watched n (sint (e_wd ev)) (vhost_ops openf True junk)"
  shows "vhosts_ok ext (v, roots) \<Longrightarrow> dom roots \<subseteq> used \<Longrightarrow> events_ok openf (v_dirname v) used (table_of v) evs \<Longrightarrow>
    \<exists>v' roots'. dispatch_all True n evs (v, roots) = Inr (v', roots') \<and> vhosts_ok ext (v', roots') \<and>
      table_of v' = fold (table_event openf (v_dirname v)) evs (table_of v)"
  using n
proof (induction evs arbitrary: v roots used)
  case (Cons x evs)
  obtain ev name where x: "x = (ev, name)" by (cases x)
  let ?u = "cstr name" let ?T = "table_event openf (v_dirname v) (ev, name) (table_of v)"
  have w: "vh_watched n (sint (e_wd ev)) (vhost_ops openf True junk)" using Cons.prems(4) x by simp
  have len: "added ev \<or> removed ev \<longrightarrow> e_len ev \<noteq> 0" using Cons.prems(3) x by (simp add: Let_def)
  note d = dispatch_vhosts[OF w len, of name "(v, roots)"]
  have rest: ?case if "dispatch True n ev (Inr name) (v, roots) = Inr (v', roots')" "vhosts_ok ext (v', roots')" "table_of v' = ?T"
    "v_dirname v' = v_dirname v" "dom roots' \<subseteq> used'" "events_ok openf (v_dirname v) used' ?T evs" for v' roots' used'
    using Cons.IH[OF that(2,5)] that Cons.prems(4) x by auto
  have ad: "\<not> (added ev \<and> removed ev)" by (auto simp: added_def removed_def)
  consider (none) "event_is ev IN_ISDIR \<or> (\<not> added ev \<and> \<not> removed ev)" | (add) "\<not> event_is ev IN_ISDIR" "added ev"
    | (del) "\<not> event_is ev IN_ISDIR" "removed ev" "\<not> added ev" using ad by blast
  then show ?case
  proof cases
    case none
    then have "dispatch True n ev (Inr name) (v, roots) = Inr (v, roots)" "?T = table_of v"
      using d by (auto simp: vhost_add_def vhost_del_def table_event_def)
    moreover have "events_ok openf (v_dirname v) used ?T evs" using Cons.prems(3) x none by (auto simp: Let_def)
    ultimately show ?thesis by (intro rest[OF _ Cons.prems(1) _ refl Cons.prems(2)]) simp_all
  next
    case add
    show ?thesis
    proof (cases "openf (v_dirname v @ str ''/'' @ ?u)")
      case None
      then have "dispatch True n ev (Inr name) (v, roots) = Inr (v, roots)" "?T = table_of v"
        using d add by (auto simp: vhost_add_def table_event_def)
      moreover have "events_ok openf (v_dirname v) used ?T evs" using Cons.prems(3) x add None by (auto simp: Let_def)
      ultimately show ?thesis by (intro rest[OF _ Cons.prems(1) _ refl Cons.prems(2)]) simp_all
    next
      case (Some p)
      obtain h root where p: "p = (h, root)" by (cases p)
      have o: "openf (v_dirname v @ str ''/'' @ ?u) = Some (h, root)" using Some p by simp
      have e: "ascii_key ?u" "h \<notin> used" "r_ref root = 1" "events_ok openf (v_dirname v) (insert h used) ?T evs"
        using Cons.prems(3) x add o by (simp_all add: Let_def)
      have "roots h = None" using e(2) Cons.prems(2) by auto
      then obtain v' roots' where v': "vhost_add openf True (v, roots) ?u False = Inr (v', roots')" "vhosts_ok ext (v', roots')"
        "table_of v' = table_add (table_of v) ?u h" "v_dirname v' = v_dirname v" "dom roots' \<subseteq> insert h (dom roots)"
        using vhost_add_ok[of ext v roots ?u openf h root, OF Cons.prems(1) e(1) o _ e(3)] by blast
      have T: "?T = table_add (table_of v) ?u h" using add o by (simp add: table_event_def)
      show ?thesis
        by (rule rest[OF _ v'(2) _ v'(4) _ e(4)]) (use d add v'(1,3,5) T Cons.prems(2) in auto)
    qed
  next
    case del
    have e: "?u = DEFAULT_NAME \<or> hosts v ?u \<noteq> None" "events_ok openf (v_dirname v) used ?T evs"
      using Cons.prems(3) x del by (auto simp: Let_def table_of_def)
    obtain v' roots' where v': "vhost_del junk (v, roots) ?u False = Inr (v', roots')" "vhosts_ok ext (v', roots')"
      "table_of v' = table_del (table_of v) ?u"
      using vhost_del_ok[OF Cons.prems(1) e(1), of junk] by blast
    have T: "?T = table_del (table_of v) ?u" using del by (simp add: table_event_def)
    have k: "v_dirname v' = v_dirname v" "dom roots' \<subseteq> used" using vhost_del_keeps[OF v'(1)] subset_trans[OF _ Cons.prems(2)] by blast+
    show ?thesis by (rule rest[OF _ v'(2) _ k e(2)]) (use d del v'(1,3) T in auto)
  qed
qed simp

section \<open>Properties\<close>


lemma cstr_padded: "0 \<notin> set u \<Longrightarrow> 0 < k \<Longrightarrow> cstr (u @ replicate k 0) = u"
  by (cases k) (simp_all add: cstr_append_nul)

text \<open>A watch on descriptor 1, as Linux numbers them, and two files that change.\<close>

definition sample_notify :: "nat option \<Rightarrow> (vhosts \<times> roots) nbnotify" where
  "sample_notify junk = \<lparr>n_ifd = 7, n_watch = [None, Some \<lparr>w_d = 1, w_ops = Some (vhost_ops sample_open True junk)\<rparr>]\<rparr>"

definition sample_events :: "(inotify_event \<times> bytes) list list" where
  "sample_events = [[(\<lparr>e_wd = 1, e_mask = IN_MOVED_TO, e_cookie = 0, e_len = 16\<rparr>, str ''b.org'' @ replicate 11 0)],
     [(\<lparr>e_wd = 1, e_mask = IN_DELETE, e_cookie = 0, e_len = 8\<rparr>, str ''a.org'' @ replicate 3 0)]]"

lemma sample_notify_watch:
  "nbio_inotify_watch_dir True 1 \<lparr>n_ifd = 7, n_watch = []\<rparr> (vhost_ops sample_open True junk) = Inr (True, sample_notify junk)"
  by (simp add: nbio_inotify_watch_dir_def sample_notify_def Let_def)


text \<open>
  Freeing a notifier whose first watch was not the descriptor 0, which Linux never hands out, reads
  elements of the array that nobody has written.
\<close>

lemma inotify_dtor_reads_junk:
  assumes "0 < wd" "nbio_inotify_watch_dir True wd \<lparr>n_ifd = fd, n_watch = []\<rparr> ops = Inr (True, n)"
  shows "ifd_dtor n s = Inl Uninitialised"
proof -
  obtain k where k: "nat wd = Suc k" using assms(1) by (metis gr0_implies_Suc zero_less_nat_eq)
  have "n_watch n = None # replicate k None @ [Some \<lparr>w_d = wd, w_ops = Some ops\<rparr>]"
    using assms k by (auto simp: nbio_inotify_watch_dir_def Let_def nth_append list_update_append split: if_splits)
  then show ?thesis by (simp add: ifd_dtor_def)
qed

end
