(* ===== verification/Sockets.thy ===== *)
theory Sockets
  imports Nbio
begin

text \<open>
  The objects that make connections: listening sockets (\<^verbatim>\<open>nbio-listener.c\<close>) and outgoing ones
  (\<^verbatim>\<open>nbio-connecter.c\<close>).  \<open>'s\<close> is the state the callbacks work on; the private pointer is part
  of the callback.  System calls are answered by parameters.
\<close>

section \<open>Listening\<close>

text \<open>The answers of \<open>accept4\<close>: a descriptor, or the errors the code tells apart.\<close>

datatype accepted = Accepted int | No_resources | Would_block | Accept_failed

type_synonym 's thr = "iothread \<times> 's"

definition lift_io :: "(iothread \<Rightarrow> iothread res) \<Rightarrow> 's thr \<Rightarrow> 's thr res" where
  "lift_io f ts = rbind (f (fst ts)) (\<lambda>t. Inr (t, snd ts))"

definition listener_wake :: "eventloop \<Rightarrow> iothread \<Rightarrow> nat \<Rightarrow> iothread res" where
  "listener_wake pl t a = nbio_wake pl t a NBIO_READ"

fun listener_read ::
  "eventloop \<Rightarrow> ('s thr \<Rightarrow> int \<Rightarrow> 's thr res) \<Rightarrow> ('s thr \<Rightarrow> nat \<Rightarrow> 's thr res) \<Rightarrow> nat \<Rightarrow> accepted list \<Rightarrow> 's thr \<Rightarrow> 's thr res" where
  "listener_read pl cb oom a [] ts = Inl Blocked"
| "listener_read pl cb oom a (Accepted fd # as) ts =
    rbind (cb ts fd) (\<lambda>ts. rbind (lift_io (\<lambda>t. nbio_set_wait pl t a NBIO_READ) ts) (listener_read pl cb oom a as))"
| "listener_read pl cb oom a (No_resources # as) ts = oom ts a"
| "listener_read pl cb oom a (Would_block # as) ts = lift_io (\<lambda>t. nbio_inactive pl t a NBIO_READ) ts"
| "listener_read pl cb oom a (Accept_failed # as) ts = Inr ts"

text \<open>\<open>close\<close> takes the descriptor off the interest list.\<close>

definition close_fd :: "int \<Rightarrow> iothread \<Rightarrow> iothread" where
  "close_fd fd t = t\<lparr>t_epoll := (t_epoll t)(fd := None)\<rparr>"

definition listener_dtor :: "iothread \<Rightarrow> nat \<Rightarrow> iothread res" where
  "listener_dtor t a = rbind (io_at t a) (\<lambda>io. Inr ((close_fd (n_fd io) t)\<lparr>t_io := (t_io t)(a := None)\<rparr>))"

text \<open>
  \<open>listener_inet\<close> for memory at \<open>a\<close>: whether it succeeds, which descriptor is left open, and whether
  the memory is still in use.  The failures of \<open>setsockopt\<close> are ignored.
\<close>

record listen_env =
  le_mem :: bool
  le_socket :: int
  le_nonblock :: bool
  le_bind :: bool
  le_listen :: bool

definition listener_inet :: "eventloop \<Rightarrow> listen_env \<Rightarrow> iothread \<Rightarrow> nat \<Rightarrow> (bool \<times> int option \<times> bool \<times> iothread) res" where
  "listener_inet pl env t a =
    (if \<not> le_mem env then Inr (False, None, False, t)
     else if le_socket env < 0 then Inr (False, None, False, t)
     else if \<not> le_nonblock env \<or> \<not> le_bind env \<or> \<not> le_listen env then Inr (False, None, False, t)
     else rbind (nbio_add pl t a \<lparr>n_fd = le_socket env, n_mask = 0, n_flags = 0, n_poll = 0\<rparr> NBIO_READ)
       (\<lambda>t. Inr (True, Some (le_socket env), True, t)))"

section \<open>Connecting\<close>

text \<open>
  \<open>connecter\<close>: \<open>fd\<close> is the result of \<open>socket\<close>, \<open>now\<close> tells whether \<open>connect\<close> succeeded at once, and
  \<open>in_progress\<close> whether \<open>errno\<close> is \<open>EINPROGRESS\<close> after it and the callback; \<open>a\<close> is the memory
  of the object.  The return value, the socket left open without an owner, and the state.
\<close>

definition connecter ::
  "eventloop \<Rightarrow> int \<Rightarrow> bool \<Rightarrow> bool \<Rightarrow> nat option \<Rightarrow> ('s thr \<Rightarrow> int \<Rightarrow> 's thr res) \<Rightarrow> 's thr \<Rightarrow> (bool \<times> 's thr) res" where
  "connecter pl fd now in_progress a cb ts =
    (if fd < 0 then Inr (False, ts)
     else rbind (if now then cb ts fd else Inr ts) (\<lambda>ts.
       if \<not> in_progress then Inr (False, ts)
       else case a of None \<Rightarrow> Inr (False, ts)
       | Some a \<Rightarrow> rbind (lift_io (\<lambda>t. nbio_add pl t a \<lparr>n_fd = fd, n_mask = 0, n_flags = 0, n_poll = 0\<rparr> NBIO_WRITE) ts)
           (\<lambda>ts. rbind (lift_io (\<lambda>t. nbio_inactive pl t a NBIO_WRITE) ts) (\<lambda>ts. Inr (True, ts)))))"

definition forget_fd :: "nat \<Rightarrow> iothread \<Rightarrow> iothread res" where
  "forget_fd a t = io_upd t a (n_fd_update (\<lambda>_. -1))"

text \<open>\<open>gso\<close> is what \<open>getsockopt\<close> stores: the error and its length, or a failure.\<close>

definition connect_write ::
  "eventloop \<Rightarrow> (int \<times> nat) option \<Rightarrow> ('s thr \<Rightarrow> int \<Rightarrow> 's thr res) \<Rightarrow> nat \<Rightarrow> 's thr \<Rightarrow> 's thr res" where
  "connect_write pl gso cb a ts = rbind (io_at (fst ts) a) (\<lambda>io.
     rbind (if gso = Some (0, 4) then cb ts (n_fd io) else Inr (close_fd (n_fd io) (fst ts), snd ts)) (\<lambda>ts.
       rbind (lift_io (forget_fd a) ts) (lift_io (\<lambda>t. nbio_del pl t a))))"

definition connect_dtor :: "iothread \<Rightarrow> nat \<Rightarrow> iothread res" where
  "connect_dtor t a = rbind (io_at t a) (\<lambda>io.
     let t = (if 0 \<le> n_fd io then close_fd (n_fd io) t else t) in Inr (t\<lparr>t_io := (t_io t)(a := None)\<rparr>))"

section \<open>Lemmas\<close>

text \<open>
  The listener hands over every pending connection, in order, and then waits: it is off the active
  list, and the kernel watches it.
\<close>

lemma queue_move_tail: "t_queue (list_move_tail n q t) q = removeAll n (t_queue t q) @ [n]"
  by (simp add: list_move_tail_def unlink_def Let_def)

lemma and_and_not: "(m :: byte) AND (f AND NOT m) = 0"
  by (rule bit_eqI) (auto simp: bit_simps)

lemma listener_drains:
  assumes "t_io t a = Some io" "n_mask io = NBIO_READ" "n_poll io = 0" "t_epoll t (n_fd io) = None"
  shows "\<exists>t'. listener_read (eventloop_epoll True) (\<lambda>(t, s) fd. Inr (t, s @ [fd])) oom a (map Accepted fds @ [Would_block]) (t, s) =
      Inr (t', s @ fds) \<and> a \<in> set (t_queue t' Inactive) \<and> a \<notin> set (t_queue t' Active) \<and> t_epoll t' (n_fd io) = Some (a, epoll_events NBIO_READ)"
  using assms
proof (induction fds arbitrary: t io s)
  case Nil
  then show ?case
    by (auto simp: and_and_not lift_io_def nbio_inactive_def io_upd_def io_at_def eventloop_epoll_def epoll_inactive_def list_move_tail_def unlink_def Let_def)
next
  case (Cons fd fds)
  let ?io = "io\<lparr>n_mask := NBIO_READ, n_flags := NBIO_READ\<rparr>"
  let ?t = "list_move_tail a Active (t\<lparr>t_io := (t_io t)(a \<mapsto> ?io)\<rparr>)"
  have "nbio_set_wait (eventloop_epoll True) t a NBIO_READ = Inr ?t"
    using Cons.prems by (simp add: nbio_set_wait_def do_set_wait_def io_at_def io_upd_def eventloop_epoll_def epoll_active_def
        NBIO_READ_def NBIO_DELETED_def NBIO_WAIT_def Let_def)
  moreover have "t_io ?t a = Some ?io" "n_mask ?io = NBIO_READ" "n_poll ?io = 0" "t_epoll ?t (n_fd ?io) = None" "n_fd ?io = n_fd io"
    using Cons.prems by (simp_all add: list_move_tail_def unlink_def Let_def)
  moreover note Cons.IH[OF calculation(2-5), of "s @ [fd]"]
  ultimately show ?case by (simp add: lift_io_def)
qed

text \<open>A failing \<open>listener_inet\<close> keeps neither a descriptor nor memory, and adds nothing to the loop.\<close>

lemma listener_inet_failure: "listener_inet pl env t a = Inr (False, fd, used, t') \<Longrightarrow> fd = None \<and> \<not> used \<and> t' = t"
  by (auto simp: listener_inet_def rbind_Inr_iff split: if_splits)

text \<open>
  A connection that is established at once is handed to the callback, and then \<open>errno\<close> of some
  earlier call decides: the caller is told that there were no resources, or the object waits for
  the connection a second time.
\<close>

lemma connecter_now:
  assumes "0 \<le> fd" "cb ts fd = Inr ts'"
  shows "connecter pl fd True False a cb ts = Inr (False, ts')"
  using assms by (simp add: connecter_def)

text \<open>
  After a successful connection the object is deleted with the descriptor -1, which the back end
  ignores: the kernel goes on watching the socket for the object, which is then freed, and the
  next event on the socket is reported for memory that is no object any more.
\<close>

lemma connected_leaves_interest:
  assumes io: "t_io t a = Some io" "0 \<le> n_fd io" "t_epoll t (n_fd io) = Some (a, ev)"
  shows "\<exists>t' t''. connect_write (eventloop_epoll True) (Some (0, 4)) (\<lambda>ts fd. Inr ts) a (t, s) = Inr (t', s) \<and>
    connect_dtor t' a = Inr t'' \<and> t_epoll t'' (n_fd io) = Some (a, ev) \<and> epoll_report t'' [(a, EPOLLIN)] = Inl Out_of_bounds"
proof -
  let ?t1 = "t\<lparr>t_io := (t_io t)(a \<mapsto> io\<lparr>n_fd := -1\<rparr>)\<rparr>"
  have f: "forget_fd a t = Inr ?t1" using io(1) by (simp add: forget_fd_def io_upd_def io_at_def)
  let ?io2 = "io\<lparr>n_fd := -1, n_mask := NBIO_DELETED, n_flags := 0\<rparr>"
  let ?t2 = "list_move_tail a Deleted (t\<lparr>t_io := (t_io t)(a \<mapsto> ?io2)\<rparr>)"
  have "epoll_active ?t1 a = Inr ?t1" by (simp add: epoll_active_def io_at_def)
  then have d: "nbio_del (eventloop_epoll True) ?t1 a = Inr ?t2"
    by (simp add: nbio_del_def eventloop_epoll_def io_upd_def io_at_def)
  have w: "connect_write (eventloop_epoll True) (Some (0, 4)) (\<lambda>ts fd. Inr ts) a (t, s) = Inr (?t2, s)"
    using io(1) f d by (simp add: connect_write_def io_at_def lift_io_def)
  let ?t3 = "?t2\<lparr>t_io := (t_io ?t2)(a := None)\<rparr>"
  have "t_io ?t2 a = Some ?io2" "t_epoll ?t2 = t_epoll t" by (simp_all add: list_move_tail_def unlink_def Let_def)
  then have "connect_dtor ?t2 a = Inr ?t3" "t_epoll ?t3 (n_fd io) = Some (a, ev)" "epoll_report ?t3 [(a, EPOLLIN)] = Inl Out_of_bounds"
    using io(3) by (simp_all add: connect_dtor_def io_at_def io_upd_def Let_def)
  then show ?thesis using w by blast
qed

end
