(* ===== verification/Httpd.thy ===== *)
theory Httpd
  imports IoAsync Sockets
begin

text \<open>
  The start of the server (\<^verbatim>\<open>httpd.c\<close>): the choice of the file back end by its name, the listening
  sockets, and the loop of \<open>main\<close>.  The event loop, the back end and the virtual hosts are
  what the functions of the other theories return for them.
\<close>

section \<open>The back ends\<close>

text \<open>With \<open>HAVE_AIO_SENDFILE\<close> the table has two more names.\<close>

definition io_names :: "bool \<Rightarrow> (bytes \<times> http_fio) list" where
  "io_names have_aio = [(str ''sync'', fio_sync), (str ''sendfile'', fio_sendfile), (str ''aio'', fio_async), (str ''async'', fio_async)] @
     (if have_aio then [(str ''aio-sendfile'', fio_async_sendfile), (str ''async-sendfile'', fio_async_sendfile)] else [])"

definition io_model :: "bool \<Rightarrow> bytes option \<Rightarrow> http_fio" where
  "io_model have_aio name = (case name of None \<Rightarrow> fio_sync
     | Some name \<Rightarrow> (case map_of (io_names have_aio) name of Some fio \<Rightarrow> fio | None \<Rightarrow> fio_sync))"

section \<open>Listening sockets\<close>

text \<open>A listener, known by the memory of its socket object, and the list of all of them.\<close>

record listeners =
  ls_ports :: "(nat \<times> nat) list"     \<comment> \<open>port and object, oldest first\<close>

definition http_listen ::
  "eventloop \<Rightarrow> bool \<Rightarrow> listen_env \<Rightarrow> nat \<Rightarrow> nat \<Rightarrow> iothread \<times> listeners \<Rightarrow> (bool \<times> (iothread \<times> listeners)) res" where
  "http_listen pl mem_ok env a port ts =
    (if \<not> mem_ok then Inr (False, ts)
     else rbind (listener_inet pl env (fst ts) a) (\<lambda>(ok, fd, used, t).
       if \<not> ok then Inr (False, (t, snd ts))
       else Inr (True, (t, (snd ts)\<lparr>ls_ports := ls_ports (snd ts) @ [(port, a)]\<rparr>))))"

section \<open>The main program\<close>

text \<open>The loop of \<open>main\<close>; each element of the list holds what the kernel answers to one \<open>nbio_pump\<close>.\<close>

fun main_loop :: "nat \<Rightarrow> eventloop \<Rightarrow> nbio_ops \<Rightarrow> iothread \<Rightarrow> wait_answer list list \<Rightarrow> iothread res" where
  "main_loop k pl ops t [] = Inl Blocked"
| "main_loop k pl ops t (mto # mtos) =
    rbind (nbio_pump k pl ops t mto) (\<lambda>t. if t_queue t Active \<noteq> [] then main_loop k pl ops t mtos else Inr t)"

record httpd_env =
  he_init :: "eventloop option \<times> iothread"   \<comment> \<open>the result of \<open>nbio_init\<close>\<close>
  he_proto :: bool
  he_vhosts :: "bytes \<Rightarrow> bool"                \<comment> \<open>whether \<open>vhosts_new\<close> succeeds on a directory\<close>
  he_mem :: "nat \<Rightarrow> bool"
  he_listen :: "nat \<Rightarrow> listen_env"
  he_obj :: "nat \<Rightarrow> nat"                      \<comment> \<open>by port: the allocations and calls of a listener\<close>

text \<open>The directory and the back end of a run; the exit status is 1 for \<open>EXIT_FAILURE\<close>.\<close>

definition httpd_args :: "bool \<Rightarrow> bytes list \<Rightarrow> bytes \<times> http_fio" where
  "httpd_args have_aio argv = (if 1 < length argv then argv ! 1 else str ''./vhosts'',
     io_model have_aio (if 2 < length argv then Some (argv ! 2) else None))"

definition httpd_main :: "nat \<Rightarrow> bool \<Rightarrow> httpd_env \<Rightarrow> nbio_ops \<Rightarrow> bytes list \<Rightarrow> wait_answer list list \<Rightarrow> (nat \<times> listeners) res" where
  "httpd_main k have_aio env ops argv mtos =
    (case he_init env of (None, t) \<Rightarrow> Inr (1, \<lparr>ls_ports = []\<rparr>)
     | (Some pl, t) \<Rightarrow>
       if \<not> he_proto env then Inr (1, \<lparr>ls_ports = []\<rparr>)
       else if \<not> he_vhosts env (fst (httpd_args have_aio argv)) then Inr (1, \<lparr>ls_ports = []\<rparr>)
       else rbind (http_listen pl (he_mem env 80) (he_listen env 80) (he_obj env 80) 80 (t, \<lparr>ls_ports = []\<rparr>)) (\<lambda>(ok, ts).
         rbind (http_listen pl (he_mem env 1234) (he_listen env 1234) (he_obj env 1234) 1234 ts) (\<lambda>(ok, (t, ls)).
           rbind (main_loop k pl ops t mtos) (\<lambda>t.
             rbind (nbio_fini k pl ops t) (\<lambda>t. Inr (0, ls))))))"

section \<open>Lemmas\<close>

lemma io_model_default: "io_model have_aio None = fio_sync"
  "name \<notin> fst ` set (io_names have_aio) \<Longrightarrow> io_model have_aio (Some name) = fio_sync"
proof -
  show "io_model have_aio None = fio_sync" by (simp add: io_model_def)
  assume "name \<notin> fst ` set (io_names have_aio)"
  then have "map_of (io_names have_aio) name = None" by (simp add: map_of_eq_None_iff)
  then show "io_model have_aio (Some name) = fio_sync" by (simp add: io_model_def)
qed

lemma io_model_names:
  "io_model a (Some (str ''sync'')) = fio_sync" "io_model a (Some (str ''sendfile'')) = fio_sendfile"
  "io_model a (Some (str ''async'')) = fio_async" "io_model True (Some (str ''aio-sendfile'')) = fio_async_sendfile"
  by (simp_all add: io_model_def io_names_def)

text \<open>A failing \<open>http_listen\<close> leaves the thread and the list of listeners as they were.\<close>

lemma http_listen_failure: "http_listen pl mem_ok env a port ts = Inr (False, ts') \<Longrightarrow> ts' = ts"
  by (cases ts) (auto simp: http_listen_def rbind_Inr_iff dest: listener_inet_failure split: if_splits)

text \<open>
  The program does not look at the results: without the right to listen on a port it starts all
  the same, and when nothing listens at all it goes on as if it served.
\<close>

lemma httpd_ignores_listen:
  assumes "he_init env = (Some pl, t)" "he_proto env" "he_vhosts env (fst (httpd_args a argv))"
    "\<not> le_bind (he_listen env 80)" "\<not> le_bind (he_listen env 1234)" "main_loop k pl ops t mtos = Inr t'" "nbio_fini k pl ops t' = Inr t''"
  shows "httpd_main k a env ops argv mtos = Inr (0, \<lparr>ls_ports = []\<rparr>)"
  using assms by (simp add: httpd_main_def http_listen_def listener_inet_def)

end
