(* ===== verification/Links.thy ===== *)
theory Links
  imports Nbio
begin

text \<open>
  The circular lists of \<^verbatim>\<open>list.h\<close> with their two pointers, and their reading as lists: the other
  theories keep the list of the linked addresses, here the operations on the pointers are shown
  to do to it what those theories say.  A node is its address.
\<close>

section \<open>The operations\<close>

record links =
  nxt :: "nat \<Rightarrow> nat"
  prv :: "nat \<Rightarrow> nat"

definition set_next :: "nat \<Rightarrow> nat \<Rightarrow> links \<Rightarrow> links" where
  "set_next p x s = s\<lparr>nxt := (nxt s)(p := x)\<rparr>"

definition set_prev :: "nat \<Rightarrow> nat \<Rightarrow> links \<Rightarrow> links" where
  "set_prev p x s = s\<lparr>prv := (prv s)(p := x)\<rparr>"

definition INIT_LIST_HEAD :: "nat \<Rightarrow> links \<Rightarrow> links" where
  "INIT_LIST_HEAD p s = set_prev p p (set_next p p s)"

definition list_add_between :: "nat \<Rightarrow> nat \<Rightarrow> nat \<Rightarrow> links \<Rightarrow> links" where
  "list_add_between new prev nex s = set_next prev new (set_prev new prev (set_next new nex (set_prev nex new s)))"

definition list_add :: "nat \<Rightarrow> nat \<Rightarrow> links \<Rightarrow> links" where
  "list_add new head s = list_add_between new head (nxt s head) s"

definition list_add_tail :: "nat \<Rightarrow> nat \<Rightarrow> links \<Rightarrow> links" where
  "list_add_tail new head s = list_add_between new (prv s head) head s"

definition list_del_internal :: "nat \<Rightarrow> nat \<Rightarrow> links \<Rightarrow> links" where
  "list_del_internal prev nex s = set_next prev nex (set_prev nex prev s)"

definition list_del :: "nat \<Rightarrow> links \<Rightarrow> links" where
  "list_del entry s = INIT_LIST_HEAD entry (list_del_internal (prv s entry) (nxt s entry) s)"

definition list_move :: "nat \<Rightarrow> nat \<Rightarrow> links \<Rightarrow> links" where
  "list_move l head s = list_add l head (list_del_internal (prv s l) (nxt s l) s)"

definition link_move_tail :: "nat \<Rightarrow> nat \<Rightarrow> links \<Rightarrow> links" where
  "link_move_tail l head s = list_add_tail l head (list_del_internal (prv s l) (nxt s l) s)"

definition list_empty :: "nat \<Rightarrow> links \<Rightarrow> bool" where
  "list_empty head s \<longleftrightarrow> nxt s head = head"

definition list_splice :: "nat \<Rightarrow> nat \<Rightarrow> links \<Rightarrow> links" where
  "list_splice l head s =
    (if list_empty l s then s
     else let first = nxt s l; last = prv s l; at = nxt s head in
       INIT_LIST_HEAD l (set_prev at last (set_next last at (set_next head first (set_prev first head s)))))"

text \<open>\<open>list_for_each\<close>: the nodes visited from \<open>pos\<close> on; nothing else ends the walk.\<close>

fun list_for_each :: "nat \<Rightarrow> links \<Rightarrow> nat \<Rightarrow> nat \<Rightarrow> nat list res" where
  "list_for_each 0 s head pos = Inl Out_of_fuel"
| "list_for_each (Suc k) s head pos =
    (if pos = head then Inr [] else rbind (list_for_each k s head (nxt s pos)) (\<lambda>xs. Inr (pos # xs)))"

section \<open>Chains of nodes\<close>

fun chained :: "links \<Rightarrow> nat list \<Rightarrow> bool" where
  "chained s (x # y # zs) \<longleftrightarrow> nxt s x = y \<and> prv s y = x \<and> chained s (y # zs)"
| "chained s _ \<longleftrightarrow> True"

lemma chained_append: "chained s (us @ x # vs) \<longleftrightarrow> chained s (us @ [x]) \<and> chained s (x # vs)"
proof (induction us)
  case (Cons u us)
  then show ?case by (cases us) simp_all
qed (cases vs; simp)

lemma chained_pair: "chained s (us @ a # b # vs) \<longleftrightarrow> chained s (us @ [a]) \<and> nxt s a = b \<and> prv s b = a \<and> chained s (b # vs)"
  using chained_append[of s us a "b # vs"] by simp

lemma chained_cong:
  assumes "\<And>x. x \<in> set (butlast zs) \<Longrightarrow> nxt s' x = nxt s x" "\<And>x. x \<in> set (tl zs) \<Longrightarrow> prv s' x = prv s x"
  shows "chained s' zs = chained s zs"
  using assms
proof (induction s zs rule: chained.induct)
  case (1 s x y zs)
  have "chained s' (y # zs) = chained s (y # zs)" by (rule 1(1)) (use 1(2,3) in \<open>auto split: if_splits\<close>)
  then show ?case using 1(2)[of x] 1(3)[of y] by simp
qed simp_all

lemma chained_frame:
  assumes "chained s zs" "\<And>x. x \<in> set (butlast zs) \<Longrightarrow> nxt s' x = nxt s x" "\<And>x. x \<in> set (tl zs) \<Longrightarrow> prv s' x = prv s x"
  shows "chained s' zs"
  using assms(1) chained_cong[OF assms(2,3)] by blast

text \<open>A circular list with its head.\<close>

definition ring :: "links \<Rightarrow> nat \<Rightarrow> nat list \<Rightarrow> bool" where
  "ring s h xs \<longleftrightarrow> distinct (h # xs) \<and> chained s (h # xs @ [h])"

lemma ring_cong:
  "(\<And>x. x \<in> insert h (set xs) \<Longrightarrow> nxt s' x = nxt s x \<and> prv s' x = prv s x) \<Longrightarrow> ring s' h xs = ring s h xs"
  unfolding ring_def using chained_cong[of "h # xs @ [h]" s' s] by (auto simp: butlast_append)

text \<open>The two nodes around a gap of a ring.\<close>

lemma ring_gap:
  obtains us vs where "h # xs = us @ [last (h # xs)]" "ys @ [h] = hd (ys @ [h]) # vs"
  by (metis append_butlast_last_id append_is_Nil_conv hd_Cons_tl list.distinct(1))

lemma ring_split:
  "ring s h (xs @ ys) \<longleftrightarrow> distinct (h # xs @ ys) \<and> chained s (h # xs) \<and>
    nxt s (last (h # xs)) = hd (ys @ [h]) \<and> prv s (hd (ys @ [h])) = last (h # xs) \<and> chained s (ys @ [h])"
proof -
  obtain us vs where g: "h # xs = us @ [last (h # xs)]" "ys @ [h] = hd (ys @ [h]) # vs" by (rule ring_gap)
  have "h # (xs @ ys) @ [h] = us @ last (h # xs) # hd (ys @ [h]) # vs" using g by (metis append.assoc append_Cons append_Nil)
  then have "chained s (h # (xs @ ys) @ [h]) \<longleftrightarrow> chained s (us @ [last (h # xs)]) \<and> nxt s (last (h # xs)) = hd (ys @ [h]) \<and>
      prv s (hd (ys @ [h])) = last (h # xs) \<and> chained s (hd (ys @ [h]) # vs)"
    by (simp only: chained_pair)
  then show ?thesis unfolding ring_def g(1)[symmetric] g(2)[symmetric] by blast
qed

lemma ring_ends:
  assumes "ring s h xs"
  shows "nxt s h = hd (xs @ [h])" "prv s h = last (h # xs)"
  using assms ring_split[of s h "[]" xs] ring_split[of s h xs "[]"] by simp_all

lemma link_fields [simp]:
  "nxt (set_next p x s) = (nxt s)(p := x)" "prv (set_next p x s) = prv s"
  "prv (set_prev p x s) = (prv s)(p := x)" "nxt (set_prev p x s) = nxt s"
  by (simp_all add: set_next_def set_prev_def)

section \<open>Adding and removing\<close>

lemma ring_insert:
  assumes r: "ring s h (xs @ ys)" and new: "new \<notin> insert h (set (xs @ ys))"
  shows "ring (list_add_between new (last (h # xs)) (hd (ys @ [h])) s) h (xs @ new # ys)"
proof -
  let ?a = "last (h # xs)" and ?b = "hd (ys @ [h])"
  let ?s = "list_add_between new ?a ?b s"
  have d: "distinct (h # xs @ ys)" and j: "chained s (h # xs)" "chained s (ys @ [h])" using r[unfolded ring_split] by simp_all
  have n: "new \<noteq> ?a" "new \<noteq> ?b" using new last_in_set[of "h # xs"] hd_in_set[of "ys @ [h]"] by auto
  have f: "nxt ?s = (nxt s)(new := ?b, ?a := new)" "prv ?s = (prv s)(?b := new, new := ?a)"
    using n by (auto simp: list_add_between_def fun_eq_iff)
  have bl: "x \<in> set (butlast (h # xs)) \<Longrightarrow> x \<noteq> ?a \<and> x \<noteq> new" for x
    using d new by (cases xs rule: rev_cases) (auto dest: in_set_butlastD)
  have tl1: "x \<in> set xs \<Longrightarrow> x \<noteq> ?b \<and> x \<noteq> new" for x
    using d new hd_in_set[of "ys @ [h]"] by (cases ys) auto
  have j1: "chained ?s (h # xs)"
    by (rule chained_frame[OF j(1)]) (use bl tl1 f in simp_all)
  have bl2: "x \<in> set ys \<Longrightarrow> x \<noteq> ?a \<and> x \<noteq> new" for x
    using d new last_in_set[of "h # xs"] by (cases xs rule: rev_cases) auto
  have tl2: "x \<in> set (tl (ys @ [h])) \<Longrightarrow> x \<noteq> ?b \<and> x \<noteq> new" for x
    using d new by (cases ys) auto
  have j2: "chained ?s (ys @ [h])"
    by (rule chained_frame[OF j(2)]) (use bl2 tl2 f in simp_all)
  obtain us vs where g: "h # xs = us @ [?a]" "ys @ [h] = ?b # vs" by (rule ring_gap)
  have "chained ?s (us @ [?a])" "chained ?s (?b # vs)" using j1 j2 g by argo+
  moreover have "nxt ?s ?a = new" "prv ?s new = ?a" "nxt ?s new = ?b" "prv ?s ?b = new" using n f by simp_all
  ultimately have "chained ?s (us @ ?a # new # ?b # vs)" by (simp only: chained_pair[of ?s us ?a new "?b # vs"] chained.simps)
  then have "chained ?s (h # (xs @ new # ys) @ [h])" using g by (metis append.assoc append_Cons append_Nil)
  then show ?thesis using d new by (auto simp: ring_def)
qed

lemma ring_remove:
  assumes r: "ring s h (xs @ x # ys)"
  shows "ring (list_del_internal (prv s x) (nxt s x) s) h (xs @ ys)" "prv s x = last (h # xs)" "nxt s x = hd (ys @ [h])"
proof -
  let ?a = "last (h # xs)" and ?b = "hd (ys @ [h])"
  have r1: "ring s h ((xs @ [x]) @ ys)" using r by simp
  show p: "prv s x = ?a" using r ring_split[of s h xs "x # ys"] by simp
  show n: "nxt s x = ?b" using r1[unfolded ring_split] by simp
  have d: "distinct (h # xs @ x # ys)" using r by (simp add: ring_def)
  have j: "chained s (h # xs)" "chained s (ys @ [h])"
    using r[unfolded ring_split[of s h xs "x # ys"]] r1[unfolded ring_split] by blast+
  let ?s = "list_del_internal ?a ?b s"
  have f: "nxt ?s = (nxt s)(?a := ?b)" "prv ?s = (prv s)(?b := ?a)" by (simp_all add: list_del_internal_def)
  have bl: "z \<in> set (butlast (h # xs)) \<Longrightarrow> z \<noteq> ?a" for z using d by (cases xs rule: rev_cases) (auto dest: in_set_butlastD)
  have tl1: "z \<in> set xs \<Longrightarrow> z \<noteq> ?b" for z using d by (cases ys) auto
  have bl2: "z \<in> set ys \<Longrightarrow> z \<noteq> ?a" for z using d by (cases xs rule: rev_cases) auto
  have tl2: "z \<in> set (tl (ys @ [h])) \<Longrightarrow> z \<noteq> ?b" for z using d by (cases ys) auto
  have "chained ?s (h # xs)" by (rule chained_frame[OF j(1)]) (use bl tl1 f in simp_all)
  moreover have "chained ?s (ys @ [h])" by (rule chained_frame[OF j(2)]) (use bl2 tl2 f in simp_all)
  ultimately show "ring (list_del_internal (prv s x) (nxt s x) s) h (xs @ ys)"
    unfolding p n ring_split using d f by simp
qed

lemma ring_splice:
  assumes l: "ring s l us" "us \<noteq> []" and h: "ring s h ys" and dis: "insert l (set us) \<inter> insert h (set ys) = {}"
  shows "ring (list_splice l h s) h (us @ ys)" "ring (list_splice l h s) l []"
proof -
  let ?f = "hd us" and ?z = "last us" and ?at = "hd (ys @ [h])"
  have d: "distinct (l # us)" "distinct (h # ys)" using l h by (simp_all add: ring_def)
  have e: "nxt s l = ?f" "prv s l = ?z" "nxt s h = ?at" using ring_ends[OF l(1)] ring_ends[OF h] l(2) by simp_all
  have m: "?f \<in> set us" "?z \<in> set us" "?at \<in> insert h (set ys)" using l(2) by (auto simp: hd_append)
  let ?s = "list_splice l h s"
  have ne: "\<not> list_empty l s" using e(1) m(1) d(1) by (auto simp: list_empty_def)
  have f: "nxt ?s = (nxt s)(h := ?f, ?z := ?at, l := l)" "prv ?s = (prv s)(?f := h, ?at := ?z, l := l)"
    using ne e by (simp_all add: list_splice_def INIT_LIST_HEAD_def Let_def)
  have n: "l \<noteq> h" "?f \<noteq> l" "?z \<noteq> l" "?f \<noteq> h" "?z \<noteq> h" "?at \<noteq> l" "?f \<noteq> ?at" "?z \<noteq> ?at" using m d dis by auto
  show "ring ?s l []" using f by (simp add: ring_def)
  obtain u us' where us: "us = u # us'" using l(2) by (cases us) auto
  have "chained s us" using l(1)[unfolded ring_def] us chained_append[of s "l # butlast us" "last us" "[l]"]
    by (metis append_butlast_last_id append_Cons chained.simps(1) l(2) append.assoc append_Nil ring_split l(1) append_Nil2)
  moreover have "x \<noteq> h \<and> x \<noteq> ?z \<and> x \<noteq> l" if "x \<in> set (butlast us)" for x
    using that d dis l(2) by (cases us rule: rev_cases) auto
  moreover have "x \<noteq> ?f \<and> x \<noteq> ?at \<and> x \<noteq> l" if "x \<in> set (tl us)" for x
    using that d dis m(3) us by auto
  ultimately have "chained ?s us" by (intro chained_frame[of s us ?s]) (simp_all add: f)
  then have "chained ?s (h # us)" using n f us by simp
  moreover have "chained ?s (ys @ [h])"
  proof (rule chained_frame[of s])
    show "chained s (ys @ [h])" using h ring_split[of s h "[]" ys] by simp
    show "nxt ?s x = nxt s x" if "x \<in> set (butlast (ys @ [h]))" for x using that d dis m f by auto
    show "prv ?s x = prv s x" if "x \<in> set (tl (ys @ [h]))" for x
      using that d dis m f by (cases ys) auto
  qed
  moreover have "nxt ?s (last (h # us)) = ?at" "prv ?s ?at = last (h # us)" using n f l(2) by simp_all
  ultimately show "ring ?s h (us @ ys)" unfolding ring_split using d dis by auto
qed

section \<open>Several lists\<close>

text \<open>
  The lists \<open>Q\<close> by some index, with the addresses of their heads: every one is a ring, and no
  node is on two of them.
\<close>

definition nodes :: "('q \<Rightarrow> nat) \<Rightarrow> ('q \<Rightarrow> nat list) \<Rightarrow> 'q \<Rightarrow> nat set" where
  "nodes adr Q q = insert (adr q) (set (Q q))"

definition rings :: "links \<Rightarrow> ('q \<Rightarrow> nat) \<Rightarrow> ('q \<Rightarrow> nat list) \<Rightarrow> bool" where
  "rings s adr Q \<longleftrightarrow> (\<forall>q. ring s (adr q) (Q q)) \<and> (\<forall>q q'. q \<noteq> q' \<longrightarrow> nodes adr Q q \<inter> nodes adr Q q' = {})"

definition off :: "nat \<Rightarrow> ('q \<Rightarrow> nat list) \<Rightarrow> 'q \<Rightarrow> nat list" where
  "off x Q = (\<lambda>q. removeAll x (Q q))"

text \<open>A node that may be moved: it is on a list, or it was initialised and is on none.\<close>

definition movable :: "links \<Rightarrow> ('q \<Rightarrow> nat) \<Rightarrow> ('q \<Rightarrow> nat list) \<Rightarrow> nat \<Rightarrow> bool" where
  "movable s adr Q x \<longleftrightarrow> x \<notin> range adr \<and> ((\<exists>q. x \<in> set (Q q)) \<or> nxt s x = x \<and> prv s x = x)"

lemma rings_upd:
  assumes r: "rings s adr Q" and q: "ring s' (adr q) xs"
    and f: "\<And>x. x \<notin> N \<Longrightarrow> nxt s' x = nxt s x \<and> prv s' x = prv s x"
    and N: "\<And>q'. q' \<noteq> q \<Longrightarrow> N \<inter> nodes adr Q q' = {}" and xs: "set xs \<subseteq> N \<union> nodes adr Q q"
  shows "rings s' adr (Q(q := xs))"
proof -
  have dis: "nodes adr Q q \<inter> nodes adr Q q' = {}" if "q \<noteq> q'" for q q' using r that by (simp add: rings_def)
  have other: "ring s' (adr q') (Q q')" if "q' \<noteq> q" for q'
  proof -
    have "ring s' (adr q') (Q q') = ring s (adr q') (Q q')"
      by (rule ring_cong) (use f N[OF that] in \<open>auto simp: nodes_def\<close>)
    then show ?thesis using r by (simp add: rings_def)
  qed
  have n: "nodes adr (Q(q := xs)) q' = nodes adr Q q'" if "q' \<noteq> q" for q' using that by (simp add: nodes_def)
  have nq: "nodes adr (Q(q := xs)) q \<subseteq> N \<union> nodes adr Q q" using xs by (auto simp: nodes_def)
  have "nodes adr (Q(q := xs)) q1 \<inter> nodes adr (Q(q := xs)) q2 = {}" if "q1 \<noteq> q2" for q1 q2
  proof (cases "q1 = q")
    case True
    then show ?thesis using nq N[of q2] dis[of q q2] n[of q2] that by blast
  next
    case False
    then show ?thesis using nq N[of q1] dis[of q1 q2] n[of q1] n[of q2] that by (cases "q2 = q") auto
  qed
  then show ?thesis using other q by (auto simp: rings_def)
qed

lemma rings_insert:
  assumes r: "rings s adr Q" and q: "Q q = xs @ ys" and new: "\<And>q. new \<notin> nodes adr Q q"
  shows "rings (list_add_between new (last (adr q # xs)) (hd (ys @ [adr q])) s) adr (Q(q := xs @ new # ys))"
proof (rule rings_upd[OF r, where N = "{new, last (adr q # xs), hd (ys @ [adr q])}"])
  have "ring s (adr q) (xs @ ys)" using r q by (metis rings_def)
  then show "ring (list_add_between new (last (adr q # xs)) (hd (ys @ [adr q])) s) (adr q) (xs @ new # ys)"
    by (rule ring_insert) (use new[of q] q in \<open>simp add: nodes_def\<close>)
  have ab: "last (adr q # xs) \<in> nodes adr Q q" "hd (ys @ [adr q]) \<in> nodes adr Q q"
    using q last_in_set[of "adr q # xs"] hd_in_set[of "ys @ [adr q]"] by (auto simp: nodes_def)
  show "{new, last (adr q # xs), hd (ys @ [adr q])} \<inter> nodes adr Q q' = {}" if "q' \<noteq> q" for q'
    using r that ab new[of q'] unfolding rings_def by blast
qed (use q in \<open>auto simp: list_add_between_def nodes_def\<close>)

lemma off_upd:
  assumes r: "rings s adr Q" and q: "Q q = xs @ x # ys"
  shows "off x Q = Q(q := xs @ ys)"
proof
  fix q'
  have "ring s (adr q) (xs @ x # ys)" using r q by (metis rings_def)
  then have d: "distinct (xs @ x # ys)" by (simp add: ring_def)
  show "off x Q q' = (Q(q := xs @ ys)) q'"
  proof (cases "q' = q")
    case True
    then show ?thesis using d q by (simp add: off_def)
  next
    case False
    then have "nodes adr Q q' \<inter> nodes adr Q q = {}" using r by (simp add: rings_def)
    then have "x \<notin> set (Q q')" using q by (auto simp: nodes_def)
    then show ?thesis using False by (simp add: off_def)
  qed
qed

lemma rings_remove:
  assumes r: "rings s adr Q" and x: "movable s adr Q x"
  shows "rings (list_del_internal (prv s x) (nxt s x) s) adr (off x Q)"
proof (cases "\<exists>q. x \<in> set (Q q)")
  case True
  then obtain q xs ys where q: "Q q = xs @ x # ys" by (metis split_list)
  have rg: "ring s (adr q) (xs @ x # ys)" using r q by (metis rings_def)
  note rm = ring_remove[OF rg]
  have ab: "prv s x \<in> nodes adr Q q" "nxt s x \<in> nodes adr Q q"
    unfolding rm(2,3) using q last_in_set[of "adr q # xs"] hd_in_set[of "ys @ [adr q]"] by (auto simp: nodes_def)
  show ?thesis unfolding off_upd[OF r q]
  proof (rule rings_upd[OF r rm(1), where N = "{prv s x, nxt s x}"])
    show "{prv s x, nxt s x} \<inter> nodes adr Q q' = {}" if "q' \<noteq> q" for q' using r that ab unfolding rings_def by blast
  qed (use q in \<open>auto simp: list_del_internal_def nodes_def\<close>)
next
  case False
  then have "nxt s x = x" "prv s x = x" using x by (auto simp: movable_def)
  then have "list_del_internal (prv s x) (nxt s x) s = s" by (simp add: list_del_internal_def set_next_def set_prev_def fun_upd_idem)
  moreover have "off x Q = Q" using False by (simp add: off_def fun_eq_iff)
  ultimately show ?thesis using r by simp
qed

lemma off_fresh: "x \<notin> range adr \<Longrightarrow> x \<notin> nodes adr (off x Q) q"
  by (auto simp: nodes_def off_def)

lemma rings_add:
  assumes r: "rings s adr Q" and new: "\<And>q. new \<notin> nodes adr Q q"
  shows "rings (list_add new (adr q) s) adr (Q(q := new # Q q))" "rings (list_add_tail new (adr q) s) adr (Q(q := Q q @ [new]))"
proof -
  have "ring s (adr q) (Q q)" using r by (simp add: rings_def)
  note e = ring_ends[OF this]
  show "rings (list_add new (adr q) s) adr (Q(q := new # Q q))"
    using rings_insert[OF r _ new, of q "[]" "Q q"] e by (simp add: list_add_def)
  show "rings (list_add_tail new (adr q) s) adr (Q(q := Q q @ [new]))"
    using rings_insert[OF r _ new, of q "Q q" "[]"] e by (simp add: list_add_tail_def)
qed

lemma rings_move:
  assumes r: "rings s adr Q" and x: "movable s adr Q x"
  shows "rings (list_move x (adr q) s) adr ((off x Q)(q := x # off x Q q))"
    "rings (link_move_tail x (adr q) s) adr ((off x Q)(q := off x Q q @ [x]))"
proof -
  have "\<And>q. x \<notin> nodes adr (off x Q) q" using x off_fresh[of x adr Q] by (auto simp: movable_def)
  note add = rings_add[OF rings_remove[OF r x] this]
  show "rings (list_move x (adr q) s) adr ((off x Q)(q := x # off x Q q))" using add(1) by (simp add: list_move_def)
  show "rings (link_move_tail x (adr q) s) adr ((off x Q)(q := off x Q q @ [x]))" using add(2) by (simp add: link_move_tail_def)
qed

lemma rings_del:
  assumes r: "rings s adr Q" and x: "movable s adr Q x"
  shows "rings (list_del x s) adr (off x Q) \<and> movable (list_del x s) adr (off x Q) x"
proof -
  let ?s = "list_del_internal (prv s x) (nxt s x) s"
  have f: "\<And>q. x \<notin> nodes adr (off x Q) q" using x off_fresh[of x adr Q] by (auto simp: movable_def)
  have r': "rings ?s adr (off x Q)" by (rule rings_remove[OF r x])
  have "ring (list_del x s) (adr q) (off x Q q) = ring ?s (adr q) (off x Q q)" for q
    by (rule ring_cong) (use f[of q] in \<open>auto simp: list_del_def INIT_LIST_HEAD_def nodes_def\<close>)
  then have "rings (list_del x s) adr (off x Q)" using r' by (simp add: rings_def)
  then show ?thesis using x by (simp add: movable_def list_del_def INIT_LIST_HEAD_def)
qed

lemma rings_empty: "rings s adr Q \<Longrightarrow> list_empty (adr q) s \<longleftrightarrow> Q q = []"
proof -
  assume "rings s adr Q"
  then have r: "ring s (adr q) (Q q)" by (simp add: rings_def)
  then have "adr q \<notin> set (Q q)" by (simp add: ring_def)
  then show ?thesis using ring_ends(1)[OF r] hd_in_set[of "Q q"] by (cases "Q q") (auto simp: list_empty_def)
qed

lemma rings_splice:
  assumes r: "rings s adr Q" and ne: "l \<noteq> q"
  shows "rings (list_splice (adr l) (adr q) s) adr (Q(l := [], q := Q l @ Q q))"
proof (cases "Q l = []")
  case True
  then have "list_splice (adr l) (adr q) s = s" using rings_empty[OF r, of l] by (simp add: list_splice_def)
  moreover have "Q(l := [], q := Q l @ Q q) = Q" using True by (auto simp: fun_eq_iff)
  ultimately show ?thesis using r by simp
next
  case False
  let ?s = "list_splice (adr l) (adr q) s" and ?Q = "Q(l := [], q := Q l @ Q q)"
  have rg: "ring s (adr l) (Q l)" "ring s (adr q) (Q q)" and dis: "\<And>q q'. q \<noteq> q' \<Longrightarrow> nodes adr Q q \<inter> nodes adr Q q' = {}"
    using r by (simp_all add: rings_def)
  have "insert (adr l) (set (Q l)) \<inter> insert (adr q) (set (Q q)) = {}" using dis[OF ne] by (simp add: nodes_def)
  note sp = ring_splice[OF rg(1) False rg(2) this]
  have e: "nxt s (adr l) \<in> nodes adr Q l" "prv s (adr l) \<in> nodes adr Q l" "nxt s (adr q) \<in> nodes adr Q q"
    using ring_ends[OF rg(1)] ring_ends(1)[OF rg(2)] False hd_in_set[of "Q l"] last_in_set[of "Q l"] hd_in_set[of "Q q @ [adr q]"]
    by (auto simp: nodes_def)
  have other: "ring ?s (adr p) (Q p)" if "p \<noteq> l" "p \<noteq> q" for p
  proof -
    have "ring ?s (adr p) (Q p) = ring s (adr p) (Q p)"
    proof (rule ring_cong)
      fix x assume "x \<in> insert (adr p) (set (Q p))"
      then have "x \<notin> nodes adr Q l \<union> nodes adr Q q" using dis[OF that(1)] dis[OF that(2)] by (auto simp: nodes_def)
      then show "nxt ?s x = nxt s x \<and> prv ?s x = prv s x"
        using e by (auto simp: list_splice_def INIT_LIST_HEAD_def Let_def nodes_def)
    qed
    then show ?thesis using r by (simp add: rings_def)
  qed
  have "ring ?s (adr p) (?Q p)" for p using sp other ne by (cases "p = q"; cases "p = l") auto
  moreover have "nodes adr ?Q p \<inter> nodes adr ?Q p' = {}" if "p \<noteq> p'" for p p'
    using rg(1)[unfolded ring_def] dis[OF that] dis[of l p] dis[of l p'] dis[of q p] dis[of q p'] that ne
    by (auto simp: nodes_def split: if_splits)
  ultimately show ?thesis by (simp add: rings_def)
qed

lemma for_each_joined:
  "chained s (xs @ [h]) \<Longrightarrow> h \<notin> set xs \<Longrightarrow> length xs < k \<Longrightarrow> list_for_each k s h (hd (xs @ [h])) = Inr xs"
proof (induction xs arbitrary: k)
  case Nil
  then show ?case by (cases k) simp_all
next
  case (Cons x xs)
  obtain j where k: "k = Suc j" using Cons.prems(3) by (cases k) auto
  have "chained s (xs @ [h])" "nxt s x = hd (xs @ [h])" using Cons.prems(1) by (cases xs; simp)+
  then show ?case using Cons k by simp
qed

lemma rings_for_each:
  assumes "rings s adr Q" "length (Q q) < k"
  shows "list_for_each k s (adr q) (nxt s (adr q)) = Inr (Q q)"
proof -
  have r: "ring s (adr q) (Q q)" using assms(1) by (simp add: rings_def)
  then have "chained s (Q q @ [adr q])" "adr q \<notin> set (Q q)" using ring_split[of s "adr q" "[]" "Q q"] by (simp_all add: ring_def)
  then show ?thesis using for_each_joined[of s "Q q" "adr q" k] ring_ends(1)[OF r] assms(2) by simp
qed

section \<open>Properties\<close>

text \<open>The queues of the event loop: its operation on lists is what the pointers do.\<close>

lemma queues_move_tail:
  assumes "rings s adr (t_queue t)" "movable s adr (t_queue t) n"
  shows "rings (link_move_tail n (adr q) s) adr (t_queue (list_move_tail n q t))"
proof -
  have "(off n (t_queue t))(q := off n (t_queue t) q @ [n]) = t_queue (list_move_tail n q t)"
    by (simp add: off_def list_move_tail_def unlink_def Let_def)
  then show ?thesis using rings_move(2)[OF assms, of q] by simp
qed


definition sample_links :: links where
  "sample_links = \<lparr>nxt = (\<lambda>_. 0)(1 := 10, 10 := 1, 2 := 2), prv = (\<lambda>_. 0)(1 := 10, 10 := 1, 2 := 2)\<rparr>"


end
