(* ===== verification/Spec2Isabelle.thy ===== *)
theory Spec2Isabelle
  imports HttpMsg UriProps HttpBuf Critbit MkrootProps Vhosts NbioProps HttpProps Site IoAsync FsckProps Strpool Inotify Httpd Links
begin

text \<open>
  A verification of ashttpd, a small web server for static content in C.  Two programs share
  the sources.  \<^verbatim>\<open>mkroot\<close> scans a directory once and writes a \<^emph>\<open>web root\<close>: one file with an index
  of all URIs, followed by the contents.  The server maps the index of such a file, parses
  requests, looks the normalised URI up in the index and sends the bytes it points to.

  \<^bold>\<open>Conventions.\<close>  A C function that may stop the program or leave its memory is a function to
  \<^typ>\<open>'a res\<close> of theory \<^verbatim>\<open>Prelude\<close>: \<open>Inl\<close> for a failed assertion, an access outside an array,
  a null pointer, an exhausted kernel script or exhausted fuel, \<open>Inr\<close> for a return.  Widths are
  kept where the code depends on them (\<open>u8\<close> to \<open>u64\<close> as words), sizes that cannot wrap are
  \<open>nat\<close>.  Pointers are addresses in a byte memory (\<^verbatim>\<open>Mem\<close>, \<^verbatim>\<open>Heap\<close>) where aliasing matters and
  offsets otherwise.  The kernel is a list of answers to the calls in their order (\<^verbatim>\<open>Os\<close>);
  \<open>Blocked\<close> means that the list is used up, and \<open>generous\<close> lists transfer something at every call.

  \<^bold>\<open>Theories and sources.\<close>

  \<^item> \<^verbatim>\<open>Prelude\<close>, \<^verbatim>\<open>Search\<close>, \<^verbatim>\<open>Vec\<close>: outcomes, C strings and characters; the binary searches of
    the sources as an interface with its laws; \<^verbatim>\<open>vec.c\<close>.
  \<^item> \<^verbatim>\<open>HttpParse\<close>, \<^verbatim>\<open>HttpMsg\<close>: \<^verbatim>\<open>http_parse.c\<close>, \<^verbatim>\<open>http_req.c\<close>, \<^verbatim>\<open>http_resp.c\<close>.  The incremental
    scanner finds the first empty line whatever the sizes of the pieces; the decoder stays in
    the buffer and inverts a printer; the tables of headers dispatch to the right field.
  \<^item> \<^verbatim>\<open>Mem\<close>, \<^verbatim>\<open>Normalize\<close>, \<^verbatim>\<open>UriSpec\<close>, \<^verbatim>\<open>PathSpec\<close>, \<^verbatim>\<open>UriProps\<close>: \<^verbatim>\<open>normalize.c\<close>.  The in-place code
    on memory refines a specification on strings; normalised paths are absolute and free of
    dot components.
  \<^item> \<^verbatim>\<open>Heap\<close>, \<^verbatim>\<open>Hgang\<close>: \<^verbatim>\<open>hgang.c\<close>, the slab allocator.  Objects in use are disjoint and inside
    live slabs.
  \<^item> \<^verbatim>\<open>HttpBuf\<close>: \<^verbatim>\<open>http_buf.c\<close>.  A connection buffer is a FIFO of bytes.
  \<^item> \<^verbatim>\<open>Critbit\<close>: \<^verbatim>\<open>critbit.c\<close>.  The tree of host names refines a finite map.
  \<^item> \<^verbatim>\<open>Os\<close>, \<^verbatim>\<open>Fobuf\<close>: \<^verbatim>\<open>os.c\<close>, \<^verbatim>\<open>fobuf.c\<close>.  Reads and writes through short transfers, and the output
    buffer as an interface of a sink of bytes.
  \<^item> \<^verbatim>\<open>Trie\<close>, \<^verbatim>\<open>TrieDisk\<close>, \<^verbatim>\<open>Webroot\<close>: \<^verbatim>\<open>trie.c\<close>, \<^verbatim>\<open>webroot.c\<close>, \<^verbatim>\<open>webroot-format.h\<close>: the radix trie of
    the URIs, its layout on disk and the search of the server, which finds exactly the entries.
  \<^item> \<^verbatim>\<open>Sha1\<close>: \<^verbatim>\<open>sha1.c\<close>, equal to the standard's definition on every sequence of pieces.
  \<^item> \<^verbatim>\<open>Mkroot\<close>, \<^verbatim>\<open>Scan\<close>, \<^verbatim>\<open>ScanProps\<close>, \<^verbatim>\<open>WebrootImage\<close>, \<^verbatim>\<open>MkrootProps\<close>: \<^verbatim>\<open>mkroot.c\<close>.  The scan keeps
    the collected objects consistent; the program succeeds when the system lets it; and the
    server finds in the written file what the scan found in the directory.
  \<^item> \<^verbatim>\<open>Vhosts\<close>: \<^verbatim>\<open>vhosts.c\<close>.  The virtual hosts refine a table from host names to web roots, with
    the references each web root holds.
  \<^item> \<^verbatim>\<open>Nbio\<close>, \<^verbatim>\<open>NbioProps\<close>: \<^verbatim>\<open>nbio.c\<close>, \<^verbatim>\<open>nbio-epoll.c\<close>, \<^verbatim>\<open>nbio-poll.c\<close>, \<^verbatim>\<open>nbio-eventfd.c\<close>.  The event loop
    over an interface of its back ends: what is on the queues, watched and freed in every
    reachable state.
  \<^item> \<^verbatim>\<open>Links\<close>: \<^verbatim>\<open>list.h\<close>.  The pointers of the circular lists implement the lists that the other
    theories keep, in particular the queues of the event loop.
  \<^item> \<^verbatim>\<open>HttpConn\<close>, \<^verbatim>\<open>HttpServe\<close>, \<^verbatim>\<open>HttpHead\<close>, \<^verbatim>\<open>HttpConnProps\<close>, \<^verbatim>\<open>HttpProps\<close>: \<^verbatim>\<open>http_conn.c\<close>, \<^verbatim>\<open>io_sync.c\<close>,
    \<^verbatim>\<open>io_sendfile.c\<close>.  A connection with the globals and system calls it uses, over the interface
    of the file back ends; an invariant of every reachable connection, and what a client
    receives: the head, then the bytes of the object.
  \<^item> \<^verbatim>\<open>IoAsync\<close>: \<^verbatim>\<open>io_async.c\<close>, \<^verbatim>\<open>io_async_sendfile.c\<close>, the back ends on asynchronous input, with the states
    in which they stop the server.
  \<^item> \<^verbatim>\<open>Inotify\<close>: \<^verbatim>\<open>nbio-inotify.c\<close>.  The events of a directory watch are taken in order, and the table
    of virtual hosts follows the directory.
  \<^item> \<^verbatim>\<open>Sockets\<close>, \<^verbatim>\<open>Httpd\<close>: \<^verbatim>\<open>nbio-listener.c\<close>, \<^verbatim>\<open>nbio-connecter.c\<close>, \<^verbatim>\<open>httpd.c\<close>: accepting and making
    connections, the choice of the file back end, and the loop of the program.
  \<^item> \<^verbatim>\<open>Site\<close>: the parts together, from the directory \<^verbatim>\<open>mkroot\<close> scans to the bytes a client reads.
  \<^item> \<^verbatim>\<open>Fsck\<close>, \<^verbatim>\<open>FsckProps\<close>: \<^verbatim>\<open>fsck.c\<close>, the checker of web roots: its listing is complete, and its
    histogram can be overrun.
  \<^item> \<^verbatim>\<open>Strpool\<close>: \<^verbatim>\<open>strpool.c\<close>, the pool of strings: objects are disjoint and everything is given back.

  \<^bold>\<open>Fuel.\<close>  \<open>trie_query\<close> follows edges of a file that may be cyclic; \<open>256 * (length s + 2)\<close> steps
  are enough on a file the builder wrote, because siblings are less than 256 and every level
  consumes a byte.  The traversals of the checker need one step per edge; the size of the file
  is enough.  \<open>scan_item\<close> descends directories; fuel \<open>n + 1\<close> is enough for depth \<open>n\<close>.  Events of a
  connection recurse only through the reply they start, so the fuel of \<^verbatim>\<open>HttpServe\<close> is a constant.

  \<^bold>\<open>Not modelled.\<close>  \<^verbatim>\<open>httprape.c\<close>, a load generator apart from the server, and \<^verbatim>\<open>rbtree.c\<close>, which no
  program links, nor the hash lists of \<^verbatim>\<open>list.h\<close>, which nothing uses.  Of the modelled files: messages printed for diagnosis, the percentages of the
  checker, and socket options that do not change what is sent (\<open>MSG_MORE\<close>, \<open>TCP_CORK\<close>).
\<close>

end
